(* ===== verification/Prelude.thy ===== *)
theory Prelude
  imports Main "HOL-Library.Word"
begin

text \<open>
  Shared vocabulary of the development: the machine integers of the kernel, the
  8-byte cell memory the boot-time structures live in, first-match search in a list,
  and the arithmetic of page alignment on 64-bit words. The collection
  \<open>wordnat\<close> holds the equations that move an unsigned comparison or sum from
  words to natural numbers.
\<close>

unbundle bit_operations_syntax

type_synonym u8 = "8 word"
type_synonym u16 = "16 word"
type_synonym u32 = "32 word"
type_synonym u64 = "64 word"
type_synonym addr = "64 word"

text \<open>Memory read and written in aligned 8-byte cells, keyed by the cell's virtual address.\<close>

type_synonym cells = "addr \<Rightarrow> u64"

named_theorems wordnat

declare word_le_nat_alt [wordnat] word_less_nat_alt [wordnat]

subsection \<open>Unsigned arithmetic without wrap-around\<close>

lemma u64_bound: "unat (x :: u64) < 18446744073709551616"
  using unsigned_less [of x] by simp

lemma u32_bound: "unat (x :: u32) < 4294967296"
  using unsigned_less [of x] by simp

lemma unat_add_nowrap:
  "unat (a :: u64) + unat b < 18446744073709551616 \<Longrightarrow> unat (a + b) = unat a + unat b"
  by (simp add: unat_word_ariths)

lemma unat_sub_nowrap: "b \<le> (a :: u64) \<Longrightarrow> unat (a - b) = unat a - unat b"
  by (rule unat_sub)

lemma unat_add_small:
  assumes "unat (a :: u64) + n < 18446744073709551616"
  shows "unat (a + word_of_nat n) = unat a + n"
proof -
  have "n < 2 ^ 64" using assms by simp
  then have "unat (word_of_nat n :: u64) = n" by (simp add: unat_of_nat take_bit_eq_mod)
  then show ?thesis using assms by (simp add: unat_word_ariths)
qed

text \<open>A counter that is below a bound does not wrap when it steps.\<close>

lemma unat_Suc_less: "(j :: u64) < i \<Longrightarrow> unat (j + 1) = Suc (unat j)"
  using u64_bound [of i] by (simp add: wordnat unat_add_nowrap)

lemma unat_count_up: "(j :: u64) < i \<Longrightarrow> unat i - unat (j + 1) < unat i - unat j"
  by (simp add: unat_Suc_less wordnat)

subsection \<open>Clearing the low twelve bits\<close>

text \<open>
  The kernel masks page offsets off with the two's complement of the frame size; as a
  number this subtracts the remainder modulo 4096.
\<close>

lemma and_page_mask: "(a :: u64) AND - 4096 = push_bit 12 (drop_bit 12 a)"
proof -
  have eq: "(- 4096 :: u64) = NOT (mask 12)"
    by (simp add: minus_exp_eq_not_mask [symmetric])
  show ?thesis unfolding eq
    by (rule bit_word_eqI) (auto simp add: bit_and_iff bit_not_iff bit_mask_iff bit_push_bit_iff bit_drop_bit_eq)
qed

lemma unat_and_page_mask:
  "unat ((a :: u64) AND - 4096) = unat a - unat a mod 4096"
proof -
  have "push_bit 12 (drop_bit 12 a) + take_bit 12 a = a"
    by (rule bits_ident)
  then have "push_bit 12 (drop_bit 12 a) = a - take_bit 12 a"
    by (simp add: eq_diff_eq)
  moreover have "unat (take_bit 12 a) = unat a mod 4096"
    by (simp add: unsigned_take_bit_eq) (simp add: take_bit_eq_mod)
  moreover have "take_bit 12 a \<le> a"
    by (simp add: word_le_nat_alt unsigned_take_bit_eq take_bit_nat_less_eq_self)
  ultimately show ?thesis
    by (simp add: and_page_mask unat_sub)
qed

lemma unat_and_page_offset: "unat ((a :: u64) AND 4095) = unat a mod 4096"
proof -
  have "(4095 :: u64) = mask 12" by (simp add: mask_eq_exp_minus_1)
  then have "a AND 4095 = take_bit 12 a" by (simp add: take_bit_eq_mask)
  then show ?thesis by (simp add: unsigned_take_bit_eq) (simp add: take_bit_eq_mod)
qed

subsection \<open>First match in a list\<close>

text \<open>
  A \<open>for\<close> loop over a container that leaves at the first element meeting its
  condition, with the position of that element.
\<close>

fun find_index :: "('a \<Rightarrow> bool) \<Rightarrow> 'a list \<Rightarrow> nat option" where
  "find_index P [] = None"
| "find_index P (x # xs) = (if P x then Some 0 else map_option Suc (find_index P xs))"

lemma find_index_SomeD:
  "find_index P xs = Some i \<Longrightarrow> i < length xs \<and> P (xs ! i) \<and> (\<forall>j<i. \<not> P (xs ! j))"
proof (induction xs arbitrary: i)
  case Nil
  then show ?case by simp
next
  case (Cons x xs)
  then show ?case
    by (auto split: if_splits simp: less_Suc_eq_0_disj)
qed

lemma find_index_None: "find_index P xs = None \<longleftrightarrow> (\<forall>x\<in>set xs. \<not> P x)"
  by (induction xs) auto

end
