(* ===== verification/Blocks.thy ===== *)
theory Blocks
  imports Prelude
begin

text \<open>
  What the kernel heap (\<^verbatim>\<open>memory/heap.cpp\<close>) and the user heap
  (\<^verbatim>\<open>memory/user_allocator.cpp\<close>) have in common: a doubly linked list of blocks in memory,
  each a header followed by its data. Both heaps' headers are viewed as one record; \<open>segment\<close>
  is the linked list, \<open>blocks_ok\<close> the invariant that its blocks do not overlap. The lemmas say
  what splitting a block, merging two neighbours and appending a block do to a list.
\<close>

record block =
  bsize :: nat
  bfree :: bool
  bnext :: addr
  bprev :: addr

type_synonym blocks = "addr \<Rightarrow> block"

subsection \<open>Linked segments\<close>

text \<open>From \<open>c\<close>, whose predecessor is \<open>p\<close>, through the listed blocks; \<open>q\<close> is the last of
  them (or \<open>p\<close>) and \<open>e\<close> what it points to.\<close>

fun segment :: "blocks \<Rightarrow> addr \<Rightarrow> addr \<Rightarrow> addr list \<Rightarrow> addr \<Rightarrow> addr \<Rightarrow> bool" where
  "segment v p c [] q e \<longleftrightarrow> c = e \<and> p = q"
| "segment v p c (b # bs) q e \<longleftrightarrow>
     c = b \<and> b \<noteq> 0 \<and> bprev (v b) = p \<and> segment v b (bnext (v b)) bs q e"

lemma segment_append:
  "segment v p c (xs @ ys) q e \<longleftrightarrow> (\<exists>r d. segment v p c xs r d \<and> segment v r d ys q e)"
  by (induction xs arbitrary: p c) auto

lemma segment_update [simp]:
  "b \<notin> set bs \<Longrightarrow> segment (v(b := x)) p c bs q e = segment v p c bs q e"
  by (induction bs arbitrary: p c) auto

lemma segment_hd: "segment v p c bs q e \<Longrightarrow> bs \<noteq> [] \<Longrightarrow> c = hd bs \<and> c \<noteq> 0"
  by (cases bs) auto

lemma segment_last: "segment v p c bs q e \<Longrightarrow> bs \<noteq> [] \<Longrightarrow> q = last bs \<and> bnext (v q) = e"
proof (induction bs arbitrary: p c)
  case (Cons b bs)
  then show ?case by (cases bs) auto
qed simp

lemma segment_nonzero: "segment v p c bs q e \<Longrightarrow> 0 \<notin> set bs"
  by (induction bs arbitrary: p c) auto

lemma segment_start_cong:
  "segment v p c bs q e \<Longrightarrow> \<forall>b \<in> set bs. bnext (w b) = bnext (v b) \<and> bprev (w b) = bprev (v b)
    \<Longrightarrow> segment w p c bs q e"
  by (induction bs arbitrary: p c) auto

text \<open>The first block of a segment gets another predecessor.\<close>

lemma segment_new_prev:
  assumes "segment v p c bs q 0" "distinct bs"
  shows "\<exists>q'. segment (if c = 0 then v else v(c := (v c)\<lparr>bprev := p'\<rparr>)) p' c bs q' 0"
proof (cases bs)
  case Nil
  then show ?thesis using assms by simp
next
  case (Cons b cs)
  then have "c = b" "b \<noteq> 0" "segment v b (bnext (v b)) cs q 0" "b \<notin> set cs"
    using assms by auto
  then show ?thesis using Cons by auto
qed

definition linked :: "blocks \<Rightarrow> addr \<Rightarrow> addr list \<Rightarrow> bool" where
  "linked v f bs \<longleftrightarrow> (\<exists>q. segment v 0 f bs q 0) \<and> distinct bs"

lemma linked_nonzero: "linked v f bs \<Longrightarrow> 0 \<notin> set bs"
  by (auto simp: linked_def dest: segment_nonzero)

lemma linked_Nil [simp]: "linked v f [] \<longleftrightarrow> f = 0"
  by (auto simp: linked_def)

lemma linked_first: "linked v f bs \<Longrightarrow> f = (if bs = [] then 0 else hd bs)"
  by (cases bs) (auto simp: linked_def)

lemma linked_split:
  assumes "linked v f (xs @ b # ys)"
  obtains q where "segment v 0 f xs (bprev (v b)) b" "segment v b (bnext (v b)) ys q 0"
    "b \<noteq> 0" "b \<notin> set xs" "b \<notin> set ys" "distinct xs" "distinct ys" "set xs \<inter> set ys = {}"
  using assms by (auto simp: linked_def segment_append)

text \<open>Neighbours in the list.\<close>

lemma linked_next: "linked v f (xs @ b # ys) \<Longrightarrow> bnext (v b) = (if ys = [] then 0 else hd ys)"
  by (erule linked_split) (cases ys; auto)

lemma linked_prev: "linked v f (xs @ b # ys) \<Longrightarrow> bprev (v b) = (if xs = [] then 0 else last xs)"
proof (erule linked_split)
  assume "segment v 0 f xs (bprev (v b)) b"
  then show ?thesis using segment_last [of v 0 f xs "bprev (v b)" b] by (cases "xs = []") auto
qed

lemma linked_update:
  assumes "linked v f bs" and "\<And>b. b \<in> set bs \<Longrightarrow> bnext (w b) = bnext (v b) \<and> bprev (w b) = bprev (v b)"
  shows "linked w f bs"
  using assms segment_start_cong [of v 0 f bs _ 0 w] unfolding linked_def by blast

subsection \<open>Splitting, merging and appending\<close>

text \<open>A new block \<open>n\<close> goes in after \<open>b\<close>.\<close>

definition insert_after :: "addr \<Rightarrow> addr \<Rightarrow> nat \<Rightarrow> nat \<Rightarrow> blocks \<Rightarrow> blocks" where
  "insert_after b n sz r v =
     (let d = bnext (v b);
          v = v(n := \<lparr>bsize = r, bfree = True, bnext = d, bprev = b\<rparr>);
          v = (if d = 0 then v else v(d := (v d)\<lparr>bprev := n\<rparr>))
      in v(b := (v b)\<lparr>bsize := sz, bnext := n\<rparr>))"

lemma linked_insert_after:
  assumes l: "linked v f (xs @ b # ys)" and n: "n \<noteq> 0" "n \<notin> set (xs @ b # ys)"
  shows "linked (insert_after b n sz r v) f (xs @ b # n # ys)"
proof -
  obtain q where s: "segment v 0 f xs (bprev (v b)) b" "segment v b (bnext (v b)) ys q 0"
    "b \<noteq> 0" "b \<notin> set xs" "b \<notin> set ys" "distinct xs" "distinct ys" "set xs \<inter> set ys = {}"
    by (rule linked_split [OF l])
  let ?d = "bnext (v b)" and ?w = "insert_after b n sz r v"
  let ?u = "if ?d = 0 then v else v(?d := (v ?d)\<lparr>bprev := n\<rparr>)"
  have d: "?d \<noteq> b \<and> ?d \<noteq> n \<and> ?d \<notin> set xs" if "?d \<noteq> 0"
    using that s n linked_next [OF l] by (cases ys) auto
  obtain q' where u: "segment ?u n ?d ys q' 0" using segment_new_prev [OF s(2,7)] by blast
  have w: "?w = ?u(n := \<lparr>bsize = r, bfree = True, bnext = ?d, bprev = b\<rparr>,
      b := (v b)\<lparr>bsize := sz, bnext := n\<rparr>)"
    using d n by (auto simp: insert_after_def Let_def)
  have "segment ?w 0 f xs (bprev (v b)) b"
    using s(1,4) n d unfolding w by (cases "?d = 0") simp_all
  moreover have "segment ?w n ?d ys q' 0" using u s(5) n unfolding w by simp
  ultimately have "segment ?w 0 f (xs @ b # n # ys) q' 0"
    unfolding segment_append using s(3) n by (intro exI [of _ "bprev (v b)"] exI [of _ b]) (simp add: w)
  then show ?thesis using s n by (auto simp: linked_def)
qed

text \<open>The block after \<open>b\<close> is taken out of the list and added to \<open>b\<close>.\<close>

definition merge_after :: "nat \<Rightarrow> addr \<Rightarrow> blocks \<Rightarrow> blocks" where
  "merge_after H b v =
     (let n = bnext (v b);
          d = bnext (v n);
          v = v(b := (v b)\<lparr>bsize := bsize (v b) + H + bsize (v n), bnext := d\<rparr>)
      in if d = 0 then v else v(d := (v d)\<lparr>bprev := b\<rparr>))"

lemma linked_merge_after:
  assumes l: "linked v f (xs @ b # n # ys)"
  shows "linked (merge_after H b v) f (xs @ b # ys)"
proof -
  have l2: "linked v f ((xs @ [b]) @ n # ys)" using l by simp
  obtain q where s: "segment v 0 f xs (bprev (v b)) b" "b \<noteq> 0" "b \<notin> set xs" "b \<notin> set (n # ys)"
    "distinct xs" "distinct (n # ys)" "set xs \<inter> set (n # ys) = {}"
    by (rule linked_split [OF l]) blast
  obtain q where t: "segment v n (bnext (v n)) ys q 0" by (rule linked_split [OF l2])
  have n: "bnext (v b) = n" using linked_next [OF l] by simp
  let ?d = "bnext (v n)" and ?w = "merge_after H b v"
  let ?u = "if ?d = 0 then v else v(?d := (v ?d)\<lparr>bprev := b\<rparr>)"
  have d: "?d \<noteq> b \<and> ?d \<notin> set xs" if "?d \<noteq> 0"
    using that s linked_next [OF l2] by (cases ys) auto
  obtain q' where u: "segment ?u b ?d ys q' 0" using segment_new_prev [OF t] s(6) by force
  have w: "?w = ?u(b := (v b)\<lparr>bsize := bsize (v b) + H + bsize (v n), bnext := ?d\<rparr>)"
    using d n by (auto simp: merge_after_def Let_def)
  have "segment ?w 0 f xs (bprev (v b)) b"
    using s(1,3) d unfolding w by (cases "?d = 0") simp_all
  moreover have "segment ?w b ?d ys q' 0" using u s(4) unfolding w by simp
  ultimately have "segment ?w 0 f (xs @ b # ys) q' 0"
    unfolding segment_append using s(2) by (intro exI [of _ "bprev (v b)"] exI [of _ b]) (simp add: w)
  then show ?thesis using s by (auto simp: linked_def)
qed

text \<open>A new block becomes the last one.\<close>

definition link_last :: "addr \<Rightarrow> addr \<Rightarrow> nat \<Rightarrow> blocks \<Rightarrow> blocks" where
  "link_last c n r v =
     v(n := \<lparr>bsize = r, bfree = True, bnext = 0, bprev = c\<rparr>, c := (v c)\<lparr>bnext := n\<rparr>)"

lemma linked_link_last:
  assumes l: "linked v f (xs @ [c])" and n: "n \<noteq> 0" "n \<notin> set (xs @ [c])"
  shows "linked (link_last c n r v) f (xs @ [c, n])"
proof -
  obtain q where s: "segment v 0 f xs (bprev (v c)) c" "c \<noteq> 0" "c \<notin> set xs" "distinct xs"
    by (rule linked_split [OF l])
  have "segment (link_last c n r v) 0 f (xs @ [c, n]) n 0"
    unfolding segment_append using s n
    by (intro exI [of _ "bprev (v c)"] exI [of _ c]) (auto simp: link_last_def)
  then show ?thesis using s n by (auto simp: linked_def)
qed

subsection \<open>Blocks that do not overlap\<close>

text \<open>\<open>H\<close> is the size of the header, which precedes the data.\<close>

definition foot :: "nat \<Rightarrow> blocks \<Rightarrow> addr \<Rightarrow> nat set" where
  "foot H v b = {unat b ..< unat b + H + bsize (v b)}"

definition space :: "nat \<Rightarrow> blocks \<Rightarrow> addr list \<Rightarrow> nat set" where
  "space H v bs = (\<Union>b \<in> set bs. foot H v b)"

definition blocks_ok :: "nat \<Rightarrow> blocks \<Rightarrow> addr \<Rightarrow> addr list \<Rightarrow> bool" where
  "blocks_ok H v f bs \<longleftrightarrow> linked v f bs
     \<and> (\<forall>b \<in> set bs. unat b + H + bsize (v b) < 18446744073709551616)
     \<and> (\<forall>b \<in> set bs. \<forall>c \<in> set bs. b \<noteq> c \<longrightarrow> foot H v b \<inter> foot H v c = {})"

text \<open>The blocks in use, with their sizes.\<close>

definition live :: "blocks \<Rightarrow> addr list \<Rightarrow> (addr \<times> nat) set" where
  "live v bs = {(b, bsize (v b)) | b. b \<in> set bs \<and> \<not> bfree (v b)}"

lemma blocks_okD:
  assumes "blocks_ok H v f bs"
  shows "linked v f bs" "distinct bs" "0 \<notin> set bs"
    "b \<in> set bs \<Longrightarrow> unat b + H + bsize (v b) < 18446744073709551616"
    "b \<in> set bs \<Longrightarrow> c \<in> set bs \<Longrightarrow> b \<noteq> c \<Longrightarrow> foot H v b \<inter> foot H v c = {}"
  using assms linked_nonzero unfolding blocks_ok_def by (auto simp: linked_def)

text \<open>An address inside a block is not the address of a block.\<close>

lemma inside_not_block:
  assumes ok: "blocks_ok H v f bs" and b: "b \<in> set bs" and H: "0 < H"
    and n: "unat b < unat n" "unat n < unat b + H + bsize (v b)"
  shows "n \<notin> set bs"
proof
  assume "n \<in> set bs"
  moreover have "n \<noteq> b" using n by auto
  ultimately have "foot H v b \<inter> foot H v n = {}" using blocks_okD(5) [OF ok b] by metis
  moreover have "unat n \<in> foot H v b \<inter> foot H v n" using n H by (simp add: foot_def)
  ultimately show False by simp
qed

lemma blocks_ok_update:
  assumes "blocks_ok H v f bs"
    and "\<And>b. b \<in> set bs \<Longrightarrow> bnext (w b) = bnext (v b) \<and> bprev (w b) = bprev (v b) \<and> bsize (w b) = bsize (v b)"
  shows "blocks_ok H w f bs" "space H w bs = space H v bs"
  using assms linked_update [of v f bs w] by (auto simp: blocks_ok_def foot_def space_def)

lemma insert_after_facts:
  assumes l: "linked v f (xs @ b # ys)" and n: "n \<notin> set (xs @ b # ys)" "n \<noteq> 0"
  shows "bsize (insert_after b n sz r v b) = sz" "bfree (insert_after b n sz r v b) = bfree (v b)"
    "bsize (insert_after b n sz r v n) = r" "bfree (insert_after b n sz r v n)"
    "bnext (insert_after b n sz r v b) = n"
    "c \<noteq> b \<Longrightarrow> c \<noteq> n \<Longrightarrow> bsize (insert_after b n sz r v c) = bsize (v c)
      \<and> bfree (insert_after b n sz r v c) = bfree (v c)"
proof -
  have "bnext (v b) \<noteq> b" "bnext (v b) \<noteq> n"
    using linked_next [OF l] l n linked_nonzero [OF l] by (cases ys; auto simp: linked_def)+
  then show "bsize (insert_after b n sz r v b) = sz" "bfree (insert_after b n sz r v b) = bfree (v b)"
    "bsize (insert_after b n sz r v n) = r" "bfree (insert_after b n sz r v n)"
    "bnext (insert_after b n sz r v b) = n"
    "c \<noteq> b \<Longrightarrow> c \<noteq> n \<Longrightarrow> bsize (insert_after b n sz r v c) = bsize (v c)
      \<and> bfree (insert_after b n sz r v c) = bfree (v c)"
    using n by (auto simp: insert_after_def Let_def)
qed

lemma blocks_ok_insert_after:
  assumes ok: "blocks_ok H v f (xs @ b # ys)" and H: "0 < H"
    and r: "bsize (v b) = sz + H + r" and n: "unat n = unat b + H + sz"
  defines "w \<equiv> insert_after b n sz r v"
  shows "n \<noteq> 0" "n \<notin> set (xs @ b # ys)"
    "blocks_ok H w f (xs @ b # n # ys)" "space H w (xs @ b # n # ys) = space H v (xs @ b # ys)"
proof -
  let ?bs = "xs @ b # ys"
  note l = blocks_okD(1) [OF ok]
  show n0: "n \<noteq> 0" using n H by (auto simp: word_unat_eq_iff)
  show nb: "n \<notin> set ?bs" by (rule inside_not_block [OF ok _ H, of b]) (use n r H in auto)
  note f = insert_after_facts [OF l nb n0, where sz = sz and r = r, folded w_def]
  have fb: "foot H w b = {unat b ..< unat b + H + sz}" and fn: "foot H w n = {unat n ..< unat n + H + r}"
    using f by (simp_all add: foot_def)
  have fc: "foot H w c = foot H v c" if "c \<in> set ?bs" "c \<noteq> b" for c
  proof -
    have "c \<noteq> n" using that nb by auto
    then show ?thesis using f(6) [of c] that by (simp add: foot_def)
  qed
  have u: "foot H w b \<union> foot H w n = foot H v b" "foot H w b \<inter> foot H w n = {}"
    using fb fn n r by (auto simp: foot_def)
  show "space H w (xs @ b # n # ys) = space H v ?bs"
  proof -
    have d: "b \<notin> set xs" "b \<notin> set ys" using blocks_okD(2) [OF ok] by auto
    have "space H w (xs @ b # n # ys) = (foot H w b \<union> foot H w n) \<union> (\<Union>c \<in> set xs \<union> set ys. foot H w c)"
      by (auto simp: space_def)
    also have "(\<Union>c \<in> set xs \<union> set ys. foot H w c) = (\<Union>c \<in> set xs \<union> set ys. foot H v c)"
      using fc d by (intro SUP_cong) auto
    finally show ?thesis unfolding u by (auto simp: space_def)
  qed
  have "linked w f (xs @ b # n # ys)" unfolding w_def by (rule linked_insert_after [OF l n0 nb])
  moreover have "unat c + H + bsize (w c) < 18446744073709551616" if c: "c \<in> set (xs @ b # n # ys)" for c
  proof -
    have bb: "unat b + H + bsize (v b) < 18446744073709551616" using blocks_okD(4) [OF ok, of b] by simp
    consider "c = b" | "c = n" | "c \<in> set ?bs" "c \<noteq> b" "c \<noteq> n" using c by auto
    then show ?thesis
      using f bb n r blocks_okD(4) [OF ok, of c] by cases simp_all
  qed
  moreover have "foot H w c \<inter> foot H w d = {}"
    if cd: "c \<in> set (xs @ b # n # ys)" "d \<in> set (xs @ b # n # ys)" "c \<noteq> d" for c d
  proof -
    have sub: "\<exists>e \<in> set ?bs. foot H w c \<subseteq> foot H v e \<and> (c \<noteq> b \<and> c \<noteq> n \<longrightarrow> e = c) \<and> (c = b \<or> c = n \<longrightarrow> e = b)"
      if "c \<in> set (xs @ b # n # ys)" for c
      using that u(1) fc [of c] by (cases "c = b \<or> c = n") auto
    obtain e where e: "e \<in> set ?bs" "foot H w c \<subseteq> foot H v e" "c \<noteq> b \<and> c \<noteq> n \<longrightarrow> e = c" "c = b \<or> c = n \<longrightarrow> e = b"
      using sub [OF cd(1)] by blast
    obtain g where g: "g \<in> set ?bs" "foot H w d \<subseteq> foot H v g" "d \<noteq> b \<and> d \<noteq> n \<longrightarrow> g = d" "d = b \<or> d = n \<longrightarrow> g = b"
      using sub [OF cd(2)] by blast
    show ?thesis
    proof (cases "e = g")
      case True
      then have "{c, d} = {b, n}" using e g cd(3) nb by auto
      then show ?thesis using u(2) by (auto simp: doubleton_eq_iff)
    next
      case False
      then show ?thesis using blocks_okD(5) [OF ok e(1) g(1)] e(2) g(2) by blast
    qed
  qed
  ultimately show "blocks_ok H w f (xs @ b # n # ys)" unfolding blocks_ok_def by blast
qed

lemma merge_after_facts:
  assumes l: "linked v f (xs @ b # n # ys)"
  shows "bsize (merge_after H b v b) = bsize (v b) + H + bsize (v n)"
    "bfree (merge_after H b v b) = bfree (v b)"
    "bnext (merge_after H b v b) = bnext (v n)" "bprev (merge_after H b v b) = bprev (v b)"
    "c \<noteq> b \<Longrightarrow> bsize (merge_after H b v c) = bsize (v c) \<and> bfree (merge_after H b v c) = bfree (v c)"
proof -
  have l2: "linked v f ((xs @ [b]) @ n # ys)" using l by simp
  have n: "bnext (v b) = n" using linked_next [OF l] by simp
  have "bnext (v n) \<noteq> b" using linked_next [OF l2] l linked_nonzero [OF l] by (cases ys) (auto simp: linked_def)
  then show "bsize (merge_after H b v b) = bsize (v b) + H + bsize (v n)"
    "bfree (merge_after H b v b) = bfree (v b)"
    "bnext (merge_after H b v b) = bnext (v n)" "bprev (merge_after H b v b) = bprev (v b)"
    "c \<noteq> b \<Longrightarrow> bsize (merge_after H b v c) = bsize (v c) \<and> bfree (merge_after H b v c) = bfree (v c)"
    using n by (auto simp: merge_after_def Let_def)
qed

lemma blocks_ok_merge_after:
  assumes ok: "blocks_ok H v f (xs @ b # n # ys)" and n: "unat n = unat b + H + bsize (v b)"
  defines "w \<equiv> merge_after H b v"
  shows "blocks_ok H w f (xs @ b # ys)" "space H w (xs @ b # ys) = space H v (xs @ b # n # ys)"
proof -
  let ?bs = "xs @ b # n # ys"
  note l = blocks_okD(1) [OF ok]
  note f = merge_after_facts [OF l, where H = H, folded w_def]
  have d: "b \<notin> set xs" "b \<notin> set ys" "n \<notin> set xs" "n \<notin> set ys" "b \<noteq> n"
    using blocks_okD(2) [OF ok] by auto
  have fb: "foot H w b = foot H v b \<union> foot H v n" using f(1) n by (auto simp: foot_def)
  have fc: "foot H w c = foot H v c" if "c \<noteq> b" for c using f(5) [of c] that by (simp add: foot_def)
  have U: "(\<Union>c \<in> set xs \<union> set ys. foot H w c) = (\<Union>c \<in> set xs \<union> set ys. foot H v c)"
    by (rule SUP_cong) (use fc d in \<open>auto\<close>, metis+)
  show "space H w (xs @ b # ys) = space H v ?bs"
  proof -
    have "space H w (xs @ b # ys) = foot H w b \<union> (\<Union>c \<in> set xs \<union> set ys. foot H w c)"
      by (auto simp: space_def)
    then show ?thesis unfolding U fb by (auto simp: space_def)
  qed
  have "linked w f (xs @ b # ys)" unfolding w_def by (rule linked_merge_after [OF l])
  moreover have "unat c + H + bsize (w c) < 18446744073709551616" if "c \<in> set (xs @ b # ys)" for c
    using that f(1) n f(5) [of c] blocks_okD(4) [OF ok, of c] blocks_okD(4) [OF ok, of n]
    by (cases "c = b") auto
  moreover have "foot H w c \<inter> foot H w e = {}"
    if ce: "c \<in> set (xs @ b # ys)" "e \<in> set (xs @ b # ys)" "c \<noteq> e" for c e
  proof -
    have D: "foot H v x \<inter> foot H v y = {}" if "x \<in> set ?bs" "y \<in> set ?bs" "x \<noteq> y" for x y
      using blocks_okD(5) [OF ok that] .
    show ?thesis
      using ce d D [of c e] D [of b e] D [of n e] D [of c b] D [of c n] fb fc [of c] fc [of e]
      by (cases "c = b"; cases "e = b") (auto simp: Int_Un_distrib Int_Un_distrib2)
  qed
  ultimately show "blocks_ok H w f (xs @ b # ys)" unfolding blocks_ok_def by blast
qed

lemma blocks_ok_link_last:
  assumes ok: "blocks_ok H v f (xs @ [c])" and n: "n \<noteq> 0" "0 < H"
    and b: "unat n + H + r < 18446744073709551616"
    and d: "{unat n ..< unat n + H + r} \<inter> space H v (xs @ [c]) = {}"
  defines "w \<equiv> link_last c n r v"
  shows "n \<notin> set (xs @ [c])" "blocks_ok H w f (xs @ [c, n])"
    "space H w (xs @ [c, n]) = space H v (xs @ [c]) \<union> {unat n ..< unat n + H + r}"
    "bsize (w n) = r" "bfree (w n)"
    "e \<noteq> n \<Longrightarrow> bsize (w e) = bsize (v e) \<and> bfree (w e) = bfree (v e)"
proof -
  show nn: "n \<notin> set (xs @ [c])"
  proof
    assume "n \<in> set (xs @ [c])"
    then have "unat n \<in> space H v (xs @ [c])" using n(2) by (auto simp: space_def foot_def intro!: bexI [of _ n])
    moreover have "unat n \<in> {unat n ..< unat n + H + r}" using n(2) by simp
    ultimately show False using d by blast
  qed
  then have nc: "n \<noteq> c" by auto
  show f: "bsize (w n) = r" "bfree (w n)"
    "e \<noteq> n \<Longrightarrow> bsize (w e) = bsize (v e) \<and> bfree (w e) = bfree (v e)" for e
    using nc by (auto simp: w_def link_last_def)
  have fc: "foot H w e = foot H v e" if "e \<in> set (xs @ [c])" for e
  proof -
    have "e \<noteq> n" using that nn by metis
    then show ?thesis using f(3) [of e] by (simp add: foot_def)
  qed
  have fn: "foot H w n = {unat n ..< unat n + H + r}" using f(1) by (simp add: foot_def)
  have S: "space H w (xs @ [c]) = space H v (xs @ [c])" using fc by (simp add: space_def)
  then show "space H w (xs @ [c, n]) = space H v (xs @ [c]) \<union> {unat n ..< unat n + H + r}"
    using fn by (auto simp: space_def)
  have l: "linked w f (xs @ [c, n])"
    unfolding w_def by (rule linked_link_last [OF blocks_okD(1) [OF ok] n(1) nn])
  have dis: "foot H w e \<inter> foot H w n = {}" if "e \<in> set (xs @ [c])" for e
    using d that fn fc [OF that] by (auto simp: space_def)
  have "foot H w a \<inter> foot H w e = {}"
    if ce: "a \<in> set (xs @ [c, n])" "e \<in> set (xs @ [c, n])" "a \<noteq> e" for a e
  proof -
    have "a \<in> set (xs @ [c]) \<or> a = n" "e \<in> set (xs @ [c]) \<or> e = n" using ce by auto
    then show ?thesis
      using ce(3) dis [of a] dis [of e] blocks_okD(5) [OF ok, of a e] fc [of a] fc [of e] by auto
  qed
  moreover have "unat e + H + bsize (w e) < 18446744073709551616" if "e \<in> set (xs @ [c, n])" for e
    using that b f(1) f(3) [of e] blocks_okD(4) [OF ok, of e] by (cases "e = n") auto
  ultimately show "blocks_ok H w f (xs @ [c, n])" using l unfolding blocks_ok_def by blast
qed

subsection \<open>Blocks in use\<close>

lemma live_insert_after:
  assumes l: "linked v f (xs @ b # ys)" and n: "n \<notin> set (xs @ b # ys)" "n \<noteq> 0"
  shows "live (insert_after b n sz r v) (xs @ b # n # ys) =
    (if bfree (v b) then live v (xs @ b # ys) else insert (b, sz) (live v (xs @ b # ys) - {(b, bsize (v b))}))"
proof -
  note f = insert_after_facts [OF l n, where sz = sz and r = r]
  have 6: "bsize (insert_after b n sz r v c) = bsize (v c) \<and> bfree (insert_after b n sz r v c) = bfree (v c)"
    if "c \<in> set xs \<union> set ys" for c
  proof -
    have "c \<noteq> b" "c \<noteq> n" using that n l by (auto simp: linked_def)
    then show ?thesis by (rule f(6))
  qed
  have nb: "b \<notin> set xs \<union> set ys" using l by (auto simp: linked_def)
  have "live (insert_after b n sz r v) (xs @ b # n # ys) =
      {(c, bsize (v c)) | c. c \<in> set xs \<union> set ys \<and> \<not> bfree (v c)} \<union> (if bfree (v b) then {} else {(b, sz)})"
    using f(1-4) 6 by (auto simp: live_def)
  moreover have "live v (xs @ b # ys) =
      {(c, bsize (v c)) | c. c \<in> set xs \<union> set ys \<and> \<not> bfree (v c)} \<union> (if bfree (v b) then {} else {(b, bsize (v b))})"
    by (auto simp: live_def)
  ultimately show ?thesis using nb by auto
qed

lemma live_merge_after:
  assumes l: "linked v f (xs @ b # n # ys)" and "bfree (v b)" "bfree (v n)"
  shows "live (merge_after H b v) (xs @ b # ys) = live v (xs @ b # n # ys)"
proof -
  note f = merge_after_facts [OF l, where H = H]
  have 5: "bsize (merge_after H b v c) = bsize (v c) \<and> bfree (merge_after H b v c) = bfree (v c)"
    if "c \<in> set xs \<union> set ys" for c
    by (rule f(5)) (use that l in \<open>auto simp: linked_def\<close>)
  have "live (merge_after H b v) (xs @ b # ys) = {(c, bsize (v c)) | c. c \<in> set xs \<union> set ys \<and> \<not> bfree (v c)}"
    using f(2) 5 assms(2) by (auto simp: live_def)
  moreover have "live v (xs @ b # n # ys) = {(c, bsize (v c)) | c. c \<in> set xs \<union> set ys \<and> \<not> bfree (v c)}"
    using assms(2,3) by (auto simp: live_def)
  ultimately show ?thesis by simp
qed

lemma live_link_last:
  assumes "linked v f (xs @ [c])" and "n \<notin> set (xs @ [c])"
  shows "live (link_last c n r v) (xs @ [c, n]) = live v (xs @ [c])"
proof -
  have "bsize (link_last c n r v e) = bsize (v e) \<and> bfree (link_last c n r v e) = bfree (v e)"
    if "e \<in> set (xs @ [c])" for e
    using that assms(2) by (auto simp: link_last_def)
  moreover have "bfree (link_last c n r v n)" using assms(2) by (auto simp: link_last_def)
  ultimately show ?thesis by (auto simp: live_def)
qed

subsection \<open>Coalescing\<close>

definition adjacent :: "nat \<Rightarrow> blocks \<Rightarrow> addr \<Rightarrow> addr \<Rightarrow> bool" where
  "adjacent H v b n \<longleftrightarrow> unat b + H + bsize (v b) = unat n"

definition merge_next_if :: "nat \<Rightarrow> addr \<Rightarrow> blocks \<Rightarrow> blocks" where
  "merge_next_if H b v =
     (if bnext (v b) \<noteq> 0 \<and> bfree (v (bnext (v b))) \<and> adjacent H v b (bnext (v b))
      then merge_after H b v else v)"

definition merge_prev_if :: "nat \<Rightarrow> addr \<Rightarrow> blocks \<Rightarrow> blocks" where
  "merge_prev_if H b v =
     (if bprev (v b) \<noteq> 0 \<and> bfree (v (bprev (v b))) \<and> adjacent H v (bprev (v b)) b
      then merge_after H (bprev (v b)) v else v)"

definition coalesce :: "nat \<Rightarrow> addr \<Rightarrow> blocks \<Rightarrow> blocks" where
  "coalesce H b v = merge_prev_if H b (merge_next_if H b v)"

lemma merge_next_if_ok:
  assumes ok: "blocks_ok H v f (xs @ b # ys)" and free: "bfree (v b)"
  obtains zs where "blocks_ok H (merge_next_if H b v) f (xs @ b # zs)" "set zs \<subseteq> set ys"
    "space H (merge_next_if H b v) (xs @ b # zs) = space H v (xs @ b # ys)"
    "live (merge_next_if H b v) (xs @ b # zs) = live v (xs @ b # ys)"
    "bfree (merge_next_if H b v b)"
proof (cases "bnext (v b) \<noteq> 0 \<and> bfree (v (bnext (v b))) \<and> adjacent H v b (bnext (v b))")
  case False
  then have "merge_next_if H b v = v" by (auto simp: merge_next_if_def)
  then show ?thesis using that [of ys] ok free by simp
next
  case True
  then obtain n zs where ys: "ys = n # zs" and n: "bnext (v b) = n"
    using linked_next [OF blocks_okD(1) [OF ok]] by (cases ys) auto
  have w: "merge_next_if H b v = merge_after H b v" using True by (simp add: merge_next_if_def)
  have ok': "blocks_ok H v f (xs @ b # n # zs)" using ok ys by simp
  have a: "unat n = unat b + H + bsize (v b)" using True n by (simp add: adjacent_def)
  show ?thesis
    using that [of zs] blocks_ok_merge_after [OF ok' a] live_merge_after [OF blocks_okD(1) [OF ok'] free]
      merge_after_facts(2) [OF blocks_okD(1) [OF ok'], of H] True n free
    unfolding w ys by auto
qed

lemma merge_prev_if_ok:
  assumes ok: "blocks_ok H v f (xs @ b # ys)" and free: "bfree (v b)"
  obtains zs where "blocks_ok H (merge_prev_if H b v) f zs" "set zs \<subseteq> set (xs @ b # ys)"
    "space H (merge_prev_if H b v) zs = space H v (xs @ b # ys)"
    "live (merge_prev_if H b v) zs = live v (xs @ b # ys)" "zs \<noteq> []"
proof (cases "bprev (v b) \<noteq> 0 \<and> bfree (v (bprev (v b))) \<and> adjacent H v (bprev (v b)) b")
  case False
  then have "merge_prev_if H b v = v" by (auto simp: merge_prev_if_def)
  then show ?thesis using that [of "xs @ b # ys"] ok by simp
next
  case True
  then have xs: "xs = butlast xs @ [last xs]" and p: "bprev (v b) = last xs"
    using linked_prev [OF blocks_okD(1) [OF ok]] by (auto split: if_splits)
  have w: "merge_prev_if H b v = merge_after H (last xs) v" using True p by (simp add: merge_prev_if_def)
  have eq: "xs @ b # ys = butlast xs @ last xs # b # ys" by (subst xs) simp
  have ok': "blocks_ok H v f (butlast xs @ last xs # b # ys)" using ok unfolding eq .
  have a: "unat b = unat (last xs) + H + bsize (v (last xs))" using True p by (simp add: adjacent_def)
  have "set (butlast xs @ last xs # ys) \<subseteq> set (xs @ b # ys)" unfolding eq by auto
  then show ?thesis
    using that [of "butlast xs @ last xs # ys"] blocks_ok_merge_after [OF ok' a]
      live_merge_after [OF blocks_okD(1) [OF ok'] _ free] True p
    unfolding w eq by simp
qed

lemma coalesce_ok:
  assumes ok: "blocks_ok H v f bs" and b: "b \<in> set bs" "bfree (v b)"
  obtains cs where "blocks_ok H (coalesce H b v) f cs" "set cs \<subseteq> set bs" "cs \<noteq> []"
    "space H (coalesce H b v) cs = space H v bs" "live (coalesce H b v) cs = live v bs"
proof -
  obtain xs ys where bs: "bs = xs @ b # ys" using b(1) by (auto dest: split_list)
  have ok1: "blocks_ok H v f (xs @ b # ys)" using ok bs by simp
  obtain zs where z: "blocks_ok H (merge_next_if H b v) f (xs @ b # zs)" "set zs \<subseteq> set ys"
    "space H (merge_next_if H b v) (xs @ b # zs) = space H v (xs @ b # ys)"
    "live (merge_next_if H b v) (xs @ b # zs) = live v (xs @ b # ys)" "bfree (merge_next_if H b v b)"
    by (rule merge_next_if_ok [OF ok1 b(2)])
  obtain cs where c: "blocks_ok H (coalesce H b v) f cs" "set cs \<subseteq> set (xs @ b # zs)"
    "space H (coalesce H b v) cs = space H (merge_next_if H b v) (xs @ b # zs)"
    "live (coalesce H b v) cs = live (merge_next_if H b v) (xs @ b # zs)" "cs \<noteq> []"
    unfolding coalesce_def by (rule merge_prev_if_ok [OF z(1,5)])
  show ?thesis using that [of cs] c z bs by auto
qed


end
