(* ===== verification/Config.thy ===== *)
theory Config
  imports Prelude
begin

text \<open>
  The constants of \<^verbatim>\<open>config.hpp\<close>, the size literals and pointer casts of
  \<^verbatim>\<open>libs/stdint.hpp\<close>, and the three page-alignment helpers every allocator uses.
  Pointers, \<^verbatim>\<open>uintptr_t\<close> and \<^verbatim>\<open>size_t\<close> are 64-bit words, so a
  cast between them is the identity.
\<close>

subsection \<open>Literals and constants\<close>

definition KB :: "u64 \<Rightarrow> u64" where
  "KB b = b * 1024"

definition MB :: "u64 \<Rightarrow> u64" where
  "MB kb = kb * KB 1024"

definition GB :: "u64 \<Rightarrow> u64" where
  "GB mb = mb * MB 1024"

definition KVIRTUAL_ADDRESS :: addr where
  "KVIRTUAL_ADDRESS = 0xffffffff80000000"

definition PCI_VIRTUAL_ADDRESS :: addr where
  "PCI_VIRTUAL_ADDRESS = KVIRTUAL_ADDRESS + 0x40000000"

definition VGA_VIRTUAL_ADDRESS :: addr where
  "VGA_VIRTUAL_ADDRESS = KVIRTUAL_ADDRESS + 0xb8000"

definition FRAME_SIZE :: u64 where
  "FRAME_SIZE = KB 4"

lemma FRAME_SIZE_eq [simp]: "FRAME_SIZE = 4096"
  by (simp add: FRAME_SIZE_def KB_def)

lemmas size_literals = KB_def MB_def GB_def

subsection \<open>Page alignment\<close>

definition IS_ALIGNED :: "addr \<Rightarrow> bool" where
  "IS_ALIGNED address \<longleftrightarrow> address AND (FRAME_SIZE - 1) = 0"

definition ALIGN_DOWN :: "addr \<Rightarrow> addr" where
  "ALIGN_DOWN address = address AND - FRAME_SIZE"

definition ALIGN_UP :: "addr \<Rightarrow> addr" where
  "ALIGN_UP address = ALIGN_DOWN (address + FRAME_SIZE - 1)"

definition kvirt_to_physical :: "addr \<Rightarrow> addr" where
  "kvirt_to_physical a = a - KVIRTUAL_ADDRESS"

lemma unat_ALIGN_DOWN: "unat (ALIGN_DOWN a) = unat a - unat a mod 4096"
  by (simp add: ALIGN_DOWN_def unat_and_page_mask)

lemma IS_ALIGNED_iff: "IS_ALIGNED a \<longleftrightarrow> unat a mod 4096 = 0"
proof -
  have "a AND 4095 = 0 \<longleftrightarrow> unat (a AND 4095) = 0" by (simp add: unat_eq_0)
  then show ?thesis by (simp add: IS_ALIGNED_def unat_and_page_offset)
qed

lemma IS_ALIGNED_iff_dvd: "IS_ALIGNED a \<longleftrightarrow> 4096 dvd unat a"
  by (simp add: IS_ALIGNED_iff mod_eq_0_iff_dvd)

lemma IS_ALIGNED_E:
  assumes "IS_ALIGNED a"
  obtains k where "unat a = 4096 * k"
  using assms by (auto simp: IS_ALIGNED_iff_dvd)

lemma ALIGN_DOWN_aligned [simp]: "IS_ALIGNED (ALIGN_DOWN a)"
  by (simp add: IS_ALIGNED_iff unat_ALIGN_DOWN minus_mod_eq_mult_div)

lemma ALIGN_UP_aligned [simp]: "IS_ALIGNED (ALIGN_UP a)"
  by (simp add: ALIGN_UP_def)

text \<open>Below the last page of the address space, rounding up is the numeric ceiling.\<close>

lemma unat_ALIGN_UP:
  assumes "unat a \<le> 18446744073709547520"
  shows "unat (ALIGN_UP a) = (unat a + 4095) div 4096 * 4096"
proof -
  have "a + FRAME_SIZE - 1 = a + 4095" by simp
  moreover have "unat (a + 4095) = unat a + 4095"
    using assms by (subst unat_add_nowrap) auto
  ultimately show ?thesis
    by (simp only: ALIGN_UP_def unat_ALIGN_DOWN minus_mod_eq_div_mult)
qed

text \<open>In the last page the addition wraps and the result is address 0.\<close>

lemma ALIGN_UP_wraps:
  assumes "18446744073709547520 < unat a"
  shows "ALIGN_UP a = 0"
proof -
  have "a + FRAME_SIZE - 1 = a + 4095" by simp
  then have "unat (a + FRAME_SIZE - 1) = (unat a + unat (4095 :: u64)) mod 2 ^ 64"
    by (simp only: unat_word_ariths) simp
  also have "\<dots> = unat a + 4095 - 18446744073709551616"
    using assms u64_bound [of a] by (simp add: mod_if)
  finally have "unat (a + FRAME_SIZE - 1) < 4096"
    using u64_bound [of a] by simp
  then have "unat (ALIGN_UP a) = 0"
    by (simp add: ALIGN_UP_def unat_ALIGN_DOWN)
  then show ?thesis by (simp add: unat_eq_0)
qed

lemma ALIGN_UP_ge: "unat a \<le> 18446744073709547520 \<Longrightarrow> a \<le> ALIGN_UP a"
  by (simp add: wordnat unat_ALIGN_UP)

lemma ALIGN_UP_lt: "unat a \<le> 18446744073709547520 \<Longrightarrow> unat (ALIGN_UP a) < unat a + 4096"
  by (simp add: unat_ALIGN_UP)

lemma ALIGN_UP_ident: "IS_ALIGNED a \<Longrightarrow> ALIGN_UP a = a"
proof -
  assume "IS_ALIGNED a"
  then obtain k where k: "unat a = 4096 * k" by (auto simp: IS_ALIGNED_iff_dvd)
  then have "k < 4503599627370496" using u64_bound [of a] by simp
  then have "unat (ALIGN_UP a) = unat a" using k by (simp add: unat_ALIGN_UP)
  then show ?thesis by (rule word_unat_eq_iff [THEN iffD2])
qed

lemma ALIGN_UP_0_iff: "ALIGN_UP a = 0 \<longleftrightarrow> a = 0 \<or> 18446744073709547520 < unat a"
proof (cases "18446744073709547520 < unat a")
  case True
  then show ?thesis by (simp add: ALIGN_UP_wraps)
next
  case False
  then have "unat (ALIGN_UP a) = (unat a + 4095) div 4096 * 4096" by (simp add: unat_ALIGN_UP)
  then have "unat (ALIGN_UP a) = 0 \<longleftrightarrow> unat a = 0" by simp linarith
  with False show ?thesis by (simp add: unat_eq_0)
qed

text \<open>Rounding up to a page is the least page boundary that is not below the address,
  for every address up to the last page boundary of the 64-bit space.\<close>

theorem align_up_least_boundary:
  assumes "unat a \<le> 18446744073709547520"
  shows "IS_ALIGNED (ALIGN_UP a) \<and> a \<le> ALIGN_UP a
    \<and> (\<forall>b. IS_ALIGNED b \<longrightarrow> a \<le> b \<longrightarrow> ALIGN_UP a \<le> b)"
proof (intro conjI allI impI)
  fix b assume "IS_ALIGNED b" and "a \<le> b"
  then obtain k where "unat b = 4096 * k" and "unat a \<le> unat b"
    by (auto simp: IS_ALIGNED_iff_dvd wordnat)
  then show "ALIGN_UP a \<le> b"
    using assms by (simp add: wordnat unat_ALIGN_UP)
qed (use assms in \<open>simp_all add: ALIGN_UP_ge\<close>)

theorem align_up_least_boundary_witness:
  "IS_ALIGNED (ALIGN_UP 5000) \<and> ALIGN_UP 5000 \<le> 8192"
proof -
  have "IS_ALIGNED 8192" "(5000 :: u64) \<le> 8192" by (simp_all add: IS_ALIGNED_def)
  then show ?thesis using align_up_least_boundary [of 5000] by simp
qed

end
