(* ===== verification/Placement.thy ===== *)
theory Placement
  imports Config
begin

text \<open>
  The boot-time bump allocator of \<^verbatim>\<open>memory/allocators.cpp\<close> and the machine
  state it shares with the components above it. The record \<open>machine\<close> holds the global
  \<^verbatim>\<open>__placement\<close>, the kernel memory as 8-byte cells keyed by virtual address
  (the kernel maps physical address p at p + KVIRTUAL_ADDRESS, so page tables are reached
  through the same cells), the register cr3 read by
  \<^verbatim>\<open>insn::get_current_page\<close>, and the operands of the
  \<^verbatim>\<open>invlpg\<close> instructions issued by \<^verbatim>\<open>insn::tlb_flush\<close>,
  most recent first. An access at an address that is no multiple of 8 is a cell of its own.
\<close>

subsection \<open>State\<close>

record machine =
  placement :: addr
  mem :: cells
  cr3 :: addr
  invlpgs :: "addr list"

definition store :: "addr \<Rightarrow> u64 \<Rightarrow> machine \<Rightarrow> machine" where
  "store a v m = m\<lparr>mem := (mem m)(a := v)\<rparr>"

lemma store_simps [simp]:
  "placement (store a v m) = placement m"
  "mem (store a v m) = (mem m)(a := v)"
  "cr3 (store a v m) = cr3 m"
  "invlpgs (store a v m) = invlpgs m"
  by (simp_all add: store_def)

subsection \<open>Operations\<close>

text \<open>
  \<^verbatim>\<open>placement_kalloc(size, &paddr, align)\<close> returns the block's virtual address and,
  through its out-parameter, the physical one.
\<close>

definition placement_kalloc_phys :: "u64 \<Rightarrow> bool \<Rightarrow> machine \<Rightarrow> addr \<times> addr \<times> machine" where
  "placement_kalloc_phys sz align m =
     (let m = (if align then m\<lparr>placement := ALIGN_UP (placement m)\<rparr> else m);
          ret = placement m;
          paddr = placement m - KVIRTUAL_ADDRESS;
          m = m\<lparr>placement := placement m + sz\<rparr>
      in (ret, paddr, m))"

definition placement_kalloc :: "u64 \<Rightarrow> bool \<Rightarrow> machine \<Rightarrow> addr \<times> machine" where
  "placement_kalloc sz align m =
     (case placement_kalloc_phys sz align m of (ret, tmp, m) \<Rightarrow> (ret, m))"

definition kfree_block :: "u64 \<Rightarrow> machine \<Rightarrow> machine" where
  "kfree_block sz m = m\<lparr>placement := placement m - sz\<rparr>"

definition current :: "machine \<Rightarrow> addr" where
  "current m = placement m"

subsection \<open>Facts\<close>

lemma placement_kalloc_phys_eq:
  "placement_kalloc_phys sz align m =
     (let p = (if align then ALIGN_UP (placement m) else placement m)
      in (p, p - KVIRTUAL_ADDRESS, m\<lparr>placement := p + sz\<rparr>))"
  by (simp add: placement_kalloc_phys_def Let_def)

lemma placement_kalloc_eq:
  "placement_kalloc sz align m =
     (let p = (if align then ALIGN_UP (placement m) else placement m)
      in (p, m\<lparr>placement := p + sz\<rparr>))"
  by (simp add: placement_kalloc_def placement_kalloc_phys_eq Let_def)

lemma kfree_block_simps [simp]:
  "placement (kfree_block n m) = placement m - n"
  "mem (kfree_block n m) = mem m"
  by (simp_all add: kfree_block_def)

text \<open>The room left above the bump pointer, and the bytes one unaligned request takes.\<close>

definition headroom :: "nat \<Rightarrow> machine \<Rightarrow> bool" where
  "headroom n m \<longleftrightarrow> 0 < unat (placement m) \<and> unat (placement m) + n < 18446744073709551616"

lemma headroom_mono: "headroom n m \<Longrightarrow> k \<le> n \<Longrightarrow> headroom k m"
  by (simp add: headroom_def)

lemma headroom_store [simp]: "headroom n (store a v m) = headroom n m"
  by (simp add: headroom_def)

definition bytes_of :: "addr \<Rightarrow> nat \<Rightarrow> nat set" where
  "bytes_of a n = {unat a ..< unat a + n}"

lemma bytes_of_0 [simp]: "bytes_of a 0 = {}"
  by (simp add: bytes_of_def)

text \<open>The cells from an address on, and a change of memory confined to a set of cells.\<close>

definition cells_from :: "addr \<Rightarrow> nat \<Rightarrow> addr set" where
  "cells_from a n = (\<lambda>k. a + 8 * word_of_nat k) ` {..<n}"

definition writes_cells :: "addr set \<Rightarrow> machine \<Rightarrow> machine \<Rightarrow> bool" where
  "writes_cells C m m' \<longleftrightarrow> placement m' = placement m \<and> cr3 m' = cr3 m \<and> (\<forall>c. c \<notin> C \<longrightarrow> mem m' c = mem m c)"

lemma writes_cells_refl [simp]: "writes_cells C m m"
  by (simp add: writes_cells_def)

lemma writes_cells_trans: "writes_cells C m m' \<Longrightarrow> writes_cells C m' m'' \<Longrightarrow> writes_cells C m m''"
  by (simp add: writes_cells_def)

lemma writes_cells_mono: "writes_cells C m m' \<Longrightarrow> C \<subseteq> D \<Longrightarrow> writes_cells D m m'"
  unfolding writes_cells_def by blast

lemma writes_cells_store: "a \<in> C \<Longrightarrow> writes_cells C m (store a v m)"
  by (auto simp: writes_cells_def)

lemma cells_fromI: "k < n \<Longrightarrow> a + 8 * word_of_nat k \<in> cells_from a n"
  by (simp add: cells_from_def)

lemma cells_from_mono: "n \<le> k \<Longrightarrow> cells_from a n \<subseteq> cells_from a k"
  by (auto simp: cells_from_def)

lemma cells_fromE:
  assumes "c \<in> cells_from a n" "unat a + 8 * n < 18446744073709551616"
  obtains k where "k < n" "unat c = unat a + 8 * k"
proof -
  obtain k where k: "k < n" "c = a + 8 * word_of_nat k" using assms(1) by (auto simp: cells_from_def)
  then have "c = a + word_of_nat (8 * k)" by simp
  then have "unat c = unat a + 8 * k" using k(1) assms(2) by (simp only: unat_add_small)
  with k(1) show thesis by (rule that)
qed

text \<open>Two successive boot allocations never overlap and both lie in the range between
  the old and the new bump pointer, as long as the two requests fit below the end of the
  address space; an aligned request starts on a page boundary.\<close>

theorem placement_blocks_disjoint:
  assumes "unat (placement m) + unat s1 + unat s2 + 8192 < 18446744073709551616"
    and "placement_kalloc s1 al1 m = (a, m1)"
    and "placement_kalloc s2 al2 m1 = (b, m2)"
  shows "bytes_of a (unat s1) \<inter> bytes_of b (unat s2) = {}
    \<and> bytes_of a (unat s1) \<union> bytes_of b (unat s2)
        \<subseteq> {unat (placement m) ..< unat (placement m2)}
    \<and> (al1 \<longrightarrow> IS_ALIGNED a) \<and> (al2 \<longrightarrow> IS_ALIGNED b)"
proof -
  have up: "unat p \<le> unat (ALIGN_UP p) \<and> unat (ALIGN_UP p) < unat p + 4096"
    if "unat p \<le> 18446744073709547520" for p
    using that ALIGN_UP_ge [OF that] ALIGN_UP_lt [OF that] by (simp add: wordnat)
  have a: "a = (if al1 then ALIGN_UP (placement m) else placement m)"
    and m1: "placement m1 = a + s1"
    using assms(2) by (auto simp: placement_kalloc_eq Let_def)
  have b: "b = (if al2 then ALIGN_UP (placement m1) else placement m1)"
    and m2: "placement m2 = b + s2"
    using assms(3) by (auto simp: placement_kalloc_eq Let_def)
  have a_le: "unat (placement m) \<le> unat a" "unat a < unat (placement m) + 4096"
    using a up [of "placement m"] assms(1) by (auto split: if_splits)
  then have p1: "unat (placement m1) = unat a + unat s1"
    unfolding m1 using assms(1) by (intro unat_add_nowrap) simp
  then have b_le: "unat (placement m1) \<le> unat b" "unat b < unat (placement m1) + 4096"
    using b up [of "placement m1"] a_le assms(1) by (auto split: if_splits)
  then have "unat (placement m2) = unat b + unat s2"
    unfolding m2 using assms(1) a_le p1 by (intro unat_add_nowrap) simp
  moreover have "(al1 \<longrightarrow> IS_ALIGNED a) \<and> (al2 \<longrightarrow> IS_ALIGNED b)"
    using a b by auto
  ultimately show ?thesis
    using a_le b_le p1 by (auto simp: bytes_of_def)
qed

theorem placement_blocks_disjoint_witness:
  "bytes_of 5000 100 \<inter> bytes_of 8192 16 = {}
    \<and> bytes_of 5000 100 \<union> bytes_of 8192 16 \<subseteq> {5000 ..< 8208}
    \<and> IS_ALIGNED 8192"
proof -
  let ?m = "\<lparr>placement = 5000, mem = (\<lambda>_. 0), cr3 = 0, invlpgs = []\<rparr>"
  have "placement_kalloc 100 False ?m = (5000, ?m\<lparr>placement := 5100\<rparr>)"
    by (simp add: placement_kalloc_eq)
  moreover have "placement_kalloc 16 True (?m\<lparr>placement := 5100\<rparr>) = (8192, ?m\<lparr>placement := 8208\<rparr>)"
    by (simp add: placement_kalloc_eq ALIGN_UP_def ALIGN_DOWN_def)
  ultimately show ?thesis
    using placement_blocks_disjoint [of ?m 100 16 False 5000 "?m\<lparr>placement := 5100\<rparr>" True 8192
        "?m\<lparr>placement := 8208\<rparr>"]
    by simp
qed

end
