(* ===== verification/Strings.thy ===== *)
theory Strings
  imports Placement
begin

text \<open>
  The memory and string helpers of \<^verbatim>\<open>libs/string.hpp\<close>. They work byte by byte, on the
  same memory the components above reach in 8-byte cells: the byte at \<open>a\<close> is the byte number
  \<open>a mod 8\<close>, counted from the low end, of the cell at the multiple of 8 below \<open>a\<close>. The loops count down as in the
  source; the counter is the third argument.
\<close>

subsection \<open>Bytes of cells\<close>

definition cell_of :: "addr \<Rightarrow> addr" where
  "cell_of a = a AND - 8"

definition lane :: "addr \<Rightarrow> nat" where
  "lane a = 8 * unat (a AND 7)"

definition byte_at :: "machine \<Rightarrow> addr \<Rightarrow> u8" where
  "byte_at m a = ucast (drop_bit (lane a) (mem m (cell_of a)))"

definition store_byte :: "addr \<Rightarrow> u8 \<Rightarrow> machine \<Rightarrow> machine" where
  "store_byte a b m =
     (let old = mem m (cell_of a)
      in store (cell_of a) ((old AND NOT (push_bit (lane a) 0xff)) OR push_bit (lane a) (ucast b)) m)"

subsection \<open>Operations\<close>

fun memset_loop :: "addr \<Rightarrow> u8 \<Rightarrow> nat \<Rightarrow> machine \<Rightarrow> machine" where
  "memset_loop p ch 0 m = m"
| "memset_loop p ch (Suc n) m = memset_loop (p + 1) ch n (store_byte p ch m)"

definition memset :: "addr \<Rightarrow> u8 \<Rightarrow> u64 \<Rightarrow> machine \<Rightarrow> addr \<times> machine" where
  "memset ptr ch n m = (ptr, memset_loop ptr ch (unat n) m)"

fun copy_up :: "addr \<Rightarrow> addr \<Rightarrow> nat \<Rightarrow> machine \<Rightarrow> machine" where
  "copy_up d s 0 m = m"
| "copy_up d s (Suc n) m = copy_up (d + 1) (s + 1) n (store_byte d (byte_at m s) m)"

fun copy_down :: "addr \<Rightarrow> addr \<Rightarrow> nat \<Rightarrow> machine \<Rightarrow> machine" where
  "copy_down d s 0 m = m"
| "copy_down d s (Suc n) m =
     copy_down (d - 1) (s - 1) n (store_byte (d - 1) (byte_at m (s - 1)) m)"

definition memcpy :: "addr \<Rightarrow> addr \<Rightarrow> u64 \<Rightarrow> machine \<Rightarrow> addr \<times> machine" where
  "memcpy dest src n m = (dest, copy_up dest src (unat n) m)"

definition memmove :: "addr \<Rightarrow> addr \<Rightarrow> u64 \<Rightarrow> machine \<Rightarrow> addr \<times> machine" where
  "memmove dest src n m =
     (if dest < src then (dest, copy_up dest src (unat n) m)
      else (dest, copy_down (dest + n) (src + n) (unat n) m))"

definition isdigit :: "u8 \<Rightarrow> bool" where
  "isdigit c \<longleftrightarrow> 48 \<le> sint c \<and> sint c \<le> 57"

text \<open>A string with no terminator below the end of memory is never measured.\<close>

partial_function (option) strlen_loop :: "addr \<Rightarrow> u64 \<Rightarrow> machine \<Rightarrow> u64 option" where
  "strlen_loop str len m =
     (if byte_at m (str + len) \<noteq> 0 then strlen_loop str (len + 1) m else Some len)"

definition strlen :: "addr \<Rightarrow> machine \<Rightarrow> u64 option" where
  "strlen str m = strlen_loop str 0 m"

subsection \<open>One byte\<close>

lemma lane_bound: "unat (a AND 7 :: u64) < 8"
proof -
  have "(7 :: u64) = mask 3" by (simp add: mask_eq_exp_minus_1)
  then have "a AND 7 = take_bit 3 a" by (simp add: take_bit_eq_mask)
  then have "unat (a AND 7) = take_bit 3 (unat a)" by (simp add: unsigned_take_bit_eq)
  then show ?thesis using take_bit_nat_less_exp [of 3 "unat a"] by simp
qed

lemma cell_lane: "cell_of a + (a AND 7) = a"
proof -
  have n: "(7 :: u64) = NOT (- 8)" by simp
  have "a = (a AND - 8) OR (a AND 7)"
    unfolding n by (simp add: bit_eq_iff bit_simps) blast
  moreover have "(a AND - 8) + (a AND 7) = (a AND - 8) OR (a AND 7)"
    unfolding n by (rule disjunctive_add_eq_or) (simp add: bit_eq_iff bit_simps)
  ultimately show ?thesis by (simp add: cell_of_def)
qed

lemma cell_lane_inject: "cell_of a = cell_of b \<and> lane a = lane b \<longleftrightarrow> a = b"
proof
  assume *: "cell_of a = cell_of b \<and> lane a = lane b"
  then have "a AND 7 = b AND 7" by (simp add: lane_def word_unat_eq_iff [of "a AND 7"])
  then show "a = b" using * cell_lane [of a] cell_lane [of b] by metis
qed simp

lemma bit_byte: "bit (byte_at m a) n \<longleftrightarrow> n < 8 \<and> bit (mem m (cell_of a)) (lane a + n)"
  using lane_bound [of a] by (auto simp: byte_at_def bit_simps lane_def)

lemma byte_at_store_byte: "byte_at (store_byte a b m) x = (if x = a then b else byte_at m x)"
proof (cases "cell_of x = cell_of a")
  case False
  then show ?thesis by (auto simp: byte_at_def store_byte_def Let_def)
next
  case True
  let ?i = "unat (a AND 7)" and ?j = "unat (x AND 7)"
  have i: "?i < 8" and j: "?j < 8" by (rule lane_bound)+
  have ff: "bit (0xff :: int) k \<longleftrightarrow> k < 8" for k
  proof -
    have "(0xff :: int) = mask 8" by (simp add: mask_eq_exp_minus_1)
    then show ?thesis by (simp only: bit_mask_iff) auto
  qed
  have bits: "bit (byte_at (store_byte a b m) x) n \<longleftrightarrow>
    (if ?j = ?i then bit b n else bit (byte_at m x) n)" if "n < 8" for n
  proof -
    have "bit (byte_at (store_byte a b m) x) n \<longleftrightarrow>
      bit ((mem m (cell_of a) AND NOT (push_bit (8 * ?i) 0xff)) OR push_bit (8 * ?i) (ucast b)) (8 * ?j + n)"
      using that True by (simp add: bit_byte store_byte_def Let_def lane_def)
    also have "\<dots> \<longleftrightarrow> (if 8 * ?i \<le> 8 * ?j + n \<and> 8 * ?j + n < 8 * ?i + 8
        then bit b (8 * ?j + n - 8 * ?i) else bit (mem m (cell_of a)) (8 * ?j + n))"
      using i j that bit_imp_le_length [of b "8 * ?j + n - 8 * ?i"] by (auto simp: bit_simps ff)
    also have "8 * ?i \<le> 8 * ?j + n \<and> 8 * ?j + n < 8 * ?i + 8 \<longleftrightarrow> ?j = ?i" using that by auto
    finally show ?thesis using that True by (auto simp: bit_byte lane_def)
  qed
  have "?j = ?i \<longleftrightarrow> x = a" using True cell_lane_inject [of x a] by (simp add: lane_def)
  then show ?thesis
    by (intro bit_eqI) (use bits in \<open>auto simp: bit_imp_le_length\<close>)
qed

lemma store_byte_simps [simp]:
  "placement (store_byte a b m) = placement m"
  "cr3 (store_byte a b m) = cr3 m"
  "invlpgs (store_byte a b m) = invlpgs m"
  by (simp_all add: store_byte_def Let_def)

lemma mem_store_byte: "c \<noteq> cell_of a \<Longrightarrow> mem (store_byte a b m) c = mem m c"
  by (simp add: store_byte_def Let_def)

lemma unat_lane: "unat (a AND 7 :: u64) = unat a mod 8"
proof -
  have "(7 :: u64) = mask 3" by (simp add: mask_eq_exp_minus_1)
  then have "a AND 7 = take_bit 3 a" by (simp add: take_bit_eq_mask)
  then show ?thesis
    by (simp add: unsigned_take_bit_eq) (simp add: take_bit_eq_mod)
qed

lemma unat_cell_of: "unat (cell_of a) = unat a - unat a mod 8"
proof -
  note unat_lane [of a]
  moreover have "unat (cell_of a) + unat (a AND 7) = unat a"
    using unat_plus_simple [of "cell_of a" "a AND 7"] cell_lane [of a]
      word_and_le1 [of a "- 8"]
    by (metis cell_of_def word_and_le2)
  ultimately show ?thesis by simp
qed

subsection \<open>What a routine may write\<close>

definition same_bytes :: "(addr \<Rightarrow> bool) \<Rightarrow> machine \<Rightarrow> machine \<Rightarrow> bool" where
  "same_bytes P m m' \<longleftrightarrow> (\<forall>x. P x \<longrightarrow> byte_at m' x = byte_at m x)"

lemma same_bytes_refl [simp]: "same_bytes P m m"
  by (simp add: same_bytes_def)

lemma same_bytes_trans: "same_bytes P m m' \<Longrightarrow> same_bytes P m' m'' \<Longrightarrow> same_bytes P m m''"
  by (simp add: same_bytes_def)

lemma same_bytes_mono: "same_bytes P m m' \<Longrightarrow> (\<And>x. Q x \<Longrightarrow> P x) \<Longrightarrow> same_bytes Q m m'"
  by (simp add: same_bytes_def)

text \<open>The bytes of the cells written.\<close>

lemma writes_cells_bytes:
  assumes "writes_cells C m m'" "\<And>c. c \<in> C \<Longrightarrow> bytes_of c 8 \<subseteq> W"
  shows "same_bytes (\<lambda>x. unat x \<notin> W) m m'"
  unfolding same_bytes_def
proof (intro allI impI)
  fix x :: addr assume x: "unat x \<notin> W"
  have "unat x \<in> bytes_of (cell_of x) 8"
    using unat_cell_of [of x] mod_less_divisor [of 8 "unat x"] mod_less_eq_dividend [of "unat x" 8]
    by (simp add: bytes_of_def)
  then have "cell_of x \<notin> C" using x assms(2) by blast
  then show "byte_at m' x = byte_at m x" using assms(1) by (simp add: byte_at_def writes_cells_def)
qed

lemma cells_from_bytes:
  assumes "c \<in> cells_from a n" "unat a + 8 * n < 18446744073709551616"
  shows "bytes_of c 8 \<subseteq> bytes_of a (8 * n)"
proof -
  obtain k where "k < n" "unat c = unat a + 8 * k" using assms by (rule cells_fromE)
  then show ?thesis by (auto simp: bytes_of_def)
qed

text \<open>A cell whose bytes are the same is the same.\<close>

lemma cell_of_offset:
  assumes "c = cell_of c" "i < 8"
  shows "cell_of (c + word_of_nat i) = c" "lane (c + word_of_nat i) = 8 * i"
proof -
  have "unat c mod 8 = 0" using unat_lane [of c] cell_lane [of c] assms(1) by simp
  then obtain q where q: "unat c = 8 * q" by (auto simp: mod_eq_0_iff_dvd elim: dvdE)
  then have "8 * q + i < 18446744073709551616" using u64_bound [of c] assms(2) by simp
  then have u: "unat (c + word_of_nat i) = unat c + i" using q by (intro unat_add_small) simp
  then have "unat (c + word_of_nat i) mod 8 = i" using q assms(2) by simp
  then show "cell_of (c + word_of_nat i) = c" "lane (c + word_of_nat i) = 8 * i"
    using u unat_cell_of [of "c + word_of_nat i"] unat_lane [of "c + word_of_nat i"]
    by (simp_all add: lane_def word_unat_eq_iff)
qed

lemma mem_from_bytes:
  assumes "c = cell_of c" "\<And>i. i < 8 \<Longrightarrow> byte_at m' (c + word_of_nat i) = byte_at m (c + word_of_nat i)"
  shows "mem m' c = mem m c"
proof (rule bit_word_eqI)
  fix k assume "k < LENGTH(64)"
  then have i: "k div 8 < 8" by simp
  have "bit (byte_at m' (c + word_of_nat (k div 8))) (k mod 8) = bit (byte_at m (c + word_of_nat (k div 8))) (k mod 8)"
    by (simp only: assms(2) [OF i])
  then show "bit (mem m' c) k = bit (mem m c) k"
    by (simp add: bit_byte cell_of_offset [OF assms(1) i])
qed

text \<open>Only the n bytes from an address on are written; the registers stay.\<close>

definition writes_only :: "addr \<Rightarrow> nat \<Rightarrow> machine \<Rightarrow> machine \<Rightarrow> bool" where
  "writes_only a n m m' \<longleftrightarrow> placement m' = placement m \<and> cr3 m' = cr3 m
     \<and> same_bytes (\<lambda>x. n \<le> unat (x - a)) m m'"

lemma writes_only_refl [simp]: "writes_only a n m m"
  by (simp add: writes_only_def same_bytes_def)

lemma writes_only_trans: "writes_only a n m m' \<Longrightarrow> writes_only a n m' m'' \<Longrightarrow> writes_only a n m m''"
  by (simp add: writes_only_def same_bytes_def)

subsection \<open>The loops\<close>

lemma unat_minus_Suc:
  assumes "a \<noteq> (p :: u64)"
  shows "unat (a - p) = Suc (unat (a - (p + 1)))"
proof -
  have "a - p = (a - (p + 1)) + 1" by simp
  moreover have "a - p \<noteq> 0" using assms by simp
  ultimately show ?thesis by (metis unat_word_ariths(1) unatSuc add.commute)
qed

lemma unat_minus_self_Suc: "unat (p - (p + 1) :: u64) = 18446744073709551615"
  by simp (simp add: unsigned_minus_1_eq_mask mask_eq_exp_minus_1)

lemma memset_loop_bytes:
  assumes "n \<le> 18446744073709551616"
  shows "byte_at (memset_loop p ch n m) a = (if unat (a - p) < n then ch else byte_at m a)"
  using assms
proof (induction p ch n m rule: memset_loop.induct)
  case (2 p ch n m)
  then have IH: "byte_at (memset_loop p ch (Suc n) m) a
      = (if unat (a - (p + 1)) < n then ch else byte_at (store_byte p ch m) a)" by simp
  show ?case
  proof (cases "a = p")
    case True
    then show ?thesis using IH 2 unat_minus_self_Suc [of p] by (simp add: byte_at_store_byte)
  next
    case False
    then show ?thesis using IH unat_minus_Suc [of a p] by (simp add: byte_at_store_byte)
  qed
qed simp

text \<open>A copy is exact when no write lands on a byte still to be read.\<close>

lemma copy_up_bytes:
  assumes "n \<le> 18446744073709551616"
    and "\<And>i j. j < i \<Longrightarrow> i < n \<Longrightarrow> s + of_nat i \<noteq> d + of_nat j"
  shows "byte_at (copy_up d s n m) a
    = (if unat (a - d) < n then byte_at m (s + (a - d)) else byte_at m a)"
  using assms
proof (induction d s n m rule: copy_up.induct)
  case (2 d s n m)
  let ?m = "store_byte d (byte_at m s) m"
  have "s + 1 + of_nat i \<noteq> d + 1 + of_nat j" if "j < i" "i < n" for i j
    using 2(3) [of "Suc j" "Suc i"] that by (simp add: algebra_simps)
  then have IH: "byte_at (copy_up d s (Suc n) m) a
      = (if unat (a - (d + 1)) < n then byte_at ?m (s + 1 + (a - (d + 1))) else byte_at ?m a)"
    using 2(1,2) by simp
  show ?case
  proof (cases "a = d")
    case True
    then show ?thesis using IH 2(2) unat_minus_self_Suc [of d] by (simp add: byte_at_store_byte)
  next
    case False
    note off = unat_minus_Suc [OF False]
    have "s + (a - d) \<noteq> d" if "unat (a - (d + 1)) < n"
      using 2(3) [of 0 "unat (a - d)"] that off by simp
    then show ?thesis using IH off False by (simp add: byte_at_store_byte)
  qed
qed simp

lemma copy_down_bytes:
  assumes "n \<le> 18446744073709551616"
    and "\<And>i j. i < j \<Longrightarrow> j < n \<Longrightarrow> s + of_nat i \<noteq> d + of_nat j"
  shows "byte_at (copy_down (d + of_nat n) (s + of_nat n) n m) a
    = (if unat (a - d) < n then byte_at m (s + (a - d)) else byte_at m a)"
  using assms
proof (induction n arbitrary: m)
  case (Suc n)
  let ?m = "store_byte (d + of_nat n) (byte_at m (s + of_nat n)) m"
  have "s + of_nat i \<noteq> d + of_nat j" if "i < j" "j < n" for i j
    using Suc(3) that by simp
  then have IH: "byte_at (copy_down (d + of_nat (Suc n)) (s + of_nat (Suc n)) (Suc n) m) a
      = (if unat (a - d) < n then byte_at ?m (s + (a - d)) else byte_at ?m a)"
    using Suc(1) [of ?m] Suc(2) by (simp add: algebra_simps)
  have n: "unat (of_nat n :: u64) = n" using Suc(2) by (simp add: unat_of_nat)
  show ?case
  proof (cases "unat (a - d) < n")
    case True
    then have "s + (a - d) \<noteq> d + of_nat n" using Suc(3) [of "unat (a - d)" n] by simp
    then show ?thesis using IH True by (simp add: byte_at_store_byte)
  next
    case False
    have "unat (a - d) = n \<longleftrightarrow> a - d = of_nat n" using n word_unat_eq_iff [of "a - d" "of_nat n"] by simp
    also have "\<dots> \<longleftrightarrow> a = d + of_nat n" by (simp add: diff_eq_eq add.commute)
    finally have "unat (a - d) = n \<longleftrightarrow> a = d + of_nat n" .
    then show ?thesis using IH False by (auto simp: byte_at_store_byte less_Suc_eq n)
  qed
qed simp

lemma loop_keeps [simp]:
  "placement (memset_loop p ch n m) = placement m"
  "cr3 (memset_loop p ch n m) = cr3 m"
  "invlpgs (memset_loop p ch n m) = invlpgs m"
  by (induction p ch n m rule: memset_loop.induct) simp_all

lemma memset_keeps [simp]:
  "fst (memset p ch n m) = p"
  "placement (snd (memset p ch n m)) = placement m"
  "cr3 (snd (memset p ch n m)) = cr3 m"
  "invlpgs (snd (memset p ch n m)) = invlpgs m"
  by (simp_all add: memset_def)

text \<open>A cell is zero when its eight bytes are.\<close>

lemma cell_of_add:
  assumes "cell_of c = c" and "j < 8"
  shows "cell_of (c + of_nat j) = c" and "lane (c + of_nat j) = 8 * j"
proof -
  have "unat c - unat c mod 8 = unat c" using unat_cell_of [of c] assms(1) by simp
  then have m: "unat c mod 8 = 0" using mod_less_eq_dividend [of "unat c" 8] by linarith
  then obtain k where k: "unat c = 8 * k" by (metis mod_0_imp_dvd dvdE)
  have "k < 2305843009213693952" using u64_bound [of c] k by simp
  then have "unat c + j < 18446744073709551616" using assms(2) k by linarith
  then have *: "unat (c + of_nat j) = unat c + j" by (rule unat_add_small)
  have r: "unat (c + of_nat j) mod 8 = j" using assms(2) k by (simp add: *)
  then show "lane (c + of_nat j) = 8 * j" by (simp add: lane_def unat_lane)
  have "unat (cell_of (c + of_nat j)) = unat c" using r * by (simp add: unat_cell_of)
  then show "cell_of (c + of_nat j) = c" by (simp add: word_unat_eq_iff)
qed

lemma zero_cell:
  assumes "cell_of c = c" and "\<And>j. j < 8 \<Longrightarrow> byte_at m (c + of_nat j) = 0"
  shows "mem m c = 0"
proof (rule bit_eqI)
  fix k
  show "bit (mem m c) k = bit 0 k"
  proof (cases "k < 64")
    case True
    define j where "j = k div 8"
    have j: "j < 8" using True by (simp add: j_def)
    have "\<not> bit (byte_at m (c + of_nat j)) (k mod 8)" using assms(2) [OF j] by simp
    then have "\<not> bit (mem m c) (8 * j + k mod 8)"
      by (simp add: bit_byte cell_of_add [OF assms(1) j])
    then show ?thesis by (simp add: j_def)
  next
    case False
    then show ?thesis using bit_imp_le_length [of "mem m c" k] by auto
  qed
qed

lemma memset_loop_frame:
  assumes "\<And>i. i < n \<Longrightarrow> cell_of (p + of_nat i) \<noteq> c"
  shows "mem (memset_loop p ch n m) c = mem m c"
  using assms
proof (induction p ch n m rule: memset_loop.induct)
  case (2 p ch n m)
  have "cell_of (p + 1 + of_nat i) \<noteq> c" if "i < n" for i
    using 2(2) [of "Suc i"] that by (simp add: algebra_simps)
  then have "mem (memset_loop p ch (Suc n) m) c = mem (store_byte p ch m) c" using 2(1) by simp
  then show ?case using 2(2) [of 0] mem_store_byte [of c p ch m] by simp
qed simp

lemma copy_up_frame:
  assumes "\<And>i. i < n \<Longrightarrow> cell_of (d + of_nat i) \<noteq> c"
  shows "mem (copy_up d s n m) c = mem m c"
  using assms
proof (induction d s n m rule: copy_up.induct)
  case (2 d s n m)
  have "cell_of (d + 1 + of_nat i) \<noteq> c" if "i < n" for i
    using 2(2) [of "Suc i"] that by (simp add: algebra_simps)
  then have "mem (copy_up d s (Suc n) m) c = mem (store_byte d (byte_at m s) m) c" using 2(1) by simp
  then show ?case using 2(2) [of 0] mem_store_byte [of c d "byte_at m s" m] by simp
qed simp

lemma copy_up_keeps [simp]: "placement (copy_up d s n m) = placement m"
  by (induction d s n m rule: copy_up.induct) simp_all

subsection \<open>The functions\<close>

text \<open>\<^verbatim>\<open>memset\<close> returns its argument and sets exactly the bytes of the range.\<close>

lemma memset_fills:
  "fst (memset p ch n m) = p
   \<and> byte_at (snd (memset p ch n m)) a = (if a - p < n then ch else byte_at m a)"
  using memset_loop_bytes [of "unat n" p ch m a] u64_bound [of n]
  by (simp add: memset_def word_less_nat_alt)

text \<open>Clearing a page makes its 512 entries zero and leaves the rest of memory alone.\<close>

lemma memset_page:
  assumes "IS_ALIGNED p"
  shows "unat i < 512 \<Longrightarrow> mem (snd (memset p 0 0x1000 m)) (p + 8 * i) = 0"
    and "unat c < unat p \<or> unat p + 4096 \<le> unat c \<Longrightarrow>
      mem (snd (memset p 0 0x1000 m)) c = mem m c"
proof -
  obtain k where k: "unat p = 4096 * k" using assms by (rule IS_ALIGNED_E)
  have kb: "k < 4503599627370496" using u64_bound [of p] k by simp
  have off: "unat (p + of_nat j) = unat p + j" if "j < 4096" for j
    by (rule unat_add_small) (use that k kb in linarith)
  show "mem (snd (memset p 0 0x1000 m)) (p + 8 * i) = 0" if i: "unat i < 512"
  proof (rule zero_cell)
    have e: "8 * i = of_nat (8 * unat i)" by simp
    have u: "unat (p + 8 * i) = 8 * (512 * k + unat i)" unfolding e using off [of "8 * unat i"] i k by simp
    then have "unat (cell_of (p + 8 * i)) = unat (p + 8 * i)" by (simp add: unat_cell_of)
    then show "cell_of (p + 8 * i) = p + 8 * i" by (simp add: word_unat_eq_iff)
    fix j :: nat
    assume "j < 8"
    then have "unat (8 * i + of_nat j :: u64) < 4096"
      using i unat_add_small [of "8 * i" j] by (simp add: unat_word_ariths)
    then have "p + 8 * i + of_nat j - p < 0x1000" by (simp add: wordnat)
    then show "byte_at (snd (memset p 0 0x1000 m)) (p + 8 * i + of_nat j) = 0"
      by (simp add: memset_fills)
  qed
  show "mem (snd (memset p 0 0x1000 m)) c = mem m c" if c: "unat c < unat p \<or> unat p + 4096 \<le> unat c"
  proof -
    have "cell_of (p + of_nat j) \<noteq> c" if "j < 4096" for j
    proof -
      have "(8 * (512 * k) + j) mod 8 = j mod 8" by (rule mod_mult_self4)
      then have "unat p + j - (unat p + j) mod 8 = 4096 * k + (j - j mod 8)" using k by simp
      then have "unat (cell_of (p + of_nat j)) = unat p + (j - j mod 8)"
        using off [OF that] k by (simp add: unat_cell_of)
      then show ?thesis using c that by auto
    qed
    then show ?thesis using memset_loop_frame [of 4096 p c 0 m] by (simp add: memset_def)
  qed
qed

text \<open>\<^verbatim>\<open>memcpy\<close> returns its first argument and copies the source range to the
  destination when the two ranges do not overlap; no other byte changes.\<close>

lemma memcpy_copies:
  assumes "bytes_of src (unat n) \<inter> bytes_of dest (unat n) = {}"
    and "unat src + unat n \<le> 18446744073709551616" "unat dest + unat n \<le> 18446744073709551616"
  shows "fst (memcpy dest src n m) = dest
   \<and> byte_at (snd (memcpy dest src n m)) a
     = (if a - dest < n then byte_at m (src + (a - dest)) else byte_at m a)"
proof -
  have "src + of_nat i \<noteq> dest + of_nat j" if ij: "i < unat n" "j < unat n" for i j
  proof
    assume "src + of_nat i = dest + of_nat j"
    moreover have "unat (src + of_nat i) = unat src + i" "unat (dest + of_nat j) = unat dest + j"
      using ij assms(2,3) by (simp_all add: unat_add_small unat_of_nat)
    ultimately have "unat src + i \<in> bytes_of src (unat n) \<inter> bytes_of dest (unat n)"
      using ij by (simp add: bytes_of_def)
    then show False using assms(1) by simp
  qed
  then show ?thesis
    using copy_up_bytes [of "unat n" src dest m a] u64_bound [of n]
    by (simp add: memcpy_def word_less_nat_alt)
qed

text \<open>\<^verbatim>\<open>memmove\<close> copies the bytes the source range held before the call to the
  destination, however the two ranges overlap, changes no other byte and returns its first
  argument.\<close>

theorem memmove_copies_any_overlap:
  assumes "unat src + unat n \<le> 18446744073709551616" "unat dest + unat n \<le> 18446744073709551616"
  shows "fst (memmove dest src n m) = dest
   \<and> (\<forall>a. byte_at (snd (memmove dest src n m)) a
     = (if a - dest < n then byte_at m (src + (a - dest)) else byte_at m a))"
proof -
  have off: "unat (src + of_nat i) = unat src + i" "unat (dest + of_nat i) = unat dest + i"
    if "i < unat n" for i
    using that assms by (simp_all add: unat_add_small)
  show ?thesis
  proof (cases "dest < src")
    case True
    have "src + of_nat i \<noteq> dest + of_nat j" if "j < i" "i < unat n" for i j
    proof
      assume "src + of_nat i = dest + of_nat j"
      then have "unat (src + of_nat i) = unat (dest + of_nat j)" by (rule arg_cong)
      then show False using off(1) [of i] off(2) [of j] that True by (simp add: wordnat)
    qed
    then show ?thesis
      using copy_up_bytes [of "unat n" src dest m] u64_bound [of n] True
      by (simp add: memmove_def word_less_nat_alt)
  next
    case False
    have "src + of_nat i \<noteq> dest + of_nat j" if "i < j" "j < unat n" for i j
    proof
      assume "src + of_nat i = dest + of_nat j"
      then have "unat (src + of_nat i) = unat (dest + of_nat j)" by (rule arg_cong)
      then show False using off(1) [of i] off(2) [of j] that False by (simp add: wordnat)
    qed
    then show ?thesis
      using copy_down_bytes [of "unat n" src dest m] u64_bound [of n] False
      by (simp add: memmove_def word_less_nat_alt)
  qed
qed

text \<open>Eight bytes, copied one byte upwards over themselves.\<close>

definition example_bytes :: machine where
  "example_bytes = \<lparr>placement = 0, mem = (\<lambda>_. 0)(0x1000 := 0x6b6f), cr3 = 0, invlpgs = []\<rparr>"

theorem memmove_copies_any_overlap_witness:
  "byte_at (snd (memmove 0x1001 0x1000 8 example_bytes)) 0x1001 = 0x6f
   \<and> byte_at (snd (memmove 0x1001 0x1000 8 example_bytes)) 0x1002 = 0x6b"
proof -
  have "byte_at example_bytes 0x1000 = 0x6f" "byte_at example_bytes 0x1001 = 0x6b"
    by (simp_all add: example_bytes_def byte_at_def lane_def cell_of_def)
  then show ?thesis
    using memmove_copies_any_overlap [of "0x1000" 8 "0x1001" example_bytes] by simp
qed

subsection \<open>Length\<close>

lemma strlen_loop_result:
  assumes "\<And>i. i < k \<Longrightarrow> byte_at m (str + (len + of_nat i)) \<noteq> 0"
    and "byte_at m (str + (len + of_nat k)) = 0"
  shows "strlen_loop str len m = Some (len + of_nat k)"
  using assms
proof (induction k arbitrary: len)
  case 0
  then show ?case by (simp add: strlen_loop.simps [of str len m])
next
  case (Suc k)
  have "byte_at m (str + (len + 1 + of_nat i)) \<noteq> 0" if "i < k" for i
    using Suc.prems(1) [of "Suc i"] that by (simp add: algebra_simps)
  moreover have "byte_at m (str + (len + 1 + of_nat k)) = 0"
    using Suc.prems(2) by (simp add: algebra_simps)
  ultimately have "strlen_loop str (len + 1) m = Some (len + 1 + of_nat k)" by (rule Suc.IH)
  then show ?case
    using Suc.prems(1) [of 0] by (simp add: strlen_loop.simps [of str len m] algebra_simps)
qed

text \<open>\<^verbatim>\<open>strlen\<close> returns the number of bytes before the first NUL.\<close>

theorem strlen_counts_to_nul:
  assumes "byte_at m (str + n) = 0" and "\<forall>i < n. byte_at m (str + i) \<noteq> 0"
  shows "strlen str m = Some n"
proof -
  have "byte_at m (str + (0 + of_nat i)) \<noteq> 0" if "i < unat n" for i
  proof -
    have "(of_nat i :: u64) < n" using that u64_bound [of n] by (simp add: wordnat unat_of_nat)
    then show ?thesis using assms(2) by simp
  qed
  then show ?thesis
    using strlen_loop_result [of "unat n" m str 0] assms(1) by (simp add: strlen_def)
qed

theorem strlen_counts_to_nul_witness:
  "strlen 0x1000 example_bytes = Some 2"
proof (rule strlen_counts_to_nul)
  show "\<forall>i < 2. byte_at example_bytes (0x1000 + i) \<noteq> 0"
  proof (intro allI impI)
    fix i :: u64
    assume "i < 2"
    then have "i = 0 \<or> i = 1" by (auto simp: wordnat word_unat_eq_iff)
    then show "byte_at example_bytes (0x1000 + i) \<noteq> 0"
      by (elim disjE) (simp_all add: example_bytes_def byte_at_def lane_def cell_of_def)
  qed
qed (simp add: example_bytes_def byte_at_def lane_def cell_of_def)

end
