(* ===== verification/Paging.thy ===== *)
theory Paging
  imports Strings
begin

text \<open>
  The four-level page tables of \<^verbatim>\<open>arch/amd64/memory/paging.cpp\<close>. A table is a page
  of 512 entries of 8 bytes, reached at (entry with the low 12 bits cleared) +
  KVIRTUAL_ADDRESS; tables come from the boot allocator. \<open>leaf_cell\<close> and
  \<open>translate\<close> follow the walk the processor makes (and \<^verbatim>\<open>unmap\<close> repeats);
  \<open>tables_ok\<close> is the invariant that the tables of a directory form a tree.
\<close>

subsection \<open>Indices and entries\<close>

definition PTE :: "addr \<Rightarrow> u64" where
  "PTE a = (drop_bit 12 a) AND 0x1ff"

definition PDE :: "addr \<Rightarrow> u64" where
  "PDE a = (drop_bit 21 a) AND 0x1ff"

definition PDPT :: "addr \<Rightarrow> u64" where
  "PDPT a = (drop_bit 30 a) AND 0x1ff"

definition PML4 :: "addr \<Rightarrow> u64" where
  "PML4 a = (drop_bit 39 a) AND 0x1ff"

definition ADDRESS :: "addr \<Rightarrow> addr" where
  "ADDRESS a = (a AND NOT 0xfff) + KVIRTUAL_ADDRESS"

definition PRESENT :: "u64 \<Rightarrow> bool" where
  "PRESENT e \<longleftrightarrow> e AND 1 = 1"

definition sizeof_table :: u64 where
  "sizeof_table = 0x1000"

subsection \<open>Operations\<close>

definition tlb_flush :: "addr \<Rightarrow> machine \<Rightarrow> machine" where
  "tlb_flush a m = m\<lparr>invlpgs := a # invlpgs m\<rparr>"

definition get_current_page :: "machine \<Rightarrow> addr" where
  "get_current_page m = cr3 m"

definition set_page_directory :: "addr \<Rightarrow> machine \<Rightarrow> machine" where
  "set_page_directory page_dir m = m\<lparr>cr3 := page_dir\<rparr>"

text \<open>
  The block \<^verbatim>\<open>get_page\<close> repeats at each directory level: the entry at \<open>cell\<close> is
  made to point to a new table when it is not present and the caller asks for one;
  \<open>None\<close> is the early return of a null pointer.
\<close>

definition ensure_table :: "addr \<Rightarrow> u64 \<Rightarrow> bool \<Rightarrow> machine \<Rightarrow> machine option" where
  "ensure_table cell dir_flags mk m =
     (if \<not> PRESENT (mem m cell) \<and> mk then
        (case placement_kalloc_phys sizeof_table True m of (tmp, paddr, m) \<Rightarrow>
           let m = snd (memset tmp 0 sizeof_table m)
           in Some (store cell (paddr OR dir_flags) m))
      else if \<not> PRESENT (mem m cell) then None
      else Some m)"

definition get_page :: "addr \<Rightarrow> addr \<Rightarrow> u8 \<Rightarrow> bool \<Rightarrow> machine \<Rightarrow> addr \<times> machine" where
  "get_page page_dir vaddr flags mk m =
     (let pml4 = PML4 vaddr; pdpt = PDPT vaddr; pde = PDE vaddr;
          dir_flags = 0x01 OR 0x02;
          dir_flags = (if flags AND 0x04 \<noteq> 0 then dir_flags OR 0x04 else dir_flags);
          cell4 = ADDRESS page_dir + 8 * pml4
      in case ensure_table cell4 dir_flags mk m of None \<Rightarrow> (0, m)
       | Some m \<Rightarrow>
         (let cell3 = ADDRESS (mem m cell4) + 8 * pdpt
          in case ensure_table cell3 dir_flags mk m of None \<Rightarrow> (0, m)
           | Some m \<Rightarrow>
             (let cell2 = ADDRESS (mem m cell3) + 8 * pde
              in case ensure_table cell2 dir_flags mk m of None \<Rightarrow> (0, m)
               | Some m \<Rightarrow> (ADDRESS (mem m cell2), m))))"

definition unmap :: "addr \<Rightarrow> addr \<Rightarrow> machine \<Rightarrow> machine" where
  "unmap page_dir vaddr m =
     (let pml4 = PML4 vaddr; pdpt = PDPT vaddr; pde = PDE vaddr; pte = PTE vaddr;
          cell4 = ADDRESS page_dir + 8 * pml4
      in if \<not> PRESENT (mem m cell4) then m
      else let cell3 = ADDRESS (mem m cell4) + 8 * pdpt
      in if \<not> PRESENT (mem m cell3) then m
      else let cell2 = ADDRESS (mem m cell3) + 8 * pde
      in if \<not> PRESENT (mem m cell2) then m
      else let cell1 = ADDRESS (mem m cell2) + 8 * pte
      in if \<not> PRESENT (mem m cell1) then m
      else let m = store cell1 (mem m cell1 AND NOT 0xfff) m
      in tlb_flush 0 m)"

definition unmap_current :: "addr \<Rightarrow> machine \<Rightarrow> machine" where
  "unmap_current vaddr m = unmap (get_current_page m) vaddr m"

text \<open>The entry \<^verbatim>\<open>map\<close> writes.\<close>

definition build_entry :: "addr \<Rightarrow> u8 \<Rightarrow> u64" where
  "build_entry paddr flags =
     (let entry = paddr AND NOT 0xFFF;
          entry = (if flags AND 0x01 \<noteq> 0 then entry OR 0x01 else entry);
          entry = (if flags AND 0x02 \<noteq> 0 then entry OR 0x02 else entry)
      in (if flags AND 0x04 \<noteq> 0 then entry OR 0x04 else entry))"

definition map_page :: "addr \<Rightarrow> addr \<Rightarrow> addr \<Rightarrow> u8 \<Rightarrow> machine \<Rightarrow> int \<times> machine" where
  "map_page dir vaddr paddr flags m =
     (let pte = PTE vaddr
      in case get_page dir vaddr flags True m of (page, m) \<Rightarrow>
        if page = 0 then (- 1, m)
        else let m = store (page + 8 * pte) (build_entry paddr flags) m;
                 m = tlb_flush dir m
        in (0, m))"

definition map_current :: "addr \<Rightarrow> addr \<Rightarrow> u8 \<Rightarrow> machine \<Rightarrow> int \<times> machine" where
  "map_current vaddr paddr flags m = map_page (get_current_page m) vaddr paddr flags m"

definition mapio :: "addr \<Rightarrow> u8 \<Rightarrow> machine \<Rightarrow> addr \<times> machine" where
  "mapio a flags m =
     (let offset = a AND 0xfffff;
          vaddr = PCI_VIRTUAL_ADDRESS + offset;
          pte = PTE (PCI_VIRTUAL_ADDRESS OR offset)
      in case get_page (get_current_page m) vaddr 0x0 True m of (page, m) \<Rightarrow>
        (vaddr, store (page + 8 * pte) (a + 0x3) m))"

definition unmapio :: "addr \<Rightarrow> machine \<Rightarrow> machine" where
  "unmapio vaddr m = unmap_current vaddr m"

definition create_page_directory :: "machine \<Rightarrow> addr \<times> machine" where
  "create_page_directory m =
     (let pml4_index = PML4 KVIRTUAL_ADDRESS
      in case placement_kalloc_phys sizeof_table True m of (page_dir_virt, page_dir, m) \<Rightarrow>
        let m = snd (memset page_dir_virt 0 sizeof_table m);
            pml4_table = ADDRESS (get_current_page m)
        in if \<not> PRESENT (mem m (pml4_table + 8 * pml4_index)) then (0, m)
        else (page_dir, store (page_dir_virt + 8 * pml4_index)
                (mem m (pml4_table + 8 * pml4_index)) m))"

definition map_user :: "addr \<Rightarrow> u64 \<Rightarrow> u64 \<Rightarrow> machine \<Rightarrow> int \<times> machine" where
  "map_user page_dir vaddr paddr m = map_page page_dir vaddr paddr 0x07 m"

definition create_user_page_directory :: "machine \<Rightarrow> addr \<times> machine" where
  "create_user_page_directory m =
     (case create_page_directory m of (user_page_dir, m) \<Rightarrow>
        if user_page_dir = 0 then (0, m) else (user_page_dir, m))"

text \<open>The constants and the loop of \<^verbatim>\<open>setup_user_memory_layout\<close>.\<close>

definition USER_STACK_TOP :: u64 where
  "USER_STACK_TOP = 0x7FFFFF0"

definition USER_STACK_SIZE :: u64 where
  "USER_STACK_SIZE = 0x10000"

function map_stack_pages :: "addr \<Rightarrow> u64 \<Rightarrow> u64 \<Rightarrow> u64 \<Rightarrow> machine \<Rightarrow> bool \<times> machine" where
  "map_stack_pages page_dir stack_bottom stack_pages i m =
     (if i < stack_pages then
        (case placement_kalloc_phys 0x1000 True m of (stack_mem, stack_phys, m) \<Rightarrow>
           if stack_mem = 0 then (False, m)
           else let m = snd (memset stack_mem 0 0x1000 m);
                    virtual_addr = stack_bottom + i * 0x1000;
                    rm = map_user page_dir virtual_addr stack_phys m
           in if fst rm \<noteq> 0 then (False, snd rm)
              else map_stack_pages page_dir stack_bottom stack_pages (i + 1) (snd rm))
      else (True, m))"
  by pat_completeness auto
termination
  by (relation "measure (\<lambda>(d, b, n, i, m). unat n - unat i)") (simp_all add: unat_count_up)

declare map_stack_pages.simps [simp del]

definition setup_user_memory_layout :: "addr \<Rightarrow> machine \<Rightarrow> bool \<times> machine" where
  "setup_user_memory_layout page_dir m =
     (let stack_bottom = USER_STACK_TOP - USER_STACK_SIZE;
          stack_pages = USER_STACK_SIZE div 0x1000
      in map_stack_pages page_dir stack_bottom stack_pages 0 m)"

subsection \<open>Words\<close>

lemma ADDRESS_eq: "ADDRESS a = ALIGN_DOWN a + KVIRTUAL_ADDRESS"
proof -
  have "(NOT 0xfff :: u64) = - 4096" by simp
  then show ?thesis by (simp add: ADDRESS_def ALIGN_DOWN_def)
qed

lemma PRESENT_iff: "PRESENT e \<longleftrightarrow> odd e"
  by (simp add: PRESENT_def and_one_eq mod_2_eq_odd)

lemma zero_not_present [simp]: "\<not> PRESENT 0"
  by (simp add: PRESENT_iff)

lemma index_bound: "unat (x AND 0x1ff :: u64) < 512"
proof -
  have "(0x1ff :: u64) = mask 9" by (simp add: mask_eq_exp_minus_1)
  then have "x AND 0x1ff = take_bit 9 x" by (simp add: take_bit_eq_mask)
  then have "unat (x AND 0x1ff) = take_bit 9 (unat x)" by (simp add: unsigned_take_bit_eq)
  then show ?thesis using take_bit_nat_less_exp [of 9 "unat x"] by simp
qed

lemma indices_bound [simp]:
  "unat (PTE a) < 512" "unat (PDE a) < 512" "unat (PDPT a) < 512" "unat (PML4 a) < 512"
  by (simp_all add: PTE_def PDE_def PDPT_def PML4_def index_bound)

text \<open>Two entries of page-aligned tables are the same cell only if table and index agree.\<close>

lemma unat_entry:
  assumes "IS_ALIGNED t" and "unat (i :: u64) < 512"
  shows "unat (t + 8 * i) = unat t + 8 * unat i"
proof -
  obtain k where k: "unat t = 4096 * k" using assms(1) by (auto simp: IS_ALIGNED_iff_dvd)
  then have "k < 4503599627370496" using u64_bound [of t] by simp
  moreover have "unat (8 * i) = 8 * unat i" using assms(2) by (simp add: unat_word_ariths)
  ultimately show ?thesis using assms(2) k by (simp add: unat_add_nowrap)
qed

lemma entry_inject:
  assumes "IS_ALIGNED t" "IS_ALIGNED t'" "unat (i :: u64) < 512" "unat (i' :: u64) < 512"
  shows "t + 8 * i = t' + 8 * i' \<longleftrightarrow> t = t' \<and> i = i'"
proof
  assume "t + 8 * i = t' + 8 * i'"
  then have eq: "unat t + 8 * unat i = unat t' + 8 * unat i'"
    using unat_entry assms by metis
  obtain k where k: "unat t = 4096 * k" using assms(1) by (rule IS_ALIGNED_E)
  obtain k' where k': "unat t' = 4096 * k'" using assms(2) by (rule IS_ALIGNED_E)
  have "k = k'" using eq k k' assms(3,4) by linarith
  then show "t = t' \<and> i = i'" using eq k k' by (simp add: word_unat_eq_iff)
qed simp

text \<open>The entry written for a new table: its address comes back, and it is present.\<close>

definition dir_flag :: "u64 \<Rightarrow> bool" where
  "dir_flag f \<longleftrightarrow> odd f \<and> f AND - 4096 = 0"

lemma dir_flag_3_7 [simp]: "dir_flag 3" "dir_flag 7"
  by (simp_all add: dir_flag_def)

lemma KVIRTUAL_aligned: "ALIGN_DOWN (t - KVIRTUAL_ADDRESS) = ALIGN_DOWN t - KVIRTUAL_ADDRESS"
proof -
  let ?s = "t - KVIRTUAL_ADDRESS"
  have k: "unat KVIRTUAL_ADDRESS = 4096 * 4503599626846208" by (simp add: KVIRTUAL_ADDRESS_def)
  have t: "t = ?s + KVIRTUAL_ADDRESS" by simp
  have "unat t = (unat ?s + unat KVIRTUAL_ADDRESS) mod 2 ^ 64"
    by (subst t) (simp only: unat_word_ariths, simp)
  then have "unat t mod 4096 = (unat ?s + unat KVIRTUAL_ADDRESS) mod 2 ^ 64 mod 4096" by simp
  also have "\<dots> = (unat ?s + unat KVIRTUAL_ADDRESS) mod 4096"
    by (rule mod_mod_cancel) simp
  also have "\<dots> = unat ?s mod 4096" unfolding k by presburger
  finally have m: "unat t mod 4096 = unat ?s mod 4096" .
  have d: "ALIGN_DOWN x = x - word_of_nat (unat x mod 4096)" for x
  proof -
    have "word_of_nat (unat (ALIGN_DOWN x)) = (word_of_nat (unat x - unat x mod 4096) :: u64)"
      by (simp only: unat_ALIGN_DOWN)
    then show ?thesis by (simp add: of_nat_diff)
  qed
  show ?thesis using m by (simp add: d)
qed

lemma ALIGN_DOWN_ident: "IS_ALIGNED t \<Longrightarrow> ALIGN_DOWN t = t"
  by (simp add: IS_ALIGNED_iff unat_ALIGN_DOWN word_unat_eq_iff)

lemma ADDRESS_physical: "IS_ALIGNED t \<Longrightarrow> ADDRESS (t - KVIRTUAL_ADDRESS) = t"
  by (simp add: ADDRESS_eq KVIRTUAL_aligned ALIGN_DOWN_ident)

lemma ADDRESS_table:
  assumes "IS_ALIGNED t" and "dir_flag f"
  shows "ADDRESS ((t - KVIRTUAL_ADDRESS) OR f) = t" and "PRESENT ((t - KVIRTUAL_ADDRESS) OR f)"
proof -
  have "ALIGN_DOWN ((t - KVIRTUAL_ADDRESS) OR f) = ALIGN_DOWN (t - KVIRTUAL_ADDRESS)"
    using assms(2) by (simp add: ALIGN_DOWN_def dir_flag_def bit.conj_disj_distrib2)
  moreover have "ALIGN_DOWN t = t"
    using assms(1) by (simp add: IS_ALIGNED_iff unat_ALIGN_DOWN word_unat_eq_iff)
  ultimately show "ADDRESS ((t - KVIRTUAL_ADDRESS) OR f) = t"
    by (simp add: ADDRESS_eq KVIRTUAL_aligned)
  show "PRESENT ((t - KVIRTUAL_ADDRESS) OR f)"
    using assms(2) by (simp add: PRESENT_iff dir_flag_def even_or_iff)
qed

lemma build_entry_present: "PRESENT (build_entry p f) \<longleftrightarrow> f AND 0x01 \<noteq> 0"
  by (simp add: PRESENT_iff build_entry_def Let_def even_or_iff even_and_iff)

subsection \<open>The processor's walk\<close>

text \<open>The cell of the last-level entry that a list of table indices leads to.\<close>

fun leaf_cell :: "cells \<Rightarrow> addr \<Rightarrow> u64 list \<Rightarrow> addr option" where
  "leaf_cell c t [] = None"
| "leaf_cell c t [i] = Some (t + 8 * i)"
| "leaf_cell c t (i # j # is) =
     (if PRESENT (c (t + 8 * i)) then leaf_cell c (ADDRESS (c (t + 8 * i))) (j # is) else None)"

definition page_index :: "addr \<Rightarrow> u64 list" where
  "page_index v = [PML4 v, PDPT v, PDE v, PTE v]"

definition walk :: "cells \<Rightarrow> addr \<Rightarrow> u64 list \<Rightarrow> u64 option" where
  "walk c t is =
     (case leaf_cell c t is of None \<Rightarrow> None
      | Some x \<Rightarrow> if PRESENT (c x) then Some (c x) else None)"

text \<open>The entry that translates \<open>v\<close> under a directory; \<open>None\<close> is a page fault.\<close>

definition translate :: "machine \<Rightarrow> addr \<Rightarrow> addr \<Rightarrow> u64 option" where
  "translate m dir v = walk (mem m) (ADDRESS dir) (page_index v)"

text \<open>
  What the processor lets a program do with the page: it combines the present (1), write (2) and user (4)
  bits of the entries of all levels, and one that is missing on any level is missing for the page.
  0 is a page fault for everybody, 7 a page that user programs read and write.
\<close>

fun access_bits :: "cells \<Rightarrow> addr \<Rightarrow> u64 list \<Rightarrow> u64" where
  "access_bits c t [] = 7"
| "access_bits c t (i # is) =
     (if PRESENT (c (t + 8 * i)) then c (t + 8 * i) AND access_bits c (ADDRESS (c (t + 8 * i))) is else 0)"

definition access :: "machine \<Rightarrow> addr \<Rightarrow> addr \<Rightarrow> u64" where
  "access m dir v = access_bits (mem m) (ADDRESS dir) (page_index v)"

text \<open>
  The part of this that the directories on the way to a page decide, when those that are missing are
  created with the flags \<open>f\<close>: the directories that exist keep their own flags.
\<close>

fun path_bits :: "cells \<Rightarrow> u64 \<Rightarrow> addr \<Rightarrow> u64 list \<Rightarrow> u64" where
  "path_bits c f t [] = 7"
| "path_bits c f t [i] = 7"
| "path_bits c f t (i # j # is) =
     (if PRESENT (c (t + 8 * i)) then c (t + 8 * i) AND path_bits c f (ADDRESS (c (t + 8 * i))) (j # is) else f)"

text \<open>The specification of the flags of a new directory: writable, and open to user programs for a user page.\<close>

definition path_rights :: "machine \<Rightarrow> addr \<Rightarrow> u8 \<Rightarrow> addr \<Rightarrow> u64" where
  "path_rights m dir flags v =
     path_bits (mem m) (if flags AND 0x04 \<noteq> 0 then 7 else 3) (ADDRESS dir) (page_index v)"

text \<open>No directory on the way to a page of the user half keeps user programs out.\<close>

definition user_open :: "machine \<Rightarrow> addr \<Rightarrow> bool" where
  "user_open m dir \<longleftrightarrow> (\<forall>v. PML4 v < 256 \<longrightarrow> path_bits (mem m) 7 (ADDRESS dir) (page_index v) = 7)"

text \<open>
  \<open>L t\<close> is the level of the table at \<open>t\<close> (4 the root, 1 the last, 0 no table). Tables are
  aligned pages of memory already handed out, and a present entry above the last level leads to a
  table one level down. Two entries may lead to the same table, as two of the boot code's do
  until it clears the one that maps the low addresses.
\<close>

definition points_to :: "machine \<Rightarrow> (addr \<Rightarrow> nat) \<Rightarrow> addr \<Rightarrow> u64 \<Rightarrow> addr \<Rightarrow> bool" where
  "points_to m L t i t' \<longleftrightarrow> 1 < L t \<and> unat i < 512 \<and> PRESENT (mem m (t + 8 * i))
     \<and> ADDRESS (mem m (t + 8 * i)) = t'"

definition tables_ok :: "machine \<Rightarrow> (addr \<Rightarrow> nat) \<Rightarrow> bool" where
  "tables_ok m L \<longleftrightarrow>
     (\<forall>t. L t \<noteq> 0 \<longrightarrow> IS_ALIGNED t \<and> t \<noteq> 0 \<and> unat t + 4096 \<le> unat (placement m)
        \<and> L t \<le> 4) \<and>
     (\<forall>t i t'. points_to m L t i t' \<longrightarrow> Suc (L t') = L t)"

text \<open>Two walks meet when they come to the same entry with the same indices to go.\<close>

fun meets :: "cells \<Rightarrow> addr \<Rightarrow> u64 list \<Rightarrow> addr \<Rightarrow> u64 list \<Rightarrow> bool" where
  "meets c t (i # is) u (j # js) \<longleftrightarrow> t = u \<and> i = j \<and> is = js
     \<or> is \<noteq> [] \<and> js \<noteq> [] \<and> PRESENT (c (t + 8 * i)) \<and> PRESENT (c (u + 8 * j))
       \<and> meets c (ADDRESS (c (t + 8 * i))) is (ADDRESS (c (u + 8 * j))) js"
| "meets c t [] u js \<longleftrightarrow> False"
| "meets c t is u [] \<longleftrightarrow> False"

text \<open>Two addresses are aliases when they share a last-level entry, or would once their tables exist;
  the user half of a directory is private when its pages have no aliases.\<close>

definition aliases :: "machine \<Rightarrow> addr \<Rightarrow> addr \<Rightarrow> addr \<Rightarrow> bool" where
  "aliases m dir v w \<longleftrightarrow> meets (mem m) (ADDRESS dir) (page_index v) (ADDRESS dir) (page_index w)"

text \<open>The same across directories.\<close>

definition shares :: "machine \<Rightarrow> addr \<Rightarrow> addr \<Rightarrow> addr \<Rightarrow> addr \<Rightarrow> bool" where
  "shares m d v e w \<longleftrightarrow> meets (mem m) (ADDRESS d) (page_index v) (ADDRESS e) (page_index w)"

definition user_page :: "addr \<Rightarrow> bool" where
  "user_page v \<longleftrightarrow> PML4 v < 256"

definition user_private :: "machine \<Rightarrow> addr \<Rightarrow> bool" where
  "user_private m dir \<longleftrightarrow> (\<forall>v w. user_page v \<longrightarrow> aliases m dir v w \<longrightarrow> page_index w = page_index v)"

lemma user_not_kernel: "user_page v \<Longrightarrow> PML4 v \<noteq> PML4 KVIRTUAL_ADDRESS"
  by (auto simp: user_page_def PML4_def KVIRTUAL_ADDRESS_def)

definition indices :: "u64 list \<Rightarrow> bool" where
  "indices is \<longleftrightarrow> (\<forall>i \<in> set is. unat i < 512)"

lemma indices_simps [simp]:
  "indices []" "indices (i # is) \<longleftrightarrow> unat i < 512 \<and> indices is"
  by (auto simp: indices_def)

lemma page_index_facts [simp]: "length (page_index v) = 4" "indices (page_index v)"
  by (simp_all add: page_index_def)

lemma tables_okD:
  assumes "tables_ok m L"
  shows "L t \<noteq> 0 \<Longrightarrow> IS_ALIGNED t" "L t \<noteq> 0 \<Longrightarrow> t \<noteq> 0"
    "L t \<noteq> 0 \<Longrightarrow> unat t + 4096 \<le> unat (placement m)"
    "points_to m L t i t' \<Longrightarrow> Suc (L t') = L t"
    "L t \<le> 4"
  using assms unfolding tables_ok_def by (blast, blast, blast, blast, cases "L t = 0", simp, blast)

lemma next_level:
  assumes "tables_ok m L" "L t = Suc (Suc n)" "unat i < 512" "PRESENT (mem m (t + 8 * i))"
  shows "L (ADDRESS (mem m (t + 8 * i))) = Suc n"
  using tables_okD(4) [OF assms(1), of t i "ADDRESS (mem m (t + 8 * i))"] assms(2-)
  by (simp add: points_to_def)

text \<open>Walks end at the same last-level entry exactly when they meet.\<close>

lemma meets_refl [simp]: "meets c t is t is \<longleftrightarrow> is \<noteq> []"
  by (cases "is") simp_all

lemma meets_absent: "\<not> PRESENT (c (t + 8 * i)) \<Longrightarrow> meets c t (i # is) u js \<longleftrightarrow> u = t \<and> js = i # is"
  by (cases js) auto

lemma meets_apartD:
  assumes "meets c t (i # is) u (j # js)" "t \<noteq> u"
  shows "PRESENT (c (u + 8 * j))" "meets c (ADDRESS (c (t + 8 * i))) is (ADDRESS (c (u + 8 * j))) js"
  using assms by auto

lemma meets_below:
  assumes "PRESENT (c (t + 8 * i))" "PRESENT (c (u + 8 * j))" "is \<noteq> []" "js \<noteq> []"
    and "meets c (ADDRESS (c (t + 8 * i))) is (ADDRESS (c (u + 8 * j))) js"
  shows "meets c t (i # is) u (j # js)"
  using assms by simp

lemma meets_leaf_cell: "meets c t is u js \<Longrightarrow> leaf_cell c t is = leaf_cell c u js"
proof (induction c t "is" u js rule: meets.induct)
  case (1 c t i "is" u j js)
  show ?case
  proof (cases "t = u \<and> i = j \<and> is = js")
    case False
    then have m: "is \<noteq> []" "js \<noteq> []" "PRESENT (c (t + 8 * i))" "PRESENT (c (u + 8 * j))"
      "meets c (ADDRESS (c (t + 8 * i))) is (ADDRESS (c (u + 8 * j))) js"
      using 1(2) by auto
    obtain k ks l ls where "is = k # ks" "js = l # ls" using m(1,2) by (cases "is"; cases js) auto
    then show ?thesis using 1(1) [OF m(5)] m by (simp del: meets.simps)
  qed simp
qed simp_all

lemma meets_walk: "meets c t is u js \<Longrightarrow> walk c t is = walk c u js"
  by (simp add: walk_def meets_leaf_cell)

lemma leaf_cell_meets:
  assumes ok: "tables_ok m L"
    and "leaf_cell (mem m) t is = Some x" "leaf_cell (mem m) u js = Some x"
    and "L t = length is" "L u = length js" "length is = length js" "indices is" "indices js"
  shows "meets (mem m) t is u js"
  using assms(2-)
proof (induction "mem m" t "is" arbitrary: u js rule: leaf_cell.induct)
  case (2 t i)
  then obtain j where [simp]: "js = [j]" by (cases js) auto
  have "IS_ALIGNED t" "IS_ALIGNED u" using 2 by (auto intro: tables_okD(1) [OF ok])
  then show ?case using 2 entry_inject [of t u i j] by simp
next
  case (3 t i j "is")
  then obtain k l ks where [simp]: "js = k # l # ks" by (cases js; cases "tl js") auto
  have P: "PRESENT (mem m (t + 8 * i))" "PRESENT (mem m (u + 8 * k))"
    using 3(2,3) by (auto split: if_splits)
  have "L (ADDRESS (mem m (t + 8 * i))) = Suc (length is)" "L (ADDRESS (mem m (u + 8 * k))) = Suc (length ks)"
    using next_level [OF ok] 3 P by simp_all
  then have "meets (mem m) (ADDRESS (mem m (t + 8 * i))) (j # is) (ADDRESS (mem m (u + 8 * k))) (l # ks)"
    by (intro 3(1) [OF P(1)]) (use 3 P in simp_all)
  then show ?case using P by simp
qed simp

lemma same_leaf_cell:
  assumes "tables_ok m L" "leaf_cell (mem m) (ADDRESS dir) (page_index v) = Some x" "L (ADDRESS dir) = 4" "L (ADDRESS d) = 4"
  shows "leaf_cell (mem m) (ADDRESS d) (page_index w) = Some x \<longleftrightarrow> shares m dir v d w"
  unfolding shares_def
proof
  assume "leaf_cell (mem m) (ADDRESS d) (page_index w) = Some x"
  then show "meets (mem m) (ADDRESS dir) (page_index v) (ADDRESS d) (page_index w)"
    by (rule leaf_cell_meets [OF assms(1,2)]) (use assms(3,4) in simp_all)
qed (use meets_leaf_cell assms(2) in force)

lemma aliases_shares: "aliases m dir v w = shares m dir v dir w"
  by (simp add: aliases_def shares_def)

lemma meets_sym: "meets c t is u js \<Longrightarrow> meets c u js t is"
  by (induction c t "is" u js rule: meets.induct) auto

lemma shares_sym: "shares m d v e w \<Longrightarrow> shares m e w d v"
  unfolding shares_def by (rule meets_sym)

lemma aliases_refl [simp]: "aliases m dir v v"
  by (simp add: aliases_def page_index_def)

text \<open>In a forest only equal walks meet.\<close>

definition forest :: "machine \<Rightarrow> (addr \<Rightarrow> nat) \<Rightarrow> bool" where
  "forest m L \<longleftrightarrow>
     (\<forall>t i u j t'. points_to m L t i t' \<and> points_to m L u j t' \<longrightarrow> t = u \<and> i = j)"

lemma forest_meets:
  assumes ok: "tables_ok m L" "forest m L" and "meets (mem m) t is u js"
    and "L t = length is" "L u = length js" "indices is" "indices js"
  shows "t = u \<and> is = js"
  using assms(3-)
proof (induction "mem m" t "is" u js rule: meets.induct)
  case (1 t i "is" u j js)
  show ?case
  proof (cases "t = u \<and> i = j \<and> is = js")
    case False
    let ?t = "ADDRESS (mem m (t + 8 * i))" and ?u = "ADDRESS (mem m (u + 8 * j))"
    have m: "is \<noteq> []" "js \<noteq> []" "PRESENT (mem m (t + 8 * i))" "PRESENT (mem m (u + 8 * j))" "meets (mem m) ?t is ?u js"
      using 1(2) False by auto
    have P: "points_to m L t i ?t" "points_to m L u j ?u" using 1(3-6) m by (auto simp: points_to_def)
    have "L ?t = length is" "L ?u = length js" using tables_okD(4) [OF ok(1)] P 1(3,4) by force+
    then have "?t = ?u \<and> is = js" using 1(5,6) by (intro 1(1) [OF m(5)]) simp_all
    then show ?thesis using P ok(2) unfolding forest_def by metis
  qed simp
qed simp_all

lemma forest_private:
  assumes "tables_ok m L" "forest m L" "L (ADDRESS dir) = 4"
  shows "user_private m dir"
  unfolding user_private_def aliases_def
  using forest_meets [OF assms(1,2)] assms(3) by (metis page_index_facts)

lemma leaf_cell_last_level:
  assumes ok: "tables_ok m L"
    and "leaf_cell (mem m) t is = Some x" "L t = length is" "indices is"
  shows "\<exists>p. L p = 1 \<and> x = p + 8 * last is"
  using assms(2-)
proof (induction "mem m" t "is" rule: leaf_cell.induct)
  case (3 t i j "is")
  have P: "PRESENT (mem m (t + 8 * i))" using 3(2) by (auto split: if_splits)
  have "L (ADDRESS (mem m (t + 8 * i))) = Suc (length is)" using next_level [OF ok] 3 P by simp
  then show ?case using 3 P by simp
qed auto

lemma walk_simps [simp]:
  "walk c t [] = None"
  "walk c t [i] = (if PRESENT (c (t + 8 * i)) then Some (c (t + 8 * i)) else None)"
  "walk c t (i # j # is) =
     (if PRESENT (c (t + 8 * i)) then walk c (ADDRESS (c (t + 8 * i))) (j # is) else None)"
  by (simp_all add: walk_def)

text \<open>The access to a page is what its entry and its path allow.\<close>

lemma access_walk:
  "is \<noteq> [] \<Longrightarrow> access_bits c t is = (case walk c t is of None \<Rightarrow> 0 | Some e \<Rightarrow> e AND path_bits c f t is)"
proof (induction c t "is" rule: leaf_cell.induct)
  case (3 c t i j "is")
  then show ?case by (auto simp: and.left_commute split: option.splits simp del: access_bits.simps(2) simp: access_bits.simps(2) [of c t i])
qed simp_all

lemma access_translate:
  "access m dir v = (case translate m dir v of None \<Rightarrow> 0 | Some e \<Rightarrow> e AND path_rights m dir flags v)"
  unfolding access_def translate_def path_rights_def by (rule access_walk) (simp add: page_index_def)

text \<open>A walk reads entries of tables only.\<close>

lemma walk_frame:
  assumes ok: "tables_ok m L"
    and same: "\<And>t i. L t \<noteq> 0 \<Longrightarrow> unat i < 512 \<Longrightarrow> c (t + 8 * i) = mem m (t + 8 * i)"
    and "L t = length is" "indices is"
  shows "walk c t is = walk (mem m) t is"
  using assms(3-)
proof (induction "mem m" t "is" rule: leaf_cell.induct)
  case (3 t i j "is")
  then show ?case using same [of t i] next_level [OF ok, of t "length is" i] by auto
qed (auto simp: same)

lemma path_bits_frame:
  assumes ok: "tables_ok m L"
    and same: "\<And>t i. L t \<noteq> 0 \<Longrightarrow> unat i < 512 \<Longrightarrow> c (t + 8 * i) = mem m (t + 8 * i)"
    and "L t = length is" "indices is"
  shows "path_bits c f t is = path_bits (mem m) f t is"
  using assms(3-)
proof (induction "mem m" t "is" rule: leaf_cell.induct)
  case (3 t i j "is")
  then show ?case using same [of t i] next_level [OF ok, of t "length is" i] by auto
qed simp_all

lemma meets_frame:
  assumes ok: "tables_ok m L"
    and same: "\<And>t i. L t \<noteq> 0 \<Longrightarrow> unat i < 512 \<Longrightarrow> c (t + 8 * i) = mem m (t + 8 * i)"
    and "L t = length is" "L u = length js" "indices is" "indices js"
  shows "meets c t is u js = meets (mem m) t is u js"
  using assms(3-)
proof (induction "mem m" t "is" u js rule: meets.induct)
  case (1 t i "is" u j js)
  have n: "L (ADDRESS (mem m (v + 8 * l))) = length ls"
    if "ls \<noteq> []" "L v = Suc (length ls)" "unat l < 512" "PRESENT (mem m (v + 8 * l))" for v l and ls :: "u64 list"
    using next_level [OF ok, of v "length ls - 1" l] that by (cases ls) simp_all
  show ?case
    using same [of t i] same [of u j] 1 n [of "is" t i] n [of js u j] by (cases "is = []"; cases "js = []") auto
qed simp_all

subsection \<open>Writing a last-level entry\<close>

lemma directory_not_leaf:
  assumes "tables_ok m L" "L p = 1" "1 < L t" "unat i < 512" "unat j < 512"
  shows "t + 8 * i \<noteq> p + 8 * j"
  using assms entry_inject [of t p i j] tables_okD(1) [OF assms(1), of t] tables_okD(1) [OF assms(1), of p]
  by auto

lemma tables_ok_store_leaf:
  assumes ok: "tables_ok m L" and "L p = 1" "unat j < 512"
  shows "tables_ok (store (p + 8 * j) e m) L"
proof -
  have "points_to (store (p + 8 * j) e m) L = points_to m L"
    using directory_not_leaf [OF ok assms(2)] assms(3) by (auto simp: points_to_def fun_eq_iff)
  then show ?thesis using ok by (simp add: tables_ok_def)
qed

lemma leaf_cell_store_leaf:
  assumes ok: "tables_ok m L" and p: "L p = 1" "unat k < 512"
    and "L t = length is" "indices is"
  shows "leaf_cell ((mem m)(p + 8 * k := e)) t is = leaf_cell (mem m) t is"
  using assms(4-)
proof (induction "mem m" t "is" rule: leaf_cell.induct)
  case (3 t i j "is")
  have "t + 8 * i \<noteq> p + 8 * k" using directory_not_leaf [OF ok p(1) _ _ p(2), of t i] 3(2,3) by simp
  moreover have "L (ADDRESS (mem m (t + 8 * i))) = Suc (length is)" if "PRESENT (mem m (t + 8 * i))"
    using next_level [OF ok] 3 that by simp
  ultimately show ?case using 3 by simp
qed simp_all

lemma meets_store_leaf:
  assumes ok: "tables_ok m L" and p: "L p = 1" "unat k < 512"
    and "L t = length is" "L u = length js" "indices is" "indices js"
  shows "meets ((mem m)(p + 8 * k := e)) t is u js = meets (mem m) t is u js"
  using assms(4-)
proof (induction "mem m" t "is" u js rule: meets.induct)
  case (1 t i "is" u j js)
  have c: "t + 8 * i \<noteq> p + 8 * k" if "is \<noteq> []"
    using directory_not_leaf [OF ok p(1) _ _ p(2), of t i] 1(2,4) that by simp
  have d: "u + 8 * j \<noteq> p + 8 * k" if "js \<noteq> []"
    using directory_not_leaf [OF ok p(1) _ _ p(2), of u j] 1(3,5) that by simp
  have n: "L (ADDRESS (mem m (v + 8 * l))) = length ls"
    if "ls \<noteq> []" "L v = Suc (length ls)" "unat l < 512" "PRESENT (mem m (v + 8 * l))" for v l and ls :: "u64 list"
    using next_level [OF ok, of v "length ls - 1" l] that by (cases ls) simp_all
  show ?case
    using c d 1 n [of "is" t i] n [of js u j]
    by (cases "is = []"; cases "js = []") auto
qed simp_all

lemma walk_store_leaf:
  assumes ok: "tables_ok m L" and p: "L p = 1" "unat k < 512"
    and "L t = length is" "indices is"
  shows "walk ((mem m)(p + 8 * k := e)) t is =
    (if leaf_cell (mem m) t is = Some (p + 8 * k) then (if PRESENT e then Some e else None)
     else walk (mem m) t is)"
  using leaf_cell_store_leaf [OF assms, of e] by (auto simp: walk_def split: option.splits)

lemma path_bits_store_leaf:
  assumes ok: "tables_ok m L" and p: "L p = 1" "unat k < 512"
    and "L t = length is" "indices is"
  shows "path_bits ((mem m)(p + 8 * k := e)) f t is = path_bits (mem m) f t is"
  using assms(4-)
proof (induction "mem m" t "is" rule: leaf_cell.induct)
  case (3 t i j "is")
  have "t + 8 * i \<noteq> p + 8 * k" using directory_not_leaf [OF ok p(1) _ _ p(2), of t i] 3(2,3) by simp
  moreover have "L (ADDRESS (mem m (t + 8 * i))) = Suc (length is)" if "PRESENT (mem m (t + 8 * i))"
    using next_level [OF ok] 3 that by simp
  ultimately show ?case using 3 by simp
qed simp_all

subsection \<open>Adding a table\<close>

text \<open>The bump pointer has room for so many pages, alignment included.\<close>

definition page_room :: "nat \<Rightarrow> machine \<Rightarrow> bool" where
  "page_room n m \<longleftrightarrow> 0 < unat (placement m)
     \<and> unat (placement m) + 8192 * n < 18446744073709551616"

lemma new_page:
  assumes "page_room (Suc n) m" and "m' = m\<lparr>placement := ALIGN_UP (placement m) + 0x1000\<rparr>"
  shows "IS_ALIGNED (ALIGN_UP (placement m))" "placement m \<le> ALIGN_UP (placement m)"
    "unat (placement m') = unat (ALIGN_UP (placement m)) + 4096" "ALIGN_UP (placement m) \<noteq> 0"
    "unat (placement m') < unat (placement m) + 8192"
proof -
  have b: "unat (placement m) \<le> 18446744073709547520"
    using assms(1) by (simp add: page_room_def)
  note ge = ALIGN_UP_ge [OF b] and lt = ALIGN_UP_lt [OF b]
  show "IS_ALIGNED (ALIGN_UP (placement m))" by simp
  show "placement m \<le> ALIGN_UP (placement m)" by (rule ge)
  have "unat (ALIGN_UP (placement m)) + unat (0x1000 :: u64) < 18446744073709551616"
    using lt assms(1) by (simp add: page_room_def)
  from unat_add_nowrap [OF this]
  show *: "unat (placement m') = unat (ALIGN_UP (placement m)) + 4096" by (simp add: assms(2))
  show "ALIGN_UP (placement m) \<noteq> 0"
    using b assms(1) by (auto simp: ALIGN_UP_0_iff page_room_def)
  show "unat (placement m') < unat (placement m) + 8192" using * lt by simp
qed

lemma page_room_step:
  assumes "page_room (Suc n) m" and "m' = m\<lparr>placement := ALIGN_UP (placement m) + 0x1000\<rparr>"
  shows "page_room n m'"
  using new_page [OF assms] assms(1) by (simp add: page_room_def)

text \<open>What one \<^verbatim>\<open>if (!PRESENT(...) && make)\<close> block does when it allocates.\<close>

definition added_table ::
  "machine \<Rightarrow> (addr \<Rightarrow> nat) \<Rightarrow> addr \<Rightarrow> u64 \<Rightarrow> u64 \<Rightarrow> nat \<Rightarrow> machine \<Rightarrow> bool" where
  "added_table m L t i f k m' \<longleftrightarrow> tables_ok m L \<and> 1 < L t \<and> unat i < 512
     \<and> \<not> PRESENT (mem m (t + 8 * i)) \<and> dir_flag f \<and> page_room (Suc k) m
     \<and> ensure_table (t + 8 * i) f True m = Some m'"

abbreviation new_table :: "machine \<Rightarrow> addr" where
  "new_table m \<equiv> ALIGN_UP (placement m)"

abbreviation level_after :: "machine \<Rightarrow> addr \<Rightarrow> (addr \<Rightarrow> nat) \<Rightarrow> addr \<Rightarrow> nat" where
  "level_after m t L \<equiv> L(new_table m := L t - 1)"

lemma added_tableD:
  assumes "added_table m L t i f k m'"
  shows "tables_ok m L" "1 < L t" "unat i < 512" "\<not> PRESENT (mem m (t + 8 * i))" "dir_flag f"
    "page_room (Suc k) m" "ensure_table (t + 8 * i) f True m = Some m'"
  using assms by (auto simp: added_table_def)

lemma added_result:
  assumes "added_table m L t i f k m'"
  shows "m' = store (t + 8 * i) ((new_table m - KVIRTUAL_ADDRESS) OR f)
     (snd (memset (new_table m) 0 0x1000 (m\<lparr>placement := new_table m + 0x1000\<rparr>)))"
  using added_tableD(4,7) [OF assms]
  by (simp add: ensure_table_def placement_kalloc_phys_eq Let_def sizeof_table_def)

lemma added_machine:
  assumes A: "added_table m L t i f k m'"
  shows "unat (placement m') = unat (new_table m) + 4096" "page_room k m'"
    "cr3 m' = cr3 m" "invlpgs m' = invlpgs m"
proof -
  note room = added_tableD(6) [OF A]
  let ?m = "m\<lparr>placement := new_table m + 0x1000\<rparr>"
  have "placement m' = placement ?m" by (simp add: added_result [OF A])
  then show "unat (placement m') = unat (new_table m) + 4096" "page_room k m'"
    using new_page(3) [OF room refl] page_room_step [OF room refl] by (simp_all add: page_room_def)
  show "cr3 m' = cr3 m" "invlpgs m' = invlpgs m" by (simp_all add: added_result [OF A])
qed

lemma added_new_page:
  assumes A: "added_table m L t i f k m'"
  shows "IS_ALIGNED (new_table m)" "unat (placement m) \<le> unat (new_table m)"
    "new_table m \<noteq> 0" "L (new_table m) = 0" "t \<noteq> new_table m"
proof -
  note D = added_tableD [OF A]
  show "IS_ALIGNED (new_table m)" by simp
  show p: "unat (placement m) \<le> unat (new_table m)" "new_table m \<noteq> 0"
    using new_page [OF D(6) refl] by (auto simp: wordnat)
  show n: "L (new_table m) = 0"
    using tables_okD(3) [OF D(1), of "new_table m"] p by (cases "L (new_table m) = 0") auto
  show "t \<noteq> new_table m" using n D(2) by auto
qed

lemma added_old_entry:
  assumes A: "added_table m L t i f k m'" and u: "L u \<noteq> 0" "unat j < 512" "u \<noteq> t \<or> j \<noteq> i"
  shows "mem m' (u + 8 * j) = mem m (u + 8 * j)"
proof -
  note D = added_tableD [OF A] and N = added_new_page [OF A]
  note T = tables_okD(1,3) [OF D(1) u(1)]
  have "u + 8 * j \<noteq> t + 8 * i"
    using entry_inject [of u t j i] u D(2,3) tables_okD(1) [OF D(1)] by auto
  moreover have "unat (u + 8 * j) < unat (new_table m)"
    using T unat_entry [OF T(1) u(2)] u(2) N(2) by simp
  ultimately show ?thesis
    using memset_page(2) [OF N(1), of "u + 8 * j"] by (simp add: added_result [OF A])
qed

lemma added_new_entry:
  assumes A: "added_table m L t i f k m'" and j: "unat j < 512"
  shows "mem m' (new_table m + 8 * j) = 0"
proof -
  note D = added_tableD [OF A] and N = added_new_page [OF A]
  have "new_table m + 8 * j \<noteq> t + 8 * i"
    using entry_inject [of "new_table m" t j i] j D(2,3) tables_okD(1) [OF D(1), of t] N by auto
  then show ?thesis using memset_page(1) [OF N(1) j] by (simp add: added_result [OF A])
qed

lemma added_link:
  assumes A: "added_table m L t i f k m'"
  shows "PRESENT (mem m' (t + 8 * i))" "ADDRESS (mem m' (t + 8 * i)) = new_table m"
  using ADDRESS_table [OF added_new_page(1) [OF A] added_tableD(5) [OF A]]
  by (simp_all add: added_result [OF A])

lemma added_points_to:
  assumes A: "added_table m L t i f k m'"
  shows "points_to m' (level_after m t L) u j u' \<longleftrightarrow>
    (u = t \<and> j = i \<and> u' = new_table m) \<or> points_to m L u j u'"
proof (cases "u = new_table m")
  case True
  then show ?thesis
    using added_new_page [OF A] added_new_entry [OF A, of j] by (auto simp: points_to_def PRESENT_iff)
next
  case False
  show ?thesis
  proof (cases "u = t \<and> j = i")
    case True
    then show ?thesis
      using False added_tableD [OF A] added_link [OF A] by (auto simp: points_to_def)
  next
    case other: False
    then show ?thesis
      using False added_old_entry [OF A, of u j] by (auto simp: points_to_def)
  qed
qed

lemma added_not_linked:
  assumes A: "added_table m L t i f k m'"
  shows "\<not> points_to m L u j (new_table m)"
  using tables_okD(4) [OF added_tableD(1) [OF A], of u j "new_table m"] added_new_page(4) [OF A]
  by (auto simp: points_to_def)

lemma added_tables_ok:
  assumes A: "added_table m L t i f k m'"
  shows "tables_ok m' (level_after m t L)"
proof -
  note D = added_tableD [OF A] and N = added_new_page [OF A] and P = added_machine(1) [OF A]
  have 1: "IS_ALIGNED u \<and> u \<noteq> 0 \<and> unat u + 4096 \<le> unat (placement m') \<and> level_after m t L u \<le> 4"
    if "level_after m t L u \<noteq> 0" for u
  proof (cases "u = new_table m")
    case True
    then show ?thesis using N P tables_okD(5) [OF D(1), of t] by simp
  next
    case False
    then have "L u \<noteq> 0" using that by simp
    then show ?thesis using tables_okD(1-3) [OF D(1), of u] tables_okD(5) [OF D(1), of u] N(2) P False by auto
  qed
  have 2: "Suc (level_after m t L u') = level_after m t L u"
    if "points_to m' (level_after m t L) u j u'" for u j u'
    using that unfolding added_points_to [OF A]
  proof
    assume "u = t \<and> j = i \<and> u' = new_table m"
    then show ?thesis using D(2) N by auto
  next
    assume p: "points_to m L u j u'"
    then have "u' \<noteq> new_table m" "u \<noteq> new_table m"
      using added_not_linked [OF A] N(4) by (auto simp: points_to_def)
    then show ?thesis using tables_okD(4) [OF D(1) p] by simp
  qed
  show ?thesis unfolding tables_ok_def using 1 2 by blast
qed

text \<open>A new table is empty, so linking it in changes no translation.\<close>

lemma added_walk:
  assumes A: "added_table m L t i f k m'" and "L u = length is" "indices is"
  shows "walk (mem m') u is = walk (mem m) u is"
  using assms(2-)
proof (induction "mem m" u "is" rule: leaf_cell.induct)
  case (2 u j)
  have "u \<noteq> t" using 2 added_tableD(2) [OF A] by auto
  then show ?case using 2 added_old_entry [OF A, of u j] by simp
next
  case (3 u j l "is")
  show ?case
  proof (cases "u = t \<and> j = i")
    case True
    have z: "mem m' (new_table m + 8 * l) = 0" using added_new_entry [OF A] 3(3) by simp
    have "walk (mem m') (new_table m) (l # is) = None"
      using z by (cases "is") (simp_all add: PRESENT_iff)
    then show ?thesis using True added_tableD(4) [OF A] added_link [OF A] by simp
  next
    case False
    then have e: "mem m' (u + 8 * j) = mem m (u + 8 * j)"
      using added_old_entry [OF A, of u j] 3(2,3) by simp
    have "L (ADDRESS (mem m (u + 8 * j))) = Suc (length is)" if "PRESENT (mem m (u + 8 * j))"
      using next_level [OF added_tableD(1) [OF A]] 3 that by simp
    then show ?thesis using e 3 by simp
  qed
qed simp

lemma added_meets:
  assumes A: "added_table m L t i f k m'"
    and "L u = length is" "L w = length js" "length is = length js" "indices is" "indices js"
  shows "meets (mem m') u is w js = meets (mem m) u is w js"
  using assms(2-)
proof (induction "mem m" u "is" w js rule: meets.induct)
  case (1 u j "is" w l js)
  note D = added_tableD [OF A] and N = added_new_page [OF A]
  show ?case
  proof (cases "is = []")
    case True
    then show ?thesis using 1(4) by simp
  next
    case ne: False
    then have ne': "js \<noteq> []" using 1(4) by auto
    have old: "mem m' (v + 8 * a) = mem m (v + 8 * a)" if "v \<noteq> t \<or> a \<noteq> i" "L v \<noteq> 0" "unat a < 512" for v a
      using added_old_entry [OF A that(2,3,1)] .
    have nx: "L (ADDRESS (mem m (v + 8 * a))) = length ls"
      if "PRESENT (mem m (v + 8 * a))" "L v = Suc (length ls)" "unat a < 512" "ls \<noteq> []" for v a and ls :: "u64 list"
      using next_level [OF D(1), of v "length ls - 1" a] that by (cases ls) simp_all
    have new: "\<not> meets (mem m') (new_table m) (a # ls) v ks" "\<not> meets (mem m') v ks (new_table m) (a # ls)"
      if "v \<noteq> new_table m" "unat a < 512" for v a ls ks
      using added_new_entry [OF A that(2)] that(1) by (cases ks; simp add: PRESENT_iff)+
    have same: "meets (mem m') (new_table m) (a # ls) (new_table m) (b # ks) \<longleftrightarrow> a # ls = b # ks"
      if "unat a < 512" for a b ls ks
      using added_new_entry [OF A that] by (auto simp: PRESENT_iff)
    obtain a ls b ks where c: "is = a # ls" "js = b # ks" using ne ne' by (cases "is"; cases js) auto
    have u: "L u \<noteq> 0" "L w \<noteq> 0" "unat j < 512" "unat l < 512" "unat a < 512" "unat b < 512"
      using 1(2-6) c by auto
    have link: "PRESENT (mem m' (t + 8 * i))" "ADDRESS (mem m' (t + 8 * i)) = new_table m" using added_link [OF A] .
    have far: "ADDRESS (mem m (v + 8 * d)) \<noteq> new_table m"
      if "PRESENT (mem m (v + 8 * d))" "L v = Suc (length (a # ls))" "unat d < 512" for v d
      using nx [OF that] N(4) by auto
    consider "u = t \<and> j = i" "w = t \<and> l = i" | "u = t \<and> j = i" "w \<noteq> t \<or> l \<noteq> i"
      | "u \<noteq> t \<or> j \<noteq> i" "w = t \<and> l = i" | "u \<noteq> t \<or> j \<noteq> i" "w \<noteq> t \<or> l \<noteq> i" by blast
    then show ?thesis
    proof cases
      case 1
      then show ?thesis using link D(4) same [OF u(5), of ls b ks] c by auto
    next
      case case2: 2
      have "\<not> meets (mem m') (new_table m) is (ADDRESS (mem m (w + 8 * l))) js" if "PRESENT (mem m (w + 8 * l))"
        using new(1) [OF far [OF that _ u(4)] u(5), of ls js] 1(3,4) c by simp
      then show ?thesis using case2 link D(4) old [OF case2(2) u(2,4)] c by auto
    next
      case case3: 3
      have "\<not> meets (mem m') (ADDRESS (mem m (u + 8 * j))) is (new_table m) js" if "PRESENT (mem m (u + 8 * j))"
        using new(2) [OF far [OF that _ u(3)] u(6), of "is" ks] 1(2) c by simp
      then show ?thesis using case3 link D(4) old [OF case3(1) u(1,3)] c by auto
    next
      case case4: 4
      have "meets (mem m') (ADDRESS (mem m (u + 8 * j))) is (ADDRESS (mem m (w + 8 * l))) js
          = meets (mem m) (ADDRESS (mem m (u + 8 * j))) is (ADDRESS (mem m (w + 8 * l))) js"
        if "PRESENT (mem m (u + 8 * j))" "PRESENT (mem m (w + 8 * l))"
        by (rule 1(1)) (use that 1 ne ne' u nx [of u j "is"] nx [of w l js] in simp_all)
      then show ?thesis using old [OF case4(1) u(1,3)] old [OF case4(2) u(2,4)] by auto
    qed
  qed
qed simp_all

text \<open>A new table brings the flags that \<open>path_bits\<close> foresees for it.\<close>

lemma new_table_flags:
  assumes "IS_ALIGNED t" "f = 3 \<or> f = 7"
  shows "((t - KVIRTUAL_ADDRESS) OR f) AND 7 = f" "((t - KVIRTUAL_ADDRESS) OR f) AND f = f"
proof -
  let ?p = "t - KVIRTUAL_ADDRESS"
  have "ALIGN_DOWN ?p = ?p" using assms(1) by (simp add: KVIRTUAL_aligned ALIGN_DOWN_ident)
  then have "?p AND 7 = (?p AND - 4096) AND 7" by (simp add: ALIGN_DOWN_def)
  also have "\<dots> = 0" by (simp add: and.assoc)
  finally show "(?p OR f) AND 7 = f" using assms(2) by (auto simp: bit.conj_disj_distrib2)
  show "(?p OR f) AND f = f" by (rule bit_eqI) (auto simp: bit_and_iff bit_or_iff)
qed

lemma added_path:
  assumes A: "added_table m L t i f k m'" and f: "f = 3 \<or> f = 7" and "L u = length is" "indices is"
  shows "path_bits (mem m') f u is = path_bits (mem m) f u is"
  using assms(3-)
proof (induction "mem m" u "is" rule: leaf_cell.induct)
  case (3 u j l "is")
  show ?case
  proof (cases "u = t \<and> j = i")
    case True
    have z: "mem m' (new_table m + 8 * l) = 0" using added_new_entry [OF A] 3(3) by simp
    have n: "path_bits (mem m') f (new_table m) (l # is) = (if is = [] then 7 else f)"
      using z by (cases "is") (simp_all add: PRESENT_iff)
    have "mem m' (t + 8 * i) = (new_table m - KVIRTUAL_ADDRESS) OR f" by (simp add: added_result [OF A])
    then show ?thesis
      using True added_tableD(4) [OF A] added_link [OF A] n new_table_flags [OF added_new_page(1) [OF A] f] by simp
  next
    case False
    then have e: "mem m' (u + 8 * j) = mem m (u + 8 * j)"
      using added_old_entry [OF A, of u j] 3(2,3) by simp
    have "L (ADDRESS (mem m (u + 8 * j))) = Suc (length is)" if "PRESENT (mem m (u + 8 * j))"
      using next_level [OF added_tableD(1) [OF A]] 3 that by simp
    then show ?thesis using e 3 by simp
  qed
qed simp_all

text \<open>A cell outside every table.\<close>

definition apart :: "(addr \<Rightarrow> nat) \<Rightarrow> addr \<Rightarrow> bool" where
  "apart L x \<longleftrightarrow> (\<forall>t i. L t \<noteq> 0 \<and> unat i < 512 \<longrightarrow> x \<noteq> t + 8 * i)"

definition keeps_apart :: "machine \<Rightarrow> (addr \<Rightarrow> nat) \<Rightarrow> machine \<Rightarrow> (addr \<Rightarrow> nat) \<Rightarrow> bool" where
  "keeps_apart m L m' L' \<longleftrightarrow> placement m \<le> placement m'
     \<and> (\<forall>x. apart L x \<and> x < placement m \<longrightarrow> mem m' x = mem m x \<and> apart L' x)"

lemma keeps_apart_refl: "keeps_apart m L m L"
  by (simp add: keeps_apart_def)

lemma keeps_apart_trans: "keeps_apart m L m' L' \<Longrightarrow> keeps_apart m' L' m'' L'' \<Longrightarrow> keeps_apart m L m'' L''"
  unfolding keeps_apart_def by (metis order_trans order_less_le_trans)

lemma keeps_apart_store:
  "L p \<noteq> 0 \<Longrightarrow> unat j < 512 \<Longrightarrow> keeps_apart m L (store (p + 8 * j) e m) L"
  by (auto simp: keeps_apart_def apart_def)

lemma added_apart:
  assumes A: "added_table m L t i f k m'"
  shows "keeps_apart m L m' (level_after m t L)"
  unfolding keeps_apart_def
proof (intro conjI allI impI)
  note D = added_tableD [OF A] and N = added_new_page [OF A]
  show "placement m \<le> placement m'" using added_machine(1) [OF A] N(2) by (simp add: wordnat)
  fix x assume x: "apart L x \<and> x < placement m"
  then have lt: "unat x < unat (new_table m)" using N(2) by (simp add: wordnat)
  have "x \<noteq> t + 8 * i" using x D(2,3) by (auto simp: apart_def)
  then show "mem m' x = mem m x"
    using lt memset_page(2) [OF N(1), of x] by (simp add: added_result [OF A])
  have "x \<noteq> new_table m + 8 * j" if "unat j < 512" for j
    using unat_entry [OF N(1) that] lt by auto
  then show "apart (level_after m t L) x" using x by (auto simp: apart_def)
qed

text \<open>The tables of a machine may grow: nothing that was a table or a translation changes, and
  neither does memory outside the tables that was handed out before.\<close>

definition grows :: "nat \<Rightarrow> machine \<Rightarrow> (addr \<Rightarrow> nat) \<Rightarrow> machine \<Rightarrow> (addr \<Rightarrow> nat) \<Rightarrow> bool" where
  "grows k m L m' L' \<longleftrightarrow> tables_ok m' L' \<and> page_room k m' \<and> cr3 m' = cr3 m \<and> invlpgs m' = invlpgs m
     \<and> (\<forall>u. L u \<noteq> 0 \<longrightarrow> L' u = L u)
     \<and> (\<forall>u is. L u = length is \<and> indices is \<longrightarrow> walk (mem m') u is = walk (mem m) u is)
     \<and> (\<forall>u j u'. points_to m L u j u' \<longrightarrow> points_to m' L' u j u') \<and> keeps_apart m L m' L'
     \<and> (\<forall>u is w js. L u = length is \<and> L w = length js \<and> length is = length js \<and> indices is \<and> indices js
          \<longrightarrow> meets (mem m') u is w js = meets (mem m) u is w js)"

lemma growsD:
  assumes "grows k m L m' L'"
  shows "tables_ok m' L'" "page_room k m'" "cr3 m' = cr3 m" "invlpgs m' = invlpgs m"
    "L u \<noteq> 0 \<Longrightarrow> L' u = L u"
    "L u = length is \<Longrightarrow> indices is \<Longrightarrow> walk (mem m') u is = walk (mem m) u is"
    "points_to m L u j u' \<Longrightarrow> points_to m' L' u j u'" "keeps_apart m L m' L'"
    "L u = length is \<Longrightarrow> L w = length js \<Longrightarrow> length is = length js \<Longrightarrow> indices is \<Longrightarrow> indices js
       \<Longrightarrow> meets (mem m') u is w js = meets (mem m) u is w js"
  using assms unfolding grows_def by blast+

lemma grows_shares:
  assumes "grows k m L m' L'" "L (ADDRESS d) = 4" "L (ADDRESS e) = 4"
  shows "shares m' d v e w = shares m d v e w"
  unfolding shares_def using growsD(9) [OF assms(1)] assms(2,3) by simp

lemma grows_trans:
  assumes g: "grows k m L m' L'" and h: "grows l m' L' m'' L''"
  shows "grows l m L m'' L''"
  unfolding grows_def
proof (intro conjI allI impI)
  fix u and "is" :: "u64 list"
  assume "L u = length is \<and> indices is"
  then show "walk (mem m'') u is = walk (mem m) u is"
    using growsD(6) [OF g, of u "is"] growsD(6) [OF h, of u "is"] growsD(5) [OF g, of u]
    by (cases "L u = 0") auto
next
  fix u assume "L u \<noteq> 0"
  then show "L'' u = L u" using growsD(5) [OF g, of u] growsD(5) [OF h, of u] by simp
next
  fix u w and "is" js :: "u64 list"
  assume a: "L u = length is \<and> L w = length js \<and> length is = length js \<and> indices is \<and> indices js"
  show "meets (mem m'') u is w js = meets (mem m) u is w js"
  proof (cases "is = []")
    case False
    then have "js \<noteq> []" using a by auto
    then have "L' u = L u" "L' w = L w" using a False growsD(5) [OF g, of u] growsD(5) [OF g, of w] by auto
    then show ?thesis using a growsD(9) [OF g, of u "is" w js] growsD(9) [OF h, of u "is" w js] by simp
  qed simp
qed (use growsD [OF h] growsD(3,4) [OF g] growsD(7) [OF g] keeps_apart_trans [OF growsD(8) [OF g] growsD(8) [OF h]] in auto)

lemma points_toI:
  assumes "tables_ok m L" "L t = Suc (Suc n)" "unat i < 512" "PRESENT (mem m (t + 8 * i))"
  shows "points_to m L t i (ADDRESS (mem m (t + 8 * i)))"
    "L (ADDRESS (mem m (t + 8 * i))) = Suc n"
  using assms next_level [OF assms] by (simp_all add: points_to_def)

lemma ensure_table_make:
  assumes ok: "tables_ok m L" and t: "L t = Suc (Suc n)" "unat i < 512" and f: "dir_flag f"
    and r: "page_room (Suc k) m"
  obtains m' L' t' where "ensure_table (t + 8 * i) f True m = Some m'" "grows k m L m' L'"
    "ADDRESS (mem m' (t + 8 * i)) = t'" "points_to m' L' t i t'" "L' t' = Suc n"
    "\<And>u is. f = 3 \<or> f = 7 \<Longrightarrow> L u = length is \<Longrightarrow> indices is \<Longrightarrow> path_bits (mem m') f u is = path_bits (mem m) f u is"
proof (cases "PRESENT (mem m (t + 8 * i))")
  case True
  then have "grows k m L m L" using ok r keeps_apart_refl by (simp add: grows_def page_room_def)
  moreover have "ensure_table (t + 8 * i) f True m = Some m" using True by (simp add: ensure_table_def)
  ultimately show ?thesis by (intro that [OF _ _ refl points_toI [OF ok t True]]) simp_all
next
  case False
  obtain m' where e: "ensure_table (t + 8 * i) f True m = Some m'"
    using False by (simp add: ensure_table_def placement_kalloc_phys_eq Let_def)
  have A: "added_table m L t i f k m'" using assms False e by (simp add: added_table_def)
  let ?L = "level_after m t L"
  note N = added_new_page [OF A]
  have "?L u = L u" if "L u \<noteq> 0" for u using that N(4) by auto
  then have g: "grows k m L m' ?L"
    unfolding grows_def
    using added_tables_ok [OF A] added_machine [OF A] added_walk [OF A] added_apart [OF A] added_meets [OF A]
    by (auto simp: added_points_to [OF A] simp del: One_nat_def)
  have "points_to m' ?L t i (new_table m)" by (simp only: added_points_to [OF A]) simp
  then show ?thesis
    using t added_path [OF A] by (intro that [OF e g added_link(2) [OF A]]) simp_all
qed

lemma get_page_make:
  assumes ok: "tables_ok m L" and root: "L (ADDRESS dir) = 4" and r: "page_room (k + 3) m"
  obtains m' L' p where "get_page dir v flags True m = (p, m')" "grows k m L m' L'"
    "L' p = 1" "p \<noteq> 0" "leaf_cell (mem m') (ADDRESS dir) (page_index v) = Some (p + 8 * PTE v)"
    "\<And>d w. L (ADDRESS d) = 4 \<Longrightarrow> path_rights m' d flags w = path_rights m d flags w"
proof -
  define f :: u64 where "f = (if flags AND 0x04 \<noteq> 0 then 0x01 OR 0x02 OR 0x04 else 0x01 OR 0x02)"
  have f: "dir_flag f" "f = 3 \<or> f = 7" by (simp_all add: f_def)
  have root': "L (ADDRESS dir) = Suc (Suc (Suc (Suc 0)))" using root by simp
  have r': "page_room (Suc (Suc (Suc k))) m" using r by (simp add: numeral_3_eq_3 add.commute)
  obtain m1 L1 t1 where 1: "ensure_table (ADDRESS dir + 8 * PML4 v) f True m = Some m1"
    "grows (Suc (Suc k)) m L m1 L1" "ADDRESS (mem m1 (ADDRESS dir + 8 * PML4 v)) = t1"
    "points_to m1 L1 (ADDRESS dir) (PML4 v) t1" "L1 t1 = Suc (Suc (Suc 0))"
    "\<And>u is. L u = length is \<Longrightarrow> indices is \<Longrightarrow> path_bits (mem m1) f u is = path_bits (mem m) f u is"
    by (rule ensure_table_make [OF ok root' _ f(1) r', of "PML4 v"]) (use f(2) in simp_all)
  obtain m2 L2 t2 where 2: "ensure_table (t1 + 8 * PDPT v) f True m1 = Some m2"
    "grows (Suc k) m1 L1 m2 L2" "ADDRESS (mem m2 (t1 + 8 * PDPT v)) = t2"
    "points_to m2 L2 t1 (PDPT v) t2" "L2 t2 = Suc (Suc 0)"
    "\<And>u is. L1 u = length is \<Longrightarrow> indices is \<Longrightarrow> path_bits (mem m2) f u is = path_bits (mem m1) f u is"
    by (rule ensure_table_make [OF growsD(1) [OF 1(2)] 1(5) _ f(1) growsD(2) [OF 1(2)], of "PDPT v"]) (use f(2) in simp_all)
  obtain m3 L3 t3 where 3: "ensure_table (t2 + 8 * PDE v) f True m2 = Some m3"
    "grows k m2 L2 m3 L3" "ADDRESS (mem m3 (t2 + 8 * PDE v)) = t3"
    "points_to m3 L3 t2 (PDE v) t3" "L3 t3 = Suc 0"
    "\<And>u is. L2 u = length is \<Longrightarrow> indices is \<Longrightarrow> path_bits (mem m3) f u is = path_bits (mem m2) f u is"
    by (rule ensure_table_make [OF growsD(1) [OF 2(2)] 2(5) _ f(1) growsD(2) [OF 2(2)], of "PDE v"]) (use f(2) in simp_all)
  have g: "grows k m L m3 L3" using grows_trans [OF 1(2) grows_trans [OF 2(2) 3(2)]] .
  have "get_page dir v flags True m = (t3, m3)"
  proof (cases "flags AND 0x04 = 0")
    case True
    then have "f = 3" by (simp add: f_def)
    then show ?thesis using 1(1,3) 2(1,3) 3(1,3) True by (simp add: get_page_def)
  next
    case False
    then have "f = 7" by (simp add: f_def)
    then show ?thesis using 1(1,3) 2(1,3) 3(1,3) False by (simp add: get_page_def)
  qed
  moreover have P: "points_to m3 L3 (ADDRESS dir) (PML4 v) t1" "points_to m3 L3 t1 (PDPT v) t2"
    using growsD(7) [OF 3(2) growsD(7) [OF 2(2) 1(4)]] growsD(7) [OF 3(2) 2(4)] by simp_all
  then have "leaf_cell (mem m3) (ADDRESS dir) (page_index v) = Some (t3 + 8 * PTE v)"
    using 3(4) by (simp add: page_index_def points_to_def)
  moreover have "t3 \<noteq> 0" using tables_okD(2) [OF growsD(1) [OF g], of t3] 3(5) by simp
  moreover have "path_rights m3 d flags w = path_rights m d flags w" if d: "L (ADDRESS d) = 4" for d w
  proof -
    have "L1 (ADDRESS d) = 4" using growsD(5) [OF 1(2), of "ADDRESS d"] d by simp
    moreover have "L2 (ADDRESS d) = 4" using growsD(5) [OF 2(2), of "ADDRESS d"] calculation by simp
    moreover have "f = (if flags AND 0x04 \<noteq> 0 then 7 else 3)" by (simp add: f_def)
    ultimately show ?thesis using 1(6) 2(6) 3(6) d by (simp add: path_rights_def)
  qed
  ultimately show ?thesis using that g 3(5) by simp
qed

subsection \<open>Mapping and unmapping\<close>

definition paging_ok :: "machine \<Rightarrow> addr \<Rightarrow> bool" where
  "paging_ok m dir \<longleftrightarrow> (\<exists>L. tables_ok m L \<and> L (ADDRESS dir) = 4)"

lemma page_index_eq_iff:
  "page_index v = page_index w \<longleftrightarrow> PML4 v = PML4 w \<and> PDPT v = PDPT w \<and> PDE v = PDE w \<and> PTE v = PTE w"
  by (simp add: page_index_def)

lemma invlpg_keeps [simp]:
  "tables_ok (tlb_flush a m) L = tables_ok m L" "points_to (tlb_flush a m) L = points_to m L" "mem (tlb_flush a m) = mem m"
  "cr3 (tlb_flush a m) = cr3 m"
  "placement (tlb_flush a m) = placement m" "invlpgs (tlb_flush a m) = a # invlpgs m"
  by (simp_all add: tlb_flush_def tables_ok_def points_to_def fun_eq_iff)

lemma points_to_store_leaf:
  assumes "tables_ok m L" "L p = 1" "unat j < 512"
  shows "points_to (store (p + 8 * j) e m) L = points_to m L"
  using directory_not_leaf [OF assms(1,2)] assms(3) by (auto simp: points_to_def fun_eq_iff)

text \<open>What mapping does under every directory of the machine.\<close>

lemma map_page_roots:
  assumes ok: "tables_ok m L" and root: "L (ADDRESS dir) = 4" and r: "page_room (k + 3) m"
  obtains m' L' where "map_page dir v p flags m = (0, m')" "tables_ok m' L'"
    "\<And>d. L (ADDRESS d) = 4 \<Longrightarrow> L' (ADDRESS d) = 4"
    "invlpgs m' = dir # invlpgs m" "page_room k m'" "keeps_apart m L m' L'" "cr3 m' = cr3 m"
    "\<And>t i u. points_to m L t i u \<Longrightarrow> points_to m' L' t i u"
    "\<And>d u e w. L (ADDRESS d) = 4 \<Longrightarrow> L (ADDRESS e) = 4 \<Longrightarrow> shares m' d u e w = shares m d u e w"
    "\<And>d w. L (ADDRESS d) = 4 \<Longrightarrow> translate m' d w =
       (if shares m dir v d w
        then (if PRESENT (build_entry p flags) then Some (build_entry p flags) else None)
        else translate m d w)"
    "\<And>d w. L (ADDRESS d) = 4 \<Longrightarrow> path_rights m' d flags w = path_rights m d flags w"
proof -
  obtain m1 L1 t where g: "get_page dir v flags True m = (t, m1)" "grows k m L m1 L1"
    "L1 t = 1" "t \<noteq> 0" "leaf_cell (mem m1) (ADDRESS dir) (page_index v) = Some (t + 8 * PTE v)"
    "\<And>d w. L (ADDRESS d) = 4 \<Longrightarrow> path_rights m1 d flags w = path_rights m d flags w"
    by (rule get_page_make [OF ok root r, of v flags]) blast
  note ok1 = growsD(1) [OF g(2)]
  have root1: "L1 (ADDRESS d) = 4" if "L (ADDRESS d) = 4" for d
    using growsD(5) [OF g(2), of "ADDRESS d"] that by simp
  let ?e = "build_entry p flags"
  let ?m = "tlb_flush dir (store (t + 8 * PTE v) ?e m1)"
  have ok': "tables_ok ?m L1" using tables_ok_store_leaf [OF ok1 g(3)] by simp
  have a: "shares ?m d u e w = shares m d u e w" if "L (ADDRESS d) = 4" "L (ADDRESS e) = 4" for d u e w
    using meets_store_leaf [OF ok1 g(3)] root1 [OF that(1)] root1 [OF that(2)] grows_shares [OF g(2) that, of u w]
    by (simp add: shares_def)
  have w: "translate ?m d w = (if shares m dir v d w
      then (if PRESENT ?e then Some ?e else None) else translate m d w)" if d: "L (ADDRESS d) = 4" for d w
  proof -
    have "leaf_cell (mem m1) (ADDRESS d) (page_index w) = Some (t + 8 * PTE v) \<longleftrightarrow> shares m dir v d w"
      using same_leaf_cell [OF ok1 g(5) root1 [OF root] root1 [OF d]] grows_shares [OF g(2) root d] by simp
    moreover have "walk (mem m1) (ADDRESS d) (page_index w) = translate m d w"
      using growsD(6) [OF g(2), of "ADDRESS d" "page_index w"] d by (simp add: translate_def)
    ultimately show ?thesis
      using walk_store_leaf [OF ok1 g(3), of "PTE v" "ADDRESS d" "page_index w" ?e] root1 [OF d]
      by (simp add: translate_def)
  qed
  have pt: "points_to ?m L1 t' i u" if "points_to m L t' i u" for t' i u
    using growsD(7) [OF g(2) that] points_to_store_leaf [OF ok1 g(3), of "PTE v" ?e] by simp
  have r: "path_rights ?m d flags w = path_rights m d flags w" if d: "L (ADDRESS d) = 4" for d w
    using path_bits_store_leaf [OF ok1 g(3)] root1 [OF d] g(6) [OF d, of w] by (simp add: path_rights_def)
  have made: "map_page dir v p flags m = (0, ?m)" using g(1,4) by (simp add: map_page_def Let_def)
  have M: "invlpgs ?m = dir # invlpgs m" "page_room k ?m" "cr3 ?m = cr3 m"
    using growsD(2,3,4) [OF g(2)] by (simp_all add: page_room_def)
  have "keeps_apart m L ?m L1"
    using keeps_apart_trans [OF growsD(8) [OF g(2)] keeps_apart_store, of t "PTE v" ?e] g(3)
    by (simp add: keeps_apart_def)
  show ?thesis by (rule that) fact+
qed

lemma map_page_tables:
  assumes ok: "tables_ok m L" and root: "L (ADDRESS dir) = 4" and r: "page_room (k + 3) m"
  obtains m' L' where "map_page dir v p flags m = (0, m')" "tables_ok m' L'" "L' (ADDRESS dir) = 4"
    "invlpgs m' = dir # invlpgs m" "page_room k m'" "keeps_apart m L m' L'" "aliases m' dir = aliases m dir"
    "\<And>w. translate m' dir w =
       (if aliases m dir v w
        then (if PRESENT (build_entry p flags) then Some (build_entry p flags) else None)
        else translate m dir w)"
proof -
  obtain m' L' where m': "map_page dir v p flags m = (0, m')" "tables_ok m' L'"
    "\<And>d. L (ADDRESS d) = 4 \<Longrightarrow> L' (ADDRESS d) = 4" "invlpgs m' = dir # invlpgs m" "page_room k m'" "keeps_apart m L m' L'"
    "\<And>d u e w. L (ADDRESS d) = 4 \<Longrightarrow> L (ADDRESS e) = 4 \<Longrightarrow> shares m' d u e w = shares m d u e w"
    "\<And>d w. L (ADDRESS d) = 4 \<Longrightarrow> translate m' d w = (if shares m dir v d w
       then (if PRESENT (build_entry p flags) then Some (build_entry p flags) else None) else translate m d w)"
    by (rule map_page_roots [OF assms, of v p flags]) blast
  have "aliases m' dir = aliases m dir" unfolding fun_eq_iff aliases_shares using m'(7) [OF root root] by blast
  then show thesis by (intro that [OF m'(1,2) m'(3) [OF root] m'(4-6)]) (simp_all add: aliases_shares m'(8) [OF root])
qed

lemma map_page_spec:
  assumes "paging_ok m dir" and r: "page_room (k + 3) m"
  obtains m' where "map_page dir v p flags m = (0, m')" "paging_ok m' dir"
    "invlpgs m' = dir # invlpgs m" "page_room k m'" "aliases m' dir = aliases m dir"
    "\<And>w. translate m' dir w =
       (if aliases m dir v w
        then (if PRESENT (build_entry p flags) then Some (build_entry p flags) else None)
        else translate m dir w)"
proof -
  obtain L where "tables_ok m L" "L (ADDRESS dir) = 4"
    using assms(1) by (auto simp: paging_ok_def)
  then obtain m' L' where m': "map_page dir v p flags m = (0, m')" "tables_ok m' L'" "L' (ADDRESS dir) = 4"
    "invlpgs m' = dir # invlpgs m" "page_room k m'" "keeps_apart m L m' L'" "aliases m' dir = aliases m dir"
    "\<And>w. translate m' dir w = (if aliases m dir v w
       then (if PRESENT (build_entry p flags) then Some (build_entry p flags) else None) else translate m dir w)"
    by (rule map_page_tables [OF _ _ r, of L dir v p flags]) blast
  have "paging_ok m' dir" using m'(2,3) by (auto simp: paging_ok_def)
  then show thesis using m'(4,5,7,8) by (rule that [OF m'(1)])
qed

text \<open>The access that mapping gives.\<close>

lemma build_entry_bits: "build_entry p flags AND 7 = ucast flags AND 7"
proof (rule bit_eqI)
  fix n assume n: "possible_bit TYPE(u64) n"
  define q where "q = p AND NOT 0xFFF"
  have "q AND 7 = 0" by (simp add: q_def and.assoc)
  then have z: "\<not> bit (q AND 7) n" by simp
  have b: "flags AND 0x01 \<noteq> 0 \<longleftrightarrow> bit flags 0" "flags AND 0x02 \<noteq> 0 \<longleftrightarrow> bit flags 1" "flags AND 0x04 \<noteq> 0 \<longleftrightarrow> bit flags 2"
    using and_exp_eq_0_iff_not_bit [of flags 0] and_exp_eq_0_iff_not_bit [of flags 1] and_exp_eq_0_iff_not_bit [of flags 2]
    by simp_all
  have e: "bit (7 :: u64) n \<longleftrightarrow> n < 3" "bit (4 :: u64) n \<longleftrightarrow> n = 2" "bit (2 :: u64) n \<longleftrightarrow> n = 1" "bit (1 :: u64) n \<longleftrightarrow> n = 0"
    by (auto simp: numeral_eq_Suc less_Suc_eq bit_Suc gr0_conv_Suc bit_1_iff)
  show "bit (build_entry p flags AND 7) n \<longleftrightarrow> bit (ucast flags AND 7 :: u64) n"
  proof (cases "n < 3")
    case True
    have "bit (7 :: u64) n" using True e(1) by blast
    then have "\<not> bit q n" using z unfolding bit_and_iff by blast
    moreover have "n = 0 \<or> n = 1 \<or> n = 2" using True by auto
    ultimately show ?thesis
      using n unfolding build_entry_def q_def [symmetric] Let_def b
      by (elim disjE) (simp_all add: bit_and_iff bit_or_iff bit_unsigned_iff e)
  next
    case False
    then have "\<not> bit (7 :: u64) n" using e(1) by blast
    then show ?thesis unfolding bit_and_iff by blast
  qed
qed

lemma path_bits_low: "7 AND f = f \<Longrightarrow> 7 AND path_bits c f t is = path_bits c f t is"
  by (induction c f t "is" rule: path_bits.induct) (auto simp: and.left_commute [of 7])

lemma entry_rights: "build_entry p flags AND path_rights m dir f v = ucast flags AND path_rights m dir f v"
proof -
  have "7 AND path_rights m dir f v = path_rights m dir f v"
    unfolding path_rights_def by (rule path_bits_low) simp
  then show ?thesis using build_entry_bits [of p flags] by (metis and.assoc)
qed

lemma map_page_rights:
  assumes "paging_ok m dir" "page_room 3 m"
  shows "path_rights (snd (map_page dir v p flags m)) dir flags w = path_rights m dir flags w"
proof -
  obtain L where L: "tables_ok m L" "L (ADDRESS dir) = 4" using assms(1) by (auto simp: paging_ok_def)
  have "page_room (0 + 3) m" using assms(2) by simp
  then show ?thesis by (rule map_page_roots [OF L, of _ v p flags]) (use L(2) in simp)
qed

text \<open>C7. Given boot memory for the tables that may be missing, mapping a page succeeds, keeps the
  tables in order, and changes one translation: the page of the given address, with its aliases, is
  translated to the given frame (or faults, when the caller does not pass the present flag). What the
  processor allows there is what the caller's flags and the directories on the way allow: those that
  existed keep their flags, those that are created allow writing, and user programs if the caller
  asks for a user page. Every other page keeps its translation and its access, and no page gets or
  loses an alias, whatever tables had to be added. A page of a private user half has no alias, so that
  there exactly one page changes.\<close>

theorem map_installs_one_translation:
  assumes "paging_ok m dir" and "page_room 3 m"
  shows "fst (map_page dir v p flags m) = 0
   \<and> paging_ok (snd (map_page dir v p flags m)) dir
   \<and> translate (snd (map_page dir v p flags m)) dir v
     = (if flags AND 0x01 \<noteq> 0 then Some (build_entry p flags) else None)
   \<and> access (snd (map_page dir v p flags m)) dir v
     = (if flags AND 0x01 \<noteq> 0 then ucast flags AND path_rights m dir flags v else 0)
   \<and> (\<forall>w. \<not> aliases m dir v w \<longrightarrow>
        translate (snd (map_page dir v p flags m)) dir w = translate m dir w
        \<and> access (snd (map_page dir v p flags m)) dir w = access m dir w)
   \<and> aliases (snd (map_page dir v p flags m)) dir = aliases m dir
   \<and> (user_private m dir \<and> user_page v \<longrightarrow>
        (\<forall>w. page_index w \<noteq> page_index v \<longrightarrow>
           translate (snd (map_page dir v p flags m)) dir w = translate m dir w))"
proof -
  obtain m' where m': "map_page dir v p flags m = (0, m')" "paging_ok m' dir" "aliases m' dir = aliases m dir"
    "\<And>w. translate m' dir w = (if aliases m dir v w
       then (if PRESENT (build_entry p flags) then Some (build_entry p flags) else None)
       else translate m dir w)"
    by (rule map_page_spec [OF assms(1), of 0 v p flags]) (use assms(2) in simp_all)
  have "path_rights m' dir flags w = path_rights m dir flags w" for w
    using map_page_rights [OF assms, of v p flags w] m'(1) by simp
  then have "access m' dir v = (if flags AND 0x01 \<noteq> 0 then ucast flags AND path_rights m dir flags v else 0)"
    "\<And>w. \<not> aliases m dir v w \<Longrightarrow> access m' dir w = access m dir w"
    by (simp_all add: access_translate [where flags = flags] m'(4) build_entry_present entry_rights split: option.split)
  moreover have "\<not> aliases m dir v w" if "user_private m dir" "user_page v" "page_index w \<noteq> page_index v" for w
    using that unfolding user_private_def by blast
  ultimately show ?thesis using m' by (simp add: build_entry_present)
qed

text \<open>Unmapping.\<close>

lemma unmap_eq:
  "unmap dir v m =
     (case leaf_cell (mem m) (ADDRESS dir) (page_index v) of None \<Rightarrow> m
      | Some x \<Rightarrow> if PRESENT (mem m x)
                 then tlb_flush 0 (store x (mem m x AND NOT 0xfff) m) else m)"
  by (simp add: unmap_def page_index_def Let_def)

lemma not_present_masked: "\<not> PRESENT (e AND NOT 0xfff)"
  by (simp add: PRESENT_iff even_and_iff)

lemma unmap_roots:
  assumes ok: "tables_ok m L" and root: "L (ADDRESS dir) = 4"
  shows "tables_ok (unmap dir v m) L"
    "L (ADDRESS d) = 4 \<Longrightarrow> translate (unmap dir v m) d w = (if shares m dir v d w then None else translate m d w)"
    "invlpgs (unmap dir v m) = (if translate m dir v = None then invlpgs m else 0 # invlpgs m)"
    "keeps_apart m L (unmap dir v m) L" "placement (unmap dir v m) = placement m" "cr3 (unmap dir v m) = cr3 m"
    "L (ADDRESS d) = 4 \<Longrightarrow> L (ADDRESS e) = 4 \<Longrightarrow> shares (unmap dir v m) d u e w = shares m d u e w"
    "points_to (unmap dir v m) L = points_to m L"
proof -
  let ?c = "unmap dir v m"
  have *: "tables_ok ?c L \<and>
    (L (ADDRESS d) = 4 \<longrightarrow> translate ?c d w = (if shares m dir v d w then None else translate m d w)) \<and>
    invlpgs ?c = (if translate m dir v = None then invlpgs m else 0 # invlpgs m) \<and>
    keeps_apart m L ?c L \<and> placement ?c = placement m \<and> cr3 ?c = cr3 m \<and>
    (L (ADDRESS d) = 4 \<longrightarrow> L (ADDRESS e) = 4 \<longrightarrow> shares ?c d u e w = shares m d u e w) \<and>
    points_to ?c L = points_to m L"
  proof (cases "translate m dir v")
    case None
    then have "?c = m"
      by (auto simp: unmap_eq translate_def walk_def split: option.splits if_splits)
    moreover have "translate m d w = None" if "shares m dir v d w"
      using None that meets_walk unfolding translate_def shares_def by metis
    ultimately show ?thesis using ok None keeps_apart_refl by auto
  next
    case (Some e0)
    then obtain x where x: "leaf_cell (mem m) (ADDRESS dir) (page_index v) = Some x"
      "PRESENT (mem m x)"
      by (auto simp: translate_def walk_def split: option.splits if_splits)
    let ?e = "mem m x AND NOT 0xfff"
    have un: "?c = tlb_flush 0 (store x ?e m)" using x by (simp add: unmap_eq)
    obtain t where t: "L t = 1" "x = t + 8 * last (page_index v)"
      using leaf_cell_last_level [OF ok x(1)] root by auto
    have b: "unat (last (page_index v)) < 512" by (simp add: page_index_def)
    have "translate ?c d w = (if shares m dir v d w then None else translate m d w)" if "L (ADDRESS d) = 4"
      using walk_store_leaf [OF ok t(1) b, of "ADDRESS d" "page_index w" ?e] that t(2)
        not_present_masked [of "mem m x"] same_leaf_cell [OF ok x(1) root that, of w]
      by (simp add: un translate_def)
    moreover have "tables_ok ?c L"
      using tables_ok_store_leaf [OF ok t(1) b, of ?e] t(2) by (simp add: un)
    moreover have "keeps_apart m L ?c L"
      using keeps_apart_store [of L t _ m ?e, OF _ b] t by (simp add: un keeps_apart_def)
    moreover have "shares ?c d u e w = shares m d u e w" if "L (ADDRESS d) = 4" "L (ADDRESS e) = 4"
      unfolding shares_def using meets_store_leaf [OF ok t(1) b] t(2) that by (simp add: un)
    moreover have "points_to ?c L = points_to m L"
      using points_to_store_leaf [OF ok t(1) b, of ?e] t(2) by (simp add: un)
    ultimately show ?thesis using Some by (simp add: un)
  qed
  then show "tables_ok ?c L"
    "L (ADDRESS d) = 4 \<Longrightarrow> translate ?c d w = (if shares m dir v d w then None else translate m d w)"
    "invlpgs ?c = (if translate m dir v = None then invlpgs m else 0 # invlpgs m)"
    "keeps_apart m L ?c L" "placement ?c = placement m" "cr3 ?c = cr3 m"
    "L (ADDRESS d) = 4 \<Longrightarrow> L (ADDRESS e) = 4 \<Longrightarrow> shares ?c d u e w = shares m d u e w"
    "points_to ?c L = points_to m L"
    by blast+
qed

lemma unmap_tables:
  assumes ok: "tables_ok m L" and root: "L (ADDRESS dir) = 4"
  shows "tables_ok (unmap dir v m) L"
    "translate (unmap dir v m) dir w = (if aliases m dir v w then None else translate m dir w)"
    "invlpgs (unmap dir v m) = (if translate m dir v = None then invlpgs m else 0 # invlpgs m)"
    "aliases (unmap dir v m) dir = aliases m dir"
  unfolding fun_eq_iff aliases_shares using unmap_roots [OF assms] root by blast+

lemma unmap_spec:
  assumes "paging_ok m dir"
  shows "paging_ok (unmap dir v m) dir"
    "translate (unmap dir v m) dir w = (if aliases m dir v w then None else translate m dir w)"
    "invlpgs (unmap dir v m) = (if translate m dir v = None then invlpgs m else 0 # invlpgs m)"
    "aliases (unmap dir v m) dir = aliases m dir"
proof -
  obtain L where L: "tables_ok m L" "L (ADDRESS dir) = 4" using assms by (auto simp: paging_ok_def)
  note u = unmap_tables [OF L]
  show "paging_ok (unmap dir v m) dir" unfolding paging_ok_def using u(1) L(2) by blast
  show "translate (unmap dir v m) dir w = (if aliases m dir v w then None else translate m dir w)"
    "invlpgs (unmap dir v m) = (if translate m dir v = None then invlpgs m else 0 # invlpgs m)"
    "aliases (unmap dir v m) dir = aliases m dir"
    by (rule u)+
qed

text \<open>C8. Unmapping a page keeps the tables in order, makes that page and its aliases fault, and
  leaves every other translation and all aliases as they were; unmapping a page that is not mapped
  changes nothing.\<close>

theorem unmap_removes_one_translation:
  assumes "paging_ok m dir"
  shows "paging_ok (unmap dir v m) dir
   \<and> translate (unmap dir v m) dir v = None
   \<and> (\<not> aliases m dir v w \<longrightarrow> translate (unmap dir v m) dir w = translate m dir w)
   \<and> aliases (unmap dir v m) dir = aliases m dir
   \<and> (translate m dir v = None \<longrightarrow> unmap dir v m = m)"
proof -
  have "unmap dir v m = m" if "translate m dir v = None"
    using that by (auto simp: unmap_eq translate_def walk_def split: option.splits if_splits)
  then show ?thesis
    using unmap_spec(1,4) [OF assms, of v] unmap_spec(2) [OF assms, of v v] unmap_spec(2) [OF assms, of v w]
    by simp
qed

text \<open>The operands of the \<^verbatim>\<open>invlpg\<close> instructions issued between two states.\<close>

definition new_flushes :: "machine \<Rightarrow> machine \<Rightarrow> addr list" where
  "new_flushes m m' = take (length (invlpgs m') - length (invlpgs m)) (invlpgs m')"

text \<open>Neither operation invalidates the translation it changed: \<^verbatim>\<open>unmap\<close> flushes the
  page at address 0 and \<^verbatim>\<open>map\<close> the page whose virtual address is the directory's physical
  address, so a processor that cached the old entry keeps using it (unless the page happens to be one
  of these two).\<close>

theorem changed_page_not_flushed:
  assumes "paging_ok m dir" "page_room 3 m" and "translate m dir v = Some e"
    and "page_index v \<noteq> page_index 0" "page_index v \<noteq> page_index dir"
  shows "translate (unmap dir v m) dir v \<noteq> translate m dir v
   \<and> (\<forall>a \<in> set (new_flushes m (unmap dir v m)). page_index a \<noteq> page_index v)
   \<and> (\<forall>a \<in> set (new_flushes m (snd (map_page dir v p flags m))). page_index a \<noteq> page_index v)"
proof -
  have "page_room (0 + 3) m" using assms(2) by simp
  note map_page_spec [OF assms(1) this, of v p flags]
  then obtain m' where "map_page dir v p flags m = (0, m')" "invlpgs m' = dir # invlpgs m"
    by blast
  then show ?thesis
    using unmap_spec(2) [OF assms(1), of v v] unmap_spec(3) [OF assms(1), of v] assms(3-) by (auto simp: new_flushes_def)
qed

subsection \<open>A page that is not a table\<close>

lemma fresh_page:
  assumes ok: "tables_ok m L" and r: "page_room (Suc n) m"
    and m': "m' = snd (memset (new_table m) 0 0x1000 (m\<lparr>placement := new_table m + 0x1000\<rparr>))"
  shows "tables_ok m' L" "page_room n m'" "new_table m \<noteq> 0"
    "L t = length is \<Longrightarrow> indices is \<Longrightarrow> walk (mem m') t is = walk (mem m) t is"
    "L t \<noteq> 0 \<Longrightarrow> unat i < 512 \<Longrightarrow> mem m' (t + 8 * i) = mem m (t + 8 * i)"
    "unat i < 512 \<Longrightarrow> mem m' (new_table m + 8 * i) = 0"
    "cr3 m' = cr3 m" "L (new_table m) = 0" "unat (placement m') = unat (new_table m) + 4096"
    "invlpgs m' = invlpgs m"
proof -
  let ?m = "m\<lparr>placement := new_table m + 0x1000\<rparr>"
  note N = new_page [OF r refl]
  have pl: "placement m' = placement ?m" by (simp add: m')
  show "page_room n m'" using page_room_step [OF r refl] pl by (simp add: page_room_def)
  show "new_table m \<noteq> 0" by (rule N(4))
  show p: "unat (placement m') = unat (new_table m) + 4096" using N(3) pl by simp
  show old: "mem m' (t + 8 * i) = mem m (t + 8 * i)" if "L t \<noteq> 0" "unat i < 512" for t i
  proof -
    note T = tables_okD(1,3) [OF ok that(1)]
    have "unat (t + 8 * i) < unat (new_table m)"
      using T unat_entry [OF T(1) that(2)] that(2) N(2) by (simp add: wordnat)
    then show ?thesis using memset_page(2) [OF N(1), of "t + 8 * i" ?m] by (simp add: m')
  qed
  have "points_to m' L = points_to m L" using old by (auto simp: points_to_def fun_eq_iff)
  moreover have "IS_ALIGNED u \<and> u \<noteq> 0 \<and> unat u + 4096 \<le> unat (placement m') \<and> L u \<le> 4"
    if "L u \<noteq> 0" for u
    using tables_okD(1-3) [OF ok that] tables_okD(5) [OF ok] p N(2) by (simp add: wordnat)
  ultimately show "tables_ok m' L" using ok unfolding tables_ok_def by simp
  show "walk (mem m') t is = walk (mem m) t is" if "L t = length is" "indices is"
    by (rule walk_frame [OF ok old that])
  show "unat i < 512 \<Longrightarrow> mem m' (new_table m + 8 * i) = 0"
    using memset_page(1) [OF N(1)] by (simp add: m')
  show "L (new_table m) = 0"
    using tables_okD(3) [OF ok, of "new_table m"] N(2) by (cases "L (new_table m) = 0") (auto simp: wordnat)
  show "cr3 m' = cr3 m" "invlpgs m' = invlpgs m" by (simp_all add: m')
qed

subsection \<open>Directories\<close>

text \<open>A new root at \<open>N\<close> that shares one subtree of the root at \<open>R\<close>.\<close>

lemma tables_ok_shared:
  assumes ok: "tables_ok m L" and root: "L R = 4" and k: "PRESENT (mem m (R + 8 * K))"
    and K: "unat K < 512" and N: "L N = 0" "IS_ALIGNED N" "N \<noteq> 0"
    and p: "unat N + 4096 \<le> unat (placement m')" "unat (placement m) \<le> unat (placement m')"
    and old: "\<And>t i. L t \<noteq> 0 \<Longrightarrow> unat i < 512 \<Longrightarrow> mem m' (t + 8 * i) = mem m (t + 8 * i)"
    and new: "\<And>i. unat i < 512 \<Longrightarrow> mem m' (N + 8 * i) = (if i = K then mem m (R + 8 * K) else 0)"
  shows "tables_ok m' (L(N := 4))"
proof -
  let ?L = "L(N := 4)" and ?T = "ADDRESS (mem m (R + 8 * K))"
  have P: "points_to m L R K ?T" using k K root by (simp add: points_to_def)
  have L3: "L ?T = 3" using tables_okD(4) [OF ok P] root by simp
  have "IS_ALIGNED t \<and> t \<noteq> 0 \<and> unat t + 4096 \<le> unat (placement m') \<and> ?L t \<le> 4" if "?L t \<noteq> 0" for t
  proof (cases "t = N")
    case False
    then show ?thesis using that p tables_okD(1-3) [OF ok, of t] tables_okD(5) [OF ok, of t] by auto
  qed (use N p in simp)
  moreover have "Suc (?L t') = ?L t" if "points_to m' ?L t i t'" for t i t'
  proof (cases "t = N")
    case True
    then show ?thesis
      using that new [of i] L3 N by (cases "i = K") (auto simp: points_to_def PRESENT_iff)
  next
    case False
    then have "points_to m L t i t'" using that old [of t i] by (auto simp: points_to_def)
    from tables_okD(4) [OF ok this] have "Suc (L t') = L t" "L t' \<noteq> 0"
      using that False by (auto simp: points_to_def)
    then show ?thesis using False N(1) by auto
  qed
  ultimately show ?thesis unfolding tables_ok_def by blast
qed

lemma create_page_directory_tables:
  assumes ok: "tables_ok m L" and root: "L (ADDRESS (cr3 m)) = 4" and r: "page_room (Suc n) m"
    and k: "PRESENT (mem m (ADDRESS (cr3 m) + 8 * PML4 KVIRTUAL_ADDRESS))"
  obtains d m' where "create_page_directory m = (d, m')" "tables_ok m' (L(ADDRESS d := 4))" "page_room n m'"
    "cr3 m' = cr3 m" "keeps_apart m L m' (L(ADDRESS d := 4))" "L (ADDRESS d) = 0"
    "\<And>e w. L (ADDRESS e) = 4 \<Longrightarrow> translate m' e w = translate m e w"
    "\<And>e v f w. L (ADDRESS e) = 4 \<Longrightarrow> L (ADDRESS f) = 4 \<Longrightarrow> shares m' e v f w = shares m e v f w"
    "\<And>t i u. points_to m L t i u \<Longrightarrow> points_to m' L t i u"
    "\<And>v w. PML4 v \<noteq> PML4 KVIRTUAL_ADDRESS \<Longrightarrow> shares m' d v d w \<Longrightarrow> page_index v = page_index w"
    "\<And>e v w. L (ADDRESS e) = 4 \<Longrightarrow> shares m' d v e w \<Longrightarrow> PML4 v = PML4 KVIRTUAL_ADDRESS \<and> shares m (cr3 m) v e w"
    "PRESENT (mem m' (ADDRESS d + 8 * PML4 KVIRTUAL_ADDRESS))"
    "\<And>w. translate m' d w =
       (if PML4 w = PML4 KVIRTUAL_ADDRESS then translate m (cr3 m) w else None)"
proof -
  let ?K = "PML4 KVIRTUAL_ADDRESS" and ?R = "ADDRESS (cr3 m)" and ?N = "new_table m"
  let ?m1 = "snd (memset ?N 0 0x1000 (m\<lparr>placement := ?N + 0x1000\<rparr>))"
  let ?e = "mem m (?R + 8 * ?K)"
  let ?m2 = "store (?N + 8 * ?K) ?e ?m1"
  let ?d = "?N - KVIRTUAL_ADDRESS"
  note F = fresh_page [OF ok r refl]
  have N: "IS_ALIGNED ?N" by simp
  have e1: "mem ?m1 (?R + 8 * ?K) = ?e" using F(5) [of ?R ?K] root by simp
  have made: "create_page_directory m = (?d, ?m2)"
    using k F(7) e1 by (simp add: create_page_directory_def placement_kalloc_phys_eq Let_def
        sizeof_table_def get_current_page_def)
  have d: "ADDRESS ?d = ?N"
    using N by (rule ADDRESS_physical)
  have old: "mem ?m2 (t + 8 * i) = mem m (t + 8 * i)" if "L t \<noteq> 0" "unat i < 512" for t i
  proof -
    have "t + 8 * i \<noteq> ?N + 8 * ?K"
      using entry_inject [of t ?N i ?K] that tables_okD(1) [OF ok that(1)] N F(8) by auto
    then show ?thesis using F(5) [OF that] by simp
  qed
  have new: "mem ?m2 (?N + 8 * i) = (if i = ?K then ?e else 0)" if "unat i < 512" for i
    using F(6) [OF that] entry_inject [of ?N ?N i ?K] that N by simp
  have w: "walk (mem ?m2) t is = walk (mem m) t is" if "L t = length is" "indices is" for t "is"
    by (rule walk_frame [OF ok old that])
  have P: "points_to m L ?R ?K (ADDRESS ?e)" using k root by (simp add: points_to_def)
  have L3: "L (ADDRESS ?e) = 3" using tables_okD(4) [OF ok P] root by simp
  have w2: "translate ?m2 ?d v = (if PML4 v = ?K then translate m (cr3 m) v else None)" for v
  proof -
    have "walk (mem ?m2) ?N (page_index v) =
        (if PML4 v = ?K then walk (mem ?m2) (ADDRESS ?e) [PDPT v, PDE v, PTE v] else None)"
      unfolding page_index_def walk_simps new [OF indices_bound(4)] using k
      by (cases "PML4 v = ?K") (simp_all only: if_True if_False zero_not_present simp_thms)
    moreover have "walk (mem ?m2) (ADDRESS ?e) [PDPT v, PDE v, PTE v]
        = walk (mem m) (ADDRESS ?e) [PDPT v, PDE v, PTE v]"
      by (rule w) (simp_all add: L3)
    moreover have "walk (mem m) ?R (page_index v) = walk (mem m) (ADDRESS ?e) [PDPT v, PDE v, PTE v]"
      if "PML4 v = ?K"
      unfolding page_index_def that walk_simps using k by (simp only: if_True)
    ultimately show ?thesis unfolding translate_def d by presburger
  qed
  have A1: "tables_ok ?m2 (L(ADDRESS ?d := 4))" unfolding d
    by (rule tables_ok_shared [OF ok root k _ F(8) N F(3) _ _ old new]) 
      (use F(8,9) N root new_page(2) [OF r refl] in \<open>auto simp: wordnat\<close>)
  have A2: "keeps_apart m L ?m2 (L(ADDRESS ?d := 4))"
  proof -
    have up: "x \<noteq> ?N + 8 * i" if "x < placement m" "unat i < 512" for x i
      using unat_entry [OF N that(2)] new_page(2) [OF r refl] that(1) by (auto simp: wordnat)
    have K: "unat ?K < 512" by (rule indices_bound(4))
    have "mem ?m2 x = mem m x" if "x < placement m" for x
    proof -
      have "mem ?m1 x = mem m x"
        by (rule memset_page(2) [OF N, THEN trans]) (use that new_page(2) [OF r refl] in \<open>auto simp: wordnat\<close>)
      then show ?thesis using up [OF that K] by simp
    qed
    moreover have "apart (L(?N := 4)) x" if "apart L x" "x < placement m" for x
      using that(1) up [OF that(2)] by (auto simp: apart_def)
    moreover have "placement m \<le> placement ?m2" using F(9) new_page(2) [OF r refl] by (simp add: wordnat)
    ultimately show ?thesis by (simp add: keeps_apart_def d)
  qed
  have A3: "translate ?m2 e v = translate m e v" if "L (ADDRESS e) = 4" for e v
    using w [of "ADDRESS e" "page_index v"] that by (simp add: translate_def)
  have sh: "meets (mem ?m2) t is u js = meets (mem m) t is u js"
    if "L t = length is" "L u = length js" "indices is" "indices js" for t u "is" js
    by (rule meets_frame [OF ok old that])
  then have A4: "shares ?m2 e v f u = shares m e v f u" if "L (ADDRESS e) = 4" "L (ADDRESS f) = 4" for e v f u
    unfolding shares_def using that by simp
  have A5: "points_to ?m2 L t i u" if "points_to m L t i u" for t i u
    using that old [of t i] by (simp add: points_to_def)
  have root_new: "\<not> meets (mem ?m2) ?N (page_index v) t js"
    if "PML4 v \<noteq> ?K" "t \<noteq> ?N \<or> js \<noteq> page_index v" for v t js
  proof -
    have "mem ?m2 (?N + 8 * PML4 v) = 0" unfolding new [OF indices_bound(4)] using that(1) by (rule if_not_P)
    then have "\<not> PRESENT (mem ?m2 (?N + 8 * PML4 v))" by (simp only: zero_not_present not_False_eq_True)
    then show ?thesis using that(2) unfolding page_index_def by (metis meets_absent)
  qed
  have A6: "page_index v = page_index u" if "PML4 v \<noteq> ?K" "shares ?m2 ?d v ?d u" for v u
  proof (rule ccontr)
    assume "page_index v \<noteq> page_index u"
    then have "\<not> meets (mem ?m2) ?N (page_index v) ?N (page_index u)"
      by (rule root_new [OF that(1) disjI2 [OF not_sym]])
    then show False using that(2) unfolding shares_def d by (rule notE)
  qed
  have A7: "PML4 v = ?K \<and> shares m (cr3 m) v e u" if e: "L (ADDRESS e) = 4" and s: "shares ?m2 ?d v e u" for e v u
  proof -
    have ne: "ADDRESS e \<noteq> ?N" using e F(8) by auto
    have K: "PML4 v = ?K"
    proof (rule ccontr)
      assume "PML4 v \<noteq> ?K"
      then have "\<not> meets (mem ?m2) ?N (page_index v) (ADDRESS e) (page_index u)" by (rule root_new [OF _ disjI1 [OF ne]])
      then show False using s unfolding shares_def d by (rule notE)
    qed
    let ?f = "mem m (ADDRESS e + 8 * PML4 u)"
    have o: "mem ?m2 (ADDRESS e + 8 * PML4 u) = ?f" using old [of "ADDRESS e" "PML4 u"] e by simp
    have n: "mem ?m2 (?N + 8 * PML4 v) = ?e" unfolding new [OF indices_bound(4)] using K by (rule if_P)
    note M = meets_apartD [OF s [unfolded shares_def d page_index_def] not_sym [OF ne], unfolded n o]
    have "L (ADDRESS ?f) = 3" using next_level [OF ok, of "ADDRESS e" 2 "PML4 u"] e M(1) by simp
    then have "meets (mem m) (ADDRESS ?e) [PDPT v, PDE v, PTE v] (ADDRESS ?f) [PDPT u, PDE u, PTE u]"
      using M(2) by (subst (asm) sh) (simp_all add: L3)
    then have "shares m (cr3 m) v e u"
      unfolding shares_def page_index_def K by (rule meets_below [OF k M(1) list.distinct(2) list.distinct(2)])
    then show ?thesis using K by (rule conjI [rotated])
  qed
  have A8: "page_room n ?m2" using F(2) by (simp add: page_room_def)
  have A9: "cr3 ?m2 = cr3 m" using F(7) by simp
  have A10: "L (ADDRESS ?d) = 0" using F(8) d by simp
  have A11: "PRESENT (mem ?m2 (ADDRESS ?d + 8 * ?K))" using k unfolding d new [OF indices_bound(4)] by simp
  show ?thesis by (rule that) fact+
qed

lemma create_page_directory_spec:
  assumes "paging_ok m (cr3 m)" and r: "page_room (Suc n) m"
    and k: "PRESENT (mem m (ADDRESS (cr3 m) + 8 * PML4 KVIRTUAL_ADDRESS))"
  obtains d m' where "create_page_directory m = (d, m')" "paging_ok m' d" "page_room n m'"
    "cr3 m' = cr3 m" "paging_ok m' (cr3 m)" "user_private m' d" "\<And>w. translate m' (cr3 m) w = translate m (cr3 m) w"
    "\<And>w. translate m' d w =
       (if PML4 w = PML4 KVIRTUAL_ADDRESS then translate m (cr3 m) w else None)"
proof -
  obtain L where L: "tables_ok m L" "L (ADDRESS (cr3 m)) = 4" using assms(1) by (auto simp: paging_ok_def)
  obtain d m' where d: "create_page_directory m = (d, m')" "tables_ok m' (L(ADDRESS d := 4))" "page_room n m'"
    "cr3 m' = cr3 m" "\<And>e w. L (ADDRESS e) = 4 \<Longrightarrow> translate m' e w = translate m e w"
    "\<And>v w. PML4 v \<noteq> PML4 KVIRTUAL_ADDRESS \<Longrightarrow> shares m' d v d w \<Longrightarrow> page_index v = page_index w"
    "\<And>w. translate m' d w = (if PML4 w = PML4 KVIRTUAL_ADDRESS then translate m (cr3 m) w else None)"
    by (rule create_page_directory_tables [OF L r k]) blast
  have "user_private m' d"
    unfolding user_private_def aliases_shares using d(6) user_not_kernel by metis
  moreover have "paging_ok m' d" "paging_ok m' (cr3 m)"
    unfolding paging_ok_def by (intro exI [of _ "L(ADDRESS d := 4)"]; simp add: L(2) d(2))+
  ultimately show thesis using that [OF d(1) _ d(3,4) _ _ d(5) [OF L(2)] d(7)] by blast
qed

text \<open>C9. A new directory shares the kernel half and nothing else: under it every address of
  the kernel's top-level slot translates as under the current directory and every other address
  faults, its user half is private, the tables of both directories are in order, and the current
  directory's translations do not change.\<close>

theorem new_directory_has_kernel_half:
  assumes "paging_ok m (cr3 m)" and "page_room 1 m"
    and "PRESENT (mem m (ADDRESS (cr3 m) + 8 * PML4 KVIRTUAL_ADDRESS))"
  shows "\<exists>d m'. create_user_page_directory m = (d, m') \<and> paging_ok m' d \<and> paging_ok m' (cr3 m)
   \<and> user_private m' d
   \<and> (\<forall>w. translate m' (cr3 m) w = translate m (cr3 m) w)
   \<and> (\<forall>w. translate m' d w =
        (if PML4 w = PML4 KVIRTUAL_ADDRESS then translate m (cr3 m) w else None))"
proof -
  have "page_room (Suc 0) m" using assms(2) by simp
  then obtain d m' where "create_page_directory m = (d, m')" "paging_ok m' d" "page_room 0 m'"
    "cr3 m' = cr3 m" "paging_ok m' (cr3 m)" "user_private m' d" "\<And>w. translate m' (cr3 m) w = translate m (cr3 m) w"
    "\<And>w. translate m' d w =
       (if PML4 w = PML4 KVIRTUAL_ADDRESS then translate m (cr3 m) w else None)"
    by (rule create_page_directory_spec [OF assms(1) _ assms(3)]) blast
  then show ?thesis by (auto simp: create_user_page_directory_def intro!: exI)
qed

subsection \<open>The user stack\<close>

definition stack_alias :: "machine \<Rightarrow> addr \<Rightarrow> u64 \<Rightarrow> u64 \<Rightarrow> u64 \<Rightarrow> addr \<Rightarrow> bool" where
  "stack_alias m dir b i n w \<longleftrightarrow> (\<exists>j. i \<le> j \<and> j < n \<and> aliases m dir (b + j * 0x1000) w)"

lemma stack_alias_step:
  "i < n \<Longrightarrow> stack_alias m dir b i n w \<longleftrightarrow>
     aliases m dir (b + i * 0x1000) w \<or> stack_alias m dir b (i + 1) n w"
proof -
  assume "i < n"
  then have "i \<le> j \<longleftrightarrow> j = i \<or> i + 1 \<le> j" for j
    by (auto simp: wordnat unat_Suc_less word_unat_eq_iff)
  then have "stack_alias m dir b i n w \<longleftrightarrow>
      (\<exists>j. (j = i \<or> i + 1 \<le> j) \<and> j < n \<and> aliases m dir (b + j * 0x1000) w)"
    by (simp only: stack_alias_def)
  then show ?thesis using \<open>i < n\<close> unfolding stack_alias_def by blast
qed

lemma map_stack_pages_spec:
  assumes "paging_ok m dir" and "page_room (4 * (unat n - unat i)) m"
  shows "\<exists>m'. map_stack_pages dir b n i m = (True, m') \<and> paging_ok m' dir
   \<and> (\<forall>w. translate m' dir w \<noteq> None \<longleftrightarrow> translate m dir w \<noteq> None \<or> stack_alias m dir b i n w)"
  using assms
proof (induction "unat n - unat i" arbitrary: i m rule: less_induct)
  case less
  show ?case
  proof (cases "i < n")
    case False
    then show ?thesis
      using less(2) by (auto simp: map_stack_pages.simps [of dir b n i m] stack_alias_def)
  next
    case True
    define k where "k = 4 * (unat n - unat (i + 1))"
    have k: "4 * (unat n - unat i) = k + 4"
      using True by (simp add: k_def unat_Suc_less wordnat)
    obtain L where ok: "tables_ok m L" and root: "L (ADDRESS dir) = 4"
      using less(2) by (auto simp: paging_ok_def)
    let ?N = "new_table m"
    define m1 where "m1 = snd (memset ?N 0 0x1000 (m\<lparr>placement := ?N + 0x1000\<rparr>))"
    have r: "page_room (Suc (k + 3)) m" using less(3) by (simp add: k add.commute)
    note F = fresh_page [OF ok r m1_def]
    have ok1: "paging_ok m1 dir" using F(1) root by (auto simp: paging_ok_def)
    have tr1: "translate m1 dir w = translate m dir w" for w
      using F(4) [of "ADDRESS dir" "page_index w"] root by (simp add: translate_def)
    have al1: "aliases m1 dir = aliases m dir"
      unfolding aliases_def fun_eq_iff using meets_frame [OF ok F(5)] root by simp
    obtain m2 where m2: "map_page dir (b + i * 0x1000) (?N - KVIRTUAL_ADDRESS) 7 m1 = (0, m2)"
      "paging_ok m2 dir" "invlpgs m2 = dir # invlpgs m1" "page_room k m2" "aliases m2 dir = aliases m1 dir"
      "\<And>w. translate m2 dir w = (if aliases m1 dir (b + i * 0x1000) w
         then (if PRESENT (build_entry (?N - KVIRTUAL_ADDRESS) 7)
               then Some (build_entry (?N - KVIRTUAL_ADDRESS) 7) else None)
         else translate m1 dir w)"
      by (rule map_page_spec [OF ok1 F(2), of "b + i * 0x1000" "?N - KVIRTUAL_ADDRESS" 7]) blast
    have step: "map_stack_pages dir b n i m = map_stack_pages dir b n (i + 1) m2"
      using True F(3) m2(1)
      by (simp add: map_stack_pages.simps [of dir b n i m] placement_kalloc_phys_eq Let_def
          m1_def [symmetric] map_user_def)
    have IH: "\<exists>m'. map_stack_pages dir b n (i + 1) m2 = (True, m') \<and> paging_ok m' dir
       \<and> (\<forall>w. translate m' dir w \<noteq> None \<longleftrightarrow> translate m2 dir w \<noteq> None \<or> stack_alias m2 dir b (i + 1) n w)"
      by (rule less(1) [OF unat_count_up [OF True] m2(2)]) (use m2(4) in \<open>simp add: k_def\<close>)
    have "translate m2 dir w \<noteq> None \<longleftrightarrow>
        aliases m dir (b + i * 0x1000) w \<or> translate m dir w \<noteq> None" for w
      unfolding m2(6) tr1 al1 by (simp add: build_entry_present)
    moreover have "stack_alias m2 dir b (i + 1) n = stack_alias m dir b (i + 1) n"
      by (simp add: stack_alias_def m2(5) al1 fun_eq_iff)
    ultimately have "(translate m2 dir w \<noteq> None \<or> stack_alias m2 dir b (i + 1) n w)
        = (translate m dir w \<noteq> None \<or> stack_alias m dir b i n w)" for w
      unfolding stack_alias_step [OF True] by (simp only:) (simp only: disj_assoc disj_commute disj_left_commute)
    then show ?thesis using IH unfolding step by (simp only:)
  qed
qed

lemma setup_user_memory_layout_spec:
  assumes "paging_ok m dir" and "page_room 64 m"
  shows "\<exists>m'. setup_user_memory_layout dir m = (True, m') \<and> paging_ok m' dir
   \<and> (\<forall>w. translate m' dir w \<noteq> None \<longleftrightarrow> translate m dir w \<noteq> None \<or> stack_alias m dir 0x7FEFFF0 0 16 w)"
  using map_stack_pages_spec [OF assms(1), of 16 0 "0x7FEFFF0"] assms(2)
  by (simp add: setup_user_memory_layout_def USER_STACK_TOP_def USER_STACK_SIZE_def)

text \<open>The sixteen pages run from the page of 0x7FEF000 to the page of 0x7FFE000.\<close>

lemma stack_pages_PTE:
  assumes "j < 16" "page_index w = page_index (0x7FEFFF0 + j * 0x1000)"
  shows "PML4 w = 0" "PDPT w = 0" "PDE w = 63" "495 \<le> unat (PTE w)" "unat (PTE w) \<le> 510"
proof -
  have "unat j < 16" using assms(1) by (simp add: wordnat)
  then have "unat j \<in> set [0..<16]" by simp
  then have "j \<in> of_nat ` set [0..<16]" by (rule rev_image_eqI) simp
  then have "j \<in> {0,1,2,3,4,5,6,7,8,9,10,11,12,13,14,15}"
    by (simp add: upt_conv_Cons)
  then have "PML4 w = 0 \<and> PDPT w = 0 \<and> PDE w = 63 \<and> 495 \<le> unat (PTE w) \<and> unat (PTE w) \<le> 510"
    using assms(2) unfolding page_index_eq_iff
    by (elim insertE emptyE) (simp_all add: PML4_def PDPT_def PDE_def PTE_def)
  then show "PML4 w = 0" "PDPT w = 0" "PDE w = 63" "495 \<le> unat (PTE w)" "unat (PTE w) \<le> 510"
    by simp_all
qed

text \<open>In a private user half, setting up a user stack succeeds and maps the page of every address from 0x7FEFFF0
  in steps of a page, sixteen of them; but the stack bottom is not page aligned, so the sixteenth
  page ends at 0x7FFF000 and the page holding the first word below \<^verbatim>\<open>USER_STACK_TOP\<close> is not
  among them: it faults as it did before.\<close>

theorem user_stack_top_not_mapped:
  assumes "paging_ok m dir" and "user_private m dir" and "page_room 64 m"
    and "translate m dir (USER_STACK_TOP - 8) = None"
  shows "\<exists>m'. setup_user_memory_layout dir m = (True, m')
   \<and> (\<forall>i < 16. translate m' dir (USER_STACK_TOP - USER_STACK_SIZE + i * 0x1000) \<noteq> None)
   \<and> translate m' dir (USER_STACK_TOP - 8) = None"
proof -
  obtain m' where m': "setup_user_memory_layout dir m = (True, m')"
    "\<And>w. translate m' dir w \<noteq> None \<longleftrightarrow> translate m dir w \<noteq> None \<or> stack_alias m dir 0x7FEFFF0 0 16 w"
    using setup_user_memory_layout_spec [OF assms(1,3)] by auto
  have "stack_alias m dir 0x7FEFFF0 0 16 (0x7FEFFF0 + i * 0x1000)" if "i < 16" for i
    using that unfolding stack_alias_def by (intro exI [of _ i]) simp
  moreover have "\<not> stack_alias m dir 0x7FEFFF0 0 16 (USER_STACK_TOP - 8)"
  proof
    assume "stack_alias m dir 0x7FEFFF0 0 16 (USER_STACK_TOP - 8)"
    then obtain j where j: "j < 16" "aliases m dir (0x7FEFFF0 + j * 0x1000) (USER_STACK_TOP - 8)"
      by (auto simp: stack_alias_def)
    have "user_page (0x7FEFFF0 + j * 0x1000)"
      using stack_pages_PTE(1) [OF j(1) refl] by (simp add: user_page_def)
    then have "page_index (USER_STACK_TOP - 8) = page_index (0x7FEFFF0 + j * 0x1000)"
      using assms(2) j(2) unfolding user_private_def by blast
    from stack_pages_PTE(5) [OF j(1) this] show False by (simp add: USER_STACK_TOP_def PTE_def)
  qed
  moreover have "translate m' dir (USER_STACK_TOP - 8) = None"
    using calculation(2) m'(2) assms(4) by blast
  ultimately show ?thesis
    using m' by (intro exI [of _ m']) (simp add: USER_STACK_TOP_def USER_STACK_SIZE_def)
qed

subsection \<open>Device windows\<close>

lemma window_index: "PTE (PCI_VIRTUAL_ADDRESS OR (a AND 0xfffff)) = PTE (PCI_VIRTUAL_ADDRESS + (a AND 0xfffff))"
proof -
  have "PCI_VIRTUAL_ADDRESS AND (a AND 0xfffff) = 0"
    by (simp add: PCI_VIRTUAL_ADDRESS_def KVIRTUAL_ADDRESS_def and.left_commute [of _ a])
  then show ?thesis by (simp add: disjunctive_add_eq_or)
qed

lemma mapio_spec:
  assumes "paging_ok m (cr3 m)" and r: "page_room (k + 3) m" and e: "even a"
  obtains m' where "mapio a flags m = (PCI_VIRTUAL_ADDRESS + (a AND 0xfffff), m')"
    "paging_ok m' (cr3 m)" "page_room k m'" "cr3 m' = cr3 m" "invlpgs m' = invlpgs m"
    "\<And>w. translate m' (cr3 m) w =
       (if aliases m (cr3 m) (PCI_VIRTUAL_ADDRESS + (a AND 0xfffff)) w then Some (a + 3)
        else translate m (cr3 m) w)"
proof -
  let ?v = "PCI_VIRTUAL_ADDRESS + (a AND 0xfffff)" and ?R = "ADDRESS (cr3 m)"
  obtain L where ok: "tables_ok m L" and root: "L ?R = 4"
    using assms(1) by (auto simp: paging_ok_def)
  obtain m1 L1 t where g: "get_page (cr3 m) ?v 0 True m = (t, m1)" "grows k m L m1 L1"
    "L1 t = 1" "t \<noteq> 0" "leaf_cell (mem m1) ?R (page_index ?v) = Some (t + 8 * PTE ?v)"
    by (rule get_page_make [OF ok root r])
  note ok1 = growsD(1) [OF g(2)]
  have root1: "L1 ?R = 4" using growsD(5) [OF g(2), of ?R] root by simp
  let ?m = "store (t + 8 * PTE ?v) (a + 3) m1"
  have "translate ?m (cr3 m) w = (if aliases m (cr3 m) ?v w then Some (a + 3)
      else translate m (cr3 m) w)" for w
  proof -
    have "leaf_cell (mem m1) ?R (page_index w) = Some (t + 8 * PTE ?v) \<longleftrightarrow> aliases m (cr3 m) ?v w"
      using same_leaf_cell [OF ok1 g(5) root1 root1] grows_shares [OF g(2) root root] by (simp add: aliases_shares)
    moreover have "walk (mem m1) ?R (page_index w) = translate m (cr3 m) w"
      using growsD(6) [OF g(2), of ?R "page_index w"] root by (simp add: translate_def)
    ultimately show ?thesis
      using walk_store_leaf [OF ok1 g(3), of "PTE ?v" ?R "page_index w" "a + 3"] root1 e
      by (simp add: translate_def PRESENT_iff)
  qed
  moreover have "mapio a flags m = (?v, ?m)"
    using g(1) by (simp add: mapio_def Let_def window_index get_current_page_def)
  moreover have "paging_ok ?m (cr3 m)"
    unfolding paging_ok_def
    using tables_ok_store_leaf [OF ok1 g(3) indices_bound(1)] root1 by (intro exI [of _ L1]) simp
  moreover have "page_room k ?m" "cr3 ?m = cr3 m" "invlpgs ?m = invlpgs m"
    using growsD(2-4) [OF g(2)] by (simp_all add: page_room_def)
  ultimately show ?thesis using that by blast
qed

text \<open>A device window lies in the megabyte above \<^verbatim>\<open>PCI_VIRTUAL_ADDRESS\<close> at the
  low twenty bits of the device's address and is mapped present and writable; two devices that
  agree in these bits get the same window, and mapping the second takes it away from the first.\<close>

theorem mapio_windows_collide:
  assumes "paging_ok m (cr3 m)" and "page_room 6 m"
    and "even a" "even b" "a AND 0xfffff = b AND 0xfffff"
  shows "fst (mapio a f m) = PCI_VIRTUAL_ADDRESS + (a AND 0xfffff)
   \<and> translate (snd (mapio a f m)) (cr3 m) (fst (mapio a f m)) = Some (a + 3)
   \<and> fst (mapio b g (snd (mapio a f m))) = fst (mapio a f m)
   \<and> translate (snd (mapio b g (snd (mapio a f m)))) (cr3 m) (fst (mapio a f m)) = Some (b + 3)"
proof -
  have r: "page_room (3 + 3) m" using assms(2) by simp
  obtain m1 where 1: "mapio a f m = (PCI_VIRTUAL_ADDRESS + (a AND 0xfffff), m1)"
    "paging_ok m1 (cr3 m)" "page_room 3 m1"
    "cr3 m1 = cr3 m" "invlpgs m1 = invlpgs m"
    "\<And>w. translate m1 (cr3 m) w =
       (if aliases m (cr3 m) (PCI_VIRTUAL_ADDRESS + (a AND 0xfffff)) w then Some (a + 3)
        else translate m (cr3 m) w)"
    by (rule mapio_spec [OF assms(1) r assms(3), of f]) blast
  have r1: "page_room (0 + 3) m1" "paging_ok m1 (cr3 m1)" using 1(2-4) by simp_all
  obtain m2 where "mapio b g m1 = (PCI_VIRTUAL_ADDRESS + (b AND 0xfffff), m2)"
    "paging_ok m2 (cr3 m1)" "page_room 0 m2"
    "cr3 m2 = cr3 m1" "invlpgs m2 = invlpgs m1"
    "\<And>w. translate m2 (cr3 m1) w =
       (if aliases m1 (cr3 m1) (PCI_VIRTUAL_ADDRESS + (b AND 0xfffff)) w then Some (b + 3)
        else translate m1 (cr3 m1) w)"
    by (rule mapio_spec [OF r1(2,1) assms(4), of g]) blast
  then show ?thesis using 1 assms(5) by simp
qed

subsection \<open>A concrete machine\<close>

text \<open>
  A root table whose slot 0 leads through a table of each level to one mapped page, the page
  of 0x5000, and whose slot 511 leads to an empty table of the kernel half.
\<close>

text \<open>Memory given page by page, as entries of tables.\<close>

definition paged :: "(addr \<Rightarrow> u64 \<Rightarrow> u64) \<Rightarrow> cells" where
  "paged e a = e (ALIGN_DOWN a) (drop_bit 3 (a - ALIGN_DOWN a))"

lemma paged_entry:
  assumes "IS_ALIGNED t" "unat i < 512"
  shows "paged e (t + 8 * i) = e t i"
proof -
  obtain k where k: "unat t = 4096 * k" using assms(1) by (rule IS_ALIGNED_E)
  have u: "unat (t + 8 * i) = 4096 * k + 8 * unat i" using unat_entry [OF assms] k by simp
  have "unat (ALIGN_DOWN (t + 8 * i)) = unat t" using u k assms(2) by (simp add: unat_ALIGN_DOWN)
  then have d: "ALIGN_DOWN (t + 8 * i) = t" by (simp add: word_unat_eq_iff)
  have "unat (8 * i) = 8 * unat i" using assms(2) by (simp add: unat_word_ariths)
  then have "drop_bit 3 (8 * i) = i"
    by (simp only: word_unat_eq_iff unat_drop_bit_eq) (simp add: drop_bit_eq_div)
  then show ?thesis by (simp add: paged_def d)
qed

abbreviation "T4 \<equiv> 0xffffffff80001000 :: addr"
abbreviation "T3 \<equiv> 0xffffffff80002000 :: addr"
abbreviation "T2 \<equiv> 0xffffffff80003000 :: addr"
abbreviation "T1 \<equiv> 0xffffffff80004000 :: addr"
abbreviation "TK \<equiv> 0xffffffff80005000 :: addr"

definition example_entry :: "addr \<Rightarrow> u64 \<Rightarrow> u64" where
  "example_entry t i =
     (if t = T4 \<and> i = 0 then 0x2007 else if t = T4 \<and> i = 511 then 0x5003
      else if t = T3 \<and> i = 0 then 0x3007 else if t = T2 \<and> i = 0 then 0x4007
      else if t = T1 \<and> i = 5 then 0x9003 else 0)"

definition example_paging :: machine where
  "example_paging = \<lparr>placement = 0xffffffff80010000,
     mem = paged example_entry, cr3 = 0x1000, invlpgs = []\<rparr>"

definition example_level :: "addr \<Rightarrow> nat" where
  "example_level t = (if t = T4 then 4 else if t = T3 \<or> t = TK then 3 else if t = T2 then 2
     else if t = T1 then 1 else 0)"

lemma example_mem:
  assumes "IS_ALIGNED t" "unat i < 512"
  shows "mem example_paging (t + 8 * i) = example_entry t i"
  using paged_entry [OF assms] by (simp add: example_paging_def)

lemma example_points_to:
  assumes "points_to example_paging example_level t i t'"
  shows "(t = T4 \<and> i = 0 \<and> t' = T3) \<or> (t = T4 \<and> i = 511 \<and> t' = TK) \<or> (t = T3 \<and> i = 0 \<and> t' = T2)
      \<or> (t = T2 \<and> i = 0 \<and> t' = T1)"
proof -
  have "IS_ALIGNED t"
    using assms by (auto simp: points_to_def example_level_def IS_ALIGNED_def split: if_splits)
  then have e: "mem example_paging (t + 8 * i) = example_entry t i"
    using assms example_mem by (simp add: points_to_def)
  then have "PRESENT (example_entry t i)" "ADDRESS (example_entry t i) = t'" "1 < example_level t"
    using assms by (simp_all add: points_to_def)
  then show ?thesis
    by (auto simp: example_entry_def example_level_def ADDRESS_def KVIRTUAL_ADDRESS_def split: if_splits)
qed

lemma example_tables: "tables_ok example_paging example_level"
  unfolding tables_ok_def
proof (intro conjI allI impI)
  fix t assume "example_level t \<noteq> 0"
  then show "IS_ALIGNED t" "t \<noteq> 0" "unat t + 4096 \<le> unat (placement example_paging)" "example_level t \<le> 4"
    by (auto simp: example_level_def IS_ALIGNED_def example_paging_def split: if_splits)
next
  fix t i t' assume "points_to example_paging example_level t i t'"
  from example_points_to [OF this] show "Suc (example_level t') = example_level t"
    by (auto simp: example_level_def)
qed

lemma example_private: "user_private example_paging 0x1000"
proof (rule forest_private [OF example_tables])
  show "forest example_paging example_level"
    unfolding forest_def
  proof (intro allI impI)
    fix t i u j t'
    assume "points_to example_paging example_level t i t' \<and> points_to example_paging example_level u j t'"
    then show "t = u \<and> i = j" using example_points_to [of t i t'] example_points_to [of u j t'] by auto
  qed
  show "example_level (ADDRESS 0x1000) = 4"
    by (simp add: example_level_def ADDRESS_def KVIRTUAL_ADDRESS_def)
qed

lemma example_paging_ok: "paging_ok example_paging 0x1000" "page_room 64 example_paging"
  "cr3 example_paging = 0x1000"
  using example_tables
  by (auto simp: paging_ok_def example_level_def ADDRESS_def KVIRTUAL_ADDRESS_def page_room_def
      example_paging_def)

lemma example_tables_aligned [simp]:
  "IS_ALIGNED T4" "IS_ALIGNED T3" "IS_ALIGNED T2" "IS_ALIGNED T1" "IS_ALIGNED TK"
  by (simp_all add: IS_ALIGNED_def)

lemma example_translate:
  "translate example_paging 0x1000 v =
     (if page_index v = [0, 0, 0, 5] then Some 0x9003 else None)"
proof -
  let ?c = "mem example_paging"
  have A: "ADDRESS 0x1000 = T4" "ADDRESS 0x2007 = T3" "ADDRESS 0x3007 = T2" "ADDRESS 0x4007 = T1"
    "ADDRESS 0x5003 = TK"
    by (simp_all add: ADDRESS_def KVIRTUAL_ADDRESS_def)
  note e = example_mem [OF example_tables_aligned(1)] example_mem [OF example_tables_aligned(2)]
    example_mem [OF example_tables_aligned(3)] example_mem [OF example_tables_aligned(4)]
    example_mem [OF example_tables_aligned(5)]
  have w1: "walk ?c T1 [PTE v] = (if PTE v = 5 then Some 0x9003 else None)"
    unfolding walk_simps e [OF indices_bound(1)] by (simp add: example_entry_def PRESENT_iff)
  have w2: "walk ?c T2 [PDE v, PTE v] = (if PDE v = 0 then walk ?c T1 [PTE v] else None)"
    unfolding walk_simps(3) e [OF indices_bound(2)] by (simp add: example_entry_def PRESENT_iff A)
  have w3: "walk ?c T3 [PDPT v, PDE v, PTE v] = (if PDPT v = 0 then walk ?c T2 [PDE v, PTE v] else None)"
    "walk ?c TK [PDPT v, PDE v, PTE v] = None"
    unfolding walk_simps(3) [of _ _ "PDPT v"] e [OF indices_bound(3)]
    by (simp_all add: example_entry_def PRESENT_iff A del: walk_simps)
  have "walk ?c T4 [PML4 v, PDPT v, PDE v, PTE v] = (if PML4 v = 0 then walk ?c T3 [PDPT v, PDE v, PTE v]
      else if PML4 v = 511 then walk ?c TK [PDPT v, PDE v, PTE v] else None)"
    unfolding walk_simps(3) [of _ _ "PML4 v"] e [OF indices_bound(4)]
    by (simp add: example_entry_def PRESENT_iff A del: walk_simps)
  then show ?thesis unfolding w3 w2 w1 by (simp add: translate_def page_index_def A)
qed

text \<open>Its directories let user programs in.\<close>

lemma example_path:
  assumes "PML4 v = 0" "PDPT v = 0"
  shows "path_rights example_paging 0x1000 7 v = 7"
proof -
  let ?c = "mem example_paging"
  have A: "ADDRESS 0x1000 = T4" "ADDRESS 0x2007 = T3" "ADDRESS 0x3007 = T2" "ADDRESS 0x4007 = T1"
    by (simp_all add: ADDRESS_def KVIRTUAL_ADDRESS_def)
  note e = example_mem [OF example_tables_aligned(1)] example_mem [OF example_tables_aligned(2)]
    example_mem [OF example_tables_aligned(3)]
  have "path_bits ?c 7 T2 [PDE v, PTE v] = 7"
    unfolding path_bits.simps(3) [of _ _ _ "PDE v"] e [OF indices_bound(2)] by (simp add: example_entry_def PRESENT_iff)
  moreover have "path_bits ?c 7 T3 [PDPT v, PDE v, PTE v] = 0x3007 AND path_bits ?c 7 T2 [PDE v, PTE v]"
    unfolding path_bits.simps(3) [of _ _ _ "PDPT v"] e [OF indices_bound(3)]
    unfolding assms(2)
    by (simp add: example_entry_def PRESENT_iff A del: path_bits.simps)
  moreover have "path_bits ?c 7 T4 [PML4 v, PDPT v, PDE v, PTE v] = 0x2007 AND path_bits ?c 7 T3 [PDPT v, PDE v, PTE v]"
    unfolding path_bits.simps(3) [of _ _ _ "PML4 v"] e [OF indices_bound(4)]
    unfolding assms(1)
    by (simp add: example_entry_def PRESENT_iff A del: path_bits.simps)
  ultimately show ?thesis by (simp add: path_rights_def page_index_def A del: path_bits.simps)
qed

theorem map_installs_one_translation_witness:
  "translate (snd (map_page 0x1000 0x400000 0x8000 7 example_paging)) 0x1000 0x400000 = Some 0x8007
   \<and> access (snd (map_page 0x1000 0x400000 0x8000 7 example_paging)) 0x1000 0x400000 = 7
   \<and> translate (snd (map_page 0x1000 0x400000 0x8000 7 example_paging)) 0x1000 0x5000 = Some 0x9003"
proof -
  have "page_room 3 example_paging" using example_paging_ok(2) by (simp add: page_room_def)
  moreover have "page_index 0x5000 \<noteq> page_index 0x400000" "user_page 0x400000"
    by (simp_all add: page_index_def user_page_def PML4_def PDPT_def PDE_def PTE_def)
  moreover have "translate example_paging 0x1000 0x5000 = Some 0x9003"
    by (simp add: example_translate page_index_def PML4_def PDPT_def PDE_def PTE_def)
  moreover have "path_rights example_paging 0x1000 7 0x400000 = 7"
    by (rule example_path) (simp_all add: PML4_def PDPT_def)
  ultimately show ?thesis
    using map_installs_one_translation [OF example_paging_ok(1), of "0x400000" "0x8000" 7] example_private
    by (simp add: build_entry_def)
qed

theorem unmap_removes_one_translation_witness:
  "translate example_paging 0x1000 0x5000 = Some 0x9003
   \<and> translate (unmap 0x1000 0x5000 example_paging) 0x1000 0x5000 = None"
  using unmap_removes_one_translation [OF example_paging_ok(1), of "0x5000"]
  by (simp add: example_translate page_index_def PML4_def PDPT_def PDE_def PTE_def)

theorem changed_page_not_flushed_witness:
  "list_all (\<lambda>a. page_index a \<noteq> page_index 0x5000)
     (new_flushes example_paging (unmap 0x1000 0x5000 example_paging))"
proof -
  have "page_room 3 example_paging" using example_paging_ok(2) by (simp add: page_room_def)
  moreover have "translate example_paging 0x1000 0x5000 = Some 0x9003"
    "page_index 0x5000 \<noteq> page_index 0" "page_index 0x5000 \<noteq> page_index 0x1000"
    by (simp_all add: example_translate page_index_def PML4_def PDPT_def PDE_def PTE_def)
  ultimately show ?thesis
    using changed_page_not_flushed [OF example_paging_ok(1)] unfolding list_all_iff by blast
qed

theorem new_directory_has_kernel_half_witness:
  "\<exists>d m'. create_user_page_directory example_paging = (d, m') \<and> paging_ok m' d
   \<and> translate m' d 0x5000 = None"
proof -
  have "page_room 1 example_paging" using example_paging_ok(2) by (simp add: page_room_def)
  moreover have "paging_ok example_paging (cr3 example_paging)"
    using example_paging_ok(1,3) by simp
  moreover have k: "PML4 KVIRTUAL_ADDRESS = 511" "PML4 0x5000 = 0" "ADDRESS 0x1000 = T4"
    by (simp_all add: PML4_def KVIRTUAL_ADDRESS_def ADDRESS_def)
  then have "PRESENT (mem example_paging
      (ADDRESS (cr3 example_paging) + 8 * PML4 KVIRTUAL_ADDRESS))"
    unfolding example_paging_ok(3) k example_mem [OF example_tables_aligned(1) indices_bound(4) [of KVIRTUAL_ADDRESS, unfolded k]]
    by (simp add: example_entry_def PRESENT_iff)
  ultimately obtain d m' where "create_user_page_directory example_paging = (d, m')" "paging_ok m' d"
    "\<forall>w. translate m' d w = (if PML4 w = PML4 KVIRTUAL_ADDRESS
       then translate example_paging (cr3 example_paging) w else None)"
    using new_directory_has_kernel_half [of example_paging] by blast
  then show ?thesis using k by auto
qed

theorem user_stack_top_not_mapped_witness:
  "\<exists>m'. setup_user_memory_layout 0x1000 example_paging = (True, m')
   \<and> translate m' 0x1000 (USER_STACK_TOP - 8) = None"
proof -
  have "translate example_paging 0x1000 (USER_STACK_TOP - 8) = None"
    by (simp add: example_translate page_index_def USER_STACK_TOP_def PML4_def PDPT_def PDE_def PTE_def)
  then show ?thesis using user_stack_top_not_mapped [OF example_paging_ok(1) example_private example_paging_ok(2)] by blast
qed

theorem mapio_windows_collide_witness:
  "translate (snd (mapio 0xfeb12000 0 (snd (mapio 0xfea12000 0 example_paging)))) 0x1000
     0xffffffffc0012000 = Some 0xfeb12003"
proof -
  have "page_room 6 example_paging" using example_paging_ok(2) by (simp add: page_room_def)
  then show ?thesis
    using mapio_windows_collide [of example_paging "0xfea12000" "0xfeb12000" 0 0] example_paging_ok
    by (auto simp: PCI_VIRTUAL_ADDRESS_def KVIRTUAL_ADDRESS_def)
qed

end
