(* ===== verification/Nodes.thy ===== *)
theory Nodes
  imports Placement
begin

text \<open>
  Singly linked lists of 16-byte nodes in boot memory, the representation shared by the
  frame list of \<^verbatim>\<open>physical\<close> and the container \<^verbatim>\<open>lib::ilist\<close>: the payload at
  offset 0, the pointer to the following node at offset 8. A list is given by the nodes
  reachable from its first pointer, each with its payload.
\<close>

fun node_list :: "cells \<Rightarrow> addr \<Rightarrow> (addr \<times> addr) list \<Rightarrow> bool" where
  "node_list c a [] \<longleftrightarrow> a = 0"
| "node_list c a ((n, f) # xs) \<longleftrightarrow> a = n \<and> n \<noteq> 0 \<and> c n = f \<and> node_list c (c (n + 8)) xs"

lemma node_list_update:
  "\<forall>(n, f) \<in> set xs. b \<noteq> n \<and> b \<noteq> n + 8 \<Longrightarrow> node_list (c(b := v)) a xs = node_list c a xs"
  by (induction c a xs rule: node_list.induct) auto

lemma node_list_0 [simp]: "node_list c 0 xs \<longleftrightarrow> xs = []"
  by (cases xs) auto

lemma node_list_nonzero:
  "a \<noteq> 0 \<Longrightarrow> node_list c a xs \<longleftrightarrow> (\<exists>ys. xs = (a, c a) # ys \<and> node_list c (c (a + 8)) ys)"
  by (cases xs) auto

lemma node_list_cong:
  "\<forall>(q, f) \<in> set xs. c' q = c q \<and> c' (q + 8) = c (q + 8) \<Longrightarrow> node_list c' a xs = node_list c a xs"
  by (induction c a xs rule: node_list.induct) auto

lemma node_list_unique: "node_list c a xs \<Longrightarrow> node_list c a ys \<Longrightarrow> xs = ys"
  by (induction c a xs arbitrary: ys rule: node_list.induct) (auto simp: node_list_nonzero)

text \<open>Every node lies wholly below the bump pointer, so new blocks do not touch it.\<close>

definition nodes_below :: "addr \<Rightarrow> (addr \<times> addr) list \<Rightarrow> bool" where
  "nodes_below lim xs \<longleftrightarrow> (\<forall>(n, f) \<in> set xs. unat n + 16 \<le> unat lim)"

lemma nodes_below_Nil [simp]: "nodes_below t []"
  by (simp add: nodes_below_def)

lemma nodes_below_Cons [simp]:
  "nodes_below t ((n, f) # xs) \<longleftrightarrow> unat n + 16 \<le> unat t \<and> nodes_below t xs"
  by (simp add: nodes_below_def)

lemma nodes_below_append [simp]:
  "nodes_below t (xs @ ys) \<longleftrightarrow> nodes_below t xs \<and> nodes_below t ys"
  by (auto simp: nodes_below_def)

lemma nodes_below_mono: "nodes_below t xs \<Longrightarrow> t \<le> u \<Longrightarrow> nodes_below u xs"
  by (fastforce simp: nodes_below_def wordnat)

lemma node_list_store_above:
  assumes "nodes_below t xs" and "t \<le> b"
  shows "node_list (c(b := v)) a xs = node_list c a xs"
proof (rule node_list_update, clarify)
  fix n f assume "(n, f) \<in> set xs"
  then have le: "unat n + 16 \<le> unat t" using assms(1) by (auto simp: nodes_below_def)
  then have "unat (n + 8) = unat n + 8"
    using u64_bound [of t] by (simp add: unat_add_nowrap)
  with le show "b \<noteq> n \<and> b \<noteq> n + 8" using assms(2) by (auto simp: wordnat)
qed

end
