(* ===== verification/Ilist.thy ===== *)
theory Ilist
  imports Nodes
begin

text \<open>
  The container \<^verbatim>\<open>lib::ilist\<close> of \<^verbatim>\<open>libs/ilist.hpp\<close>: a singly linked list with
  head and tail pointers whose nodes come from the boot allocator. The element type is a
  pointer wherever the kernel uses it, one cell. Its contract is the locale
  \<open>sequence\<close>, over which copying a container by iteration is verified.
\<close>

subsection \<open>State and operations\<close>

record ilist =
  head :: addr
  tail :: addr
  count :: u64

definition sizeof_node :: u64 where
  "sizeof_node = 16"

definition ilist_new :: ilist where
  "ilist_new = \<lparr>head = 0, tail = 0, count = 0\<rparr>"

definition ilist_size :: "ilist \<Rightarrow> u64" where
  "ilist_size l = count l"

definition ilist_empty :: "ilist \<Rightarrow> bool" where
  "ilist_empty l \<longleftrightarrow> count l = 0"

text \<open>The constructor \<^verbatim>\<open>node(const T &data)\<close> at a given place.\<close>

definition construct_node :: "addr \<Rightarrow> u64 \<Rightarrow> machine \<Rightarrow> machine" where
  "construct_node place d m = store (place + 8) 0 (store place d m)"

definition push_back :: "u64 \<Rightarrow> machine \<times> ilist \<Rightarrow> machine \<times> ilist" where
  "push_back d = (\<lambda>(m, l).
     (case placement_kalloc sizeof_node False m of (place, m) \<Rightarrow>
        let m = construct_node place d m
        in if tail l = 0 then
             (let l = l\<lparr>tail := place\<rparr>; l = l\<lparr>head := tail l\<rparr>
              in (m, l\<lparr>count := count l + 1\<rparr>))
           else
             (let m = store (tail l + 8) place m;
                  l = l\<lparr>tail := mem m (tail l + 8)\<rparr>
              in (m, l\<lparr>count := count l + 1\<rparr>))))"

definition push_front :: "u64 \<Rightarrow> machine \<times> ilist \<Rightarrow> machine \<times> ilist" where
  "push_front d s = s"

text \<open>
  \<^verbatim>\<open>clear\<close> walks the nodes and deletes each one; \<^verbatim>\<open>operator delete\<close> is empty
  (\<^verbatim>\<open>libs/new.cpp\<close>), so only the pointers are reset. \<open>None\<close> is a walk that
  never ends.
\<close>

partial_function (option) clear_loop :: "machine \<Rightarrow> ilist \<Rightarrow> ilist option" where
  "clear_loop m l =
     (if head l \<noteq> 0 then clear_loop m (l\<lparr>head := mem m (head l + 8)\<rparr>) else Some l)"

definition clear :: "machine \<times> ilist \<Rightarrow> (machine \<times> ilist) option" where
  "clear = (\<lambda>(m, l). map_option (\<lambda>l. (m, l\<lparr>head := 0, tail := 0, count := 0\<rparr>)) (clear_loop m l))"

text \<open>
  A range-for loop: the payloads met from \<^verbatim>\<open>begin()\<close> to the null iterator. The step
  of \<^verbatim>\<open>operator++\<close> leaves a null iterator in place.
\<close>

definition iterator_next :: "machine \<Rightarrow> addr \<Rightarrow> addr" where
  "iterator_next m cur = (if cur \<noteq> 0 then mem m (cur + 8) else cur)"

partial_function (option) iterate_from :: "machine \<Rightarrow> addr \<Rightarrow> u64 list option" where
  "iterate_from m cur =
     (if cur \<noteq> 0 then
        Option.bind (iterate_from m (iterator_next m cur)) (\<lambda>ds. Some (mem m cur # ds))
      else Some [])"

definition iterate :: "machine \<times> ilist \<Rightarrow> u64 list option" where
  "iterate = (\<lambda>(m, l). iterate_from m (head l))"

subsection \<open>Representation\<close>

text \<open>Nodes are allocated upwards, 16 bytes each, so the list order is the address order.\<close>

definition ascending :: "(addr \<times> addr) list \<Rightarrow> bool" where
  "ascending xs \<longleftrightarrow> sorted_wrt (\<lambda>x y. unat (fst x) + 16 \<le> unat (fst y)) xs"

definition ilist_nodes :: "machine \<times> ilist \<Rightarrow> (addr \<times> addr) list \<Rightarrow> bool" where
  "ilist_nodes = (\<lambda>(m, l) xs. node_list (mem m) (head l) xs \<and> nodes_below (placement m) xs
     \<and> ascending xs \<and> tail l = (if xs = [] then 0 else fst (last xs))
     \<and> count l = word_of_nat (length xs))"

definition ilist_seq :: "machine \<times> ilist \<Rightarrow> u64 list \<Rightarrow> bool" where
  "ilist_seq s ds \<longleftrightarrow> (\<exists>xs. ilist_nodes s xs \<and> map snd xs = ds)"

definition ilist_room :: "nat \<Rightarrow> machine \<times> ilist \<Rightarrow> bool" where
  "ilist_room n s \<longleftrightarrow> headroom (16 * n) (fst s)"

lemma ilist_seqE:
  assumes "ilist_seq s ds"
  obtains xs where "ilist_nodes s xs" "map snd xs = ds"
  using assms by (auto simp: ilist_seq_def)

lemma node_list_snoc:
  assumes "node_list c a xs" and "xs \<noteq> []" and "ascending xs" and "nodes_below p xs"
    and "unat p + 16 < 18446744073709551616"
  shows "node_list (c(p := d, p + 8 := 0, fst (last xs) + 8 := p)) a (xs @ [(p, d)])"
  using assms
proof (induction c a xs rule: node_list.induct)
  case (2 c a n f xs)
  have n: "unat n + 16 \<le> unat p" "n \<noteq> 0" "a = n" "c n = f" using "2.prems" by simp_all
  have n8: "unat (n + 8) = unat n + 8" and p8: "unat (p + 8) = unat p + 8"
    using n(1) "2.prems"(5) by (simp_all add: unat_add_nowrap)
  have sep: "p \<noteq> n" "p \<noteq> n + 8" "p + 8 \<noteq> n" "p + 8 \<noteq> n + 8" "p \<noteq> p + 8" "n + 8 \<noteq> n" "p \<noteq> 0"
    using n n8 p8 by auto
  show ?case
  proof (cases "xs = []")
    case True
    then show ?thesis using n sep by auto
  next
    case False
    let ?l = "fst (last xs)"
    have "last xs \<in> set xs" using False by simp
    then have l: "unat n + 16 \<le> unat ?l" "unat ?l + 16 \<le> unat p"
      using "2.prems"(3,4) by (force simp: ascending_def nodes_below_def)+
    then have "unat (?l + 8) = unat ?l + 8" using u64_bound [of p] by (simp add: unat_add_nowrap)
    then have "?l + 8 \<noteq> n" "?l + 8 \<noteq> n + 8" using l n8 by auto
    moreover have "node_list (c(p := d, p + 8 := 0, ?l + 8 := p)) (c (n + 8)) (xs @ [(p, d)])"
      using "2.prems" False by (intro "2.IH") (simp_all add: ascending_def)
    ultimately show ?thesis using n sep False by (simp add: fun_upd_def)
  qed
qed simp

lemma node_list_last_nonzero: "node_list c a xs \<Longrightarrow> xs \<noteq> [] \<Longrightarrow> fst (last xs) \<noteq> 0"
  by (induction c a xs rule: node_list.induct) auto

lemma push_back_nodes:
  assumes xs: "ilist_nodes s xs" and room: "ilist_room (Suc n) s"
  shows "ilist_nodes (push_back d s) (xs @ [(placement (fst s), d)])"
    and "ilist_room n (push_back d s)"
proof -
  obtain m l where s: "s = (m, l)" by (cases s)
  have p: "0 < unat (placement m)" "unat (placement m) + 16 * n + 16 < 18446744073709551616"
    using room by (auto simp: s ilist_room_def headroom_def)
  have p16: "unat (placement m + 16) = unat (placement m) + 16"
    using p by (simp add: unat_add_nowrap)
  have x: "node_list (mem m) (head l) xs" "nodes_below (placement m) xs" "ascending xs"
    "tail l = (if xs = [] then 0 else fst (last xs))" "count l = word_of_nat (length xs)"
    using xs by (auto simp: s ilist_nodes_def)
  have "xs \<noteq> [] \<Longrightarrow> fst (last xs) \<noteq> 0"
    using x(1) by (rule node_list_last_nonzero)
  then have tl: "tail l = 0 \<longleftrightarrow> xs = []" using x(4) by auto
  have asc: "ascending (xs @ [(placement m, d)])"
    using x(2,3) by (auto simp: ascending_def nodes_below_def sorted_wrt_append)
  have "placement m \<le> placement m + 16" using p16 by (simp add: wordnat)
  then have below: "nodes_below (placement m + 16) (xs @ [(placement m, d)])"
    using nodes_below_mono [OF x(2)] p16 by simp
  have pn: "placement m \<noteq> 0" "placement m \<noteq> placement m + 8" using p by auto
  show "ilist_nodes (push_back d s) (xs @ [(placement (fst s), d)])"
  proof (cases "xs = []")
    case True
    then show ?thesis
      using x(5) tl asc below pn
      by (simp add: s push_back_def placement_kalloc_eq sizeof_node_def construct_node_def
          ilist_nodes_def Let_def)
  next
    case False
    then show ?thesis
      using x tl asc below pn node_list_snoc [OF x(1) False x(3,2)] p
      by (simp add: s push_back_def placement_kalloc_eq sizeof_node_def construct_node_def
          ilist_nodes_def Let_def)
  qed
  show "ilist_room n (push_back d s)"
    using p p16 by (auto simp: s push_back_def placement_kalloc_eq sizeof_node_def
        construct_node_def ilist_room_def headroom_def Let_def)
qed

lemma iterate_nodes:
  "node_list (mem m) a xs \<Longrightarrow> iterate_from m a = Some (map snd xs)"
proof (induction xs arbitrary: a)
  case Nil
  then show ?case by (simp add: iterate_from.simps)
next
  case (Cons x xs)
  obtain n f where x: "x = (n, f)" by (cases x)
  have "iterate_from m (mem m (n + 8)) = Some (map snd xs)"
    using Cons.prems by (intro Cons.IH) (simp add: x)
  then show ?case
    using Cons.prems by (subst iterate_from.simps) (simp add: x iterator_next_def)
qed

lemma clear_loop_nodes:
  "node_list (mem m) (head l) xs \<Longrightarrow> clear_loop m l = Some (l\<lparr>head := 0\<rparr>)"
proof (induction xs arbitrary: l)
  case Nil
  then show ?case by (subst clear_loop.simps) simp
next
  case (Cons x xs)
  obtain n f where x: "x = (n, f)" by (cases x)
  have "clear_loop m (l\<lparr>head := mem m (n + 8)\<rparr>) = Some (l\<lparr>head := 0\<rparr>)"
    using Cons.IH [of "l\<lparr>head := mem m (n + 8)\<rparr>"] Cons.prems by (simp add: x)
  then show ?case
    using Cons.prems by (subst clear_loop.simps) (simp add: x)
qed

subsection \<open>The interface of a sequence container\<close>

locale sequence =
  fixes seq :: "'s \<Rightarrow> 'd list \<Rightarrow> bool"
    and room :: "nat \<Rightarrow> 's \<Rightarrow> bool"
    and push :: "'d \<Rightarrow> 's \<Rightarrow> 's"
    and items :: "'s \<Rightarrow> 'd list option"
  assumes seq_push: "seq s ds \<Longrightarrow> room (Suc n) s \<Longrightarrow> seq (push d s) (ds @ [d])"
    and room_push: "seq s ds \<Longrightarrow> room (Suc n) s \<Longrightarrow> room n (push d s)"
    and items_seq: "seq s ds \<Longrightarrow> items s = Some ds"
begin

lemma fold_push:
  "seq s ds \<Longrightarrow> room (length es) s \<Longrightarrow> seq (fold push es s) (ds @ es)"
proof (induction es arbitrary: s ds)
  case Nil
  then show ?case by simp
next
  case (Cons e es)
  then show ?case using Cons.IH [of "push e s" "ds @ [e]"] seq_push room_push by simp
qed

lemma items_fold_push:
  "seq s ds \<Longrightarrow> room (length es) s \<Longrightarrow> items (fold push es s) = Some (ds @ es)"
  by (intro items_seq fold_push)

end

text \<open>A container that can also be emptied: refilling it by iteration over another copies it.\<close>

locale clearable_sequence = sequence +
  fixes wipe :: "'s \<Rightarrow> 's option"
  assumes wipe_seq: "seq s ds \<Longrightarrow> \<exists>s'. wipe s = Some s' \<and> seq s' [] \<and> room n s' = room n s"
begin

lemma refill:
  assumes "seq s ds" and "room (length es) s"
  shows "\<exists>s'. wipe s = Some s' \<and> items (fold push es s') = Some es"
proof -
  obtain s' where "wipe s = Some s'" "seq s' []" "room (length es) s'"
    using wipe_seq [OF assms(1)] assms(2) by metis
  then show ?thesis using items_fold_push [of s' "[]" es] by auto
qed

end

interpretation il: clearable_sequence ilist_seq ilist_room push_back iterate clear
proof
  fix s ds n d
  assume "ilist_seq s ds"
  then obtain xs where xs: "ilist_nodes s xs" "map snd xs = ds" by (rule ilist_seqE)
  show "ilist_seq (push_back d s) (ds @ [d])" if "ilist_room (Suc n) s"
    using push_back_nodes(1) [OF xs(1) that, of d] xs(2) unfolding ilist_seq_def
    by (intro exI [of _ "xs @ [(placement (fst s), d)]"]) simp
  show "ilist_room n (push_back d s)" if "ilist_room (Suc n) s"
    using push_back_nodes(2) [OF xs(1) that] .
next
  fix s ds n
  assume "ilist_seq s ds"
  then obtain xs where xs: "ilist_nodes s xs" "map snd xs = ds" by (rule ilist_seqE)
  show "iterate s = Some ds"
    using xs by (cases s) (auto simp: iterate_def ilist_nodes_def iterate_nodes)
  show "\<exists>s'. clear s = Some s' \<and> ilist_seq s' [] \<and> ilist_room n s' = ilist_room n s"
    using xs by (cases s) (auto simp: clear_def ilist_nodes_def clear_loop_nodes ilist_seq_def
        ilist_room_def ascending_def)
qed

definition example_list :: machine where
  "example_list = \<lparr>placement = 0x1000, mem = (\<lambda>_. 0xff), cr3 = 0, invlpgs = []\<rparr>"

text \<open>C39. The container is a sequence: after any number of \<^verbatim>\<open>push_back\<close> calls on a list
  that holds \<open>ds\<close>, for whose nodes of 16 bytes boot memory has room, a range-for loop ends and visits the old elements and then the new ones in
  the order they were pushed, and \<^verbatim>\<open>size()\<close> is the number of elements.\<close>

theorem ilist_push_back_sequence:
  assumes "ilist_seq s ds" and "headroom (16 * length es) (fst s)"
  shows "iterate (fold push_back es s) = Some (ds @ es)
    \<and> ilist_size (snd (fold push_back es s)) = word_of_nat (length ds + length es)"
proof -
  have sq: "ilist_seq (fold push_back es s) (ds @ es)"
    using assms by (intro il.fold_push) (simp_all add: ilist_room_def)
  then have it: "iterate (fold push_back es s) = Some (ds @ es)"
    by (rule il.items_seq)
  obtain xs where xs: "ilist_nodes (fold push_back es s) xs" "map snd xs = ds @ es"
    using sq by (rule ilist_seqE)
  have "length xs = length ds + length es"
    using arg_cong [OF xs(2), of length] by simp
  then show ?thesis
    using xs(1) it by (simp add: ilist_nodes_def ilist_size_def case_prod_unfold)
qed

theorem ilist_push_back_sequence_witness:
  "iterate (fold push_back [7, 9] (example_list, ilist_new)) = Some ([] @ [7, 9])
    \<and> ilist_size (snd (fold push_back [7, 9] (example_list, ilist_new))) = word_of_nat (0 + 2)"
  using ilist_push_back_sequence [of "(example_list, ilist_new)" "[]" "[7, 9]"]
  by (simp add: example_list_def ilist_seq_def ilist_nodes_def ilist_new_def headroom_def ascending_def)

end
