(* ===== verification/Virtual.thy ===== *)
theory Virtual
  imports Ilist
begin

text \<open>
  The address-space manager of \<^verbatim>\<open>memory/virtual.hpp\<close> and
  \<^verbatim>\<open>memory/virtual.cpp\<close>. Its member \<^verbatim>\<open>free_mem_list_\<close> is a container
  of pointers to region nodes that only this class reaches, one node per element; the model
  holds the regions themselves, in list order (the container's contract is proved in theory
  Ilist), and a region's position stands for the identity of its node. The boot memory taken
  by the nodes is accounted for in the bump pointer.
\<close>

subsection \<open>State\<close>

record region =
  start :: addr
  extent :: u64

record virt =
  free_mem_list :: "region list"

definition VADDR_START :: addr where
  "VADDR_START = 0"

definition VADDR_SIZE :: u64 where
  "VADDR_SIZE = GB 256"

definition sizeof_region :: u64 where
  "sizeof_region = 16"

text \<open>
  \<^verbatim>\<open>placement_kalloc(sizeof(node))\<close>, the node's constructor, and
  \<^verbatim>\<open>free_mem_list_.push_back\<close>, which takes a list node of its own.
\<close>

definition push_region :: "addr \<Rightarrow> u64 \<Rightarrow> machine \<Rightarrow> virt \<Rightarrow> machine \<times> virt" where
  "push_region st sz m v =
     (let m = snd (placement_kalloc sizeof_region False m);
          m = snd (placement_kalloc sizeof_node False m)
      in (m, v\<lparr>free_mem_list := free_mem_list v @ [\<lparr>start = st, extent = sz\<rparr>]\<rparr>))"

subsection \<open>Operations\<close>

definition virt_new :: "machine \<Rightarrow> machine \<times> virt" where
  "virt_new m = push_region VADDR_START VADDR_SIZE m \<lparr>free_mem_list = []\<rparr>"

fun push_regions :: "region list \<Rightarrow> machine \<Rightarrow> virt \<Rightarrow> machine \<times> virt" where
  "push_regions [] m v = (m, v)"
| "push_regions (slot # slots) m v =
     (case push_region (start slot) (extent slot) m v of (m, v) \<Rightarrow> push_regions slots m v)"

definition virt_copy :: "virt \<Rightarrow> machine \<Rightarrow> machine \<times> virt" where
  "virt_copy other m = push_regions (free_mem_list other) m \<lparr>free_mem_list = []\<rparr>"

text \<open>Assignment; \<open>same\<close> tells whether \<^verbatim>\<open>this == &other\<close>.\<close>

definition virt_assign :: "bool \<Rightarrow> virt \<Rightarrow> machine \<Rightarrow> virt \<Rightarrow> machine \<times> virt" where
  "virt_assign same other m v =
     (if \<not> same then push_regions (free_mem_list other) m (v\<lparr>free_mem_list := []\<rparr>) else (m, v))"

fun alloc_scan :: "u64 \<Rightarrow> region list \<Rightarrow> addr \<times> region list" where
  "alloc_scan n [] = (0, [])"
| "alloc_scan n (r # rs) =
     (if extent r = 0 \<or> extent r < n then
        (case alloc_scan n rs of (a, rs') \<Rightarrow> (a, r # rs'))
      else if extent r = n then (start r, r\<lparr>extent := 0\<rparr> # rs)
      else (start r, r\<lparr>start := start r + n, extent := extent r - n\<rparr> # rs))"

definition virt_alloc :: "u64 \<Rightarrow> virt \<Rightarrow> addr \<times> virt" where
  "virt_alloc sz v =
     (let aligned_size = ALIGN_UP sz
      in case alloc_scan aligned_size (free_mem_list v) of
           (a, rs) \<Rightarrow> (a, v\<lparr>free_mem_list := rs\<rparr>))"

text \<open>\<^verbatim>\<open>alloc(initial_addr, size)\<close>: the loop leaves at the first region it does not skip.\<close>

definition virt_alloc_at :: "addr \<Rightarrow> u64 \<Rightarrow> machine \<Rightarrow> virt \<Rightarrow> bool \<times> machine \<times> virt" where
  "virt_alloc_at a sz m v =
     (case find_index (\<lambda>r. \<not> (start r < a \<and> start r + extent r \<le> a + sz)) (free_mem_list v) of
        None \<Rightarrow> (False, m, v)
      | Some i \<Rightarrow>
          (let r = free_mem_list v ! i;
               mv = push_region (a + sz) (extent r) m v;
               rs = free_mem_list (snd mv)
           in (True, fst mv, (snd mv)\<lparr>free_mem_list := rs[i := r\<lparr>extent := a - start r\<rparr>]\<rparr>)))"

text \<open>The inner loop of \<^verbatim>\<open>free\<close>, after region \<open>i\<close> has grown upwards.\<close>

definition merge_next :: "nat \<Rightarrow> region list \<Rightarrow> region list" where
  "merge_next i rs =
     (let c = rs ! i in
      case find_index (\<lambda>j. \<not> (j = i \<or> extent (rs ! j) = 0) \<and> start c + extent c = start (rs ! j))
             [0..<length rs] of
        None \<Rightarrow> rs
      | Some j \<Rightarrow> rs[i := c\<lparr>extent := extent c + extent (rs ! j)\<rparr>, j := (rs ! j)\<lparr>extent := 0\<rparr>])"

definition virt_free :: "addr \<Rightarrow> u64 \<Rightarrow> machine \<Rightarrow> virt \<Rightarrow> machine \<times> virt" where
  "virt_free a sz m v =
     (let aligned_size = ALIGN_UP sz;
          free_start = a;
          free_end = free_start + aligned_size;
          rs = free_mem_list v
      in case find_index (\<lambda>r. extent r \<noteq> 0
                 \<and> (free_end = start r \<or> start r + extent r = free_start)) rs of
           None \<Rightarrow> push_region a aligned_size m v
         | Some i \<Rightarrow>
             (let r = rs ! i in
              if free_end = start r then
                (m, v\<lparr>free_mem_list := rs[i := r\<lparr>start := a, extent := extent r + aligned_size\<rparr>]\<rparr>)
              else
                (m, v\<lparr>free_mem_list :=
                    merge_next i (rs[i := r\<lparr>extent := extent r + aligned_size\<rparr>])\<rparr>)))"

subsection \<open>The free address space\<close>

definition region_bytes :: "region \<Rightarrow> nat set" where
  "region_bytes r = bytes_of (start r) (unat (extent r))"

definition free_bytes :: "virt \<Rightarrow> nat set" where
  "free_bytes v = (\<Union>r \<in> set (free_mem_list v). region_bytes r)"

text \<open>No region reaches the end of the address space and no two share a byte.\<close>

definition bounded_region :: "region \<Rightarrow> bool" where
  "bounded_region r \<longleftrightarrow> unat (start r) + unat (extent r) < 18446744073709551616"

definition disjoint_regions :: "region list \<Rightarrow> bool" where
  "disjoint_regions rs \<longleftrightarrow> sorted_wrt (\<lambda>r s. region_bytes r \<inter> region_bytes s = {}) rs"

definition regions_ok :: "region list \<Rightarrow> bool" where
  "regions_ok rs \<longleftrightarrow> (\<forall>r \<in> set rs. bounded_region r) \<and> disjoint_regions rs"

definition virt_ok :: "virt \<Rightarrow> bool" where
  "virt_ok v \<longleftrightarrow> regions_ok (free_mem_list v)"

lemma region_bytes_empty [simp]: "region_bytes (r\<lparr>extent := 0\<rparr>) = {}"
  by (simp add: region_bytes_def bytes_of_def)

lemma disjoint_regions_Cons:
  "disjoint_regions (r # rs) \<longleftrightarrow>
     (\<forall>s \<in> set rs. region_bytes r \<inter> region_bytes s = {}) \<and> disjoint_regions rs"
  by (simp add: disjoint_regions_def)

lemma disjoint_regions_mid:
  "disjoint_regions (xs @ r # ys) \<longleftrightarrow> disjoint_regions (xs @ ys)
     \<and> (\<forall>s \<in> set (xs @ ys). region_bytes r \<inter> region_bytes s = {})"
  by (simp add: disjoint_regions_def sorted_wrt_append) blast

definition regions_bytes :: "region list \<Rightarrow> nat set" where
  "regions_bytes rs = (\<Union>r \<in> set rs. region_bytes r)"

lemma free_bytes_eq: "free_bytes v = regions_bytes (free_mem_list v)"
  by (simp add: free_bytes_def regions_bytes_def)

lemma regions_bytes_simps [simp]:
  "regions_bytes [] = {}"
  "regions_bytes (r # rs) = region_bytes r \<union> regions_bytes rs"
  "regions_bytes (xs @ ys) = regions_bytes xs \<union> regions_bytes ys"
  by (auto simp: regions_bytes_def)

text \<open>
  Replacing one region by another that adds only bytes that were not free keeps the list
  well formed; the free bytes change accordingly.
\<close>

lemma regions_replace:
  assumes "regions_ok (xs @ r # ys)" and "bounded_region r'"
    and "region_bytes r' \<subseteq> region_bytes r \<union> X" and "X \<inter> regions_bytes (xs @ ys) = {}"
  shows "regions_ok (xs @ r' # ys)"
proof -
  have "region_bytes r' \<inter> region_bytes s = {}" if "s \<in> set (xs @ ys)" for s
  proof -
    have "region_bytes r \<inter> region_bytes s = {}"
      using assms(1) that by (simp add: regions_ok_def disjoint_regions_mid)
    moreover have "X \<inter> region_bytes s = {}"
      using assms(4) that unfolding regions_bytes_def by blast
    ultimately show ?thesis using assms(3) by blast
  qed
  then show ?thesis
    using assms(1,2) unfolding regions_ok_def disjoint_regions_mid by auto
qed

lemma regions_disjoint_mid:
  "regions_ok (xs @ r # ys) \<Longrightarrow> region_bytes r \<inter> regions_bytes (xs @ ys) = {}"
  unfolding regions_ok_def disjoint_regions_mid regions_bytes_def by blast

lemma list_update_split:
  assumes "i < length xs"
  obtains ys zs where "xs = ys @ xs ! i # zs" "length ys = i"
    "\<And>x. xs[i := x] = ys @ x # zs"
  using assms that [of "take i xs" "drop (Suc i) xs"]
  by (simp add: id_take_nth_drop upd_conv_take_nth_drop)

text \<open>Taking the low \<open>n\<close> bytes off a region.\<close>

lemma region_split:
  assumes "bounded_region r" and "n < extent r"
  defines "r' \<equiv> r\<lparr>start := start r + n, extent := extent r - n\<rparr>"
  shows "bounded_region r'" and "region_bytes r = bytes_of (start r) (unat n) \<union> region_bytes r'"
    and "bytes_of (start r) (unat n) \<inter> region_bytes r' = {}"
proof -
  have lt: "unat n < unat (extent r)" using assms(2) by (simp add: wordnat)
  then have "unat (start r + n) = unat (start r) + unat n"
    using assms(1) by (simp add: bounded_region_def unat_add_nowrap)
  moreover have "unat (extent r - n) = unat (extent r) - unat n"
    using assms(2) by (simp add: unat_sub)
  ultimately show "bounded_region r'" "region_bytes r = bytes_of (start r) (unat n) \<union> region_bytes r'"
    "bytes_of (start r) (unat n) \<inter> region_bytes r' = {}"
    using assms(1) lt by (auto simp: r'_def bounded_region_def region_bytes_def bytes_of_def)
qed

subsection \<open>Allocation\<close>

text \<open>The regions a request of \<open>n\<close> bytes is served from.\<close>

definition fits :: "u64 \<Rightarrow> region \<Rightarrow> bool" where
  "fits n r \<longleftrightarrow> extent r \<noteq> 0 \<and> n \<le> extent r"

lemma alloc_scan_none:
  "(\<forall>r \<in> set rs. \<not> fits n r) \<Longrightarrow> alloc_scan n rs = (0, rs)"
  by (induction rs) (auto simp: fits_def)

lemma alloc_scan_found:
  assumes "regions_ok rs" and "find_index (fits n) rs = Some i"
  shows "\<exists>rs'. alloc_scan n rs = (start (rs ! i), rs')
    \<and> regions_bytes rs = bytes_of (start (rs ! i)) (unat n) \<union> regions_bytes rs'
    \<and> bytes_of (start (rs ! i)) (unat n) \<inter> regions_bytes rs' = {} \<and> regions_ok rs'"
  using assms
proof (induction rs arbitrary: i)
  case Nil
  then show ?case by simp
next
  case (Cons r rs)
  have r: "bounded_region r" and rs: "regions_ok rs"
    and disj: "region_bytes r \<inter> regions_bytes rs = {}"
    using Cons.prems(1) regions_disjoint_mid [of "[]" r rs]
    by (auto simp: regions_ok_def disjoint_regions_Cons)
  show ?case
  proof (cases "fits n r")
    case True
    then have i: "i = 0" and n: "extent r \<noteq> 0" "\<not> extent r < n"
      using Cons.prems(2) by (auto simp: fits_def)
    show ?thesis
    proof (cases "extent r = n")
      case full: True
      have "regions_ok (r\<lparr>extent := 0\<rparr> # rs)"
        using regions_replace [of "[]" r rs "r\<lparr>extent := 0\<rparr>" "{}"] Cons.prems(1) u64_bound [of "start r"]
        by (simp add: bounded_region_def)
      then show ?thesis
        using i n full disj by (auto simp: region_bytes_def)
    next
      case False
      let ?r' = "r\<lparr>start := start r + n, extent := extent r - n\<rparr>"
      have lt: "n < extent r" using n False by simp
      note sp = region_split [OF r lt]
      have "regions_ok (?r' # rs)"
        using regions_replace [of "[]" r rs ?r' "{}"] Cons.prems(1) sp by auto
      then show ?thesis
        using i n False disj sp by auto
    qed
  next
    case False
    then obtain k where k: "find_index (fits n) rs = Some k" "i = Suc k"
      using Cons.prems(2) by auto
    obtain rs' where rs': "alloc_scan n rs = (start (rs ! k), rs')"
      "regions_bytes rs = bytes_of (start (rs ! k)) (unat n) \<union> regions_bytes rs'"
      "bytes_of (start (rs ! k)) (unat n) \<inter> regions_bytes rs' = {}" "regions_ok rs'"
      using Cons.IH [OF rs k(1)] by blast
    have "regions_ok (r # rs')"
      using r rs' disj unfolding regions_ok_def disjoint_regions_Cons regions_bytes_def by auto
    moreover have "extent r = 0 \<or> extent r < n" using False by (auto simp: fits_def)
    ultimately show ?thesis using rs' k(2) disj by auto
  qed
qed

lemma virt_alloc_spec:
  assumes "virt_ok v" and "virt_alloc sz v = (a, v')"
  shows "case find_index (fits (ALIGN_UP sz)) (free_mem_list v) of
      None \<Rightarrow> a = 0 \<and> v' = v
    | Some i \<Rightarrow> a = start (free_mem_list v ! i)
        \<and> bytes_of a (unat (ALIGN_UP sz)) \<subseteq> free_bytes v
        \<and> free_bytes v' = free_bytes v - bytes_of a (unat (ALIGN_UP sz)) \<and> virt_ok v'"
proof (cases "find_index (fits (ALIGN_UP sz)) (free_mem_list v)")
  case None
  then have "alloc_scan (ALIGN_UP sz) (free_mem_list v) = (0, free_mem_list v)"
    by (intro alloc_scan_none) (simp add: find_index_None)
  then show ?thesis using assms(2) None by (simp add: virt_alloc_def)
next
  case (Some i)
  obtain rs' where "alloc_scan (ALIGN_UP sz) (free_mem_list v) = (start (free_mem_list v ! i), rs')"
    "regions_bytes (free_mem_list v)
       = bytes_of (start (free_mem_list v ! i)) (unat (ALIGN_UP sz)) \<union> regions_bytes rs'"
    "bytes_of (start (free_mem_list v ! i)) (unat (ALIGN_UP sz)) \<inter> regions_bytes rs' = {}"
    "regions_ok rs'"
    using alloc_scan_found [OF _ Some] assms(1) by (auto simp: virt_ok_def)
  then show ?thesis
    using assms(2) Some by (auto simp: virt_alloc_def free_bytes_eq virt_ok_def)
qed

text \<open>First-fit allocation of address space: when some free region is large enough, the
  result is the low end of the first such region; the bytes handed out were free, are free no
  longer, and nothing else changes; when none is, the result is null and the free space is
  untouched. Free regions stay disjoint.\<close>

theorem virt_alloc_first_fit:
  assumes "virt_ok v" and "virt_alloc sz v = (a, v')"
  shows "case find_index (fits (ALIGN_UP sz)) (free_mem_list v) of
      None \<Rightarrow> a = 0 \<and> v' = v
    | Some i \<Rightarrow> a = start (free_mem_list v ! i)
        \<and> bytes_of a (unat (ALIGN_UP sz)) \<subseteq> free_bytes v
        \<and> free_bytes v' = free_bytes v - bytes_of a (unat (ALIGN_UP sz)) \<and> virt_ok v'"
  using assms by (rule virt_alloc_spec)

subsection \<open>Release\<close>

lemma bytes_of_append:
  "unat b = unat a + n \<Longrightarrow> bytes_of a (n + k) = bytes_of a n \<union> bytes_of b k"
  by (auto simp: bytes_of_def)

text \<open>Region \<open>r\<close> grown by \<open>n\<close> bytes that lie directly below it, or directly above it.\<close>

lemma region_grow_down:
  assumes "bounded_region r" and "unat a + unat n = unat (start r)"
  defines "r' \<equiv> r\<lparr>start := a, extent := extent r + n\<rparr>"
  shows "bounded_region r'" and "region_bytes r' = region_bytes r \<union> bytes_of a (unat n)"
proof -
  have "unat (extent r + n) = unat n + unat (extent r)"
    using assms(1,2) by (simp add: bounded_region_def unat_add_nowrap)
  then show "bounded_region r'" "region_bytes r' = region_bytes r \<union> bytes_of a (unat n)"
    using assms(1,2) bytes_of_append [of "start r" a "unat n" "unat (extent r)"]
    by (auto simp: r'_def bounded_region_def region_bytes_def)
qed

lemma region_grow_up:
  assumes "unat (start r) + unat (extent r) = unat a"
    and "unat a + unat n < 18446744073709551616"
  defines "r' \<equiv> r\<lparr>extent := extent r + n\<rparr>"
  shows "bounded_region r'" and "region_bytes r' = region_bytes r \<union> bytes_of a (unat n)"
proof -
  have "unat (extent r + n) = unat (extent r) + unat n"
    using assms(1,2) by (simp add: unat_add_nowrap)
  then show "bounded_region r'" "region_bytes r' = region_bytes r \<union> bytes_of a (unat n)"
    using assms(1,2) bytes_of_append [of a "start r" "unat (extent r)" "unat n"]
    by (auto simp: r'_def bounded_region_def region_bytes_def)
qed

lemma merge_next_ok:
  assumes ok: "regions_ok rs" and i: "i < length rs"
  shows "regions_ok (merge_next i rs) \<and> regions_bytes (merge_next i rs) = regions_bytes rs"
proof (cases "find_index (\<lambda>j. \<not> (j = i \<or> extent (rs ! j) = 0)
    \<and> start (rs ! i) + extent (rs ! i) = start (rs ! j)) [0..<length rs]")
  case None
  then show ?thesis using ok by (simp add: merge_next_def)
next
  case (Some k)
  have kl: "k < length rs" and j: "k \<noteq> i"
    "start (rs ! i) + extent (rs ! i) = start (rs ! k)"
    using find_index_SomeD [OF Some] by auto
  let ?e = "(rs ! k)\<lparr>extent := 0\<rparr>" and ?rs = "rs[k := (rs ! k)\<lparr>extent := 0\<rparr>]"
  let ?c = "(rs ! i)\<lparr>extent := extent (rs ! i) + extent (rs ! k)\<rparr>"
  have eq: "merge_next i rs = ?rs[i := ?c]"
    using Some j by (simp add: merge_next_def list_update_swap Let_def)
  obtain ys zs where k: "rs = ys @ rs ! k # zs" "\<And>x. rs[k := x] = ys @ x # zs"
    by (rule list_update_split [OF kl]) blast
  have bi: "bounded_region (rs ! i)" and bk: "bounded_region (rs ! k)"
    using ok i kl by (auto simp: regions_ok_def)
  have disj: "region_bytes (rs ! k) \<inter> regions_bytes (ys @ zs) = {}"
    using ok k(1) regions_disjoint_mid by metis
  have "bounded_region ?e" using u64_bound [of "start (rs ! k)"] by (simp add: bounded_region_def)
  then have ok1: "regions_ok ?rs"
    unfolding k(2) using regions_replace [of ys "rs ! k" zs ?e "{}"] ok k(1) by simp
  have b1: "regions_bytes ?rs = regions_bytes (ys @ zs)" unfolding k(2) by simp
  have b0: "regions_bytes rs = region_bytes (rs ! k) \<union> regions_bytes (ys @ zs)"
    by (subst k(1)) auto
  have ri: "?rs ! i = rs ! i" using j(1) by simp
  have il: "i < length ?rs" using i by simp
  obtain us ws where l: "?rs = us @ rs ! i # ws" "\<And>x. ?rs[i := x] = us @ x # ws"
    using list_update_split [OF il] unfolding ri by metis
  have "unat (start (rs ! i)) + unat (extent (rs ! i)) = unat (start (rs ! k))"
    using bi by (simp add: bounded_region_def unat_add_nowrap flip: j(2))
  then have c: "bounded_region ?c" "region_bytes ?c = region_bytes (rs ! i) \<union> region_bytes (rs ! k)"
    using region_grow_up [of "rs ! i" "start (rs ! k)" "extent (rs ! k)"] bk
    by (simp_all add: bounded_region_def region_bytes_def)
  have "regions_bytes (us @ ws) \<subseteq> regions_bytes ?rs" by (subst l(1)) auto
  then have "region_bytes (rs ! k) \<inter> regions_bytes (us @ ws) = {}"
    using disj b1 by blast
  then have "regions_ok (us @ ?c # ws)"
    using ok1 c l(1) by (intro regions_replace [of us "rs ! i" ws ?c "region_bytes (rs ! k)"]) auto
  moreover have "regions_bytes (us @ ?c # ws) = regions_bytes ?rs \<union> region_bytes (rs ! k)"
    by (subst l(1)) (auto simp: c)
  ultimately show ?thesis unfolding eq l(2) b0 b1 by auto
qed

lemma merge_up_eq:
  "start r + extent r = a \<Longrightarrow> bounded_region r
    \<Longrightarrow> unat (start r) + unat (extent r) = unat a"
  by (auto simp: bounded_region_def unat_add_nowrap)

lemma virt_free_spec:
  assumes ok: "virt_ok v"
    and top: "unat a + unat (ALIGN_UP sz) < 18446744073709551616"
    and new: "bytes_of a (unat (ALIGN_UP sz)) \<inter> free_bytes v = {}"
  shows "free_bytes (snd (virt_free a sz m v)) = free_bytes v \<union> bytes_of a (unat (ALIGN_UP sz))
    \<and> virt_ok (snd (virt_free a sz m v))"
proof -
  let ?n = "ALIGN_UP sz" and ?rs = "free_mem_list v"
  let ?P = "\<lambda>r. extent r \<noteq> 0 \<and> (a + ?n = start r \<or> start r + extent r = a)"
  have aend: "unat (a + ?n) = unat a + unat ?n" using top by (rule unat_add_nowrap)
  show ?thesis
  proof (cases "find_index ?P ?rs")
    case None
    let ?r = "\<lparr>start = a, extent = ?n\<rparr>"
    have eq: "virt_free a sz m v = push_region a ?n m v"
      using None by (simp add: virt_free_def Let_def)
    have "regions_ok (?rs @ [?r])"
      using ok top new
      by (auto simp: virt_ok_def regions_ok_def disjoint_regions_mid [of _ _ "[]"] bounded_region_def
          region_bytes_def free_bytes_def)
    then show ?thesis
      unfolding eq by (auto simp: push_region_def Let_def virt_ok_def free_bytes_eq region_bytes_def)
  next
    case (Some i)
    have i: "i < length ?rs" and P: "?P (?rs ! i)" using find_index_SomeD [OF Some] by auto
    let ?r = "?rs ! i"
    obtain ys zs where s: "?rs = ys @ ?r # zs" "\<And>x. ?rs[i := x] = ys @ x # zs"
      by (rule list_update_split [OF i]) blast
    have ri: "bounded_region ?r" using ok i by (auto simp: virt_ok_def regions_ok_def)
    have rok: "regions_ok (ys @ ?r # zs)" using ok s(1) by (simp add: virt_ok_def)
    have new': "bytes_of a (unat ?n) \<inter> regions_bytes (ys @ zs) = {}"
      using new unfolding free_bytes_eq by (subst (asm) s(1)) auto
    have b: "free_bytes v = region_bytes ?r \<union> regions_bytes (ys @ zs)"
      unfolding free_bytes_eq by (subst s(1)) auto
    show ?thesis
    proof (cases "a + ?n = start ?r")
      case True
      let ?c = "?r\<lparr>start := a, extent := extent ?r + ?n\<rparr>"
      have c: "bounded_region ?c" "region_bytes ?c = region_bytes ?r \<union> bytes_of a (unat ?n)"
        using region_grow_down [OF ri, of a ?n] aend True by simp_all
      have "regions_ok (ys @ ?c # zs)"
        using rok c new' by (intro regions_replace [of ys ?r zs ?c "bytes_of a (unat ?n)"]) auto
      then show ?thesis
        using Some True c(2) b
        by (auto simp: virt_free_def Let_def s(2) virt_ok_def free_bytes_eq)
    next
      case False
      let ?c = "?r\<lparr>extent := extent ?r + ?n\<rparr>"
      have c: "bounded_region ?c" "region_bytes ?c = region_bytes ?r \<union> bytes_of a (unat ?n)"
        using region_grow_up [of ?r a ?n] merge_up_eq [OF _ ri, of a] P False top by auto
      have ok': "regions_ok (?rs[i := ?c])"
        unfolding s(2) using rok c new'
        by (intro regions_replace [of ys ?r zs ?c "bytes_of a (unat ?n)"]) auto
      have b': "regions_bytes (?rs[i := ?c]) = free_bytes v \<union> bytes_of a (unat ?n)"
        unfolding s(2) b using c(2) by auto
      have "virt_free a sz m v = (m, v\<lparr>free_mem_list := merge_next i (?rs[i := ?c])\<rparr>)"
        using Some False by (simp add: virt_free_def Let_def)
      then show ?thesis
        using merge_next_ok [OF ok', of i] i b' by (simp add: virt_ok_def free_bytes_eq)
    qed
  qed
qed

text \<open>Releasing a range that is not free adds exactly its pages to the free space, whichever
  of the merges with neighbouring regions applies, and keeps the regions disjoint.\<close>

theorem virt_free_adds_range:
  assumes ok: "virt_ok v"
    and top: "unat a + unat (ALIGN_UP sz) < 18446744073709551616"
    and new: "bytes_of a (unat (ALIGN_UP sz)) \<inter> free_bytes v = {}"
  shows "free_bytes (snd (virt_free a sz m v)) = free_bytes v \<union> bytes_of a (unat (ALIGN_UP sz))
    \<and> virt_ok (snd (virt_free a sz m v))"
  using assms by (rule virt_free_spec)

subsection \<open>The interface of an address-space manager\<close>

text \<open>
  A client reserves ranges and releases ranges it holds; \<open>vserve\<close> runs such a sequence,
  with the address and size of every range held.
\<close>

datatype vrequest = Reserve u64 | Release addr u64

fun vserve ::
  "(u64 \<Rightarrow> 'w \<Rightarrow> addr \<times> 'w) \<Rightarrow> (addr \<Rightarrow> u64 \<Rightarrow> 'w \<Rightarrow> 'w) \<Rightarrow> vrequest list
    \<Rightarrow> 'w \<times> (addr \<times> u64) list \<Rightarrow> 'w \<times> (addr \<times> u64) list"
where
  "vserve get put [] s = s"
| "vserve get put (Reserve n # rs) (w, h) =
     vserve get put rs (snd (get n w), if fst (get n w) = 0 then h else (fst (get n w), n) # h)"
| "vserve get put (Release a n # rs) (w, h) =
     (if (a, n) \<in> set h then vserve get put rs (put a n w, remove1 (a, n) h)
      else vserve get put rs (w, h))"

definition range_bytes :: "addr \<times> u64 \<Rightarrow> nat set" where
  "range_bytes r = bytes_of (fst r) (unat (ALIGN_UP (snd r)))"

definition in_space :: "addr \<times> u64 \<Rightarrow> bool" where
  "in_space r \<longleftrightarrow> unat (fst r) + unat (ALIGN_UP (snd r)) < 18446744073709551616"

text \<open>The ranges held and the free space do not overlap, and all lie in \<open>U\<close>.\<close>

definition ranges_apart :: "nat set \<Rightarrow> nat set \<Rightarrow> (addr \<times> u64) list \<Rightarrow> bool" where
  "ranges_apart U F h \<longleftrightarrow> sorted_wrt (\<lambda>r s. range_bytes r \<inter> range_bytes s = {}) h
     \<and> (\<forall>r \<in> set h. range_bytes r \<inter> F = {} \<and> range_bytes r \<subseteq> U \<and> in_space r) \<and> F \<subseteq> U"

lemma ranges_apart_Cons:
  "ranges_apart U F h \<Longrightarrow> range_bytes r \<subseteq> F \<Longrightarrow> in_space r
    \<Longrightarrow> ranges_apart U (F - range_bytes r) (r # h)"
  by (auto simp: ranges_apart_def)

lemma sorted_wrt_remove1: "sorted_wrt R xs \<Longrightarrow> sorted_wrt R (remove1 x xs)"
proof (induction xs)
  case (Cons y ys)
  then show ?case using set_remove1_subset [of x ys] by auto
qed simp

lemma remove1_apart:
  assumes "sorted_wrt (\<lambda>r s. f r \<inter> f s = {}) h" and "r \<in> set h" and "s \<in> set (remove1 r h)"
  shows "f r \<inter> f s = {}"
  using assms
proof (induction h)
  case (Cons y ys)
  then show ?case using set_remove1_subset [of r ys] by (auto split: if_splits)
qed simp

lemma ranges_apart_remove1:
  assumes "ranges_apart U F h" and "r \<in> set h"
  shows "ranges_apart U (F \<union> range_bytes r) (remove1 r h)"
proof -
  have "\<forall>s \<in> set (remove1 r h). range_bytes s \<inter> range_bytes r = {}"
    using assms remove1_apart [of range_bytes h r] by (fastforce simp: ranges_apart_def)
  moreover have "set (remove1 r h) \<subseteq> set h" by (rule set_remove1_subset)
  ultimately show ?thesis
    using assms unfolding ranges_apart_def by (auto intro!: sorted_wrt_remove1)
qed

locale address_space =
  fixes ok :: "'w \<Rightarrow> bool"
    and avail :: "'w \<Rightarrow> nat set"
    and get :: "u64 \<Rightarrow> 'w \<Rightarrow> addr \<times> 'w"
    and put :: "addr \<Rightarrow> u64 \<Rightarrow> 'w \<Rightarrow> 'w"
  assumes get_ok: "ok w \<Longrightarrow> ok (snd (get n w))"
    and get_less: "ok w \<Longrightarrow> avail (snd (get n w)) \<subseteq> avail w"
    and get_range: "ok w \<Longrightarrow> fst (get n w) \<noteq> 0 \<Longrightarrow> range_bytes (fst (get n w), n) \<subseteq> avail w
      \<and> avail (snd (get n w)) = avail w - range_bytes (fst (get n w), n)
      \<and> in_space (fst (get n w), n)"
    and put_ok: "ok w \<Longrightarrow> range_bytes (a, n) \<inter> avail w = {} \<Longrightarrow> in_space (a, n) \<Longrightarrow> ok (put a n w)"
    and put_range: "ok w \<Longrightarrow> range_bytes (a, n) \<inter> avail w = {} \<Longrightarrow> in_space (a, n)
      \<Longrightarrow> avail (put a n w) = avail w \<union> range_bytes (a, n)"
begin

lemma vserve_apart:
  assumes "ok w" and "ranges_apart U (avail w) h"
  shows "ok (fst (vserve get put rs (w, h)))
    \<and> ranges_apart U (avail (fst (vserve get put rs (w, h)))) (snd (vserve get put rs (w, h)))"
  using assms
proof (induction rs arbitrary: w h)
  case (Cons r rs)
  show ?case
  proof (cases r)
    case (Reserve n)
    have "ranges_apart U (avail (snd (get n w)))
      (if fst (get n w) = 0 then h else (fst (get n w), n) # h)"
    proof (cases "fst (get n w) = 0")
      case True
      then show ?thesis
        using Cons.prems get_less [of w n] unfolding ranges_apart_def by (simp, blast)
    next
      case False
      then show ?thesis using Cons.prems get_range [of w n] by (simp add: ranges_apart_Cons)
    qed
    then show ?thesis using Cons.IH Cons.prems(1) get_ok Reserve by simp
  next
    case (Release a n)
    show ?thesis
    proof (cases "(a, n) \<in> set h")
      case True
      then have "range_bytes (a, n) \<inter> avail w = {}" "in_space (a, n)"
        using Cons.prems(2) by (auto simp: ranges_apart_def)
      then show ?thesis
        using Cons.IH [of "put a n w" "remove1 (a, n) h"] put_ok put_range Cons.prems Release True
          ranges_apart_remove1 [OF Cons.prems(2) True] by simp
    next
      case False
      then show ?thesis using Cons Release by simp
    qed
  qed
qed simp

end

definition space_get :: "u64 \<Rightarrow> machine \<times> virt \<Rightarrow> addr \<times> machine \<times> virt" where
  "space_get n w = (case virt_alloc n (snd w) of (a, v) \<Rightarrow> (a, fst w, v))"

definition space_put :: "addr \<Rightarrow> u64 \<Rightarrow> machine \<times> virt \<Rightarrow> machine \<times> virt" where
  "space_put a n w = virt_free a n (fst w) (snd w)"

lemma virt_alloc_cases:
  assumes "virt_ok v" and "virt_alloc n v = (a, v')"
  obtains "a = 0" "v' = v"
  | "range_bytes (a, n) \<subseteq> free_bytes v" "free_bytes v' = free_bytes v - range_bytes (a, n)"
    "virt_ok v'" "in_space (a, n)"
proof (cases "find_index (fits (ALIGN_UP n)) (free_mem_list v)")
  case None
  then show ?thesis using virt_alloc_spec [OF assms] that(1) by simp
next
  case (Some i)
  have i: "i < length (free_mem_list v)" "fits (ALIGN_UP n) (free_mem_list v ! i)"
    using find_index_SomeD [OF Some] by auto
  then have "bounded_region (free_mem_list v ! i)"
    using assms(1) by (simp add: virt_ok_def regions_ok_def)
  then have sp: "in_space (start (free_mem_list v ! i), n)"
    using i(2) by (simp add: in_space_def bounded_region_def fits_def wordnat)
  have "a = start (free_mem_list v ! i) \<and> range_bytes (a, n) \<subseteq> free_bytes v
      \<and> free_bytes v' = free_bytes v - range_bytes (a, n) \<and> virt_ok v'"
    using virt_alloc_spec [OF assms] Some by (auto simp: range_bytes_def)
  then show ?thesis using sp by (elim conjE) (rule that(2), simp_all)
qed

interpretation sp: address_space "\<lambda>w. virt_ok (snd w)" "\<lambda>w. free_bytes (snd w)" space_get space_put
proof
  fix w :: "machine \<times> virt" and n a
  let ?v = "snd w"
  assume ok: "virt_ok ?v"
  obtain b v' where r: "virt_alloc n ?v = (b, v')" by (cases "virt_alloc n ?v")
  have g: "space_get n w = (b, fst w, v')" by (simp add: space_get_def r)
  show "virt_ok (snd (snd (space_get n w)))" "free_bytes (snd (snd (space_get n w))) \<subseteq> free_bytes ?v"
    by (rule virt_alloc_cases [OF ok r]; use ok g in auto)+
  show "range_bytes (fst (space_get n w), n) \<subseteq> free_bytes ?v
      \<and> free_bytes (snd (snd (space_get n w))) = free_bytes ?v - range_bytes (fst (space_get n w), n)
      \<and> in_space (fst (space_get n w), n)" if "fst (space_get n w) \<noteq> 0"
    by (rule virt_alloc_cases [OF ok r]; use that g in auto)
  assume rel: "range_bytes (a, n) \<inter> free_bytes ?v = {}" "in_space (a, n)"
  show "virt_ok (snd (space_put a n w))"
    "free_bytes (snd (space_put a n w)) = free_bytes ?v \<union> range_bytes (a, n)"
    using virt_free_spec [OF ok, of a n "fst w"] rel
    by (simp_all add: space_put_def range_bytes_def in_space_def)
qed


subsection \<open>The kernel's own address space\<close>

lemma virt_new_ok: "virt_ok (snd (virt_new m))"
  by (simp add: virt_new_def push_region_def Let_def virt_ok_def regions_ok_def bounded_region_def
      disjoint_regions_def VADDR_START_def VADDR_SIZE_def size_literals)

lemma virt_new_eq:
  "free_mem_list (snd (virt_new m)) = [\<lparr>start = 0, extent = 0x4000000000\<rparr>]"
  by (simp add: virt_new_def push_region_def Let_def VADDR_START_def VADDR_SIZE_def size_literals)

text \<open>A fresh manager starts its space at address 0, so its first allocation hands out address
  0: the range is taken out of the free space, but the result is the null pointer that also
  reports failure.\<close>

theorem first_virt_alloc_returns_null:
  assumes "0 < sz" and "sz \<le> VADDR_SIZE"
  shows "fst (virt_alloc sz (snd (virt_new m))) = 0
    \<and> free_bytes (snd (virt_alloc sz (snd (virt_new m))))
        = {unat (ALIGN_UP sz) ..< 0x4000000000}"
proof -
  let ?n = "ALIGN_UP sz"
  have sz: "unat sz \<le> 0x4000000000" using assms(2) by (simp add: VADDR_SIZE_def size_literals wordnat)
  then have n: "unat ?n = (unat sz + 4095) div 4096 * 4096" by (simp add: unat_ALIGN_UP)
  then have le: "unat ?n \<le> 0x4000000000" using sz by simp
  have "find_index (fits ?n) (free_mem_list (snd (virt_new m))) = Some 0"
    using le by (simp add: virt_new_eq fits_def wordnat)
  moreover have "free_bytes (snd (virt_new m)) = {0 ..< 0x4000000000}"
    by (simp add: free_bytes_def virt_new_eq region_bytes_def bytes_of_def)
  ultimately show ?thesis
    using virt_alloc_spec [OF virt_new_ok, of sz m] le
    by (cases "virt_alloc sz (snd (virt_new m))") (auto simp: virt_new_eq bytes_of_def)
qed

text \<open>Reserving a fixed range inside the only free region splits the region, but the part above
  the range is given the size of the whole old region: bytes beyond the old end, as many as lie
  between the region's start and the end of the range, become free although they never were.\<close>

theorem virt_alloc_at_frees_foreign_bytes:
  assumes "free_mem_list v = [r]" and "start r < a" and "bounded_region r"
    and "unat a + unat sz < unat (start r) + unat (extent r)"
    and "unat a + unat sz + unat (extent r) < 18446744073709551616"
  shows "fst (virt_alloc_at a sz m v)
    \<and> (let v' = snd (snd (virt_alloc_at a sz m v));
           old_end = unat (start r) + unat (extent r)
       in {old_end ..< old_end + (unat a + unat sz - unat (start r))} \<subseteq> free_bytes v'
          \<and> {old_end ..< old_end + (unat a + unat sz - unat (start r))} \<inter> free_bytes v = {}
          \<and> bytes_of a (unat sz) \<inter> free_bytes v' = {})"
proof -
  have e: "unat (start r + extent r) = unat (start r) + unat (extent r)"
    using assms(3) by (simp add: bounded_region_def unat_add_nowrap)
  have az: "unat (a + sz) = unat a + unat sz" using assms(5) by (simp add: unat_add_nowrap)
  have d: "unat (a - start r) = unat a - unat (start r)" and lt: "unat (start r) < unat a"
    using assms(2) by (simp_all add: unat_sub wordnat)
  let ?P = "\<lambda>s. \<not> (start s < a \<and> start s + extent s \<le> a + sz)"
  have "find_index ?P (free_mem_list v) = Some 0"
    using assms(1,4) e az by (simp add: wordnat)
  then have "virt_alloc_at a sz m v = (True, fst (push_region (a + sz) (extent r) m v),
      v\<lparr>free_mem_list := [r\<lparr>extent := a - start r\<rparr>, \<lparr>start = a + sz, extent = extent r\<rparr>]\<rparr>)"
    using assms(1) by (simp add: virt_alloc_at_def push_region_def Let_def)
  then show ?thesis
    using lt az d assms(1,4) e
    by (auto simp: free_bytes_def region_bytes_def bytes_of_def Let_def)
qed

subsection \<open>Concrete runs\<close>

definition example_virt :: virt where
  "example_virt = \<lparr>free_mem_list = [\<lparr>start = 0x10000, extent = 0x8000\<rparr>, \<lparr>start = 0x40000, extent = 0x4000\<rparr>]\<rparr>"

lemma example_virt_ok: "virt_ok example_virt"
  by (simp add: example_virt_def virt_ok_def regions_ok_def bounded_region_def disjoint_regions_def
      region_bytes_def bytes_of_def)

theorem virt_alloc_first_fit_witness:
  "0x10000 = start (free_mem_list example_virt ! 0)
    \<and> bytes_of 0x10000 (unat (ALIGN_UP 5000)) \<subseteq> free_bytes example_virt
    \<and> free_bytes (snd (virt_alloc 5000 example_virt))
        = free_bytes example_virt - bytes_of 0x10000 (unat (ALIGN_UP 5000))
    \<and> virt_ok (snd (virt_alloc 5000 example_virt))"
  using virt_alloc_first_fit [OF example_virt_ok, of 5000 "0x10000" "snd (virt_alloc 5000 example_virt)"]
  by (simp add: example_virt_def virt_alloc_def ALIGN_UP_def ALIGN_DOWN_def fits_def)

theorem virt_free_adds_range_witness:
  "free_bytes (snd (virt_free 0x18000 0x1000 example_list example_virt))
      = free_bytes example_virt \<union> bytes_of 0x18000 (unat (ALIGN_UP 0x1000))
    \<and> virt_ok (snd (virt_free 0x18000 0x1000 example_list example_virt))"
  by (rule virt_free_adds_range [OF example_virt_ok])
    (auto simp: ALIGN_UP_def ALIGN_DOWN_def example_virt_def free_bytes_def region_bytes_def bytes_of_def)



theorem first_virt_alloc_returns_null_witness:
  "fst (virt_alloc 0x100000 (snd (virt_new example_list))) = 0
    \<and> free_bytes (snd (virt_alloc 0x100000 (snd (virt_new example_list))))
        = {unat (ALIGN_UP 0x100000) ..< 0x4000000000}"
  by (rule first_virt_alloc_returns_null) (simp_all add: VADDR_SIZE_def size_literals)

theorem virt_alloc_at_frees_foreign_bytes_witness:
  "fst (virt_alloc_at 0x14000 0x1000 example_list \<lparr>free_mem_list = [\<lparr>start = 0x10000, extent = 0x8000\<rparr>]\<rparr>)
    \<and> (let v' = snd (snd (virt_alloc_at 0x14000 0x1000 example_list
                   \<lparr>free_mem_list = [\<lparr>start = 0x10000, extent = 0x8000\<rparr>]\<rparr>));
           old_end = unat (0x10000 :: u64) + unat (0x8000 :: u64)
       in {old_end ..< old_end + (unat (0x14000 :: u64) + unat (0x1000 :: u64) - unat (0x10000 :: u64))}
            \<subseteq> free_bytes v')"
  using virt_alloc_at_frees_foreign_bytes
    [of "\<lparr>free_mem_list = [\<lparr>start = 0x10000, extent = 0x8000\<rparr>]\<rparr>" "\<lparr>start = 0x10000, extent = 0x8000\<rparr>"
      "0x14000" "0x1000" example_list]
  by (simp add: bounded_region_def Let_def)

end
