(* ===== verification/Physical.thy ===== *)
theory Physical
  imports Nodes "HOL-Library.Multiset"
begin

text \<open>
  The physical frame allocator, \<^verbatim>\<open>memory/physical.hpp\<close> and
  \<^verbatim>\<open>memory/physical.cpp\<close>: a singly linked list of 16-byte nodes (frame address at
  offset 0, pointer to the previous node at offset 8) that live in the boot memory and are
  never given back. The list is refined to a stack of frame addresses; the interface other
  components rely on is the locale \<open>frame_pool\<close>.
\<close>

subsection \<open>State and operations\<close>

record physical =
  physical_end :: addr
  free_list :: addr

definition physical_new :: physical where
  "physical_new = \<lparr>physical_end = 0, free_list = 0\<rparr>"

text \<open>The two members of \<^verbatim>\<open>struct frame\<close>.\<close>

definition frame_address :: "machine \<Rightarrow> addr \<Rightarrow> addr" where
  "frame_address m n = mem m n"

definition frame_previous :: "machine \<Rightarrow> addr \<Rightarrow> addr" where
  "frame_previous m n = mem m (n + 8)"

definition sizeof_frame :: u64 where
  "sizeof_frame = 16"

definition physical_free :: "addr \<Rightarrow> machine \<Rightarrow> physical \<Rightarrow> machine \<times> physical" where
  "physical_free a m p =
     (if \<not> IS_ALIGNED a \<or> a \<ge> physical_end p then (m, p)
      else (case placement_kalloc sizeof_frame False m of (new_head, m) \<Rightarrow>
        let m = store new_head a m;
            m = store (new_head + 8) (free_list p) m
        in (m, p\<lparr>free_list := new_head\<rparr>)))"

definition physical_alloc :: "machine \<Rightarrow> physical \<Rightarrow> addr \<times> physical" where
  "physical_alloc m p =
     (let reserve = free_list p in
      if reserve = 0 then (0, p)
      else (frame_address m reserve, p\<lparr>free_list := frame_previous m reserve\<rparr>))"

text \<open>The loop of \<^verbatim>\<open>physical::setup\<close>; \<open>None\<close> is a loop that never leaves.\<close>

partial_function (option) setup_loop ::
  "addr \<Rightarrow> addr \<Rightarrow> machine \<Rightarrow> physical \<Rightarrow> (machine \<times> physical) option" where
  "setup_loop a e m p =
     (if a < e then
        setup_loop (a + FRAME_SIZE) e (fst (physical_free a m p)) (snd (physical_free a m p))
      else Some (m, p))"

definition physical_setup ::
  "addr \<Rightarrow> u64 \<Rightarrow> machine \<Rightarrow> physical \<Rightarrow> (machine \<times> physical) option" where
  "physical_setup start len m p =
     (let p = p\<lparr>physical_end := start + len\<rparr>;
          a = ALIGN_UP start;
          e = ALIGN_DOWN (start + len)
      in setup_loop a e m p)"

text \<open>
  \<^verbatim>\<open>physical::alloc(size_t blocks)\<close>: the two inner loops, then the whole method. The
  tracking array is boot memory at \<open>arr\<close>, one cell per block.
\<close>

function free_blocks_loop ::
  "addr \<Rightarrow> u64 \<Rightarrow> u64 \<Rightarrow> machine \<Rightarrow> physical \<Rightarrow> machine \<times> physical" where
  "free_blocks_loop arr i j m p =
     (if j < i then
        (case physical_free (mem m (arr + 8 * j)) m p of (m', p') \<Rightarrow>
           free_blocks_loop arr i (j + 1) m' p')
      else (m, p))"
  by pat_completeness auto
termination
  by (relation "measure (\<lambda>(arr, i, j, m, p). unat i - unat j)")
    (simp_all add: unat_count_up)

function alloc_blocks_loop ::
  "addr \<Rightarrow> u64 \<Rightarrow> u64 \<Rightarrow> machine \<Rightarrow> physical \<Rightarrow> addr \<times> machine \<times> physical" where
  "alloc_blocks_loop arr blocks i m p =
     (if i < blocks then
        (case physical_alloc m p of (f, p') \<Rightarrow>
           let m' = store (arr + 8 * i) f m
           in if mem m' (arr + 8 * i) = 0 then
                (case free_blocks_loop arr i 0 m' p' of (m'', p'') \<Rightarrow>
                   (0, kfree_block (blocks * 8) m'', p''))
              else alloc_blocks_loop arr blocks (i + 1) m' p')
      else (mem m arr, kfree_block (blocks * 8) m, p))"
  by pat_completeness auto
termination
  by (relation "measure (\<lambda>(arr, blocks, i, m, p). unat blocks - unat i)")
    (simp_all add: unat_count_up)

declare setup_loop.simps [code]
declare free_blocks_loop.simps [simp del] alloc_blocks_loop.simps [simp del]

definition physical_alloc_blocks ::
  "u64 \<Rightarrow> machine \<Rightarrow> physical \<Rightarrow> addr \<times> machine \<times> physical" where
  "physical_alloc_blocks blocks m p =
     (if blocks * FRAME_SIZE > physical_end p \<or> blocks = 0 then (0, m, p)
      else (case placement_kalloc (blocks * 8) False m of (arr, m) \<Rightarrow>
        if arr = 0 then (0, m, p) else alloc_blocks_loop arr blocks 0 m p))"

subsection \<open>Refinement to a stack of frames\<close>

text \<open>
  \<open>phys_pool (m, p) fs\<close>: the nodes reachable from the free list hold exactly the frame
  addresses \<open>fs\<close>, in the order they will be handed out; each is a non-null page
  boundary below the physical end.
\<close>

definition valid_frame :: "machine \<times> physical \<Rightarrow> addr \<Rightarrow> bool" where
  "valid_frame w f \<longleftrightarrow> f \<noteq> 0 \<and> IS_ALIGNED f \<and> f < physical_end (snd w)"

definition phys_pool :: "machine \<times> physical \<Rightarrow> addr list \<Rightarrow> bool" where
  "phys_pool w fs \<longleftrightarrow> (\<exists>xs. node_list (mem (fst w)) (free_list (snd w)) xs \<and> map snd xs = fs
     \<and> nodes_below (placement (fst w)) xs) \<and> (\<forall>f \<in> set fs. valid_frame w f)"

lemma valid_frame_machine: "valid_frame (m, p) = valid_frame (m', p)"
  by (simp add: valid_frame_def fun_eq_iff)

lemma phys_poolE:
  assumes "phys_pool (m, p) fs"
  obtains xs where "node_list (mem m) (free_list p) xs" "map snd xs = fs"
    "nodes_below (placement m) xs"
  using assms by (auto simp: phys_pool_def)

text \<open>The pool depends on the cells of the nodes only.\<close>

lemma phys_pool_kept:
  assumes "phys_pool (m, p) fs" "node_list (mem m) (free_list p) xs" "placement m' = placement m"
    "\<forall>(q, f) \<in> set xs. mem m' q = mem m q \<and> mem m' (q + 8) = mem m (q + 8)"
  shows "phys_pool (m', p) fs"
proof -
  obtain ys where "node_list (mem m) (free_list p) ys" "map snd ys = fs" "nodes_below (placement m) ys"
    using assms(1) by (rule phys_poolE)
  then have "map snd xs = fs" "nodes_below (placement m) xs"
    using node_list_unique assms(2) by blast+
  moreover have "node_list (mem m') (free_list p) xs"
    using node_list_cong [OF assms(4)] assms(2) by blast
  moreover have "\<forall>f \<in> set fs. valid_frame (m', p) f"
    using assms(1) valid_frame_machine [of m p m'] by (simp add: phys_pool_def)
  ultimately show ?thesis unfolding phys_pool_def using assms(3) by auto
qed

definition phys_take :: "machine \<times> physical \<Rightarrow> addr \<times> machine \<times> physical" where
  "phys_take w = (case physical_alloc (fst w) (snd w) of (f, p) \<Rightarrow> (f, fst w, p))"

definition phys_give :: "addr \<Rightarrow> machine \<times> physical \<Rightarrow> machine \<times> physical" where
  "phys_give f w = physical_free f (fst w) (snd w)"

definition phys_room :: "nat \<Rightarrow> machine \<times> physical \<Rightarrow> bool" where
  "phys_room n w \<longleftrightarrow> headroom (16 * n) (fst w)"

lemma physical_free_ignored:
  "\<not> IS_ALIGNED f \<or> f \<ge> physical_end p \<Longrightarrow> physical_free f m p = (m, p)"
  by (simp add: physical_free_def)

lemma physical_free_eq:
  "IS_ALIGNED f \<Longrightarrow> f < physical_end p \<Longrightarrow> physical_free f m p =
     (store (placement m + 8) (free_list p) (store (placement m) f
        (m\<lparr>placement := placement m + 16\<rparr>)), p\<lparr>free_list := placement m\<rparr>)"
  by (simp add: physical_free_def placement_kalloc_eq Let_def sizeof_frame_def not_le)

lemma physical_free_end [simp]:
  "physical_end (snd (physical_free f m p)) = physical_end p"
  by (cases "IS_ALIGNED f \<and> f < physical_end p")
    (auto simp: physical_free_eq physical_free_ignored not_less)

lemma physical_alloc_end [simp]:
  "physical_end (snd (physical_alloc m p)) = physical_end p"
  by (simp add: physical_alloc_def Let_def)

lemma valid_frame_give [simp]: "valid_frame (phys_give f w) = valid_frame w"
  by (simp add: valid_frame_def phys_give_def fun_eq_iff)

lemma valid_frame_take [simp]: "valid_frame (snd (phys_take w)) = valid_frame w"
  by (simp add: valid_frame_def phys_take_def fun_eq_iff split: prod.split)
    (metis physical_alloc_end snd_conv)

lemma node_list_push:
  assumes nl: "node_list c a xs" and below: "nodes_below p xs"
    and p: "0 < unat p" "unat p + 16 < 18446744073709551616"
  shows "node_list (c(p := f, p + 8 := a)) p ((p, f) # xs)" and "nodes_below (p + 16) ((p, f) # xs)"
proof -
  have p8: "unat (p + 8) = unat p + 8" and p16: "unat (p + 16) = unat p + 16"
    using p by (simp_all add: unat_add_nowrap)
  then have "p \<le> p + 8" by (simp add: wordnat)
  then have "node_list (c(p := f, p + 8 := a)) a xs"
    using nl by (simp add: node_list_store_above [OF below])
  moreover have "p \<noteq> p + 8" "p \<noteq> 0" using p8 p(1) by auto
  ultimately show "node_list (c(p := f, p + 8 := a)) p ((p, f) # xs)" by simp
  have "p \<le> p + 16" using p16 by (simp add: wordnat)
  then show "nodes_below (p + 16) ((p, f) # xs)"
    using p16 nodes_below_mono [OF below] by simp
qed

lemma phys_give_pool:
  assumes pool: "phys_pool w fs" and f: "valid_frame w f" and room: "phys_room (Suc n) w"
  shows "phys_pool (phys_give f w) (f # fs)" and "phys_room n (phys_give f w)"
proof -
  obtain m p where w: "w = (m, p)" by (cases w)
  have p16: "0 < unat (placement m)" "unat (placement m) + 16 * n + 16 < 18446744073709551616"
    using room by (simp_all add: w phys_room_def headroom_def)
  have g: "phys_give f w = (store (placement m + 8) (free_list p) (store (placement m) f
        (m\<lparr>placement := placement m + 16\<rparr>)), p\<lparr>free_list := placement m\<rparr>)"
    using f by (simp add: w phys_give_def physical_free_eq valid_frame_def)
  obtain xs where xs: "node_list (mem m) (free_list p) xs" "map snd xs = fs"
    "nodes_below (placement m) xs"
    using pool unfolding w by (rule phys_poolE)
  have "\<forall>g \<in> set (f # fs). valid_frame (phys_give f w) g"
    using pool f by (auto simp: phys_pool_def)
  moreover have "map snd ((placement m, f) # xs) = f # fs" using xs(2) by simp
  ultimately show "phys_pool (phys_give f w) (f # fs)"
    unfolding phys_pool_def g
    using node_list_push [OF xs(1,3) p16(1)] p16
    by (intro conjI exI [of _ "(placement m, f) # xs"]) simp_all
  have "unat (placement m + 16) = unat (placement m) + 16"
    using p16 by (simp add: unat_add_nowrap)
  then show "phys_room n (phys_give f w)"
    using p16 by (simp add: g phys_room_def headroom_def)
qed

lemma phys_take_Nil: "phys_pool w [] \<Longrightarrow> phys_take w = (0, w)"
  by (cases w) (auto simp: phys_pool_def phys_take_def physical_alloc_def)

lemma phys_take_Cons:
  assumes "phys_pool w (f # fs)"
  shows "fst (phys_take w) = f" and "phys_pool (snd (phys_take w)) fs"
    and "phys_room n (snd (phys_take w)) = phys_room n w"
proof -
  obtain m p where w: "w = (m, p)" by (cases w)
  obtain xs where nl: "node_list (mem m) (free_list p) xs" and fs: "map snd xs = f # fs"
    and below: "nodes_below (placement m) xs"
    using assms unfolding w by (rule phys_poolE)
  then obtain q ys where xs: "xs = (q, f) # ys" by (cases xs) auto
  have t: "phys_take w = (f, m, p\<lparr>free_list := mem m (q + 8)\<rparr>)"
    using nl by (simp add: xs w phys_take_def physical_alloc_def frame_address_def
        frame_previous_def)
  show "fst (phys_take w) = f" "phys_room n (snd (phys_take w)) = phys_room n w"
    unfolding t by (simp_all add: phys_room_def w)
  show "phys_pool (snd (phys_take w)) fs"
    using nl below fs assms unfolding t by (auto simp: w xs phys_pool_def valid_frame_def)
qed

subsection \<open>Setup\<close>

definition frame_run :: "addr \<Rightarrow> nat \<Rightarrow> addr list" where
  "frame_run a n = map (\<lambda>i. a + word_of_nat (4096 * i)) [0..<n]"

lemma frame_run_0 [simp]: "frame_run a 0 = []"
  by (simp add: frame_run_def)

lemma frame_run_Suc: "frame_run a (Suc n) = a # frame_run (a + 4096) n"
proof -
  have "[0..<Suc n] = 0 # map Suc [0..<n]" by (simp add: upt_conv_Cons map_Suc_upt)
  then show ?thesis by (simp add: frame_run_def add.assoc [symmetric])
qed

lemma length_frame_run [simp]: "length (frame_run a n) = n"
  by (simp add: frame_run_def)

lemma distinct_frame_run:
  assumes "unat a + 4096 * n \<le> 18446744073709551616"
  shows "distinct (frame_run a n)"
proof -
  have "unat (a + word_of_nat (4096 * i)) = unat a + 4096 * i" if "i < n" for i
    using that assms by (intro unat_add_small) simp
  then have "inj_on (\<lambda>i. a + word_of_nat (4096 * i)) {0..<n}"
    by (intro inj_onI) (metis add_left_cancel atLeastLessThan_iff mult_cancel1 zero_neq_numeral)
  then show ?thesis by (simp add: frame_run_def distinct_map)
qed

lemma setup_loop_pool:
  assumes "phys_pool (m, p) fs" and "unat a + 4096 * n = unat e" and "e \<le> physical_end p"
    and "IS_ALIGNED a" and "a \<noteq> 0" and "phys_room n (m, p)"
  shows "\<exists>w. setup_loop a e m p = Some w \<and> phys_pool w (rev (frame_run a n) @ fs)"
  using assms
proof (induction n arbitrary: a m p fs)
  case 0
  then have "a = e" by (simp add: word_unat_eq_iff)
  with 0 show ?case by (subst setup_loop.simps) auto
next
  case (Suc n)
  let ?w = "physical_free a m p"
  have lt: "a < e" using Suc.prems(2) by (simp add: wordnat)
  have v: "valid_frame (m, p) a"
    using Suc.prems lt by (simp add: valid_frame_def)
  have pool: "phys_pool ?w (a # fs)" and room: "phys_room n ?w"
    using phys_give_pool [OF Suc.prems(1) v Suc.prems(6)] by (simp_all add: phys_give_def)
  have a4: "unat (a + 4096) = unat a + 4096"
    using Suc.prems(2) u64_bound [of e] by (simp add: unat_add_nowrap)
  have "\<exists>w. setup_loop (a + 4096) e (fst ?w) (snd ?w) = Some w
      \<and> phys_pool w (rev (frame_run (a + 4096) n) @ a # fs)"
  proof (rule Suc.IH)
    show "IS_ALIGNED (a + 4096)"
      using Suc.prems(4) a4 by (simp add: IS_ALIGNED_iff_dvd)
    show "a + 4096 \<noteq> 0" using a4 by auto
  qed (use pool room a4 Suc.prems(2,3) in simp_all)
  then show ?case
    using lt by (subst setup_loop.simps) (auto simp: frame_run_Suc)
qed

text \<open>The number of whole pages inside a memory region.\<close>

definition whole_pages :: "addr \<Rightarrow> u64 \<Rightarrow> nat" where
  "whole_pages start len = (unat (ALIGN_DOWN (start + len)) - unat (ALIGN_UP start)) div 4096"

text \<open>The list nodes that setting up writes, one after the other above the bump pointer.\<close>

definition node_run :: "addr \<Rightarrow> addr \<Rightarrow> nat \<Rightarrow> (addr \<times> addr) list" where
  "node_run q a n = map (\<lambda>i. (q + word_of_nat (16 * i), a + word_of_nat (4096 * i))) [0..<n]"

lemma node_run_0 [simp]: "node_run q a 0 = []"
  by (simp add: node_run_def)

lemma node_run_Suc: "node_run q a (Suc n) = (q, a) # node_run (q + 16) (a + 4096) n"
  unfolding node_run_def upt_conv_Cons [OF zero_less_Suc] map_Suc_upt [symmetric]
  by (simp add: algebra_simps)

lemma setup_loop_nodes:
  assumes "node_list (mem m) (free_list p) xs" and "nodes_below (placement m) xs"
    and "unat a + 4096 * n = unat e" and "e \<le> physical_end p"
    and "IS_ALIGNED a" and "phys_room n (m, p)"
  shows "\<exists>w. setup_loop a e m p = Some w \<and> physical_end (snd w) = physical_end p
    \<and> node_list (mem (fst w)) (free_list (snd w)) (rev (node_run (placement m) a n) @ xs)
    \<and> unat (placement (fst w)) = unat (placement m) + 16 * n"
  using assms
proof (induction n arbitrary: a m p xs)
  case 0
  then have "a = e" by (simp add: word_unat_eq_iff)
  with 0 show ?case by (subst setup_loop.simps) auto
next
  case (Suc n)
  let ?w = "physical_free a m p" and ?q = "placement m"
  have lt: "a < e" using Suc.prems(3) by (simp add: wordnat)
  have w: "?w = (store (?q + 8) (free_list p) (store ?q a (m\<lparr>placement := ?q + 16\<rparr>)), p\<lparr>free_list := ?q\<rparr>)"
    using physical_free_eq Suc.prems(4,5) lt by simp
  have q: "0 < unat ?q" "unat ?q + 16 * n + 16 < 18446744073709551616"
    using Suc.prems(6) by (simp_all add: phys_room_def headroom_def)
  have q16: "unat (?q + 16) = unat ?q + 16" using q by (simp add: unat_add_nowrap)
  have a4: "unat (a + 4096) = unat a + 4096"
    using Suc.prems(3) u64_bound [of e] by (simp add: unat_add_nowrap)
  have "\<exists>w. setup_loop (a + 4096) e (fst ?w) (snd ?w) = Some w \<and> physical_end (snd w) = physical_end (snd ?w)
      \<and> node_list (mem (fst w)) (free_list (snd w)) (rev (node_run (placement (fst ?w)) (a + 4096) n) @ (?q, a) # xs)
      \<and> unat (placement (fst w)) = unat (placement (fst ?w)) + 16 * n"
  proof (rule Suc.IH)
    show "node_list (mem (fst ?w)) (free_list (snd ?w)) ((?q, a) # xs)"
      "nodes_below (placement (fst ?w)) ((?q, a) # xs)"
      using node_list_push [OF Suc.prems(1,2) q(1)] q(2) by (simp_all add: w)
    show "IS_ALIGNED (a + 4096)" using Suc.prems(5) a4 by (simp add: IS_ALIGNED_iff_dvd)
    show "phys_room n (fst ?w, snd ?w)" using q q16 by (simp add: w phys_room_def headroom_def)
  qed (use a4 Suc.prems(3,4) w in simp_all)
  then show ?case
    using lt q16 by (subst setup_loop.simps) (auto simp: node_run_Suc w)
qed

text \<open>Setting up leaves the memory below the bump pointer alone.\<close>

definition kept_below :: "addr \<Rightarrow> machine \<Rightarrow> machine \<Rightarrow> bool" where
  "kept_below q m m' \<longleftrightarrow> cr3 m' = cr3 m \<and> (\<forall>c. c < q \<longrightarrow> mem m' c = mem m c)"

lemma setup_loop_below:
  assumes "unat a + 4096 * n = unat e" and "e \<le> physical_end p"
    and "IS_ALIGNED a" and "phys_room n (m, p)" and "q \<le> placement m" and "setup_loop a e m p = Some w"
  shows "kept_below q m (fst w)"
  using assms
proof (induction n arbitrary: a m p)
  case 0
  then have "a = e" by (simp add: word_unat_eq_iff)
  with 0 show ?case by (auto simp: setup_loop.simps [of e e] kept_below_def)
next
  case (Suc n)
  let ?w = "physical_free a m p" and ?q = "placement m"
  have lt: "a < e" using Suc.prems(1) by (simp add: wordnat)
  have w: "?w = (store (?q + 8) (free_list p) (store ?q a (m\<lparr>placement := ?q + 16\<rparr>)), p\<lparr>free_list := ?q\<rparr>)"
    using physical_free_eq Suc.prems(2,3) lt by simp
  have q: "0 < unat ?q" "unat ?q + 16 * n + 16 < 18446744073709551616"
    using Suc.prems(4) by (simp_all add: phys_room_def headroom_def)
  then have u: "unat (?q + 16) = unat ?q + 16" "unat (?q + 8) = unat ?q + 8" by (simp_all add: unat_add_nowrap)
  have a4: "unat (a + 4096) = unat a + 4096"
    using Suc.prems(1) u64_bound [of e] by (simp add: unat_add_nowrap)
  have "kept_below q (fst ?w) (fst w)"
  proof (rule Suc.IH)
    show "IS_ALIGNED (a + 4096)" using Suc.prems(3) a4 by (simp add: IS_ALIGNED_iff_dvd)
    show "phys_room n (fst ?w, snd ?w)" using q u by (simp add: w phys_room_def headroom_def)
    show "q \<le> placement (fst ?w)" using Suc.prems(5) u by (simp add: w wordnat)
    show "setup_loop (a + 4096) e (fst ?w) (snd ?w) = Some w"
      using Suc.prems(6) lt by (simp add: setup_loop.simps [of a e] w)
  qed (use a4 Suc.prems(1,2) w in simp_all)
  moreover have "c \<noteq> ?q \<and> c \<noteq> ?q + 8" if "c < q" for c
    using that Suc.prems(5) u by (auto simp: wordnat)
  ultimately show ?case by (simp add: kept_below_def w)
qed

lemma whole_pages_cover:
  assumes "unat start + unat len < 18446744073709551616" and "4096 \<le> unat len"
    and "ALIGN_UP start \<le> ALIGN_DOWN (start + len)"
  shows "unat (ALIGN_UP start) + 4096 * whole_pages start len = unat (ALIGN_DOWN (start + len))"
    "unat (ALIGN_DOWN (start + len)) \<le> unat start + unat len" "unat start \<le> unat (ALIGN_UP start)"
    "16 * whole_pages start len \<le> unat len div 256"
proof -
  let ?a = "ALIGN_UP start" and ?e = "ALIGN_DOWN (start + len)"
  have sl: "unat (start + len) = unat start + unat len"
    using assms(1) by (rule unat_add_nowrap)
  have start: "unat start \<le> 18446744073709547520" using assms(1,2) by simp
  have "4096 dvd unat ?e - unat ?a"
    by (intro dvd_diff_nat) (simp_all flip: IS_ALIGNED_iff_dvd)
  then show n: "unat ?a + 4096 * whole_pages start len = unat ?e"
    using assms(3) by (simp add: whole_pages_def wordnat)
  show e_le: "unat ?e \<le> unat start + unat len" by (simp add: unat_ALIGN_DOWN sl)
  show a_ge: "unat start \<le> unat ?a" using ALIGN_UP_ge [OF start] by (simp add: wordnat)
  show "16 * whole_pages start len \<le> unat len div 256" using n e_le a_ge by simp
qed

lemma physical_setup_nodes:
  assumes "unat start + unat len < 18446744073709551616"
    and "ALIGN_UP start \<le> ALIGN_DOWN (start + len)"
    and "headroom (unat len div 256) m" and "4096 \<le> unat len"
  obtains w where "physical_setup start len m physical_new = Some w"
    "physical_end (snd w) = start + len"
    "node_list (mem (fst w)) (free_list (snd w))
       (rev (node_run (placement m) (ALIGN_UP start) (whole_pages start len)))"
    "unat (placement (fst w)) = unat (placement m) + 16 * whole_pages start len"
proof -
  note W = whole_pages_cover [OF assms(1,4,2)]
  let ?p = "physical_new\<lparr>physical_end := start + len\<rparr>"
  have "phys_room (whole_pages start len) (m, ?p)"
    using assms(3) W(4) by (simp add: phys_room_def headroom_def)
  moreover have "unat (start + len) = unat start + unat len"
    using assms(1) by (rule unat_add_nowrap)
  ultimately have "\<exists>w. setup_loop (ALIGN_UP start) (ALIGN_DOWN (start + len)) m ?p = Some w
      \<and> physical_end (snd w) = physical_end ?p
      \<and> node_list (mem (fst w)) (free_list (snd w))
          (rev (node_run (placement m) (ALIGN_UP start) (whole_pages start len)) @ [])
      \<and> unat (placement (fst w)) = unat (placement m) + 16 * whole_pages start len"
    using W by (intro setup_loop_nodes) (simp_all add: physical_new_def nodes_below_def wordnat)
  then show ?thesis using that by (auto simp: physical_setup_def Let_def)
qed

lemma physical_setup_below:
  assumes "unat start + unat len < 18446744073709551616"
    and "ALIGN_UP start \<le> ALIGN_DOWN (start + len)"
    and "headroom (unat len div 256) m" and "4096 \<le> unat len"
    and "physical_setup start len m physical_new = Some w" and "q \<le> placement m"
  shows "kept_below q m (fst w)"
proof -
  note W = whole_pages_cover [OF assms(1,4,2)]
  let ?p = "physical_new\<lparr>physical_end := start + len\<rparr>"
  have "unat (start + len) = unat start + unat len" using assms(1) by (rule unat_add_nowrap)
  moreover have "phys_room (whole_pages start len) (m, ?p)"
    using assms(3) W(4) by (simp add: phys_room_def headroom_def)
  ultimately show ?thesis
    using W assms(5,6)
    by (intro setup_loop_below [of "ALIGN_UP start" "whole_pages start len" "ALIGN_DOWN (start + len)" ?p])
      (simp_all add: physical_setup_def Let_def wordnat)
qed

lemma physical_setup_pool:
  assumes "0 < unat start" and "unat start + unat len < 18446744073709551616"
    and "ALIGN_UP start \<le> ALIGN_DOWN (start + len)"
    and "headroom (unat len div 256) m" and "4096 \<le> unat len"
  shows "\<exists>w. physical_setup start len m physical_new = Some w
    \<and> phys_pool w (rev (frame_run (ALIGN_UP start) (whole_pages start len)))"
proof -
  let ?n = "whole_pages start len"
  let ?p = "physical_new\<lparr>physical_end := start + len\<rparr>"
  let ?a = "ALIGN_UP start" and ?e = "ALIGN_DOWN (start + len)"
  note W = whole_pages_cover [OF assms(2,5,3)]
  have sl: "unat (start + len) = unat start + unat len"
    using assms(2) by (rule unat_add_nowrap)
  have "phys_room ?n (m, ?p)" using assms(4) W(4) by (simp add: phys_room_def headroom_def)
  moreover have "?a \<noteq> 0" using W(3) assms(1) by auto
  moreover have "phys_pool (m, ?p) []" by (simp add: phys_pool_def physical_new_def nodes_below_def)
  moreover have "?e \<le> physical_end ?p" using W(2) sl by (simp add: wordnat)
  ultimately have "\<exists>w. setup_loop ?a ?e m ?p = Some w
      \<and> phys_pool w (rev (frame_run ?a ?n) @ [])"
    using W(1) by (intro setup_loop_pool) simp_all
  then show ?thesis by (simp add: physical_setup_def Let_def)
qed

text \<open>Setting the allocator up over a memory region returns, and leaves in the free list
  exactly the whole page frames inside the region, each once, the highest to be handed out
  first; the partial pages at both ends of the region are left out.\<close>

theorem physical_setup_frames:
  assumes "0 < unat start" and "unat start + unat len < 18446744073709551616"
    and "ALIGN_UP start \<le> ALIGN_DOWN (start + len)"
    and "headroom (unat len div 256) m" and "4096 \<le> unat len"
  shows "\<exists>w. physical_setup start len m physical_new = Some w
    \<and> phys_pool w (rev (frame_run (ALIGN_UP start) (whole_pages start len)))
    \<and> distinct (frame_run (ALIGN_UP start) (whole_pages start len))"
proof -
  have "distinct (frame_run (ALIGN_UP start) (whole_pages start len))"
    using whole_pages_cover(1) [OF assms(2,5,3)] u64_bound [of "ALIGN_DOWN (start + len)"]
    by (intro distinct_frame_run) simp
  then show ?thesis using physical_setup_pool [OF assms] by blast
qed

subsection \<open>Requests for several frames\<close>

text \<open>Cell \<open>i\<close> of the tracking array, for an array that does not wrap.\<close>

lemma unat_cell:
  assumes "i < n" and "unat arr + 8 * unat (n :: u64) < 18446744073709551616"
  shows "unat (arr + 8 * i) = unat arr + 8 * unat i"
proof -
  have i: "unat i < unat n" using assms(1) by (simp add: wordnat)
  then have "unat (8 * i) = 8 * unat i" using assms(2) by (simp add: unat_word_ariths)
  then show ?thesis using i assms(2) by (simp add: unat_add_nowrap)
qed

lemma alloc_blocks_loop_ok:
  assumes "node_list (mem m) (free_list p) xs" and "nodes_below arr xs"
    and "\<forall>(q, f) \<in> set xs. f \<noteq> 0"
    and "unat arr + 8 * unat blocks < 18446744073709551616"
    and "i \<le> blocks" and "unat blocks - unat i \<le> length xs"
  shows "\<exists>m' q. alloc_blocks_loop arr blocks i m p
      = (if i = 0 \<and> i < blocks then snd (xs ! 0) else mem m arr, kfree_block (blocks * 8) m',
         p\<lparr>free_list := q\<rparr>)
    \<and> node_list (mem m') q (drop (unat blocks - unat i) xs) \<and> placement m' = placement m"
  using assms
proof (induction "unat blocks - unat i" arbitrary: i m p xs)
  case 0
  then have "\<not> i < blocks" "unat blocks - unat i = 0" by (simp_all add: wordnat)
  then show ?case
    using "0.prems"(1)
    by (subst alloc_blocks_loop.simps) (auto intro!: exI [of _ m] exI [of _ "free_list p"])
next
  case (Suc k)
  then have lt: "i < blocks" by (simp add: wordnat)
  have "xs \<noteq> []" using Suc.hyps(2) Suc.prems(6) by auto
  then obtain q f ys where xs: "xs = (q, f) # ys" by (metis neq_Nil_conv surj_pair)
  have f: "f \<noteq> 0" "free_list p = q" "q \<noteq> 0" "mem m q = f"
    using Suc.prems(1,3) by (auto simp: xs)
  let ?p = "p\<lparr>free_list := mem m (q + 8)\<rparr>" and ?m = "store (arr + 8 * i) f m"
  have alloc: "physical_alloc m p = (f, ?p)"
    using f by (simp add: physical_alloc_def frame_address_def frame_previous_def)
  have ci: "unat (arr + 8 * i) = unat arr + 8 * unat i"
    by (rule unat_cell [OF lt Suc.prems(4)])
  have Si: "unat (i + 1) = Suc (unat i)" using lt by (rule unat_Suc_less)
  have step: "alloc_blocks_loop arr blocks i m p = alloc_blocks_loop arr blocks (i + 1) ?m ?p"
    using lt f by (subst alloc_blocks_loop.simps) (simp add: alloc)
  have nl: "node_list (mem ?m) (free_list ?p) ys"
    using Suc.prems(1,2) ci by (simp add: xs node_list_store_above [of arr] wordnat)
  have "\<exists>m' q'. alloc_blocks_loop arr blocks (i + 1) ?m ?p
      = (if i + 1 = 0 \<and> i + 1 < blocks then snd (ys ! 0) else mem ?m arr,
         kfree_block (blocks * 8) m', ?p\<lparr>free_list := q'\<rparr>)
    \<and> node_list (mem m') q' (drop (unat blocks - unat (i + 1)) ys)
    \<and> placement m' = placement ?m"
  proof (rule Suc.hyps(1))
    show "i + 1 \<le> blocks" using lt Si by (simp add: wordnat)
  qed (use nl Suc.prems Suc.hyps(2) Si in \<open>auto simp: xs\<close>)
  then obtain m' q' where "alloc_blocks_loop arr blocks (i + 1) ?m ?p
      = (if i + 1 = 0 \<and> i + 1 < blocks then snd (ys ! 0) else mem ?m arr,
         kfree_block (blocks * 8) m', ?p\<lparr>free_list := q'\<rparr>)"
    "node_list (mem m') q' (drop (unat blocks - unat (i + 1)) ys)" "placement m' = placement ?m"
    by blast
  moreover have "i + 1 \<noteq> 0" using Si by (metis Zero_neq_Suc unsigned_0)
  moreover have "mem ?m arr = (if i = 0 then f else mem m arr)" using ci by (auto simp: unat_eq_0)
  moreover have "unat blocks - unat i = Suc (unat blocks - unat (i + 1))"
    using Si lt by (simp add: wordnat)
  ultimately show ?case
    unfolding step using lt
    by (intro exI [of _ m'] exI [of _ q']) (auto simp: xs)
qed

lemma alloc_blocks_result:
  assumes "phys_pool (m, p) fs" and "0 < unat blocks" and "unat blocks \<le> length fs"
    and "unat blocks * 4096 \<le> unat (physical_end p)" and "headroom (8 * unat blocks) m"
  shows "\<exists>m' p'. physical_alloc_blocks blocks m p = (hd fs, m', p')
    \<and> phys_pool (m', p') (drop (unat blocks) fs) \<and> placement m' = placement m
    \<and> physical_end p' = physical_end p"
proof -
  obtain xs where xs: "node_list (mem m) (free_list p) xs" "map snd xs = fs"
    "nodes_below (placement m) xs"
    using assms(1) by (rule phys_poolE)
  have nz: "\<forall>(q, f) \<in> set xs. f \<noteq> 0"
    using assms(1) xs(2) by (force simp: phys_pool_def valid_frame_def)
  have guard: "\<not> (blocks * FRAME_SIZE > physical_end p \<or> blocks = 0)"
    using assms(2,4) u64_bound [of "physical_end p"]
    by (auto simp: wordnat unat_word_ariths)
  let ?m = "m\<lparr>placement := placement m + blocks * 8\<rparr>"
  have "placement m \<noteq> 0" "unat (placement m) + 8 * unat blocks < 18446744073709551616"
    using assms(5) by (auto simp: headroom_def)
  then obtain m' q where r: "physical_alloc_blocks blocks m p
        = (snd (xs ! 0), kfree_block (blocks * 8) m', p\<lparr>free_list := q\<rparr>)"
      "node_list (mem m') q (drop (unat blocks) xs)" "placement m' = placement ?m"
    using alloc_blocks_loop_ok [of ?m p xs "placement m" blocks 0] xs nz guard assms(2,3)
    by (auto simp: physical_alloc_blocks_def placement_kalloc_eq Let_def wordnat)
  moreover have "hd fs = snd (xs ! 0)"
    using xs(2) assms(2,3) by (cases xs) auto
  moreover have "nodes_below (placement m) (drop (unat blocks) xs)"
    using xs(3) by (auto simp: nodes_below_def dest: in_set_dropD)
  moreover have "\<forall>f \<in> set (drop (unat blocks) fs). valid_frame (kfree_block (blocks * 8) m', p\<lparr>free_list := q\<rparr>) f"
    using assms(1) by (auto simp: phys_pool_def valid_frame_def dest: in_set_dropD)
  ultimately show ?thesis
    using xs(2) by (auto simp: phys_pool_def drop_map)
qed

text \<open>A request for several frames that the free list can satisfy takes that many frames out
  of it but reports only the first: the address returned is the frame a single request would
  have given, and the remaining frames of the group are reachable neither from the free list
  nor from the result.\<close>

theorem alloc_blocks_success:
  assumes "phys_pool (m, p) fs" and "0 < unat blocks" and "unat blocks \<le> length fs"
    and "unat blocks * 4096 \<le> unat (physical_end p)" and "headroom (8 * unat blocks) m"
  shows "\<exists>m' p'. physical_alloc_blocks blocks m p = (hd fs, m', p')
    \<and> phys_pool (m', p') (drop (unat blocks) fs) \<and> placement m' = placement m"
  using alloc_blocks_result [OF assms] by blast

text \<open>The pool has no more frames than fit below its end.\<close>

lemma pool_below_end:
  assumes "phys_pool (m, p) fs" and "distinct fs"
  shows "4096 * length fs \<le> unat (physical_end p)"
proof -
  let ?n = "\<lambda>f. unat f div 4096"
  have v: "IS_ALIGNED f \<and> f \<noteq> 0 \<and> unat f < unat (physical_end p)" if "f \<in> set fs" for f
    using assms(1) that by (auto simp: phys_pool_def valid_frame_def wordnat)
  have "inj_on ?n (set fs)"
  proof (rule inj_onI)
    fix f g assume f: "f \<in> set fs" "g \<in> set fs" "?n f = ?n g"
    obtain j k where "unat f = 4096 * j" "unat g = 4096 * k" using v f(1,2) by (metis IS_ALIGNED_E)
    with f(3) show "f = g" by (simp add: word_unat_eq_iff)
  qed
  then have "length fs = card (?n ` set fs)" using assms(2) by (simp add: card_image distinct_card)
  also have "\<dots> \<le> card {1..unat (physical_end p) div 4096}"
  proof (rule card_mono)
    show "?n ` set fs \<subseteq> {1..unat (physical_end p) div 4096}"
    proof clarify
      fix f assume f: "f \<in> set fs"
      obtain k where k: "unat f = 4096 * k" using v [OF f] by (metis IS_ALIGNED_E)
      moreover have "k \<noteq> 0" using v [OF f] k by (auto simp: word_unat_eq_iff)
      ultimately show "?n f \<in> {1..unat (physical_end p) div 4096}"
        using v [OF f] by (simp add: less_imp_le div_le_mono) (metis div_le_mono less_imp_le nonzero_mult_div_cancel_left zero_neq_numeral)
    qed
  qed simp
  finally show ?thesis by (simp add: less_eq_div_iff_mult_less_eq mult.commute)
qed

definition phys_blocks :: "u64 \<Rightarrow> machine \<times> physical \<Rightarrow> addr \<times> machine \<times> physical" where
  "phys_blocks n w = (case w of (m, p) \<Rightarrow> physical_alloc_blocks n m p)"

lemma phys_blocks_0: "phys_blocks 0 w = (0, w)"
  by (cases w) (simp add: phys_blocks_def physical_alloc_blocks_def)

subsection \<open>The interface of a frame allocator\<close>

text \<open>
  A client takes frames one by one or several at once, and gives back frames it holds; a null result
  means there was none. \<open>serve\<close> runs a sequence of such requests, with the frames the client holds in
  \<open>h\<close>. A request for several frames reports only the first of them.
\<close>

datatype request = Take | Take_Blocks u64 | Give addr

fun serve ::
  "('w \<Rightarrow> addr \<times> 'w) \<Rightarrow> (u64 \<Rightarrow> 'w \<Rightarrow> addr \<times> 'w) \<Rightarrow> (addr \<Rightarrow> 'w \<Rightarrow> 'w) \<Rightarrow> request list
    \<Rightarrow> 'w \<times> addr list \<Rightarrow> 'w \<times> addr list"
where
  "serve tk bk gv [] s = s"
| "serve tk bk gv (Take # rs) (w, h) =
     serve tk bk gv rs (snd (tk w), if fst (tk w) = 0 then h else fst (tk w) # h)"
| "serve tk bk gv (Take_Blocks n # rs) (w, h) =
     serve tk bk gv rs (snd (bk n w), if fst (bk n w) = 0 then h else fst (bk n w) # h)"
| "serve tk bk gv (Give f # rs) (w, h) =
     (if f \<in> set h then serve tk bk gv rs (gv f w, remove1 f h) else serve tk bk gv rs (w, h))"

text \<open>Requests for several frames are made only where so many are certainly free, of k at the start.\<close>

fun blocks_covered :: "nat \<Rightarrow> request list \<Rightarrow> bool" where
  "blocks_covered k [] \<longleftrightarrow> True"
| "blocks_covered k (Take # rs) \<longleftrightarrow> blocks_covered (k - 1) rs"
| "blocks_covered k (Take_Blocks n # rs) \<longleftrightarrow> unat n \<le> k \<and> blocks_covered (k - unat n) rs"
| "blocks_covered k (Give f # rs) \<longleftrightarrow> blocks_covered k rs"

text \<open>The frames such requests take without reporting them, and the boot memory a sequence may need, in
  list nodes.\<close>

fun blocks_lost :: "request list \<Rightarrow> nat" where
  "blocks_lost [] = 0"
| "blocks_lost (Take_Blocks n # rs) = unat n - 1 + blocks_lost rs"
| "blocks_lost (r # rs) = blocks_lost rs"

fun request_nodes :: "request list \<Rightarrow> nat" where
  "request_nodes [] = 0"
| "request_nodes (Take_Blocks n # rs) = unat n + request_nodes rs"
| "request_nodes (r # rs) = Suc (request_nodes rs)"

locale frame_pool =
  fixes pool :: "'w \<Rightarrow> addr list \<Rightarrow> bool"
    and valid :: "'w \<Rightarrow> addr \<Rightarrow> bool"
    and room :: "nat \<Rightarrow> 'w \<Rightarrow> bool"
    and tk :: "'w \<Rightarrow> addr \<times> 'w"
    and bk :: "u64 \<Rightarrow> 'w \<Rightarrow> addr \<times> 'w"
    and gv :: "addr \<Rightarrow> 'w \<Rightarrow> 'w"
  assumes pool_valid: "pool w fs \<Longrightarrow> f \<in> set fs \<Longrightarrow> valid w f"
    and valid_nonnull: "valid w f \<Longrightarrow> f \<noteq> 0"
    and room_mono: "room n w \<Longrightarrow> k \<le> n \<Longrightarrow> room k w"
    and tk_Nil: "pool w [] \<Longrightarrow> tk w = (0, w)"
    and tk_frame: "pool w (f # fs) \<Longrightarrow> fst (tk w) = f"
    and tk_pool: "pool w (f # fs) \<Longrightarrow> pool (snd (tk w)) fs"
    and tk_room: "pool w (f # fs) \<Longrightarrow> room n (snd (tk w)) = room n w"
    and tk_valid: "valid (snd (tk w)) = valid w"
    and bk_0: "bk 0 w = (0, w)"
    and bk_frame: "pool w fs \<Longrightarrow> distinct fs \<Longrightarrow> 0 < unat b \<Longrightarrow> unat b \<le> length fs \<Longrightarrow> room (unat b) w
      \<Longrightarrow> fst (bk b w) = hd fs"
    and bk_pool: "pool w fs \<Longrightarrow> distinct fs \<Longrightarrow> 0 < unat b \<Longrightarrow> unat b \<le> length fs \<Longrightarrow> room (unat b) w
      \<Longrightarrow> pool (snd (bk b w)) (drop (unat b) fs)"
    and bk_room: "pool w fs \<Longrightarrow> distinct fs \<Longrightarrow> 0 < unat b \<Longrightarrow> unat b \<le> length fs \<Longrightarrow> room (unat b) w
      \<Longrightarrow> room k (snd (bk b w)) = room k w"
    and bk_valid: "pool w fs \<Longrightarrow> distinct fs \<Longrightarrow> 0 < unat b \<Longrightarrow> unat b \<le> length fs \<Longrightarrow> room (unat b) w
      \<Longrightarrow> valid (snd (bk b w)) = valid w"
    and gv_pool: "pool w fs \<Longrightarrow> valid w f \<Longrightarrow> room (Suc n) w \<Longrightarrow> pool (gv f w) (f # fs)"
    and gv_room: "pool w fs \<Longrightarrow> valid w f \<Longrightarrow> room (Suc n) w \<Longrightarrow> room n (gv f w)"
    and gv_valid: "valid (gv f w) = valid w"
begin

lemma take_step:
  assumes "pool w fs"
  obtains f w' fs' where "tk w = (f, w')" "pool w' fs'" "valid w' = valid w"
    "room n w' = room n w" "f = 0 \<longrightarrow> fs' = fs" "f \<noteq> 0 \<longrightarrow> valid w f \<and> fs = f # fs'" "length fs - 1 \<le> length fs'"
proof (cases fs)
  case Nil
  then show ?thesis using assms that [of 0 w "[]"] by (simp add: tk_Nil)
next
  case (Cons f gs)
  then have "pool w (f # gs)" using assms by simp
  then show ?thesis
    using that [of f "snd (tk w)" gs] Cons tk_frame tk_pool tk_room tk_valid pool_valid valid_nonnull
    by (metis diff_Suc_1 length_Cons list.set_intros(1) order_refl prod.collapse)
qed

text \<open>What one request does: the frames that are free, held and lost afterwards are those of before.\<close>

lemma serve_conserves:
  assumes "pool w fs" "distinct (fs @ h)" "\<forall>f \<in> set h. valid w f" "room (request_nodes rs) w"
    and "blocks_covered k rs" "k \<le> length fs"
  shows "\<exists>fs' lost. pool (fst (serve tk bk gv rs (w, h))) fs' \<and> length lost = blocks_lost rs
    \<and> mset (fs' @ snd (serve tk bk gv rs (w, h)) @ lost) = mset (fs @ h)"
  using assms
proof (induction rs arbitrary: w fs h k)
  case Nil
  then show ?case by auto
next
  case (Cons r rs)
  show ?case
  proof (cases r)
    case Take
    obtain f w' fs' where t: "tk w = (f, w')" "pool w' fs'" "valid w' = valid w"
      "room (request_nodes rs) w' = room (request_nodes rs) w"
      "f = 0 \<longrightarrow> fs' = fs" "f \<noteq> 0 \<longrightarrow> valid w f \<and> fs = f # fs'" "length fs - 1 \<le> length fs'"
      by (rule take_step [OF Cons.prems(1)])
    let ?h = "if f = 0 then h else f # h"
    have "\<exists>gs lost. pool (fst (serve tk bk gv rs (w', ?h))) gs \<and> length lost = blocks_lost rs
        \<and> mset (gs @ snd (serve tk bk gv rs (w', ?h)) @ lost) = mset (fs' @ ?h)"
      by (rule Cons.IH [OF t(2), where k = "k - 1"])
        (use Cons.prems t Take room_mono [of _ w "request_nodes rs"] in auto)
    then show ?thesis using t(1,5,6) Take by (auto split: if_splits)
  next
    case (Take_Blocks n)
    show ?thesis
    proof (cases "n = 0")
      case True
      have "\<exists>gs lost. pool (fst (serve tk bk gv rs (w, h))) gs \<and> length lost = blocks_lost rs
          \<and> mset (gs @ snd (serve tk bk gv rs (w, h)) @ lost) = mset (fs @ h)"
        by (rule Cons.IH [OF Cons.prems(1-3), where k = k]) (use Cons.prems Take_Blocks True in auto)
      then show ?thesis using Take_Blocks True by (simp add: bk_0)
    next
      case False
      then have n: "0 < unat n" "unat n \<le> length fs" using Cons.prems(5,6) Take_Blocks by (simp_all add: unat_gt_0)
      have d: "distinct fs" and room: "room (unat n) w" "room (request_nodes rs) w"
        using Cons.prems(2,4) Take_Blocks room_mono by auto
      note B = Cons.prems(1) d n room(1)
      let ?w = "snd (bk n w)" and ?gs = "drop (unat n) fs"
      obtain f gs where fs: "fs = f # gs" using n by (cases fs) auto
      have nz: "f \<noteq> 0" using pool_valid [OF Cons.prems(1), of f] valid_nonnull fs by auto
      have "\<exists>ks lost. pool (fst (serve tk bk gv rs (?w, f # h))) ks \<and> length lost = blocks_lost rs
          \<and> mset (ks @ snd (serve tk bk gv rs (?w, f # h)) @ lost) = mset (?gs @ f # h)"
      proof (rule Cons.IH [OF bk_pool [OF B], where k = "k - unat n"])
        have "f \<notin> set ?gs" using d n fs by (cases "unat n") (auto dest: in_set_dropD)
        moreover have "f \<notin> set h" "set fs \<inter> set h = {}" "distinct h" using Cons.prems(2) fs by auto
        moreover have "set ?gs \<subseteq> set fs" by (rule set_drop_subset)
        ultimately show "distinct (?gs @ f # h)" using d by (auto simp del: set_drop_subset)
        show "\<forall>g \<in> set (f # h). valid ?w g"
          using Cons.prems(1,3) fs pool_valid by (auto simp: bk_valid [OF B])
        show "room (request_nodes rs) ?w" using room(2) bk_room [OF B] by simp
      qed (use Cons.prems(5,6) Take_Blocks in auto)
      then obtain ks lost where k: "pool (fst (serve tk bk gv rs (?w, f # h))) ks" "length lost = blocks_lost rs"
        "mset (ks @ snd (serve tk bk gv rs (?w, f # h)) @ lost) = mset (?gs @ f # h)" by blast
      define ts ds where "ts = take (unat n - 1) gs" and "ds = ?gs"
      have "fs = f # ts @ ds" using n fs unfolding ts_def ds_def by (cases "unat n") auto
      then have "mset (fs @ h) = mset ts + mset (ds @ f # h)" by simp
      also have "\<dots> = mset (ks @ snd (serve tk bk gv rs (?w, f # h)) @ lost @ ts)"
        using k(3) unfolding ds_def by simp
      finally have "mset (ks @ snd (serve tk bk gv rs (?w, f # h)) @ lost @ ts) = mset (fs @ h)" ..
      moreover have "fst (bk n w) = f" using bk_frame [OF B] fs by simp
      moreover have "length (lost @ ts) = blocks_lost (r # rs)" using k(2) n(2) fs Take_Blocks by (auto simp: ts_def)
      ultimately show ?thesis
        using k(1) nz Take_Blocks by (intro exI [of _ ks] exI [of _ "lost @ ts"]) simp
    qed
  next
    case (Give f)
    have room: "room (request_nodes rs) w" using Cons.prems(4) Give room_mono by auto
    show ?thesis
    proof (cases "f \<in> set h")
      case True
      then have v: "valid w f" using Cons.prems(3) by blast
      have "add_mset f (mset (remove1 f h)) = mset h" using True by simp
      then have m: "mset ((f # fs) @ remove1 f h) = mset (fs @ h)" by simp
      have "\<exists>gs lost. pool (fst (serve tk bk gv rs (gv f w, remove1 f h))) gs \<and> length lost = blocks_lost rs
        \<and> mset (gs @ snd (serve tk bk gv rs (gv f w, remove1 f h)) @ lost) = mset ((f # fs) @ remove1 f h)"
      proof (rule Cons.IH [where k = k])
        show "pool (gv f w) (f # fs)" "room (request_nodes rs) (gv f w)"
          using gv_pool gv_room Cons.prems(1,4) v Give by auto
        show "\<forall>g \<in> set (remove1 f h). valid (gv f w) g"
          using Cons.prems(3) set_remove1_subset [of f h] by (auto simp: gv_valid)
        show "distinct ((f # fs) @ remove1 f h)" using m Cons.prems(2) by (metis mset_eq_imp_distinct_iff)
      qed (use Cons.prems(5,6) Give in auto)
      with True Give show ?thesis unfolding m by simp
    next
      case False
      have "\<exists>gs lost. pool (fst (serve tk bk gv rs (w, h))) gs \<and> length lost = blocks_lost rs
          \<and> mset (gs @ snd (serve tk bk gv rs (w, h)) @ lost) = mset (fs @ h)"
        by (rule Cons.IH [OF Cons.prems(1-3) room, where k = k]) (use Cons.prems Give in auto)
      then show ?thesis using False Give by simp
    qed
  qed
qed

end

lemma phys_blocks_ok:
  assumes "phys_pool w fs" "distinct fs" "0 < unat n" "unat n \<le> length fs" "phys_room (unat n) w"
  shows "fst (phys_blocks n w) = hd fs" "phys_pool (snd (phys_blocks n w)) (drop (unat n) fs)"
    "phys_room k (snd (phys_blocks n w)) = phys_room k w" "valid_frame (snd (phys_blocks n w)) = valid_frame w"
proof -
  obtain m p where w: "w = (m, p)" by fastforce
  have e: "unat n * 4096 \<le> unat (physical_end p)" using pool_below_end [OF assms(1) [unfolded w] assms(2)] assms(4) by simp
  have "headroom (8 * unat n) m" using assms(5) by (simp add: w phys_room_def headroom_def)
  then obtain m' p' where b: "physical_alloc_blocks n m p = (hd fs, m', p')" "phys_pool (m', p') (drop (unat n) fs)"
    "placement m' = placement m" "physical_end p' = physical_end p"
    using alloc_blocks_result [OF assms(1) [unfolded w] assms(3,4) e] by blast
  then show "fst (phys_blocks n w) = hd fs" "phys_pool (snd (phys_blocks n w)) (drop (unat n) fs)"
    "phys_room k (snd (phys_blocks n w)) = phys_room k w" "valid_frame (snd (phys_blocks n w)) = valid_frame w"
    by (simp_all add: phys_blocks_def w phys_room_def headroom_def valid_frame_def fun_eq_iff)
qed

interpretation fp: frame_pool phys_pool valid_frame phys_room phys_take phys_blocks phys_give
proof
  show "phys_pool w fs \<Longrightarrow> f \<in> set fs \<Longrightarrow> valid_frame w f" for w fs f
    by (simp add: phys_pool_def)
  show "valid_frame w f \<Longrightarrow> f \<noteq> 0" for w f by (simp add: valid_frame_def)
  show "phys_room n w \<Longrightarrow> k \<le> n \<Longrightarrow> phys_room k w" for n k w
    by (simp add: phys_room_def headroom_def)
qed (auto simp: phys_take_Nil phys_take_Cons phys_give_pool phys_blocks_0 phys_blocks_ok)

text \<open>C1. No frame is ever handed out twice. A client takes frames one by one or several at once, and gives back frames
  it holds; it asks for several only where so many are certainly free (a request that fails half-way leaves
  the list broken, see \<open>alloc_blocks_failure_corrupts\<close>), and boot memory has room for the list nodes and
  tracking arrays. Then the frames in the free list, the frames held and the frames lost are together exactly
  the frames there were at the start, each of them once; lost are those that requests for several frames
  take without reporting them, all but one of each.\<close>

theorem frames_never_shared:
  assumes "phys_pool w fs" and "distinct fs" and "blocks_covered (length fs) rs"
    and "headroom (16 * request_nodes rs) (fst w)"
  shows "\<exists>fs' lost. phys_pool (fst (serve phys_take phys_blocks phys_give rs (w, []))) fs'
    \<and> distinct (fs' @ snd (serve phys_take phys_blocks phys_give rs (w, [])) @ lost)
    \<and> set (fs' @ snd (serve phys_take phys_blocks phys_give rs (w, [])) @ lost) = set fs
    \<and> length lost = blocks_lost rs"
proof -
  let ?s = "serve phys_take phys_blocks phys_give rs (w, [])"
  obtain fs' lost where "phys_pool (fst ?s) fs'" "length lost = blocks_lost rs" and m: "mset (fs' @ snd ?s @ lost) = mset fs"
    using fp.serve_conserves [OF assms(1), of "[]" rs "length fs"] assms(2-4) by (auto simp: phys_room_def)
  moreover have "distinct (fs' @ snd ?s @ lost)" using m assms(2) by (rule mset_eq_imp_distinct_iff [THEN iffD2])
  moreover have "set (fs' @ snd ?s @ lost) = set fs" using m by (rule mset_eq_setD)
  ultimately show ?thesis by blast
qed

subsection \<open>Failing requests for several frames\<close>

text \<open>The clean-up loop gives the tracked frames back in the order they were taken.\<close>

lemma free_blocks_loop_ok:
  assumes "phys_pool (m, p) fs" and "phys_room (unat i - unat j) (m, p)" and "j \<le> i"
    and "unat i \<le> length gs" and "unat arr + 8 * unat i \<le> unat (placement m)"
    and "\<forall>l < i. mem m (arr + 8 * l) = gs ! unat l \<and> valid_frame (m, p) (gs ! unat l)"
  shows "\<exists>m' p'. free_blocks_loop arr i j m p = (m', p')
    \<and> phys_pool (m', p') (rev (drop (unat j) (take (unat i) gs)) @ fs)
    \<and> unat (placement m') = unat (placement m) + 16 * (unat i - unat j)
    \<and> physical_end p' = physical_end p
    \<and> (j < i \<longrightarrow> unat (free_list p') + 16 = unat (placement m'))"
  using assms
proof (induction "unat i - unat j" arbitrary: j m p fs)
  case 0
  then have "\<not> j < i" "unat i - unat j = 0" "j = i" by (simp_all add: wordnat word_unat_eq_iff)
  then show ?case using "0.prems"(1) by (subst free_blocks_loop.simps) simp
next
  case (Suc k)
  then have lt: "j < i" by (simp add: wordnat)
  have Sj: "unat (j + 1) = Suc (unat j)" using lt by (rule unat_Suc_less)
  let ?g = "gs ! unat j" and ?w = "physical_free (gs ! unat j) m p"
  have v: "valid_frame (m, p) ?g" and g: "mem m (arr + 8 * j) = ?g"
    using Suc.prems(6) lt by auto
  have k: "unat i - unat (j + 1) = k" using Suc.hyps(2) Sj by simp
  have room: "phys_room (Suc k) (m, p)" using Suc.prems(2) Suc.hyps(2) by simp
  have pm: "0 < unat (placement m)" "unat (placement m) + 16 * k + 16 < 18446744073709551616"
    using room by (auto simp: phys_room_def headroom_def)
  have weq: "?w = (store (placement m + 8) (free_list p) (store (placement m) ?g
        (m\<lparr>placement := placement m + 16\<rparr>)), p\<lparr>free_list := placement m\<rparr>)"
    using v by (simp add: physical_free_eq valid_frame_def)
  have p16: "unat (placement m + 16) = unat (placement m) + 16"
    and p8: "unat (placement m + 8) = unat (placement m) + 8"
    using pm by (simp_all add: unat_add_nowrap)
  have cells: "mem (fst ?w) (arr + 8 * l) = mem m (arr + 8 * l)" if "l < i" for l
  proof -
    have "unat (arr + 8 * l) = unat arr + 8 * unat l"
      using that Suc.prems(5) pm by (intro unat_cell [of l i]) simp_all
    then have "unat (arr + 8 * l) < unat (placement m)"
      using that Suc.prems(5) by (simp add: wordnat)
    then have "arr + 8 * l \<noteq> placement m" "arr + 8 * l \<noteq> placement m + 8"
      using p8 by auto
    then show ?thesis by (simp add: weq)
  qed
  have "\<exists>m' p'. free_blocks_loop arr i (j + 1) (fst ?w) (snd ?w) = (m', p')
    \<and> phys_pool (m', p') (rev (drop (unat (j + 1)) (take (unat i) gs)) @ ?g # fs)
    \<and> unat (placement m') = unat (placement (fst ?w)) + 16 * (unat i - unat (j + 1))
    \<and> physical_end p' = physical_end (snd ?w)
    \<and> (j + 1 < i \<longrightarrow> unat (free_list p') + 16 = unat (placement m'))"
  proof (rule Suc.hyps(1))
    show "phys_pool (fst ?w, snd ?w) (?g # fs)"
      using phys_give_pool(1) [OF Suc.prems(1) v room] by (simp add: phys_give_def)
    show "phys_room (unat i - unat (j + 1)) (fst ?w, snd ?w)"
      using phys_give_pool(2) [OF Suc.prems(1) v room] k by (simp add: phys_give_def)
    show "\<forall>l<i. mem (fst ?w) (arr + 8 * l) = gs ! unat l \<and> valid_frame (fst ?w, snd ?w) (gs ! unat l)"
      using Suc.prems(6) cells by (simp add: valid_frame_def)
  qed (use Suc.prems(4,5) Suc.hyps(2) Sj lt p16 in \<open>simp_all add: weq wordnat\<close>)
  moreover have "drop (unat j) (take (unat i) gs) = ?g # drop (Suc (unat j)) (take (unat i) gs)"
    using lt Suc.prems(4) by (subst Cons_nth_drop_Suc [symmetric]) (simp_all add: wordnat)
  moreover have "free_blocks_loop arr i j m p = free_blocks_loop arr i (j + 1) (fst ?w) (snd ?w)"
    using lt by (subst free_blocks_loop.simps) (simp add: g case_prod_unfold)
  moreover have "\<not> j + 1 < i \<Longrightarrow> free_blocks_loop arr i (j + 1) (fst ?w) (snd ?w) = ?w"
    by (subst free_blocks_loop.simps) simp
  ultimately show ?case
    using Sj lt p16 by (cases "j + 1 < i") (auto simp: weq wordnat)
qed

lemma alloc_blocks_loop_fail:
  assumes "node_list (mem m) (free_list p) xs" and "nodes_below arr xs"
    and "\<forall>f \<in> set (gs @ map snd xs). valid_frame (m, p) f"
    and "unat (placement m) = unat arr + 8 * unat blocks"
    and "unat i + length xs < unat blocks" and "length gs = unat i"
    and "\<forall>l < i. mem m (arr + 8 * l) = gs ! unat l"
    and "phys_room ((length gs + length xs)) (m, p)"
  shows "\<exists>m' p'. alloc_blocks_loop arr blocks i m p = (0, kfree_block (blocks * 8) m', p')
    \<and> phys_pool (m', p') (rev (gs @ map snd xs))
    \<and> unat (placement m') = unat (placement m) + 16 * (length gs + length xs)
    \<and> (gs @ map snd xs \<noteq> [] \<longrightarrow> unat (free_list p') + 16 = unat (placement m'))"
  using assms
proof (induction xs arbitrary: i m p gs)
  case Nil
  let ?m = "store (arr + 8 * i) 0 m"
  have lt: "i < blocks" using Nil.prems(5) by (simp add: wordnat)
  have bound: "unat arr + 8 * unat blocks < 18446744073709551616"
    using Nil.prems(4) u64_bound [of "placement m"] by simp
  have alloc: "physical_alloc m p = (0, p)"
    using Nil.prems(1) by (simp add: physical_alloc_def)
  have "\<exists>m' p'. free_blocks_loop arr i 0 ?m p = (m', p')
    \<and> phys_pool (m', p') (rev (drop (unat (0 :: u64)) (take (unat i) gs)) @ [])
    \<and> unat (placement m') = unat (placement ?m) + 16 * (unat i - unat (0 :: u64))
    \<and> physical_end p' = physical_end p
    \<and> (0 < i \<longrightarrow> unat (free_list p') + 16 = unat (placement m'))"
  proof (rule free_blocks_loop_ok)
    show "phys_pool (?m, p) []" using Nil.prems(1) by (simp add: phys_pool_def nodes_below_def)
    show "phys_room (unat i - unat (0 :: u64)) (?m, p)"
      using Nil.prems(6,8) by (simp add: phys_room_def)
    show "\<forall>l<i. mem ?m (arr + 8 * l) = gs ! unat l \<and> valid_frame (?m, p) (gs ! unat l)"
    proof (intro allI impI)
      fix l assume l: "l < i"
      then have "l < blocks" using lt by simp
      then have "arr + 8 * l \<noteq> arr + 8 * i"
        using unat_cell [OF lt bound] unat_cell [OF _ bound, of l] l by (auto simp: wordnat)
      moreover have "gs ! unat l \<in> set gs" using l Nil.prems(6) by (simp add: wordnat)
      ultimately show "mem ?m (arr + 8 * l) = gs ! unat l \<and> valid_frame (?m, p) (gs ! unat l)"
        using Nil.prems(3,7) l by (simp add: valid_frame_def)
    qed
  qed (use Nil.prems lt in \<open>simp_all add: wordnat\<close>)
  then obtain m' p' where w: "free_blocks_loop arr i 0 ?m p = (m', p')"
    "phys_pool (m', p') (rev (take (unat i) gs))"
    "unat (placement m') = unat (placement m) + 16 * unat i"
    "0 < i \<longrightarrow> unat (free_list p') + 16 = unat (placement m')" by auto
  moreover have "0 < i \<longleftrightarrow> gs \<noteq> []"
    using Nil.prems(6) by (simp add: wordnat flip: length_greater_0_conv)
  ultimately show ?case
    using lt Nil.prems(6)
    by (subst alloc_blocks_loop.simps) (auto simp: alloc intro!: exI [of _ m'])
next
  case (Cons x xs)
  obtain q f where x: "x = (q, f)" by (cases x)
  have lt: "i < blocks" using Cons.prems(5) by (simp add: wordnat)
  have bound: "unat arr + 8 * unat blocks < 18446744073709551616"
    using Cons.prems(4) u64_bound [of "placement m"] by simp
  have f: "f \<noteq> 0" "free_list p = q" "q \<noteq> 0" "mem m q = f"
    using Cons.prems(1,3) by (auto simp: x valid_frame_def)
  let ?p = "p\<lparr>free_list := mem m (q + 8)\<rparr>" and ?m = "store (arr + 8 * i) f m"
  have alloc: "physical_alloc m p = (f, ?p)"
    using f by (simp add: physical_alloc_def frame_address_def frame_previous_def)
  have ci: "unat (arr + 8 * i) = unat arr + 8 * unat i" by (rule unat_cell [OF lt bound])
  have Si: "unat (i + 1) = Suc (unat i)" using lt by (rule unat_Suc_less)
  have step: "alloc_blocks_loop arr blocks i m p = alloc_blocks_loop arr blocks (i + 1) ?m ?p"
    using lt f by (subst alloc_blocks_loop.simps) (simp add: alloc)
  have "\<exists>m' p'. alloc_blocks_loop arr blocks (i + 1) ?m ?p = (0, kfree_block (blocks * 8) m', p')
    \<and> phys_pool (m', p') (rev ((gs @ [f]) @ map snd xs))
    \<and> unat (placement m') = unat (placement ?m) + 16 * (length (gs @ [f]) + length xs)
    \<and> ((gs @ [f]) @ map snd xs \<noteq> [] \<longrightarrow> unat (free_list p') + 16 = unat (placement m'))"
  proof (rule Cons.IH)
    show "node_list (mem ?m) (free_list ?p) xs"
      using Cons.prems(1,2) ci by (simp add: x node_list_store_above [of arr] wordnat)
    show "\<forall>l<i + 1. mem ?m (arr + 8 * l) = (gs @ [f]) ! unat l"
    proof (intro allI impI)
      fix l assume "l < i + 1"
      then consider "l = i" | "l < i" "unat l < unat i"
        using Si by (fastforce simp: wordnat less_Suc_eq word_unat_eq_iff)
      then show "mem ?m (arr + 8 * l) = (gs @ [f]) ! unat l"
      proof cases
        case 2
        then have "l < blocks" using lt by simp
        then have "arr + 8 * l \<noteq> arr + 8 * i"
          using ci unat_cell [OF _ bound, of l] 2 by auto
        then show ?thesis using Cons.prems(6,7) 2 by (simp add: nth_append)
      qed (simp flip: Cons.prems(6))
    qed
  qed (use Cons.prems Si in \<open>auto simp: x phys_room_def valid_frame_def\<close>)
  then show ?case unfolding step by (simp add: x)
qed

text \<open>A request for more frames than there are reports failure and gives every frame back,
  in reverse order, but it lowers the bump pointer by the size of its tracking array after the
  list nodes were allocated above that array: the node at the head of the free list then ends
  above the bump pointer, so the next boot allocation overlaps live nodes.\<close>

theorem alloc_blocks_failure_exposes_nodes:
  assumes "phys_pool (m, p) fs" and "length fs < unat blocks"
    and "unat blocks * 4096 \<le> unat (physical_end p)"
    and "headroom (8 * unat blocks + 16 * length fs) m"
  shows "\<exists>m' p'. physical_alloc_blocks blocks m p = (0, m', p')
    \<and> (\<exists>xs. node_list (mem m') (free_list p') xs \<and> map snd xs = rev fs)
    \<and> (fs \<noteq> [] \<longrightarrow> unat (placement m') < unat (free_list p') + 16)"
proof -
  obtain xs where xs: "node_list (mem m) (free_list p) xs" "map snd xs = fs"
    "nodes_below (placement m) xs"
    using assms(1) by (rule phys_poolE)
  have guard: "\<not> (blocks * FRAME_SIZE > physical_end p \<or> blocks = 0)"
    using assms(2,3) u64_bound [of "physical_end p"]
    by (auto simp: wordnat unat_word_ariths)
  let ?m = "m\<lparr>placement := placement m + blocks * 8\<rparr>"
  have hr: "0 < unat (placement m)"
    "unat (placement m) + 8 * unat blocks + 16 * length fs < 18446744073709551616"
    using assms(4) by (auto simp: headroom_def)
  then have b8: "unat (blocks * 8) = 8 * unat blocks" by (simp add: unat_word_ariths)
  then have pl: "unat (placement ?m) = unat (placement m) + 8 * unat blocks"
    using hr by (simp add: unat_add_nowrap)
  have nz: "placement m \<noteq> 0" using hr by auto
  have len: "length xs = length fs" using xs(2) by (metis length_map)
  have "\<exists>m' p'. alloc_blocks_loop (placement m) blocks 0 ?m p = (0, kfree_block (blocks * 8) m', p')
    \<and> phys_pool (m', p') (rev ([] @ map snd xs))
    \<and> unat (placement m') = unat (placement ?m) + 16 * (length ([] :: addr list) + length xs)
    \<and> ([] @ map snd xs \<noteq> [] \<longrightarrow> unat (free_list p') + 16 = unat (placement m'))"
  proof (rule alloc_blocks_loop_fail)
    show "\<forall>f \<in> set ([] @ map snd xs). valid_frame (?m, p) f"
      using assms(1) xs(2) by (auto simp: phys_pool_def valid_frame_def)
    show "phys_room ((length [] + length xs)) (?m, p)"
      using hr pl len by (simp add: phys_room_def headroom_def)
  qed (use xs pl assms(2) len in simp_all)
  then obtain m' p' where l: "alloc_blocks_loop (placement m) blocks 0 ?m p = (0, kfree_block (blocks * 8) m', p')"
    and r: "phys_pool (m', p') (rev fs)" "unat (placement m') = unat (placement ?m) + 16 * length fs"
    "fs \<noteq> [] \<longrightarrow> unat (free_list p') + 16 = unat (placement m')"
    unfolding xs(2) len append_Nil list.size(3) add_0 by blast
  have pa: "physical_alloc_blocks blocks m p = (0, kfree_block (blocks * 8) m', p')"
    using guard nz l by (simp add: physical_alloc_blocks_def placement_kalloc_eq Let_def)
  have "unat (blocks * 8) \<le> unat (placement m')" using r(2) pl b8 by linarith
  then have "unat (placement (kfree_block (blocks * 8) m')) = unat (placement m') - unat (blocks * 8)"
    by (simp add: unat_sub wordnat)
  then have "fs \<noteq> [] \<longrightarrow> unat (placement (kfree_block (blocks * 8) m')) < unat (free_list p') + 16"
    using r(2,3) b8 pl assms(2) by linarith
  moreover obtain ys where "node_list (mem m') (free_list p') ys" "map snd ys = rev fs"
    using r(1) by (rule phys_poolE)
  ultimately show ?thesis using pa by auto
qed

subsection \<open>Concrete runs\<close>

text \<open>A machine with an empty boot memory and an allocator holding two frames.\<close>

definition example_machine :: machine where
  "example_machine = \<lparr>placement = 0x1000, mem = (\<lambda>_. 0), cr3 = 0, invlpgs = []\<rparr>"

definition example_pool :: "machine \<times> physical" where
  "example_pool = phys_give 0x10000 (phys_give 0x20000
     (example_machine, \<lparr>physical_end = 0x40000, free_list = 0\<rparr>))"

lemma example_pool_eq:
  "example_pool =
     (\<lparr>placement = 0x1020, mem = (\<lambda>_. 0)(0x1000 := 0x20000, 0x1008 := 0,
         0x1010 := 0x10000, 0x1018 := 0x1000), cr3 = 0, invlpgs = []\<rparr>,
      \<lparr>physical_end = 0x40000, free_list = 0x1010\<rparr>)"
  by (simp add: example_pool_def example_machine_def phys_give_def physical_free_def
      placement_kalloc_eq IS_ALIGNED_def sizeof_frame_def store_def Let_def)

lemma example_pool_frames: "phys_pool example_pool [0x10000, 0x20000]"
  by (auto simp: example_pool_eq phys_pool_def valid_frame_def IS_ALIGNED_def
      intro!: exI [of _ "[(0x1010, 0x10000), (0x1000, 0x20000)]"])

theorem physical_setup_frames_witness:
  "\<exists>w. physical_setup 0x100 0x3000 example_machine physical_new = Some w
    \<and> phys_pool w (rev (frame_run (ALIGN_UP 0x100) (whole_pages 0x100 0x3000))) \<and> distinct (frame_run (ALIGN_UP 0x100) (whole_pages 0x100 0x3000))"
  by (rule physical_setup_frames)
    (simp_all add: ALIGN_UP_def ALIGN_DOWN_def headroom_def example_machine_def)

theorem frames_never_shared_witness:
  "\<exists>fs' lost. phys_pool (fst (serve phys_take phys_blocks phys_give [Take_Blocks 2, Give 0x10000, Take] (example_pool, []))) fs'
    \<and> distinct (fs' @ snd (serve phys_take phys_blocks phys_give [Take_Blocks 2, Give 0x10000, Take] (example_pool, [])) @ lost)
    \<and> set (fs' @ snd (serve phys_take phys_blocks phys_give [Take_Blocks 2, Give 0x10000, Take] (example_pool, [])) @ lost)
        = set [0x10000, 0x20000] \<and> length lost = 1"
  using frames_never_shared [OF example_pool_frames, of "[Take_Blocks 2, Give 0x10000, Take]"]
  by (simp add: example_pool_eq headroom_def)

theorem alloc_blocks_success_witness:
  "\<exists>m' p'. physical_alloc_blocks 2 (fst example_pool) (snd example_pool) = (0x10000, m', p')
    \<and> phys_pool (m', p') [] \<and> placement m' = placement (fst example_pool)"
  using alloc_blocks_success [of "fst example_pool" "snd example_pool" "[0x10000, 0x20000]" 2]
    example_pool_frames
  by (simp add: example_pool_eq headroom_def)

theorem alloc_blocks_failure_exposes_nodes_witness:
  "\<exists>m' p'. physical_alloc_blocks 3 (fst example_pool) (snd example_pool) = (0, m', p')
    \<and> (\<exists>xs. node_list (mem m') (free_list p') xs \<and> map snd xs = [0x20000, 0x10000])
    \<and> unat (placement m') < unat (free_list p') + 16"
  using alloc_blocks_failure_exposes_nodes
      [of "fst example_pool" "snd example_pool" "[0x10000, 0x20000]" 3] example_pool_frames
  by (simp add: example_pool_eq headroom_def)

text \<open>The overlap is real: with two frames free, a failed request for three followed by
  the release of one more frame makes the second next allocation return the address of a list
  node in boot memory instead of a physical frame.\<close>

theorem alloc_blocks_failure_corrupts:
  "case physical_alloc_blocks 3 (fst example_pool) (snd example_pool) of (r, m, p) \<Rightarrow>
     r = 0 \<and> (let w = phys_give 0x30000 (m, p); (f1, w1) = phys_take w; (f2, w2) = phys_take w1
        in f1 = 0x30000 \<and> f2 = free_list p \<and> f2 \<notin> {0x10000, 0x20000, 0x30000})"
  by (simp add: example_pool_eq physical_alloc_blocks_def placement_kalloc_eq Let_def
      alloc_blocks_loop.simps free_blocks_loop.simps physical_alloc_def frame_address_def
      frame_previous_def physical_free_def IS_ALIGNED_def sizeof_frame_def phys_give_def
      phys_take_def)

end
