(* ===== verification/Heap.thy ===== *)
theory Heap
  imports Blocks Paging Virtual Physical
begin

text \<open>
  The kernel heap of \<^verbatim>\<open>memory/heap.hpp\<close> and \<^verbatim>\<open>memory/heap.cpp\<close>. The record
  \<open>kernel\<close> gathers what the heap works on: the machine, the frame and address-space managers
  its pointers \<^verbatim>\<open>phys_manager_\<close> and \<^verbatim>\<open>virt_manager_\<close> refer to, and the block headers,
  a store of their own keyed by the header's address (the data of the blocks are bytes of the
  machine's memory). A function that follows \<^verbatim>\<open>next\<close> pointers without a null check, or in a
  loop, returns an option: \<open>None\<close> is a null dereference or a loop that never ends.
\<close>

subsection \<open>State\<close>

record heap_block =
  block_size :: u64
  is_free :: bool
  next_block :: addr
  prev_block :: addr
  magic :: u32

record kernel =
  kmachine :: machine
  kphysical :: physical
  kvirtual :: virt
  headers :: "addr \<Rightarrow> heap_block"

record heap =
  heap_start :: addr
  heap_end :: addr
  heap_size :: u64
  first_block :: addr
  total_allocated :: u64
  total_free :: u64
  num_allocations :: u64
  num_frees :: u64

definition MAGIC_FREE :: u32 where
  "MAGIC_FREE = 0xDEADBEEF"

definition MAGIC_USED :: u32 where
  "MAGIC_USED = 0xCAFEBABE"

definition sizeof_heap_block :: u64 where
  "sizeof_heap_block = 40"

definition MIN_BLOCK_SIZE :: u64 where
  "MIN_BLOCK_SIZE = sizeof_heap_block + 16"

definition new_heap_block :: "u64 \<Rightarrow> bool \<Rightarrow> heap_block" where
  "new_heap_block sz free =
     \<lparr>block_size = sz, is_free = free, next_block = 0, prev_block = 0,
      magic = (if free then MAGIC_FREE else MAGIC_USED)\<rparr>"

definition block_data :: "addr \<Rightarrow> addr" where
  "block_data b = b + sizeof_heap_block"

definition from_data :: "addr \<Rightarrow> addr" where
  "from_data p = p - sizeof_heap_block"

definition is_valid :: "heap_block \<Rightarrow> bool" where
  "is_valid hb \<longleftrightarrow> magic hb = MAGIC_FREE \<or> magic hb = MAGIC_USED"

definition HEAP_ALIGN_UP :: "u64 \<Rightarrow> u64" where
  "HEAP_ALIGN_UP sz = ALIGN_UP sz"

text \<open>Assigning to a member of the header at \<open>b\<close>, or to all of it.\<close>

definition put_header :: "addr \<Rightarrow> heap_block \<Rightarrow> kernel \<Rightarrow> kernel" where
  "put_header b hb k = k\<lparr>headers := (headers k)(b := hb)\<rparr>"

definition set_size :: "addr \<Rightarrow> u64 \<Rightarrow> kernel \<Rightarrow> kernel" where
  "set_size b x k = put_header b ((headers k b)\<lparr>block_size := x\<rparr>) k"

definition set_next :: "addr \<Rightarrow> addr \<Rightarrow> kernel \<Rightarrow> kernel" where
  "set_next b x k = put_header b ((headers k b)\<lparr>next_block := x\<rparr>) k"

definition set_prev :: "addr \<Rightarrow> addr \<Rightarrow> kernel \<Rightarrow> kernel" where
  "set_prev b x k = put_header b ((headers k b)\<lparr>prev_block := x\<rparr>) k"

definition set_used :: "addr \<Rightarrow> kernel \<Rightarrow> kernel" where
  "set_used b k = put_header b ((headers k b)\<lparr>is_free := False, magic := MAGIC_USED\<rparr>) k"

definition set_freed :: "addr \<Rightarrow> kernel \<Rightarrow> kernel" where
  "set_freed b k = put_header b ((headers k b)\<lparr>is_free := True, magic := MAGIC_FREE\<rparr>) k"

subsection \<open>Mapping pages\<close>

text \<open>The two clean-up loops and \<^verbatim>\<open>unmap_pages\<close>: pages \<open>j\<close> up to \<open>n\<close> are unmapped.\<close>

function unmap_loop :: "addr \<Rightarrow> u64 \<Rightarrow> u64 \<Rightarrow> machine \<Rightarrow> machine" where
  "unmap_loop st n j m =
     (if j < n then unmap_loop st n (j + 1) (unmap_current (st + j * FRAME_SIZE) m) else m)"
  by pat_completeness auto
termination by (relation "measure (\<lambda>(s, n, j, m). unat n - unat j)") (simp_all add: unat_count_up)

declare unmap_loop.simps [simp del]

text \<open>Clearing a page of the heap also clears the header a block had there.\<close>

definition clear_page :: "addr \<Rightarrow> kernel \<Rightarrow> kernel" where
  "clear_page va k =
     k\<lparr>kmachine := snd (memset va 0 FRAME_SIZE (kmachine k)),
       headers := (\<lambda>a. if a - va < FRAME_SIZE
                       then \<lparr>block_size = 0, is_free = False, next_block = 0, prev_block = 0, magic = 0\<rparr>
                       else headers k a)\<rparr>"

function map_pages_loop :: "addr \<Rightarrow> u64 \<Rightarrow> u64 \<Rightarrow> kernel \<Rightarrow> bool \<times> kernel" where
  "map_pages_loop st n i k =
     (if i < n then
        (case physical_alloc (kmachine k) (kphysical k) of (phys_addr, p) \<Rightarrow>
           let k = k\<lparr>kphysical := p\<rparr> in
           if phys_addr = 0 then (False, k\<lparr>kmachine := unmap_loop st i 0 (kmachine k)\<rparr>)
           else
             let virt_addr = st + i * FRAME_SIZE;
                 rm = map_current virt_addr phys_addr 0x03 (kmachine k);
                 k = k\<lparr>kmachine := snd rm\<rparr>
             in if fst rm \<noteq> 0 then
                  (case physical_free phys_addr (kmachine k) (kphysical k) of (m, p) \<Rightarrow>
                     (False, k\<lparr>kmachine := unmap_loop st i 0 m, kphysical := p\<rparr>))
                else map_pages_loop st n (i + 1) (clear_page virt_addr k))
      else (True, k))"
  by pat_completeness auto
termination by (relation "measure (\<lambda>(s, n, i, k). unat n - unat i)") (simp_all add: unat_count_up)

declare map_pages_loop.simps [simp del]

definition map_pages :: "addr \<Rightarrow> u64 \<Rightarrow> kernel \<Rightarrow> bool \<times> kernel" where
  "map_pages st sz k =
     (let pages_needed = HEAP_ALIGN_UP sz div FRAME_SIZE in map_pages_loop st pages_needed 0 k)"

definition unmap_pages :: "addr \<Rightarrow> u64 \<Rightarrow> kernel \<Rightarrow> kernel" where
  "unmap_pages st sz k =
     (let pages = HEAP_ALIGN_UP sz div FRAME_SIZE
      in k\<lparr>kmachine := unmap_loop st pages 0 (kmachine k)\<rparr>)"

subsection \<open>Construction\<close>

definition heap_new :: "addr \<Rightarrow> u64 \<Rightarrow> kernel \<Rightarrow> kernel \<times> heap" where
  "heap_new st initial_size k =
     (let h = \<lparr>heap_start = st, heap_end = 0, heap_size = initial_size, first_block = 0,
               total_allocated = 0, total_free = 0, num_allocations = 0, num_frees = 0\<rparr>;
          h = h\<lparr>heap_size := HEAP_ALIGN_UP (heap_size h)\<rparr>;
          h = h\<lparr>heap_end := heap_start h + heap_size h\<rparr>
      in case map_pages (heap_start h) (heap_size h) k of (ok, k) \<Rightarrow>
           if \<not> ok then (k, h)
           else let h = h\<lparr>first_block := heap_start h\<rparr>;
                    k = put_header (first_block h) (new_heap_block (heap_size h - sizeof_heap_block) True) k;
                    h = h\<lparr>total_free := heap_size h - sizeof_heap_block\<rparr>
                in (k, h))"

definition heap_delete :: "kernel \<Rightarrow> heap \<Rightarrow> kernel" where
  "heap_delete k h = unmap_pages (heap_start h) (heap_size h) k"

subsection \<open>Operations\<close>

partial_function (option) find_from :: "u64 \<Rightarrow> kernel \<Rightarrow> addr \<Rightarrow> addr option" where
  "find_from sz k cur =
     (if cur \<noteq> 0 then
        if is_free (headers k cur) \<and> block_size (headers k cur) \<ge> sz then Some cur
        else find_from sz k (next_block (headers k cur))
      else Some 0)"

definition find_free_block :: "u64 \<Rightarrow> kernel \<Rightarrow> heap \<Rightarrow> addr option" where
  "find_free_block sz k h = find_from sz k (first_block h)"

definition split_block :: "addr \<Rightarrow> u64 \<Rightarrow> kernel \<Rightarrow> heap \<Rightarrow> kernel \<times> heap" where
  "split_block b sz k h =
     (if block_size (headers k b) < sz + MIN_BLOCK_SIZE then (k, h)
      else
        let new_block = block_data b + sz;
            remaining_size = block_size (headers k b) - sz - sizeof_heap_block;
            k = put_header new_block (new_heap_block remaining_size True) k;
            k = set_next new_block (next_block (headers k b)) k;
            k = set_prev new_block b k;
            k = (if next_block (headers k b) \<noteq> 0
                 then set_prev (next_block (headers k b)) new_block k else k);
            k = set_next b new_block k;
            k = set_size b sz k
        in (k, h\<lparr>total_free := total_free h + sizeof_heap_block\<rparr>))"

definition coalesce_next :: "addr \<Rightarrow> kernel \<Rightarrow> heap \<Rightarrow> kernel \<times> heap" where
  "coalesce_next b k h =
     (let next_blk = next_block (headers k b) in
      if next_blk \<noteq> 0 \<and> is_free (headers k next_blk)
         \<and> block_data b + block_size (headers k b) = next_blk
      then
        let k = set_size b (block_size (headers k b)
                  + (sizeof_heap_block + block_size (headers k next_blk))) k;
            k = set_next b (next_block (headers k next_blk)) k;
            k = (if next_block (headers k next_blk) \<noteq> 0
                 then set_prev (next_block (headers k next_blk)) b k else k)
        in (k, h\<lparr>total_free := total_free h - sizeof_heap_block\<rparr>)
      else (k, h))"

definition coalesce_prev :: "addr \<Rightarrow> kernel \<Rightarrow> heap \<Rightarrow> kernel \<times> heap" where
  "coalesce_prev b k h =
     (let prev_blk = prev_block (headers k b) in
      if prev_blk \<noteq> 0 \<and> is_free (headers k prev_blk)
         \<and> block_data prev_blk + block_size (headers k prev_blk) = b
      then
        let k = set_size prev_blk (block_size (headers k prev_blk)
                  + (sizeof_heap_block + block_size (headers k b))) k;
            k = set_next prev_blk (next_block (headers k b)) k;
            k = (if next_block (headers k b) \<noteq> 0
                 then set_prev (next_block (headers k b)) prev_blk k else k)
        in (k, h\<lparr>total_free := total_free h - sizeof_heap_block\<rparr>)
      else (k, h))"

definition coalesce_block :: "addr \<Rightarrow> kernel \<Rightarrow> heap \<Rightarrow> kernel \<times> heap" where
  "coalesce_block b k h =
     (if \<not> is_free (headers k b) then (k, h)
      else case coalesce_next b k h of (k, h) \<Rightarrow> coalesce_prev b k h)"

partial_function (option) last_from :: "kernel \<Rightarrow> addr \<Rightarrow> addr option" where
  "last_from k cur =
     (if cur = 0 then None
      else if next_block (headers k cur) \<noteq> 0 then last_from k (next_block (headers k cur))
      else Some cur)"

definition expand_heap :: "u64 \<Rightarrow> kernel \<Rightarrow> heap \<Rightarrow> (bool \<times> kernel \<times> heap) option" where
  "expand_heap min_size k h =
     (let expand_size = HEAP_ALIGN_UP min_size
      in case virt_alloc expand_size (kvirtual k) of (new_region, v) \<Rightarrow>
        let k = k\<lparr>kvirtual := v\<rparr> in
        if new_region = 0 then Some (False, k, h)
        else case map_pages new_region expand_size k of (ok, k) \<Rightarrow>
          if \<not> ok then
            (case virt_free new_region expand_size (kmachine k) (kvirtual k) of (m, v) \<Rightarrow>
               Some (False, k\<lparr>kmachine := m, kvirtual := v\<rparr>, h))
          else
            let k = put_header new_region (new_heap_block (expand_size - sizeof_heap_block) True) k
            in case last_from k (first_block h) of None \<Rightarrow> None
             | Some cur \<Rightarrow>
                let k = set_next cur new_region k;
                    k = set_prev new_region cur k;
                    h = h\<lparr>heap_size := heap_size h + expand_size\<rparr>;
                    h = h\<lparr>total_free := total_free h + (expand_size - sizeof_heap_block)\<rparr>
                in case coalesce_block new_region k h of (k, h) \<Rightarrow> Some (True, k, h))"

text \<open>The end of \<^verbatim>\<open>malloc\<close>, once a block has been found.\<close>

definition take_block :: "addr \<Rightarrow> u64 \<Rightarrow> kernel \<Rightarrow> heap \<Rightarrow> addr \<times> kernel \<times> heap" where
  "take_block b sz k h =
     (if b = 0 then (0, k, h)
      else case split_block b sz k h of (k, h) \<Rightarrow>
        let k = set_used b k;
            h = h\<lparr>total_allocated := total_allocated h + sz\<rparr>;
            h = h\<lparr>total_free := total_free h - sz\<rparr>;
            h = h\<lparr>num_allocations := num_allocations h + 1\<rparr>
        in (block_data b, k, h))"

definition heap_malloc :: "u64 \<Rightarrow> kernel \<Rightarrow> heap \<Rightarrow> (addr \<times> kernel \<times> heap) option" where
  "heap_malloc sz k h =
     (if sz = 0 then Some (0, k, h)
      else let sz = HEAP_ALIGN_UP sz
      in case find_free_block sz k h of None \<Rightarrow> None
       | Some b \<Rightarrow>
          if b = 0 then
            (case expand_heap (sz + sizeof_heap_block) k h of None \<Rightarrow> None
             | Some (ok, k, h) \<Rightarrow>
                if \<not> ok then Some (0, k, h)
                else case find_free_block sz k h of None \<Rightarrow> None
                 | Some b \<Rightarrow> Some (take_block b sz k h))
          else Some (take_block b sz k h))"

definition heap_free :: "addr \<Rightarrow> kernel \<Rightarrow> heap \<Rightarrow> kernel \<times> heap" where
  "heap_free ptr k h =
     (if ptr = 0 then (k, h)
      else let b = from_data ptr in
        if \<not> is_valid (headers k b) \<or> is_free (headers k b) then (k, h)
        else let k = set_freed b k;
                 h = h\<lparr>total_allocated := total_allocated h - block_size (headers k b)\<rparr>;
                 h = h\<lparr>total_free := total_free h + block_size (headers k b)\<rparr>;
                 h = h\<lparr>num_frees := num_frees h + 1\<rparr>
             in coalesce_block b k h)"

definition heap_realloc :: "addr \<Rightarrow> u64 \<Rightarrow> kernel \<Rightarrow> heap \<Rightarrow> (addr \<times> kernel \<times> heap) option" where
  "heap_realloc ptr new_size k h =
     (if ptr = 0 then heap_malloc new_size k h
      else if new_size = 0 then (case heap_free ptr k h of (k, h) \<Rightarrow> Some (0, k, h))
      else let b = from_data ptr in
        if \<not> is_valid (headers k b) \<or> is_free (headers k b) then Some (0, k, h)
        else
          let old_size = block_size (headers k b);
              new_size = HEAP_ALIGN_UP new_size
          in if new_size \<le> old_size then
               if old_size > new_size + MIN_BLOCK_SIZE then
                 (case split_block b new_size k h of (k, h) \<Rightarrow>
                    let h = h\<lparr>total_allocated := total_allocated h - (old_size - new_size)\<rparr>;
                        h = h\<lparr>total_free := total_free h + (old_size - new_size)\<rparr>
                    in Some (ptr, k, h))
               else Some (ptr, k, h)
             else
               (case heap_malloc new_size k h of None \<Rightarrow> None
                | Some (new_ptr, k, h) \<Rightarrow>
                   if new_ptr = 0 then Some (0, k, h)
                   else let k = k\<lparr>kmachine := snd (memcpy new_ptr ptr old_size (kmachine k))\<rparr>
                   in case heap_free ptr k h of (k, h) \<Rightarrow> Some (new_ptr, k, h)))"

definition heap_calloc :: "u64 \<Rightarrow> u64 \<Rightarrow> kernel \<Rightarrow> heap \<Rightarrow> (addr \<times> kernel \<times> heap) option" where
  "heap_calloc num sz k h =
     (let total_size = num * sz in
      if num > 0 \<and> total_size div num \<noteq> sz then Some (0, k, h)
      else case heap_malloc total_size k h of None \<Rightarrow> None
       | Some (ptr, k, h) \<Rightarrow>
          if ptr \<noteq> 0 then Some (ptr, k\<lparr>kmachine := snd (memset ptr 0 total_size (kmachine k))\<rparr>, h)
          else Some (ptr, k, h))"

definition aligned_alloc :: "u64 \<Rightarrow> u64 \<Rightarrow> kernel \<Rightarrow> heap \<Rightarrow> (addr \<times> kernel \<times> heap) option" where
  "aligned_alloc alignment sz k h =
     (if alignment = 0 \<or> alignment AND (alignment - 1) \<noteq> 0 then Some (0, k, h)
      else let total_size = sz + alignment + 8
      in case heap_malloc total_size k h of None \<Rightarrow> None
       | Some (raw_ptr, k, h) \<Rightarrow>
          if raw_ptr = 0 then Some (0, k, h)
          else let aligned_addr = HEAP_ALIGN_UP (raw_ptr + 8);
                   k = k\<lparr>kmachine := store (aligned_addr - 8) raw_ptr (kmachine k)\<rparr>
               in Some (aligned_addr, k, h))"

partial_function (option) validate_from ::
  "kernel \<Rightarrow> heap \<Rightarrow> u64 \<Rightarrow> u64 \<Rightarrow> addr \<Rightarrow> bool option" where
  "validate_from k h counted_allocated counted_free cur =
     (if cur \<noteq> 0 then
        if \<not> is_valid (headers k cur) then Some False
        else if is_free (headers k cur)
        then validate_from k h counted_allocated (counted_free + block_size (headers k cur))
               (next_block (headers k cur))
        else validate_from k h (counted_allocated + block_size (headers k cur)) counted_free
               (next_block (headers k cur))
      else Some (\<not> (counted_allocated \<noteq> total_allocated h \<or> counted_free \<noteq> total_free h)))"

definition validate_heap :: "kernel \<Rightarrow> heap \<Rightarrow> bool option" where
  "validate_heap k h = validate_from k h 0 0 (first_block h)"

definition get_total_size :: "heap \<Rightarrow> u64" where
  "get_total_size h = heap_size h"

definition get_allocated_size :: "heap \<Rightarrow> u64" where
  "get_allocated_size h = total_allocated h"

definition get_free_size :: "heap \<Rightarrow> u64" where
  "get_free_size h = total_free h"

end
