(* ===== verification/Heap_Blocks.thy ===== *)
theory Heap_Blocks
  imports Heap
begin

text \<open>
  The block list of the kernel heap: its headers viewed as generic blocks, and the proof that
  the pointer manipulations of \<^verbatim>\<open>split_block\<close>, \<^verbatim>\<open>coalesce_block\<close> and
  \<^verbatim>\<open>expand_heap\<close> are the list operations of theory Blocks.
\<close>

definition view :: "heap_block \<Rightarrow> block" where
  "view hb = \<lparr>bsize = unat (block_size hb), bfree = is_free hb, bnext = next_block hb,
     bprev = prev_block hb\<rparr>"

definition hview :: "kernel \<Rightarrow> blocks" where
  "hview k a = view (headers k a)"

lemma view_simps [simp]:
  "bsize (view hb) = unat (block_size hb)" "bfree (view hb) = is_free hb"
  "bnext (view hb) = next_block hb" "bprev (view hb) = prev_block hb"
  by (simp_all add: view_def)

lemma hview_put: "hview (put_header b hb k) = (hview k)(b := view hb)"
  by (auto simp: hview_def put_header_def)

lemma hview_fields:
  "bsize (hview k a) = unat (block_size (headers k a))" "bfree (hview k a) = is_free (headers k a)"
  "bnext (hview k a) = next_block (headers k a)" "bprev (hview k a) = prev_block (headers k a)"
  by (simp_all add: hview_def)

lemma hview_set:
  "hview (set_size b x k) = (hview k)(b := (hview k b)\<lparr>bsize := unat x\<rparr>)"
  "hview (set_next b x k) = (hview k)(b := (hview k b)\<lparr>bnext := x\<rparr>)"
  "hview (set_prev b x k) = (hview k)(b := (hview k b)\<lparr>bprev := x\<rparr>)"
  "hview (set_used b k) = (hview k)(b := (hview k b)\<lparr>bfree := False\<rparr>)"
  "hview (set_freed b k) = (hview k)(b := (hview k b)\<lparr>bfree := True\<rparr>)"
  by (simp_all add: set_size_def set_next_def set_prev_def set_used_def set_freed_def hview_put)
    (simp_all add: hview_def view_def)

text \<open>Header assignments leave the rest of the kernel alone.\<close>

lemma put_header_rest [simp]:
  "kmachine (put_header b hb k) = kmachine k" "kphysical (put_header b hb k) = kphysical k"
  "kvirtual (put_header b hb k) = kvirtual k" "headers (put_header b hb k) = (headers k)(b := hb)"
  by (simp_all add: put_header_def)

lemma set_header_rest [simp]:
  "kmachine (set_size b x k) = kmachine k" "kmachine (set_next b y k) = kmachine k"
  "kmachine (set_prev b y k) = kmachine k" "kmachine (set_used b k) = kmachine k"
  "kmachine (set_freed b k) = kmachine k"
  "kvirtual (set_size b x k) = kvirtual k" "kvirtual (set_next b y k) = kvirtual k"
  "kvirtual (set_prev b y k) = kvirtual k" "kvirtual (set_used b k) = kvirtual k"
  "kvirtual (set_freed b k) = kvirtual k"
  by (simp_all add: set_size_def set_next_def set_prev_def set_used_def set_freed_def)

definition mark :: "heap_block \<Rightarrow> bool \<times> u32" where
  "mark hb = (is_free hb, magic hb)"

lemma mark_set [simp]:
  "mark (headers (set_size b x k) a) = mark (headers k a)"
  "mark (headers (set_next b y k) a) = mark (headers k a)"
  "mark (headers (set_prev b y k) a) = mark (headers k a)"
  by (simp_all add: mark_def set_size_def set_next_def set_prev_def)

lemma block_commute:
  "x\<lparr>bnext := a, bsize := s\<rparr> = x\<lparr>bsize := s, bnext := a\<rparr>"
  by simp

subsection \<open>Splitting\<close>

lemma unat_block_data: "unat b + 40 < 18446744073709551616 \<Longrightarrow> unat (block_data b) = unat b + 40"
  by (simp add: block_data_def sizeof_heap_block_def unat_add_nowrap)

lemma split_block_cases:
  assumes ok: "blocks_ok 40 (hview k) f (xs @ b # ys)"
    and s: "sz \<le> block_size (headers k b)" and w: "unat sz + 56 < 18446744073709551616"
  obtains "split_block b sz k h = (k, h)"
  | n k' where "split_block b sz k h = (k', h\<lparr>total_free := total_free h + 40\<rparr>)"
    "unat n = unat b + 40 + unat sz"
    "unat (block_size (headers k b)) = unat sz + 40 + (unat (block_size (headers k b)) - unat sz - 40)"
    "hview k' = insert_after b n (unat sz) (unat (block_size (headers k b)) - unat sz - 40) (hview k)"
    "kmachine k' = kmachine k" "kvirtual k' = kvirtual k"
    "mark (headers k' n) = (True, MAGIC_FREE)" "\<And>c. c \<noteq> n \<Longrightarrow> mark (headers k' c) = mark (headers k c)"
proof (cases "block_size (headers k b) < sz + MIN_BLOCK_SIZE")
  case True
  then show ?thesis using that(1) by (simp add: split_block_def)
next
  case False
  let ?S = "block_size (headers k b)" and ?n = "block_data b + sz" and ?d = "next_block (headers k b)"
  have r: "unat b + 40 + unat ?S < 18446744073709551616"
    using blocks_okD(4) [OF ok, of b] by (simp add: hview_fields)
  from w have "unat (sz + MIN_BLOCK_SIZE) = unat sz + 56"
    by (simp add: MIN_BLOCK_SIZE_def sizeof_heap_block_def unat_add_nowrap)
  then have S: "unat sz + 56 \<le> unat ?S" using False by (simp add: wordnat)
  have n: "unat ?n = unat b + 40 + unat sz"
    using r S unat_block_data [of b] by (simp add: unat_add_nowrap)
  have rem: "unat (?S - sz - sizeof_heap_block) = unat ?S - unat sz - 40"
  proof -
    have "unat (?S - sz) = unat ?S - unat sz" using s by (rule unat_sub_nowrap)
    then show ?thesis using S by (simp add: sizeof_heap_block_def unat_sub_nowrap wordnat)
  qed
  have bn: "b \<noteq> ?n" using n by auto
  have "?n \<notin> set (xs @ b # ys)"
    by (rule inside_not_block [OF ok, of b]) (use n S in \<open>auto simp: hview_fields\<close>)
  then have d: "?d \<noteq> 0 \<Longrightarrow> ?d \<noteq> b \<and> ?d \<noteq> ?n"
    using linked_next [OF blocks_okD(1) [OF ok]] blocks_okD(2) [OF ok]
    by (cases ys) (auto simp: hview_fields)
  let ?k = "fst (split_block b sz k h)"
  have e: "split_block b sz k h = (?k, h\<lparr>total_free := total_free h + 40\<rparr>)"
    using False by (simp add: split_block_def Let_def sizeof_heap_block_def)
  have v: "hview ?k = insert_after b ?n (unat sz) (unat ?S - unat sz - 40) (hview k)"
  proof (cases "?d = 0")
    case True
    then have k: "?k = set_size b sz (set_next b ?n (set_prev ?n b (set_next ?n 0
        (put_header ?n (new_heap_block (?S - sz - sizeof_heap_block) True) k))))"
      using False bn by (simp add: split_block_def Let_def set_next_def set_prev_def)
    show ?thesis
      using True bn unfolding k hview_set hview_put insert_after_def Let_def
      by (simp add: hview_fields new_heap_block_def view_def rem fun_upd_twist block_commute)
  next
    case dn: False
    then have k: "?k = set_size b sz (set_next b ?n (set_prev ?d ?n (set_prev ?n b (set_next ?n ?d
        (put_header ?n (new_heap_block (?S - sz - sizeof_heap_block) True) k)))))"
      using False bn d by (simp add: split_block_def Let_def set_next_def set_prev_def)
    show ?thesis
      using dn d bn unfolding k hview_set hview_put insert_after_def Let_def
      by (simp add: hview_fields new_heap_block_def view_def rem fun_upd_twist block_commute)
  qed
  have m: "mark (headers ?k ?n) = (True, MAGIC_FREE)"
    using False bn by (simp add: split_block_def Let_def) (simp add: mark_def new_heap_block_def)
  have mc: "mark (headers ?k c) = mark (headers k c)" if "c \<noteq> ?n" for c
    using False that by (simp add: split_block_def Let_def)
  have "kmachine ?k = kmachine k" "kvirtual ?k = kvirtual k"
    using False by (simp_all add: split_block_def Let_def)
  then show ?thesis using that(2) [OF e n _ v _ _ m mc] S by simp
qed

subsection \<open>Coalescing\<close>

lemma adjacent_word:
  assumes "unat p + 40 + unat sz < 18446744073709551616"
  shows "block_data p + sz = n \<longleftrightarrow> unat p + 40 + unat sz = unat n"
proof -
  have "unat (block_data p + sz) = unat p + 40 + unat sz"
    using assms unat_block_data [of p] by (simp add: unat_add_nowrap)
  then show ?thesis by (simp add: word_unat_eq_iff)
qed

text \<open>Sizes add up without wrapping, because both blocks lie in memory.\<close>

lemma merged_size:
  assumes "unat b + 40 + unat s = unat (n :: addr)" and "unat n + 40 + unat t < 18446744073709551616"
  shows "unat (s + (sizeof_heap_block + t)) = unat s + 40 + unat t"
  using assms by (simp add: sizeof_heap_block_def unat_add_nowrap)

lemma coalesce_next_refines:
  assumes ok: "blocks_ok 40 (hview k) f (xs @ b # ys)"
  shows "hview (fst (coalesce_next b k h)) = merge_next_if 40 b (hview k)"
    "mark (headers (fst (coalesce_next b k h)) c) = mark (headers k c)"
    "kmachine (fst (coalesce_next b k h)) = kmachine k" "kvirtual (fst (coalesce_next b k h)) = kvirtual k"
    "first_block (snd (coalesce_next b k h)) = first_block h"
proof -
  let ?n = "next_block (headers k b)"
  note l = blocks_okD(1) [OF ok]
  have b4: "unat b + 40 + unat (block_size (headers k b)) < 18446744073709551616"
    using blocks_okD(4) [OF ok, of b] by (simp add: hview_fields)
  have adj: "block_data b + block_size (headers k b) = ?n \<longleftrightarrow> adjacent 40 (hview k) b ?n"
    using adjacent_word [OF b4] by (simp add: adjacent_def hview_fields)
  show "hview (fst (coalesce_next b k h)) = merge_next_if 40 b (hview k)"
  proof (cases "?n \<noteq> 0 \<and> is_free (headers k ?n) \<and> adjacent 40 (hview k) b ?n")
    case True
    then have nn: "?n \<in> set (xs @ b # ys)" "?n \<noteq> b"
      using linked_next [OF l] blocks_okD(2) [OF ok] by (auto simp: hview_fields split: if_splits)
    have sz: "unat (block_size (headers k b) + (sizeof_heap_block + block_size (headers k ?n)))
        = unat (block_size (headers k b)) + 40 + unat (block_size (headers k ?n))"
      using True blocks_okD(4) [OF ok nn(1)] by (intro merged_size [of b _ ?n]) (simp_all add: adjacent_def hview_fields)
    show ?thesis
      using True nn(2) sz unfolding coalesce_next_def Let_def adj
      by (auto simp: merge_next_if_def merge_after_def Let_def hview_set hview_fields set_size_def
          set_next_def fun_eq_iff)
  next
    case False
    then show ?thesis
      unfolding coalesce_next_def Let_def adj by (auto simp: merge_next_if_def hview_fields)
  qed
  show "mark (headers (fst (coalesce_next b k h)) c) = mark (headers k c)"
    "kmachine (fst (coalesce_next b k h)) = kmachine k" "kvirtual (fst (coalesce_next b k h)) = kvirtual k"
    "first_block (snd (coalesce_next b k h)) = first_block h"
    by (simp_all add: coalesce_next_def Let_def)
qed

lemma coalesce_prev_refines:
  assumes ok: "blocks_ok 40 (hview k) f (xs @ b # ys)"
  shows "hview (fst (coalesce_prev b k h)) = merge_prev_if 40 b (hview k)"
    "mark (headers (fst (coalesce_prev b k h)) c) = mark (headers k c)"
    "kmachine (fst (coalesce_prev b k h)) = kmachine k" "kvirtual (fst (coalesce_prev b k h)) = kvirtual k"
    "first_block (snd (coalesce_prev b k h)) = first_block h"
proof -
  let ?p = "prev_block (headers k b)"
  note l = blocks_okD(1) [OF ok]
  show "hview (fst (coalesce_prev b k h)) = merge_prev_if 40 b (hview k)"
  proof (cases "?p = 0")
    case True
    then show ?thesis by (simp add: coalesce_prev_def Let_def merge_prev_if_def hview_fields)
  next
    case False
    then obtain zs where xs: "xs = zs @ [?p]"
      using linked_prev [OF l] by (cases xs rule: rev_cases) (auto simp: hview_fields)
    have lp: "linked (hview k) f (zs @ ?p # b # ys)" using l by (subst (asm) xs) simp
    have pb: "?p \<in> set (xs @ b # ys)" "?p \<noteq> b" "next_block (headers k ?p) = b"
      using xs blocks_okD(2) [OF ok] linked_next [OF lp] by (auto simp: hview_fields)
    have p4: "unat ?p + 40 + unat (block_size (headers k ?p)) < 18446744073709551616"
      using blocks_okD(4) [OF ok pb(1)] by (simp add: hview_fields)
    have adj: "block_data ?p + block_size (headers k ?p) = b \<longleftrightarrow> adjacent 40 (hview k) ?p b"
      using adjacent_word [OF p4] by (simp add: adjacent_def hview_fields)
    show ?thesis
    proof (cases "is_free (headers k ?p) \<and> adjacent 40 (hview k) ?p b")
      case True
      have sz: "unat (block_size (headers k ?p) + (sizeof_heap_block + block_size (headers k b)))
          = unat (block_size (headers k ?p)) + 40 + unat (block_size (headers k b))"
        using True blocks_okD(4) [OF ok, of b] by (intro merged_size [of ?p _ b]) (simp_all add: adjacent_def hview_fields)
      show ?thesis
        using True False pb(2,3) sz unfolding coalesce_prev_def Let_def adj
        by (auto simp: merge_prev_if_def merge_after_def Let_def hview_set hview_fields set_size_def
            set_next_def fun_eq_iff)
    next
      case other: False
      then show ?thesis
        unfolding coalesce_prev_def Let_def adj by (auto simp: merge_prev_if_def hview_fields)
    qed
  qed
  show "mark (headers (fst (coalesce_prev b k h)) c) = mark (headers k c)"
    "kmachine (fst (coalesce_prev b k h)) = kmachine k" "kvirtual (fst (coalesce_prev b k h)) = kvirtual k"
    "first_block (snd (coalesce_prev b k h)) = first_block h"
    by (simp_all add: coalesce_prev_def Let_def)
qed

lemma coalesce_block_ok:
  assumes ok: "blocks_ok 40 (hview k) f bs" and b: "b \<in> set bs" "is_free (headers k b)"
    and r: "coalesce_block b k h = (k', h')"
  obtains cs where "blocks_ok 40 (hview k') f cs" "set cs \<subseteq> set bs" "cs \<noteq> []"
    "space 40 (hview k') cs = space 40 (hview k) bs" "live (hview k') cs = live (hview k) bs"
    "\<forall>c. mark (headers k' c) = mark (headers k c)"
    "kmachine k' = kmachine k" "kvirtual k' = kvirtual k" "first_block h' = first_block h"
proof -
  obtain xs ys where bs: "bs = xs @ b # ys" using b(1) by (auto dest: split_list)
  have ok1: "blocks_ok 40 (hview k) f (xs @ b # ys)" using ok bs by simp
  have bf: "bfree (hview k b)" using b(2) by (simp add: hview_fields)
  obtain k1 h1 where 1: "coalesce_next b k h = (k1, h1)" by (cases "coalesce_next b k h")
  note c1 = coalesce_next_refines [OF ok1, where h = h, unfolded 1 fst_conv snd_conv]
  obtain zs where z: "blocks_ok 40 (hview k1) f (xs @ b # zs)"
    by (rule merge_next_if_ok [OF ok1 bf]) (simp add: c1(1))
  note c2 = coalesce_prev_refines [OF z, where h = h1]
  have eq: "coalesce_block b k h = coalesce_prev b k1 h1" using b(2) 1 by (simp add: coalesce_block_def)
  have k': "k' = fst (coalesce_prev b k1 h1)" "h' = snd (coalesce_prev b k1 h1)"
    using r unfolding eq by simp_all
  have v: "hview k' = coalesce 40 b (hview k)" unfolding k' c2(1) c1(1) coalesce_def ..
  obtain cs where c: "blocks_ok 40 (coalesce 40 b (hview k)) f cs" "set cs \<subseteq> set bs" "cs \<noteq> []"
    "space 40 (coalesce 40 b (hview k)) cs = space 40 (hview k) bs"
    "live (coalesce 40 b (hview k)) cs = live (hview k) bs"
    by (rule coalesce_ok [OF ok b(1) bf])
  show ?thesis
    by (rule that [of cs, unfolded v, OF c]) (simp_all add: k' c1 c2)
qed

subsection \<open>Searching\<close>

lemma find_from_segment:
  assumes "segment (hview k) p c bs q 0"
  shows "find_from sz k c = Some (case find (\<lambda>b. is_free (headers k b) \<and> sz \<le> block_size (headers k b)) bs of
     None \<Rightarrow> 0 | Some b \<Rightarrow> b)"
  using assms
proof (induction bs arbitrary: p c)
  case Nil
  then show ?case by (simp add: find_from.simps)
next
  case (Cons b bs)
  then have c: "c = b" "b \<noteq> 0" "segment (hview k) b (next_block (headers k b)) bs q 0"
    by (simp_all add: hview_fields)
  show ?case using c(1,2) Cons.IH [OF c(3)] by (simp add: find_from.simps [of sz k b])
qed

lemma find_Some_iff':
  "find P xs = Some x \<Longrightarrow> x \<in> set xs \<and> P x"
  by (induction xs) (auto split: if_splits)

lemma find_free_block_result:
  assumes ok: "blocks_ok 40 (hview k) (first_block h) bs"
  obtains "find_free_block sz k h = Some 0"
    "\<And>b. b \<in> set bs \<Longrightarrow> is_free (headers k b) \<Longrightarrow> block_size (headers k b) < sz"
  | b where "find_free_block sz k h = Some b" "b \<in> set bs" "b \<noteq> 0" "is_free (headers k b)"
    "sz \<le> block_size (headers k b)"
proof -
  obtain q where "segment (hview k) 0 (first_block h) bs q 0"
    using blocks_okD(1) [OF ok] by (auto simp: linked_def)
  note f = find_from_segment [OF this, of sz]
  let ?P = "\<lambda>b. is_free (headers k b) \<and> sz \<le> block_size (headers k b)"
  show ?thesis
  proof (cases "find ?P bs")
    case None
    have "find_free_block sz k h = Some 0" by (simp add: find_free_block_def f None)
    then show ?thesis using that(1) None by (auto simp: find_None_iff not_le)
  next
    case (Some b)
    then show ?thesis
      using that(2) [of b] f find_Some_iff' [OF Some] blocks_okD(3) [OF ok] by (auto simp: find_free_block_def)
  qed
qed

lemma last_from_segment:
  assumes "segment (hview k) p c bs q 0" "bs \<noteq> []"
  shows "last_from k c = Some (last bs)"
  using assms
proof (induction bs arbitrary: p c)
  case (Cons b bs)
  then have c: "c = b" "b \<noteq> 0" "segment (hview k) b (next_block (headers k b)) bs q 0"
    by (simp_all add: hview_fields)
  show ?case
  proof (cases bs)
    case Nil
    have "next_block (headers k b) = 0" using c(3) Nil by (auto simp only: segment.simps)
    then have "last_from k b = Some b" using c(2) by (simp add: last_from.simps [of k b])
    then show ?thesis using c(1) Nil by simp
  next
    case (Cons d ds)
    then show ?thesis
      using c Cons.IH [OF c(3)] segment_hd [OF c(3)] by (simp add: last_from.simps [of k b])
  qed
qed simp

text \<open>A walk that stays away from one header does not see it change.\<close>

lemma last_from_other:
  assumes "segment (hview k) p c bs q 0" "bs \<noteq> []" "\<And>b. b \<in> set bs \<Longrightarrow> headers k' b = headers k b"
  shows "last_from k' c = Some (last bs)"
proof -
  have "segment (hview k') p c bs q 0"
    by (rule segment_start_cong [OF assms(1)]) (simp add: hview_def assms(3))
  then show ?thesis using assms(2) by (rule last_from_segment)
qed

subsection \<open>Mapping pages\<close>

lemma mod_frames: "unat (i * FRAME_SIZE) = unat i * 4096" if "unat i * 4096 < 18446744073709551616"
  using that by (simp add: FRAME_SIZE_def KB_def unat_word_ariths)

lemma map_pages_loop_frame:
  assumes "map_pages_loop st n i k = (ok, k')" and "unat st + unat n * 4096 < 18446744073709551616"
  shows "kvirtual k' = kvirtual k
    \<and> (\<forall>a. unat a < unat st \<or> unat st + unat n * 4096 \<le> unat a \<longrightarrow> headers k' a = headers k a)"
  using assms
proof (induction "unat n - unat i" arbitrary: i k rule: less_induct)
  case less
  obtain pa p where p: "physical_alloc (kmachine k) (kphysical k) = (pa, p)"
    by (cases "physical_alloc (kmachine k) (kphysical k)")
  let ?k = "k\<lparr>kphysical := p\<rparr>" and ?va = "st + i * FRAME_SIZE"
  let ?rm = "map_current ?va pa 0x03 (kmachine ?k)"
  show ?case
  proof (cases "i < n \<and> pa \<noteq> 0 \<and> fst ?rm = 0")
    case False
    then show ?thesis
      using less(2) p by (auto simp: map_pages_loop.simps [of st n i k] Let_def split: if_splits prod.splits)
  next
    case True
    let ?k1 = "clear_page ?va (?k\<lparr>kmachine := snd ?rm\<rparr>)"
    have r: "map_pages_loop st n (i + 1) ?k1 = (ok, k')"
      using less(2) p True by (simp add: map_pages_loop.simps [of st n i k] Let_def)
    have IH: "kvirtual k' = kvirtual ?k1
      \<and> (\<forall>a. unat a < unat st \<or> unat st + unat n * 4096 \<le> unat a \<longrightarrow> headers k' a = headers ?k1 a)"
      by (rule less(1) [OF unat_count_up r less(3)]) (use True in simp)
    have i: "unat i + 1 \<le> unat n" using True by (simp add: wordnat)
    then have "(unat i + 1) * 4096 \<le> unat n * 4096" by (rule mult_right_mono) simp
    then have i4: "unat st + unat i * 4096 + 4096 \<le> unat st + unat n * 4096" by simp
    have "unat i * 4096 < 18446744073709551616" using i4 less(3) by linarith
    then have o1: "unat (i * FRAME_SIZE) = unat i * 4096" by (rule mod_frames)
    have "unat st + unat (i * FRAME_SIZE) < 18446744073709551616" unfolding o1 using i4 less(3) by linarith
    then have va: "unat ?va = unat st + unat i * 4096" "unat ?va + 4096 \<le> unat st + unat n * 4096"
      using i4 unfolding unat_add_nowrap [OF \<open>unat st + unat (i * FRAME_SIZE) < 18446744073709551616\<close>] o1
      by simp_all
    have "headers ?k1 a = headers k a" if "unat a < unat st \<or> unat st + unat n * 4096 \<le> unat a" for a
    proof -
      have o: "unat a < unat ?va \<or> unat ?va + 4096 \<le> unat a" using that va by linarith
      have "\<not> a - ?va < FRAME_SIZE"
      proof
        assume "a - ?va < FRAME_SIZE"
        then have "unat (a - ?va) < 4096" by (simp add: wordnat FRAME_SIZE_def KB_def)
        moreover have "unat (?va + (a - ?va)) = unat ?va + unat (a - ?va)"
          by (rule unat_add_nowrap) (use calculation va(2) less(3) in linarith)
        ultimately show False using o by simp
      qed
      then show ?thesis by (simp add: clear_page_def)
    qed
    then show ?thesis using IH by (simp add: clear_page_def)
  qed
qed

end
