(* ===== verification/Allocator.thy ===== *)
theory Allocator
  imports Placement
begin

text \<open>
  The interface of a heap, as its clients use it: \<open>rep s L\<close> says that in state \<open>s\<close> exactly the
  blocks of \<open>L\<close> (pointer and capacity) are in use. The kernel heap and the user heap both
  provide it; the client's theorem about sequences of requests is proved here once.
\<close>

datatype heap_request = Alloc u64 | Release addr

text \<open>
  A client run: \<open>h\<close> lists the pointers the client holds with the sizes it asked for; it
  releases only what it holds. \<open>None\<close> is a request that did not return.
\<close>

fun client ::
  "(u64 \<Rightarrow> 's \<Rightarrow> (addr \<times> 's) option) \<Rightarrow> (addr \<Rightarrow> 's \<Rightarrow> 's) \<Rightarrow>
   heap_request list \<Rightarrow> 's \<Rightarrow> (addr \<times> u64) list \<Rightarrow> ('s \<times> (addr \<times> u64) list) option"
where
  "client al re [] s h = Some (s, h)"
| "client al re (Alloc n # rs) s h =
     (case al n s of None \<Rightarrow> None
      | Some (p, s) \<Rightarrow> client al re rs s (if p = 0 then h else (p, n) # h))"
| "client al re (Release p # rs) s h =
     (if p \<in> fst ` set h then client al re rs (re p s) (filter (\<lambda>q. fst q \<noteq> p) h)
      else client al re rs s h)"

definition held_bytes :: "addr \<times> u64 \<Rightarrow> nat set" where
  "held_bytes q = bytes_of (fst q) (unat (snd q))"

locale block_allocator =
  fixes rep :: "'s \<Rightarrow> (addr \<times> nat) set \<Rightarrow> bool"
    and fits :: "u64 \<Rightarrow> bool"
    and al :: "u64 \<Rightarrow> 's \<Rightarrow> (addr \<times> 's) option"
    and re :: "addr \<Rightarrow> 's \<Rightarrow> 's"
  assumes nonnull: "rep s L \<Longrightarrow> (p, c) \<in> L \<Longrightarrow> p \<noteq> 0"
    and apart: "rep s L \<Longrightarrow> (p, c) \<in> L \<Longrightarrow> (q, d) \<in> L \<Longrightarrow> p \<noteq> q \<Longrightarrow> bytes_of p c \<inter> bytes_of q d = {}"
    and one_size: "rep s L \<Longrightarrow> (p, c) \<in> L \<Longrightarrow> (p, d) \<in> L \<Longrightarrow> c = d"
    and al_rep: "rep s L \<Longrightarrow> fits n \<Longrightarrow> \<exists>p s'. al n s = Some (p, s')
      \<and> (if p = 0 then rep s' L else \<exists>c. unat n \<le> c \<and> p \<notin> fst ` L \<and> rep s' (insert (p, c) L))"
    and re_rep: "rep s L \<Longrightarrow> (p, c) \<in> L \<Longrightarrow> rep (re p s) (L - {(p, c)})"
begin

text \<open>What the client holds is in use, under distinct pointers.\<close>

definition holds :: "(addr \<times> nat) set \<Rightarrow> (addr \<times> u64) list \<Rightarrow> bool" where
  "holds L h \<longleftrightarrow> distinct (map fst h) \<and> (\<forall>q \<in> set h. \<exists>c. (fst q, c) \<in> L \<and> unat (snd q) \<le> c)"

lemma holds_apart:
  assumes "rep s L" "holds L h"
  shows "sorted_wrt (\<lambda>q r. held_bytes q \<inter> held_bytes r = {}) h"
    "\<forall>q \<in> set h. fst q \<noteq> 0"
proof -
  have *: "held_bytes q \<inter> held_bytes r = {}" if qr: "q \<in> set h" "r \<in> set h" "fst q \<noteq> fst r" for q r
  proof -
    obtain c d where c: "(fst q, c) \<in> L" "unat (snd q) \<le> c" and d: "(fst r, d) \<in> L" "unat (snd r) \<le> d"
      using assms(2) qr(1,2) unfolding holds_def by blast
    then have "bytes_of (fst q) c \<inter> bytes_of (fst r) d = {}" using apart [OF assms(1)] qr(3) by blast
    then show ?thesis using c(2) d(2) by (auto simp: held_bytes_def bytes_of_def disjoint_iff)
  qed
  have "distinct (map fst h)" using assms(2) by (simp add: holds_def)
  then show "sorted_wrt (\<lambda>q r. held_bytes q \<inter> held_bytes r = {}) h"
    using * by (induction h) (auto simp: image_iff)
  show "\<forall>q \<in> set h. fst q \<noteq> 0" using assms nonnull unfolding holds_def by blast
qed

lemma holds_add:
  "holds L h \<Longrightarrow> p \<notin> fst ` L \<Longrightarrow> unat n \<le> c \<Longrightarrow> holds (insert (p, c) L) ((p, n) # h)"
  unfolding holds_def by (fastforce simp: image_iff)

lemma holds_drop: "holds L h \<Longrightarrow> holds (L - {(p, c)}) (filter (\<lambda>q. fst q \<noteq> p) h)"
  unfolding holds_def by (fastforce simp: distinct_map_filter)

lemma holds_held: "holds L h \<Longrightarrow> p \<in> fst ` set h \<Longrightarrow> \<exists>c. (p, c) \<in> L"
  unfolding holds_def by auto

lemma client_run:
  assumes "rep s L" "holds L h" "\<forall>n. Alloc n \<in> set rs \<longrightarrow> fits n"
  shows "\<exists>s' h' L'. client al re rs s h = Some (s', h') \<and> rep s' L' \<and> holds L' h'"
  using assms
proof (induction rs arbitrary: s h L)
  case (Cons r rs)
  show ?case
  proof (cases r)
    case (Alloc n)
    obtain p s1 where p: "al n s = Some (p, s1)"
      "if p = 0 then rep s1 L else \<exists>c. unat n \<le> c \<and> p \<notin> fst ` L \<and> rep s1 (insert (p, c) L)"
      using al_rep [OF Cons.prems(1), of n] Cons.prems(3) Alloc by auto
    show ?thesis
    proof (cases "p = 0")
      case True
      then show ?thesis using Cons.IH [of s1 L h] Cons.prems p Alloc by auto
    next
      case False
      then obtain c where c: "unat n \<le> c" "p \<notin> fst ` L" "rep s1 (insert (p, c) L)" using p(2) by auto
      have "holds (insert (p, c) L) ((p, n) # h)" by (rule holds_add [OF Cons.prems(2) c(2,1)])
      then show ?thesis using Cons.IH [OF c(3)] Cons.prems(3) p(1) False Alloc by auto
    qed
  next
    case (Release p)
    show ?thesis
    proof (cases "p \<in> fst ` set h")
      case True
      then obtain c where c: "(p, c) \<in> L" using holds_held [OF Cons.prems(2)] by blast
      have "holds (L - {(p, c)}) (filter (\<lambda>q. fst q \<noteq> p) h)" by (rule holds_drop [OF Cons.prems(2)])
      then show ?thesis
        using Cons.IH [OF re_rep [OF Cons.prems(1) c]] Cons.prems(3) True Release by auto
    next
      case False
      then show ?thesis using Cons.IH [OF Cons.prems(1,2)] Cons.prems(3) Release by auto
    qed
  qed
qed auto

text \<open>From a heap with nothing in use, every run returns and what is held never overlaps.\<close>

lemma client_apart:
  assumes "rep s L" "\<forall>n. Alloc n \<in> set rs \<longrightarrow> fits n"
  shows "\<exists>s' h'. client al re rs s [] = Some (s', h') \<and> (\<exists>L'. rep s' L')
    \<and> sorted_wrt (\<lambda>q r. held_bytes q \<inter> held_bytes r = {}) h' \<and> (\<forall>q \<in> set h'. fst q \<noteq> 0)"
proof -
  have "holds L []" by (simp add: holds_def)
  then show ?thesis using client_run [OF assms(1) _ assms(2)] holds_apart by meson
qed

text \<open>What is held stays inside the memory the allocator manages.\<close>

lemma client_inside:
  assumes "rep s L" "\<forall>n. Alloc n \<in> set rs \<longrightarrow> fits n" "client al re rs s [] = Some (s', h')"
    and "\<And>s L p c. rep s L \<Longrightarrow> (p, c) \<in> L \<Longrightarrow> bytes_of p c \<subseteq> S"
  shows "\<forall>q \<in> set h'. held_bytes q \<subseteq> S"
proof
  fix q assume q: "q \<in> set h'"
  have "holds L []" by (simp add: holds_def)
  then obtain L' where L': "rep s' L'" "holds L' h'"
    using client_run [OF assms(1) _ assms(2)] assms(3) by fastforce
  then obtain c where "(fst q, c) \<in> L'" "unat (snd q) \<le> c" using q by (auto simp: holds_def)
  then show "held_bytes q \<subseteq> S" using assms(4) [OF L'(1)] by (force simp: held_bytes_def bytes_of_def)
qed

end

end
