(* ===== verification/Block_Heap.thy ===== *)
theory Block_Heap
  imports Blocks Allocator
begin

text \<open>
  A heap of linked blocks as an allocator: from what the operations of such a heap do to its list of
  blocks follows the interface \<open>block_allocator\<close>. \<open>ok s bs\<close> is the heap's invariant,
  \<open>v s\<close> its headers, \<open>H\<close> the size of a header and \<open>data b\<close> the address behind it.
\<close>

locale block_heap =
  fixes ok :: "'s \<Rightarrow> addr list \<Rightarrow> bool"
    and v :: "'s \<Rightarrow> blocks"
    and H :: nat
    and data :: "addr \<Rightarrow> addr"
    and fits :: "u64 \<Rightarrow> bool"
    and al :: "u64 \<Rightarrow> 's \<Rightarrow> (addr \<times> 's) option"
    and re :: "addr \<Rightarrow> 's \<Rightarrow> 's"
  assumes header: "0 < H"
    and blocks: "ok s bs \<Longrightarrow> \<exists>f. blocks_ok H (v s) f bs"
    and data_address: "unat b + H < 18446744073709551616 \<Longrightarrow> unat (data b) = unat b + H"
    and data_inject: "data b = data d \<longleftrightarrow> b = d"
    and al_ok: "ok s bs \<Longrightarrow> fits n \<Longrightarrow> \<exists>p s' cs. al n s = Some (p, s') \<and> ok s' cs
      \<and> (p = 0 \<and> live (v s') cs = live (v s) bs
         \<or> (\<exists>b c. p = data b \<and> unat n \<le> c \<and> b \<notin> fst ` live (v s) bs
              \<and> live (v s') cs = insert (b, c) (live (v s) bs)))"
    and re_ok: "ok s bs \<Longrightarrow> (b, c) \<in> live (v s) bs \<Longrightarrow>
      \<exists>cs. ok (re (data b) s) cs \<and> live (v (re (data b) s)) cs = live (v s) bs - {(b, c)}"
begin

definition in_use :: "'s \<Rightarrow> addr list \<Rightarrow> (addr \<times> nat) set" where
  "in_use s bs = (\<lambda>(b, c). (data b, c)) ` live (v s) bs"

definition rep :: "'s \<Rightarrow> (addr \<times> nat) set \<Rightarrow> bool" where
  "rep s L \<longleftrightarrow> (\<exists>bs. ok s bs \<and> L = in_use s bs)"

lemma repI: "ok s bs \<Longrightarrow> rep s (in_use s bs)"
  by (auto simp: rep_def)

lemma live_data:
  assumes "ok s bs" and b: "(b, c) \<in> live (v s) bs"
  shows "bytes_of (data b) c \<subseteq> foot H (v s) b" "data b \<noteq> 0" "b \<in> set bs" "c = bsize (v s b)"
proof -
  obtain f where f: "blocks_ok H (v s) f bs" using blocks [OF assms(1)] by blast
  show bb: "b \<in> set bs" "c = bsize (v s b)" using b by (auto simp: live_def)
  have "unat b + H + bsize (v s b) < 18446744073709551616" using blocks_okD(4) [OF f bb(1)] .
  then have u: "unat (data b) = unat b + H" by (intro data_address) simp
  then show "bytes_of (data b) c \<subseteq> foot H (v s) b" using bb(2) by (auto simp: bytes_of_def foot_def)
  show "data b \<noteq> 0" using u header by auto
qed

lemma data_apart:
  assumes "ok s bs" and "(b, c) \<in> live (v s) bs" "(d, e) \<in> live (v s) bs" "b \<noteq> d"
  shows "bytes_of (data b) c \<inter> bytes_of (data d) e = {}"
proof -
  obtain f where f: "blocks_ok H (v s) f bs" using blocks [OF assms(1)] by blast
  note B = live_data [OF assms(1,2)] and D = live_data [OF assms(1,3)]
  have "foot H (v s) b \<inter> foot H (v s) d = {}" by (rule blocks_okD(5) [OF f B(3) D(3) assms(4)])
  then show ?thesis using B(1) D(1) by blast
qed

lemma image_minus:
  "(\<lambda>(b, c). (data b, c)) ` (A - {(b, c)}) = (\<lambda>(b, c). (data b, c)) ` A - {(data b, c)}"
  using data_inject by (force simp: image_iff)

end

sublocale block_heap \<subseteq> block_allocator rep fits al re
proof
  fix s L p c q d n
  assume "rep s L"
  then obtain bs where ok: "ok s bs" and L: "L = (\<lambda>(b, c). (data b, c)) ` live (v s) bs"
    by (auto simp: rep_def in_use_def)
  note D = live_data [OF ok]
  show "p \<noteq> 0" if "(p, c) \<in> L" using that D(2) by (auto simp: L)
  show "bytes_of p c \<inter> bytes_of q d = {}" if "(p, c) \<in> L" "(q, d) \<in> L" "p \<noteq> q"
  proof -
    obtain b d' where b: "p = data b" "(b, c) \<in> live (v s) bs" "q = data d'" "(d', d) \<in> live (v s) bs"
      using \<open>(p, c) \<in> L\<close> \<open>(q, d) \<in> L\<close> by (auto simp: L)
    then show ?thesis using data_apart [OF ok b(2,4)] \<open>p \<noteq> q\<close> by auto
  qed
  show "c = d" if "(p, c) \<in> L" "(p, d) \<in> L"
    using that data_inject by (auto simp: L dest!: D(4))
  show "rep (re p s) (L - {(p, c)})" if "(p, c) \<in> L"
  proof -
    obtain b where b: "p = data b" "(b, c) \<in> live (v s) bs" using \<open>(p, c) \<in> L\<close> by (auto simp: L)
    then show ?thesis
      using re_ok [OF ok b(2)] unfolding rep_def in_use_def L b(1) image_minus [symmetric] by metis
  qed
  show "\<exists>p s'. al n s = Some (p, s')
      \<and> (if p = 0 then rep s' L else \<exists>c. unat n \<le> c \<and> p \<notin> fst ` L \<and> rep s' (insert (p, c) L))"
    if n: "fits n"
  proof -
    obtain p s' cs where a: "al n s = Some (p, s')" "ok s' cs"
      "p = 0 \<and> live (v s') cs = live (v s) bs
         \<or> (\<exists>b c. p = data b \<and> unat n \<le> c \<and> b \<notin> fst ` live (v s) bs
              \<and> live (v s') cs = insert (b, c) (live (v s) bs))"
      using al_ok [OF ok n] by blast
    note R = repI [OF a(2), unfolded in_use_def]
    from a(3) show ?thesis
    proof
      assume "p = 0 \<and> live (v s') cs = live (v s) bs"
      then show ?thesis using a(1) R by (simp add: L)
    next
      assume "\<exists>b c. p = data b \<and> unat n \<le> c \<and> b \<notin> fst ` live (v s) bs
        \<and> live (v s') cs = insert (b, c) (live (v s) bs)"
      then obtain b c where b: "p = data b" "unat n \<le> c" "b \<notin> fst ` live (v s) bs"
        "live (v s') cs = insert (b, c) (live (v s) bs)" by blast
      have "p \<noteq> 0" using live_data(2) [OF a(2), of b c] b(1,4) by simp
      moreover have "p \<notin> fst ` L" using b(1,3) data_inject by (force simp: L)
      moreover have "rep s' (insert (p, c) L)" using R b(1,4) by (simp add: L)
      ultimately show ?thesis using a(1) b(2) by auto
    qed
  qed
qed

end
