(* ===== verification/Heap_Correct.thy ===== *)
theory Heap_Correct
  imports Heap_Blocks Block_Heap
begin

text \<open>
  Correctness of the kernel heap: \<open>heap_ok\<close> is its invariant, and every operation preserves
  it; the blocks in use change as the operation says and no other way.
\<close>

subsection \<open>The invariant\<close>

definition marked :: "heap_block \<Rightarrow> bool" where
  "marked hb \<longleftrightarrow> magic hb = (if is_free hb then MAGIC_FREE else MAGIC_USED)"

text \<open>The blocks' magic numbers are right and no block lies in address space that is free.\<close>

definition heap_ok :: "kernel \<Rightarrow> heap \<Rightarrow> addr list \<Rightarrow> bool" where
  "heap_ok k h bs \<longleftrightarrow> blocks_ok 40 (hview k) (first_block h) bs \<and> bs \<noteq> []
     \<and> (\<forall>b \<in> set bs. marked (headers k b))
     \<and> virt_ok (kvirtual k) \<and> space 40 (hview k) bs \<inter> free_bytes (kvirtual k) = {}"

lemma heap_okD:
  assumes "heap_ok k h bs"
  shows "blocks_ok 40 (hview k) (first_block h) bs" "bs \<noteq> []"
    "b \<in> set bs \<Longrightarrow> marked (headers k b)" "virt_ok (kvirtual k)"
    "space 40 (hview k) bs \<inter> free_bytes (kvirtual k) = {}"
  using assms by (auto simp: heap_ok_def)

lemma hview_rest [simp]:
  "hview (k\<lparr>kvirtual := v\<rparr>) = hview k" "hview (k\<lparr>kmachine := m\<rparr>) = hview k"
  "hview (k\<lparr>kphysical := p\<rparr>) = hview k"
  by (simp_all add: hview_def fun_eq_iff)

lemma marked_mark: "mark hb = mark hb' \<Longrightarrow> marked hb = marked hb'"
  by (simp add: mark_def marked_def)

lemma marked_new [simp]: "marked (new_heap_block sz f)"
  by (simp add: marked_def new_heap_block_def)

lemma marked_is_valid: "marked hb \<Longrightarrow> is_valid hb"
  by (auto simp: marked_def is_valid_def split: if_splits)

lemma from_block_data [simp]: "from_data (block_data b) = b" "block_data (from_data b) = b"
  by (simp_all add: from_data_def block_data_def)

subsection \<open>Taking and giving back a block\<close>

lemma live_set_used:
  assumes "b \<in> set bs" "is_free (headers k b)"
  shows "live (hview (set_used b k)) bs = insert (b, bsize (hview k b)) (live (hview k) bs)"
  using assms unfolding live_def hview_set by (auto simp: hview_fields)

lemma live_set_freed:
  assumes "b \<in> set bs"
  shows "live (hview (set_freed b k)) bs = live (hview k) bs - {(b, bsize (hview k b))}"
  using assms unfolding live_def hview_set by (auto simp: hview_fields)

lemma heap_ok_set_used:
  assumes "heap_ok k h bs" "b \<in> set bs" "first_block h' = first_block h"
  shows "heap_ok (set_used b k) h' bs"
proof -
  note ok = heap_okD [OF assms(1)]
  have "blocks_ok 40 (hview (set_used b k)) (first_block h) bs"
    "space 40 (hview (set_used b k)) bs = space 40 (hview k) bs"
    by (rule blocks_ok_update [OF ok(1)]; simp add: hview_set)+
  moreover have "marked (headers (set_used b k) c)" if "c \<in> set bs" for c
    using ok(3) [OF that] by (simp add: set_used_def marked_def)
  ultimately show ?thesis using ok assms(3) by (simp add: heap_ok_def)
qed

lemma heap_ok_set_freed:
  assumes "heap_ok k h bs" "b \<in> set bs" "first_block h' = first_block h"
  shows "heap_ok (set_freed b k) h' bs"
proof -
  note ok = heap_okD [OF assms(1)]
  have "blocks_ok 40 (hview (set_freed b k)) (first_block h) bs"
    "space 40 (hview (set_freed b k)) bs = space 40 (hview k) bs"
    by (rule blocks_ok_update [OF ok(1)]; simp add: hview_set)+
  moreover have "marked (headers (set_freed b k) c)" if "c \<in> set bs" for c
    using ok(3) [OF that] by (simp add: set_freed_def marked_def)
  ultimately show ?thesis using ok assms(3) by (simp add: heap_ok_def)
qed

lemma split_block_ok:
  assumes ok: "heap_ok k h bs" and b: "b \<in> set bs" and s: "sz \<le> block_size (headers k b)"
    and w: "unat sz + 56 < 18446744073709551616"
  obtains k' h' cs c where "split_block b sz k h = (k', h')" "heap_ok k' h' cs" "b \<in> set cs"
    "is_free (headers k' b) = is_free (headers k b)" "unat sz \<le> c" "bsize (hview k' b) = c"
    "kmachine k' = kmachine k"
    "live (hview k') cs = (if is_free (headers k b) then live (hview k) bs
       else insert (b, c) (live (hview k) bs - {(b, bsize (hview k b))}))"
proof -
  note okD = heap_okD [OF ok]
  obtain xs ys where bs: "bs = xs @ b # ys" using b by (auto dest: split_list)
  have ok1: "blocks_ok 40 (hview k) (first_block h) (xs @ b # ys)" using okD(1) bs by simp
  show ?thesis
  proof (rule split_block_cases [OF ok1 s w, where h = h])
    assume e: "split_block b sz k h = (k, h)"
    have "(b, bsize (hview k b)) \<in> live (hview k) bs" if "\<not> is_free (headers k b)"
      using that b by (simp add: live_def hview_fields)
    then have "live (hview k) bs = (if is_free (headers k b) then live (hview k) bs
       else insert (b, bsize (hview k b)) (live (hview k) bs - {(b, bsize (hview k b))}))"
      by auto
    then show ?thesis using that [OF e ok b refl _ refl refl] s by (simp add: hview_fields wordnat)
  next
    fix n k'
    let ?r = "unat (block_size (headers k b)) - unat sz - 40"
    assume e: "split_block b sz k h = (k', h\<lparr>total_free := total_free h + 40\<rparr>)"
      and n: "unat n = unat b + 40 + unat sz"
      and r: "unat (block_size (headers k b)) = unat sz + 40 + ?r"
      and v: "hview k' = insert_after b n (unat sz) ?r (hview k)"
      and rest: "kmachine k' = kmachine k" "kvirtual k' = kvirtual k"
      and m: "mark (headers k' n) = (True, MAGIC_FREE)"
      and mc: "\<And>c. c \<noteq> n \<Longrightarrow> mark (headers k' c) = mark (headers k c)"
    have r': "bsize (hview k b) = unat sz + 40 + ?r" using r by (simp add: hview_fields)
    note I = blocks_ok_insert_after [OF ok1 _ r' n, folded v]
    have nb: "n \<notin> set (xs @ b # ys)" "n \<noteq> 0" using I(1,2) by simp_all
    note F = insert_after_facts [OF blocks_okD(1) [OF ok1] nb, where sz = "unat sz" and r = ?r, folded v]
    have mk: "marked (headers k' c)" if "c \<in> set (xs @ b # n # ys)" for c
    proof (cases "c = n")
      case True
      then show ?thesis using m by (simp add: mark_def marked_def)
    next
      case False
      then show ?thesis using that okD(3) [of c] bs marked_mark [OF mc [OF False]] by auto
    qed
    have "heap_ok k' (h\<lparr>total_free := total_free h + 40\<rparr>) (xs @ b # n # ys)"
      using I(3,4) mk okD(4,5) bs rest by (simp add: heap_ok_def)
    moreover have "is_free (headers k' b) = is_free (headers k b)"
      using F(2) by (simp add: hview_fields)
    moreover have "live (hview k') (xs @ b # n # ys) = (if is_free (headers k b) then live (hview k) bs
       else insert (b, unat sz) (live (hview k) bs - {(b, bsize (hview k b))}))"
      using live_insert_after [OF blocks_okD(1) [OF ok1] nb, where sz = "unat sz" and r = ?r, folded v] bs
      by (simp add: hview_fields)
    ultimately show ?thesis using that [OF e, of "xs @ b # n # ys" "unat sz"] F(1) rest by simp
  qed
qed

lemma take_block_ok:
  assumes ok: "heap_ok k h bs" and b: "b \<in> set bs" "is_free (headers k b)"
    and s: "sz \<le> block_size (headers k b)" "unat sz + 56 < 18446744073709551616"
  obtains k' h' cs c where "take_block b sz k h = (block_data b, k', h')" "heap_ok k' h' cs"
    "unat sz \<le> c" "live (hview k') cs = insert (b, c) (live (hview k) bs)" "b \<noteq> 0"
    "b \<notin> fst ` live (hview k) bs" "kmachine k' = kmachine k"
proof -
  have b0: "b \<noteq> 0" using blocks_okD(3) [OF heap_okD(1) [OF ok]] b(1) by auto
  obtain k1 h1 cs c where 1: "split_block b sz k h = (k1, h1)" "heap_ok k1 h1 cs" "b \<in> set cs"
    "is_free (headers k1 b) = is_free (headers k b)" "unat sz \<le> c" "bsize (hview k1 b) = c"
    "kmachine k1 = kmachine k"
    "live (hview k1) cs = (if is_free (headers k b) then live (hview k) bs
       else insert (b, c) (live (hview k) bs - {(b, bsize (hview k b))}))"
    by (rule split_block_ok [OF ok b(1) s])
  let ?h = "h1\<lparr>total_allocated := total_allocated h1 + sz, total_free := total_free h1 - sz,
    num_allocations := num_allocations h1 + 1\<rparr>"
  have t: "take_block b sz k h = (block_data b, set_used b k1, ?h)"
    using b0 1(1) by (simp add: take_block_def Let_def)
  have "heap_ok (set_used b k1) ?h cs" by (rule heap_ok_set_used [OF 1(2,3)]) simp
  moreover have "live (hview (set_used b k1)) cs = insert (b, c) (live (hview k) bs)"
    using live_set_used [of b cs k1] 1 b(2) by simp
  moreover have "b \<notin> fst ` live (hview k) bs" using b(2) by (auto simp: live_def hview_fields)
  ultimately show ?thesis using that [OF t _ 1(5) _ b0] 1(7) by simp
qed

lemma heap_free_ok:
  assumes ok: "heap_ok k h bs" and b: "(b, n) \<in> live (hview k) bs"
  obtains k' h' cs where "heap_free (block_data b) k h = (k', h')" "heap_ok k' h' cs"
    "live (hview k') cs = live (hview k) bs - {(b, n)}" "kmachine k' = kmachine k"
proof -
  note okD = heap_okD [OF ok]
  have bb: "b \<in> set bs" "\<not> is_free (headers k b)" "n = bsize (hview k b)"
    using b by (auto simp: live_def hview_fields)
  have "unat b + 40 + bsize (hview k b) < 18446744073709551616" "b \<noteq> 0"
    using blocks_okD(3,4) [OF okD(1)] bb(1) by auto
  then have "unat (block_data b) = unat b + 40" by (simp add: unat_block_data)
  then have p0: "block_data b \<noteq> 0" by auto
  let ?h = "h\<lparr>total_allocated := total_allocated h - block_size (headers (set_freed b k) b),
    total_free := total_free h + block_size (headers (set_freed b k) b), num_frees := num_frees h + 1\<rparr>"
  have e: "heap_free (block_data b) k h = coalesce_block b (set_freed b k) ?h"
    using p0 marked_is_valid [OF okD(3) [OF bb(1)]] bb(2) by (simp add: heap_free_def Let_def)
  have ok1: "heap_ok (set_freed b k) ?h bs" by (rule heap_ok_set_freed [OF ok bb(1)]) simp
  have f1: "is_free (headers (set_freed b k) b)" by (simp add: set_freed_def)
  obtain k' h' where r: "coalesce_block b (set_freed b k) ?h = (k', h')"
    by (cases "coalesce_block b (set_freed b k) ?h")
  obtain cs where c: "blocks_ok 40 (hview k') (first_block ?h) cs" "set cs \<subseteq> set bs" "cs \<noteq> []"
    "space 40 (hview k') cs = space 40 (hview (set_freed b k)) bs"
    "live (hview k') cs = live (hview (set_freed b k)) bs"
    "\<forall>x. mark (headers k' x) = mark (headers (set_freed b k) x)"
    "kmachine k' = kmachine (set_freed b k)" "kvirtual k' = kvirtual (set_freed b k)"
    "first_block h' = first_block ?h"
    by (rule coalesce_block_ok [OF heap_okD(1) [OF ok1] bb(1) f1 r])
  have "marked (headers k' x)" if "x \<in> set cs" for x
    using heap_okD(3) [OF ok1, of x] that c(2) marked_mark [OF spec [OF c(6)]] by auto
  then have "heap_ok k' h' cs" using c heap_okD(4,5) [OF ok1] by (simp add: heap_ok_def)
  then show ?thesis
    using that [of k' h' cs] e r c(5,7) live_set_freed [OF bb(1), of k] bb(3) by simp
qed

subsection \<open>Expanding the heap\<close>

lemma pages_of: "unat (HEAP_ALIGN_UP n div FRAME_SIZE) * 4096 = unat (ALIGN_UP n)"
proof -
  have "4096 dvd unat (ALIGN_UP n)" using ALIGN_UP_aligned [of n] by (simp add: IS_ALIGNED_iff_dvd)
  then show ?thesis by (simp add: HEAP_ALIGN_UP_def unat_div FRAME_SIZE_def KB_def)
qed

lemma map_pages_frame:
  assumes "map_pages st n k = (ok, k')" and "unat st + unat (ALIGN_UP n) < 18446744073709551616"
  shows "kvirtual k' = kvirtual k"
    "unat a \<notin> bytes_of st (unat (ALIGN_UP n)) \<Longrightarrow> headers k' a = headers k a"
  using map_pages_loop_frame [OF assms(1) [unfolded map_pages_def Let_def], unfolded pages_of, OF assms(2)]
  by (auto simp: bytes_of_def not_le)

text \<open>Headers that keep their values keep the invariant.\<close>

lemma same_headers:
  assumes ok: "blocks_ok 40 (hview k) f bs" and same: "\<And>b. b \<in> set bs \<Longrightarrow> headers k' b = headers k b"
  shows "blocks_ok 40 (hview k') f bs" "space 40 (hview k') bs = space 40 (hview k) bs"
    "live (hview k') bs = live (hview k) bs"
proof -
  have v: "hview k' b = hview k b" if "b \<in> set bs" for b using same [OF that] by (simp add: hview_def)
  show "blocks_ok 40 (hview k') f bs" "space 40 (hview k') bs = space 40 (hview k) bs"
    by (rule blocks_ok_update [OF ok]; simp add: v)+
  show "live (hview k') bs = live (hview k) bs" using v by (auto simp: live_def)
qed

lemma block_in_space: "b \<in> set bs \<Longrightarrow> 0 < H \<Longrightarrow> unat b \<in> space H v bs"
  by (auto simp: space_def foot_def intro!: bexI [of _ b])

lemma HEAP_ALIGN_UP_idem [simp]: "ALIGN_UP (HEAP_ALIGN_UP n) = HEAP_ALIGN_UP n"
  by (simp add: HEAP_ALIGN_UP_def ALIGN_UP_ident)

text \<open>Linking the block of a new region.\<close>

lemma expand_step_ok:
  assumes ok: "blocks_ok 40 (hview k) f bs" "bs \<noteq> []" and c: "c = last bs"
    and n: "n \<noteq> 0" and b: "unat n + 40 + unat r < 18446744073709551616"
    and d: "{unat n ..< unat n + 40 + unat r} \<inter> space 40 (hview k) bs = {}"
    and k': "k' = set_prev n c (set_next c n (put_header n (new_heap_block r True) k))"
  shows "blocks_ok 40 (hview k') f (bs @ [n])" "n \<notin> set bs"
    "space 40 (hview k') (bs @ [n]) = space 40 (hview k) bs \<union> {unat n ..< unat n + 40 + unat r}"
    "live (hview k') (bs @ [n]) = live (hview k) bs"
    "is_free (headers k' n)" "marked (headers k' n)"
    "\<And>x. x \<noteq> n \<Longrightarrow> mark (headers k' x) = mark (headers k x)"
proof -
  have bs: "bs = butlast bs @ [c]" using ok(2) c by simp
  have ok1: "blocks_ok 40 (hview k) f (butlast bs @ [c])" using ok(1) bs by simp
  have d1: "{unat n ..< unat n + 40 + unat r} \<inter> space 40 (hview k) (butlast bs @ [c]) = {}" using d bs by simp
  note L = blocks_ok_link_last [OF ok1 n _ b d1]
  have nb: "n \<notin> set (butlast bs @ [c])" using L(1) by simp
  then have nc: "n \<noteq> c" by auto
  have v: "hview k' = link_last c n (unat r) (hview k)"
    using nc unfolding k' hview_set hview_put link_last_def
    by (simp add: new_heap_block_def view_def fun_upd_twist)
  have e: "butlast bs @ [c, n] = bs @ [n]" using bs by (metis append_Cons append_Nil append_assoc)
  show "blocks_ok 40 (hview k') f (bs @ [n])" using L(2) e by (simp add: v)
  show "n \<notin> set bs" using nb bs by metis
  show "space 40 (hview k') (bs @ [n]) = space 40 (hview k) bs \<union> {unat n ..< unat n + 40 + unat r}"
    using L(3) e bs by (simp add: v)
  show "live (hview k') (bs @ [n]) = live (hview k) bs"
    using live_link_last [OF blocks_okD(1) [OF ok1] nb, of "unat r"] e bs by (simp add: v)
  show "is_free (headers k' n)" "marked (headers k' n)"
    using nc by (simp_all add: k' set_prev_def set_next_def new_heap_block_def marked_def)
  show "mark (headers k' x) = mark (headers k x)" if "x \<noteq> n" for x
    using that nc by (simp add: k')
qed

lemma expand_heap_ok:
  assumes ok: "heap_ok k h bs" and m: "40 \<le> unat n" "unat n \<le> 18446744073709547520"
  obtains r k' h' cs where "expand_heap n k h = Some (r, k', h')" "heap_ok k' h' cs"
    "live (hview k') cs = live (hview k) bs"
proof -
  note okD = heap_okD [OF ok]
  let ?e = "HEAP_ALIGN_UP n"
  have e40: "40 \<le> unat ?e" using ALIGN_UP_ge [OF m(2)] m(1) by (simp add: HEAP_ALIGN_UP_def wordnat)
  obtain a v where va: "virt_alloc ?e (kvirtual k) = (a, v)" by (cases "virt_alloc ?e (kvirtual k)")
  let ?k = "k\<lparr>kvirtual := v\<rparr>"
  show ?thesis
  proof (cases "a = 0")
    case True
    have "virt_ok v \<and> free_bytes v \<subseteq> free_bytes (kvirtual k)"
      by (rule virt_alloc_cases [OF okD(4) va]) (use okD(4) in auto)
    then have "heap_ok ?k h bs" using okD by (auto simp: heap_ok_def)
    moreover have "expand_heap n k h = Some (False, ?k, h)"
      using va True by (simp add: expand_heap_def Let_def)
    ultimately show ?thesis using that [of False ?k h bs] by simp
  next
    case a0: False
    let ?R = "bytes_of a (unat ?e)"
    have sp: "?R \<subseteq> free_bytes (kvirtual k)" "free_bytes v = free_bytes (kvirtual k) - ?R"
      "virt_ok v" "unat a + unat ?e < 18446744073709551616"
      by (rule virt_alloc_cases [OF okD(4) va]; use a0 in \<open>simp add: range_bytes_def in_space_def\<close>)+
    have apart: "?R \<inter> space 40 (hview k) bs = {}" using sp(1) okD(5) by auto
    obtain mp k1 where k1: "map_pages a ?e ?k = (mp, k1)" by (cases "map_pages a ?e ?k")
    have F: "kvirtual k1 = v" "\<And>x. unat x \<notin> ?R \<Longrightarrow> headers k1 x = headers k x"
      using map_pages_frame [OF k1] sp(4) by simp_all
    have same: "headers k1 b = headers k b" if "b \<in> set bs" for b
      using F(2) [of b] block_in_space [OF that, of 40 "hview k"] apart by auto
    have S: "blocks_ok 40 (hview k1) (first_block h) bs" "space 40 (hview k1) bs = space 40 (hview k) bs"
      "live (hview k1) bs = live (hview k) bs"
      using same_headers [OF okD(1), of k1] same by auto
    show ?thesis
    proof (cases mp)
      case False
      obtain m2 v2 where f: "virt_free a ?e (kmachine k1) (kvirtual k1) = (m2, v2)"
        by (cases "virt_free a ?e (kmachine k1) (kvirtual k1)")
      have "?R \<inter> free_bytes v = {}" using sp(2) by auto
      then have v2: "free_bytes v2 = free_bytes (kvirtual k)" "virt_ok v2"
        using virt_free_spec [OF sp(3), of a ?e "kmachine k1"] sp f F(1) by auto
      let ?k2 = "k1\<lparr>kmachine := m2, kvirtual := v2\<rparr>"
      have h2: "hview ?k2 = hview k1" by simp
      have "heap_ok ?k2 h bs"
        unfolding heap_ok_def h2 using S okD(2,3,5) v2 same by simp
      moreover have "expand_heap n k h = Some (False, ?k2, h)"
        using va a0 k1 False f by (simp add: expand_heap_def Let_def)
      ultimately show ?thesis using that [of False ?k2 h bs] S(3) by (simp add: h2)
    next
      case True
      let ?r = "?e - sizeof_heap_block"
      have r: "unat ?r = unat ?e - 40"
        using e40 by (simp add: sizeof_heap_block_def unat_sub_nowrap wordnat)
      have R: "{unat a ..< unat a + 40 + unat ?r} = ?R" using r e40 by (auto simp: bytes_of_def)
      let ?k2 = "put_header a (new_heap_block ?r True) k1"
      obtain q where q: "segment (hview k1) 0 (first_block h) bs q 0"
        using blocks_okD(1) [OF S(1)] by (auto simp: linked_def)
      have na: "a \<notin> set bs"
      proof
        assume "a \<in> set bs"
        then have "unat a \<in> space 40 (hview k) bs" by (rule block_in_space) simp
        moreover have "unat a \<in> ?R" using e40 by (simp add: bytes_of_def)
        ultimately show False using apart by blast
      qed
      have l: "last_from ?k2 (first_block h) = Some (last bs)"
        by (rule last_from_other [OF q okD(2)]) (use na in auto)
      let ?k3 = "set_prev a (last bs) (set_next (last bs) a ?k2)"
      let ?h3 = "h\<lparr>heap_size := heap_size h + ?e, total_free := total_free h + ?r\<rparr>"
      have b: "unat a + 40 + unat ?r < 18446744073709551616" using r e40 sp(4) by simp
      have d: "{unat a ..< unat a + 40 + unat ?r} \<inter> space 40 (hview k1) bs = {}"
        unfolding R S(2) by (rule apart)
      note E = expand_step_ok [OF S(1) okD(2) refl a0 b d refl]
      obtain k4 h4 where c: "coalesce_block a ?k3 ?h3 = (k4, h4)" by (cases "coalesce_block a ?k3 ?h3")
      obtain cs where C: "blocks_ok 40 (hview k4) (first_block h) cs" "set cs \<subseteq> set (bs @ [a])" "cs \<noteq> []"
        "space 40 (hview k4) cs = space 40 (hview ?k3) (bs @ [a])"
        "live (hview k4) cs = live (hview ?k3) (bs @ [a])"
        "\<forall>x. mark (headers k4 x) = mark (headers ?k3 x)"
        "kmachine k4 = kmachine ?k3" "kvirtual k4 = kvirtual ?k3" "first_block h4 = first_block ?h3"
        by (rule coalesce_block_ok [OF E(1) _ E(5) c]) simp
      have "marked (headers ?k3 x)" if "x \<in> set (bs @ [a])" for x
        using that E(6) marked_mark [OF E(7) [of x]] okD(3) [of x] same [of x] by (cases "x = a") auto
      then have mk: "marked (headers k4 x)" if "x \<in> set cs" for x
        using that C(2) marked_mark [OF spec [OF C(6)], of x] by blast
      have "space 40 (hview k4) cs \<inter> free_bytes v = {}"
        unfolding C(4) E(3) R S(2) using okD(5) sp(2) by auto
      then have "heap_ok k4 h4 cs"
        using C(1,3,8,9) mk sp(3) F(1) by (simp add: heap_ok_def)
      moreover have "expand_heap n k h = Some (True, k4, h4)"
        using va a0 k1 True l c by (simp add: expand_heap_def Let_def)
      ultimately show ?thesis using that [of True k4 h4 cs] C(5) E(4) S(3) by simp
    qed
  qed
qed

subsection \<open>Allocation\<close>

text \<open>Requests that can be rounded up to pages, with a header, without wrapping.\<close>

definition heap_fits :: "u64 \<Rightarrow> bool" where
  "heap_fits n \<longleftrightarrow> unat n \<le> 18446744073709543424"

lemma heap_fits_rounded:
  assumes "heap_fits n"
  shows "unat n \<le> unat (HEAP_ALIGN_UP n)" "unat (HEAP_ALIGN_UP n) + 56 < 18446744073709551616"
    "unat (HEAP_ALIGN_UP n + sizeof_heap_block) = unat (HEAP_ALIGN_UP n) + 40"
    "unat (HEAP_ALIGN_UP n + sizeof_heap_block) \<le> 18446744073709547520"
proof -
  have n: "unat n \<le> 18446744073709543424" using assms by (simp add: heap_fits_def)
  then have "unat (ALIGN_UP n) = (unat n + 4095) div 4096 * 4096" by (simp add: unat_ALIGN_UP)
  moreover have "(unat n + 4095) div 4096 \<le> 4503599627370494" using n by simp
  ultimately have u: "unat (HEAP_ALIGN_UP n) \<le> 18446744073709543424" by (simp add: HEAP_ALIGN_UP_def)
  show "unat n \<le> unat (HEAP_ALIGN_UP n)"
    using ALIGN_UP_ge [of n] n by (simp add: HEAP_ALIGN_UP_def wordnat)
  show "unat (HEAP_ALIGN_UP n) + 56 < 18446744073709551616" using u by simp
  show e: "unat (HEAP_ALIGN_UP n + sizeof_heap_block) = unat (HEAP_ALIGN_UP n) + 40"
    using u by (simp add: sizeof_heap_block_def unat_add_nowrap)
  show "unat (HEAP_ALIGN_UP n + sizeof_heap_block) \<le> 18446744073709547520" using u by (simp add: e)
qed

lemma heap_malloc_ok:
  assumes ok: "heap_ok k h bs" and n: "heap_fits n"
  obtains k' h' cs where "heap_malloc n k h = Some (0, k', h')" "heap_ok k' h' cs"
    "live (hview k') cs = live (hview k) bs"
  | b c k' h' cs where "heap_malloc n k h = Some (block_data b, k', h')" "heap_ok k' h' cs"
    "unat n \<le> c" "live (hview k') cs = insert (b, c) (live (hview k) bs)" "b \<noteq> 0"
    "b \<notin> fst ` live (hview k) bs"
proof (cases "n = 0")
  case True
  then show ?thesis using that(1) [of k h bs] ok by (simp add: heap_malloc_def)
next
  case n0: False
  let ?s = "HEAP_ALIGN_UP n"
  note R = heap_fits_rounded [OF n]
  show ?thesis
  proof (rule find_free_block_result [OF heap_okD(1) [OF ok], where sz = ?s])
    fix b assume b: "find_free_block ?s k h = Some b" "b \<in> set bs" "b \<noteq> 0" "is_free (headers k b)"
      "?s \<le> block_size (headers k b)"
    obtain k' h' cs c where t: "take_block b ?s k h = (block_data b, k', h')" "heap_ok k' h' cs"
      "unat ?s \<le> c" "live (hview k') cs = insert (b, c) (live (hview k) bs)" "b \<noteq> 0"
      "b \<notin> fst ` live (hview k) bs" "kmachine k' = kmachine k"
      by (rule take_block_ok [OF ok b(2,4,5) R(2)])
    have "heap_malloc n k h = Some (block_data b, k', h')"
      using n0 b(1,3) t(1) by (simp add: heap_malloc_def Let_def)
    then show ?thesis using that(2) [OF _ t(2) _ t(4-6)] t(3) R(1) by simp
  next
    assume none: "find_free_block ?s k h = Some 0"
    obtain r k1 h1 ds where e: "expand_heap (?s + sizeof_heap_block) k h = Some (r, k1, h1)"
      "heap_ok k1 h1 ds" "live (hview k1) ds = live (hview k) bs"
      by (rule expand_heap_ok [OF ok _ R(4)]) (simp add: R(3))
    show ?thesis
    proof (cases r)
      case False
      then have "heap_malloc n k h = Some (0, k1, h1)"
        using n0 none e(1) by (simp add: heap_malloc_def Let_def)
      then show ?thesis using that(1) e by simp
    next
      case True
      show ?thesis
      proof (rule find_free_block_result [OF heap_okD(1) [OF e(2)], where sz = ?s])
        fix b assume b: "find_free_block ?s k1 h1 = Some b" "b \<in> set ds" "b \<noteq> 0"
          "is_free (headers k1 b)" "?s \<le> block_size (headers k1 b)"
        obtain k' h' cs c where t: "take_block b ?s k1 h1 = (block_data b, k', h')" "heap_ok k' h' cs"
          "unat ?s \<le> c" "live (hview k') cs = insert (b, c) (live (hview k1) ds)" "b \<noteq> 0"
          "b \<notin> fst ` live (hview k1) ds" "kmachine k' = kmachine k1"
          by (rule take_block_ok [OF e(2) b(2,4,5) R(2)])
        have "heap_malloc n k h = Some (block_data b, k', h')"
          using n0 none e(1) True b(1,3) t(1) by (simp add: heap_malloc_def Let_def)
        moreover have "unat n \<le> c" using t(3) R(1) by simp
        ultimately show ?thesis
          by (rule that(2) [OF _ t(2) _ t(4) [unfolded e(3)] t(5) t(6) [unfolded e(3)]])
      next
        assume "find_free_block ?s k1 h1 = Some 0"
        then have "heap_malloc n k h = Some (0, k1, h1)"
          using n0 none e(1) True by (simp add: heap_malloc_def Let_def take_block_def)
        then show ?thesis using that(1) e by simp
      qed
    qed
  qed
qed

subsection \<open>The client's view\<close>

lemma block_data_inject [simp]: "block_data b = block_data c \<longleftrightarrow> b = c"
  by (simp add: block_data_def)

interpretation kh: block_heap "\<lambda>s. heap_ok (fst s) (snd s)" "\<lambda>s. hview (fst s)" 40 block_data heap_fits
  "\<lambda>n s. heap_malloc n (fst s) (snd s)" "\<lambda>p s. heap_free p (fst s) (snd s)"
proof
  fix s :: "kernel \<times> heap" and bs b c d n
  show "(0 :: nat) < 40" by simp
  show "unat b + 40 < 18446744073709551616 \<Longrightarrow> unat (block_data b) = unat b + 40"
    by (rule unat_block_data)
  show "block_data b = block_data d \<longleftrightarrow> b = d" by simp
  assume ok: "heap_ok (fst s) (snd s) bs"
  show "\<exists>f. blocks_ok 40 (hview (fst s)) f bs" using heap_okD(1) [OF ok] by blast
  show "\<exists>cs. heap_ok (fst (heap_free (block_data b) (fst s) (snd s))) (snd (heap_free (block_data b) (fst s) (snd s))) cs
      \<and> live (hview (fst (heap_free (block_data b) (fst s) (snd s)))) cs = live (hview (fst s)) bs - {(b, c)}"
    if b: "(b, c) \<in> live (hview (fst s)) bs"
    by (rule heap_free_ok [OF ok b]) auto
  show "\<exists>p s' cs. heap_malloc n (fst s) (snd s) = Some (p, s') \<and> heap_ok (fst s') (snd s') cs
      \<and> (p = 0 \<and> live (hview (fst s')) cs = live (hview (fst s)) bs
         \<or> (\<exists>b c. p = block_data b \<and> unat n \<le> c \<and> b \<notin> fst ` live (hview (fst s)) bs
              \<and> live (hview (fst s')) cs = insert (b, c) (live (hview (fst s)) bs)))" if n: "heap_fits n"
    by (rule heap_malloc_ok [OF ok n]) (metis fst_conv snd_conv)+
qed

text \<open>The same facts on a kernel and a heap.\<close>

lemma kernel_live_data:
  assumes "heap_ok k h bs" and "(b, c) \<in> live (hview k) bs"
  shows "bytes_of (block_data b) c \<subseteq> foot 40 (hview k) b" "block_data b \<noteq> 0"
    "b \<in> set bs" "c = bsize (hview k b)"
  using kh.live_data [of "(k, h)" bs b c] assms by simp_all

end
