(* ===== verification/Heap_Properties.thy ===== *)
theory Heap_Properties
  imports Heap_Correct
begin

text \<open>
  What the kernel heap promises its clients, and where it does not keep the promise: the safety
  of allocation, the contracts of \<^verbatim>\<open>malloc\<close>, \<^verbatim>\<open>free\<close>, \<^verbatim>\<open>calloc\<close> and
  \<^verbatim>\<open>realloc\<close>, and the behaviour of the statistics, of very large requests and of
  \<^verbatim>\<open>aligned_alloc\<close>.
\<close>

subsection \<open>A concrete heap\<close>

definition example_header :: heap_block where
  "example_header = new_heap_block 0xFFFD8 True"

definition example_kernel :: kernel where
  "example_kernel = \<lparr>kmachine = \<lparr>placement = 0xffffffff80400000, mem = (\<lambda>_. 0), cr3 = 0x1000, invlpgs = []\<rparr>,
     kphysical = physical_new, kvirtual = \<lparr>free_mem_list = [\<lparr>start = 0x200000, extent = 0x100000\<rparr>]\<rparr>,
     headers = (\<lambda>a. if a = 0x100000 then example_header
                    else \<lparr>block_size = 0, is_free = False, next_block = 0, prev_block = 0, magic = 0\<rparr>)\<rparr>"

definition example_heap :: heap where
  "example_heap = \<lparr>heap_start = 0x100000, heap_end = 0x200000, heap_size = 0x100000,
     first_block = 0x100000, total_allocated = 0, total_free = 0xFFFD8, num_allocations = 0, num_frees = 0\<rparr>"

lemma example_heap_ok: "heap_ok example_kernel example_heap [0x100000]"
  by (simp add: heap_ok_def blocks_ok_def linked_def hview_fields example_kernel_def example_heap_def
      example_header_def new_heap_block_def marked_def virt_ok_def regions_ok_def bounded_region_def
      disjoint_regions_def space_def foot_def free_bytes_def region_bytes_def bytes_of_def MAGIC_FREE_def)

subsection \<open>Safety\<close>

text \<open>C3. Allocated blocks never overlap: whatever sequence of \<^verbatim>\<open>malloc\<close> and
  \<^verbatim>\<open>free\<close> calls a client makes, asking for at most 2^64 - 8192 bytes at a time (a larger size
  wraps to 0 when it is rounded up, see \<open>huge_malloc_returns_empty_block\<close>) and releasing only pointers it
  holds, every call returns, the
  heap stays well formed, and the byte ranges the client asked for and holds are pairwise disjoint
  and never at the null pointer. This holds through splitting, coalescing and heap expansion, also
  when expansion fails.\<close>

theorem heap_blocks_never_overlap:
  assumes "heap_ok k h bs" and "\<forall>n. Alloc n \<in> set rs \<longrightarrow> heap_fits n"
  shows "\<exists>s' held. client (\<lambda>n s. heap_malloc n (fst s) (snd s)) (\<lambda>p s. heap_free p (fst s) (snd s))
      rs (k, h) [] = Some (s', held)
    \<and> (\<exists>bs'. heap_ok (fst s') (snd s') bs')
    \<and> sorted_wrt (\<lambda>q r. held_bytes q \<inter> held_bytes r = {}) held
    \<and> (\<forall>q \<in> set held. fst q \<noteq> 0)"
proof -
  have "kh.rep (k, h) (kh.in_use (k, h) bs)" using kh.repI [of "(k, h)" bs] assms(1) by simp
  from kh.client_apart [OF this assms(2)] show ?thesis unfolding kh.rep_def by blast
qed

theorem heap_blocks_never_overlap_witness:
  "\<exists>s' held. client (\<lambda>n s. heap_malloc n (fst s) (snd s)) (\<lambda>p s. heap_free p (fst s) (snd s))
      [Alloc 100, Alloc 8192, Release 0x100028, Alloc 0x400000] (example_kernel, example_heap) []
        = Some (s', held)
    \<and> sorted_wrt (\<lambda>q r. held_bytes q \<inter> held_bytes r = {}) held"
proof -
  have "\<forall>n. Alloc n \<in> set [Alloc 100, Alloc 8192, Release 0x100028, Alloc 0x400000] \<longrightarrow> heap_fits n"
    by (auto simp: heap_fits_def)
  from heap_blocks_never_overlap [OF example_heap_ok this] show ?thesis by blast
qed

subsection \<open>Contracts\<close>

text \<open>C4. \<^verbatim>\<open>malloc\<close> of at most 2^64 - 8192 bytes on a well-formed heap returns (for sizes nearer
  to 2^64 see \<open>huge_malloc_returns_empty_block\<close>). Either the result is null and the blocks
  in use are unchanged, or it points to the data of a block that was not in use, now in use with at
  least the requested size, and nothing else about the blocks in use changes; the heap stays well
  formed.\<close>

theorem malloc_contract:
  assumes "heap_ok k h bs" and "heap_fits n"
  shows "\<exists>p k' h' bs'. heap_malloc n k h = Some (p, k', h') \<and> heap_ok k' h' bs'
    \<and> (p = 0 \<and> live (hview k') bs' = live (hview k) bs
       \<or> (\<exists>b c. p = block_data b \<and> p \<noteq> 0 \<and> unat n \<le> c \<and> b \<notin> fst ` live (hview k) bs
            \<and> live (hview k') bs' = insert (b, c) (live (hview k) bs)))"
proof (rule heap_malloc_ok [OF assms])
  fix b c k' h' cs
  assume m: "heap_malloc n k h = Some (block_data b, k', h')" "heap_ok k' h' cs" "unat n \<le> c"
    "live (hview k') cs = insert (b, c) (live (hview k) bs)" "b \<noteq> 0" "b \<notin> fst ` live (hview k) bs"
  have "(b, c) \<in> live (hview k') cs" using m(4) by simp
  then have "block_data b \<noteq> 0" by (rule kernel_live_data(2) [OF m(2)])
  then show ?thesis using m by blast
qed blast

theorem malloc_contract_witness:
  "\<exists>p k' h' bs'. heap_malloc 5000 example_kernel example_heap = Some (p, k', h') \<and> heap_ok k' h' bs'"
proof -
  have "heap_fits 5000" by (simp add: heap_fits_def)
  from malloc_contract [OF example_heap_ok this] show ?thesis by blast
qed

text \<open>C5. \<^verbatim>\<open>free\<close> takes exactly the block of the pointer out of use, whichever of its
  neighbours it is merged with, and ignores a null pointer, a block that is already free and a
  header whose magic number is wrong.\<close>

theorem free_contract:
  assumes "heap_ok k h bs"
  shows "((b, c) \<in> live (hview k) bs \<longrightarrow>
      (\<exists>k' h' bs'. heap_free (block_data b) k h = (k', h') \<and> heap_ok k' h' bs'
        \<and> live (hview k') bs' = live (hview k) bs - {(b, c)}))
    \<and> heap_free 0 k h = (k, h)
    \<and> (is_free (headers k (from_data p)) \<or> \<not> is_valid (headers k (from_data p)) \<longrightarrow>
        heap_free p k h = (k, h))"
proof -
  have "\<exists>k' h' bs'. heap_free (block_data b) k h = (k', h') \<and> heap_ok k' h' bs'
        \<and> live (hview k') bs' = live (hview k) bs - {(b, c)}" if "(b, c) \<in> live (hview k) bs"
    by (rule heap_free_ok [OF assms that]) blast
  then show ?thesis by (auto simp: heap_free_def Let_def)
qed

theorem free_contract_witness:
  "\<exists>k' h' bs'. heap_free (block_data 0x100000) (set_used 0x100000 example_kernel) example_heap = (k', h')
     \<and> heap_ok k' h' bs' \<and> live (hview k') bs' = {}"
proof -
  let ?k = "set_used 0x100000 example_kernel"
  have ok: "heap_ok ?k example_heap [0x100000]"
    by (rule heap_ok_set_used [OF example_heap_ok]) simp_all
  have l: "live (hview ?k) [0x100000] = {(0x100000, bsize (hview ?k 0x100000))}"
    by (auto simp: live_def hview_set)
  then show ?thesis
    using free_contract [OF ok, of "0x100000" "bsize (hview ?k 0x100000)" 0] by auto
qed

subsection \<open>Taking the block that was found\<close>

lemma malloc_takes_found:
  assumes "n \<noteq> 0" "find_free_block (HEAP_ALIGN_UP n) k h = Some b" "b \<noteq> 0"
  shows "heap_malloc n k h = Some (take_block b (HEAP_ALIGN_UP n) k h)"
  using assms by (simp add: heap_malloc_def Let_def)

text \<open>When the block found is large enough to be split, its size becomes the rounded request and
  the rest becomes the next block.\<close>

lemma take_block_split:
  assumes ok: "heap_ok k h (xs @ b # ys)" and s: "unat sz + 56 \<le> unat (block_size (headers k b))"
  obtains k' where "take_block b sz k h = (block_data b, k',
      h\<lparr>total_allocated := total_allocated h + sz, total_free := total_free h + 40 - sz,
        num_allocations := num_allocations h + 1\<rparr>)"
    "unat (block_data b + sz) = unat b + 40 + unat sz"
    "hview k' = (insert_after b (block_data b + sz) (unat sz)
       (unat (block_size (headers k b)) - unat sz - 40) (hview k))
         (b := (insert_after b (block_data b + sz) (unat sz)
           (unat (block_size (headers k b)) - unat sz - 40) (hview k) b)\<lparr>bfree := False\<rparr>)"
    "kmachine k' = kmachine k" "block_data b + sz \<notin> set (xs @ b # ys)" "block_data b + sz \<noteq> 0"
    "\<And>x. x \<in> set (xs @ b # (block_data b + sz) # ys) \<Longrightarrow> is_valid (headers k' x)"
proof -
  note okD = heap_okD [OF ok]
  let ?S = "block_size (headers k b)"
  have b4: "unat b + 40 + unat ?S < 18446744073709551616"
    using blocks_okD(4) [OF okD(1), of b] by (simp add: hview_fields)
  have w: "unat sz + 56 < 18446744073709551616" using s u64_bound [of ?S] by simp
  have m: "unat (sz + MIN_BLOCK_SIZE) = unat sz + 56"
    using w by (simp add: MIN_BLOCK_SIZE_def sizeof_heap_block_def unat_add_nowrap)
  have le: "sz \<le> ?S" using s by (simp add: wordnat)
  have un: "unat (block_data b + sz) = unat b + 40 + unat sz"
    using b4 s unat_block_data [of b] by (simp add: unat_add_nowrap)
  have b0: "b \<noteq> 0" using blocks_okD(3) [OF okD(1)] by auto
  show ?thesis
  proof (rule split_block_cases [OF okD(1) le w, where h = h])
    assume "split_block b sz k h = (k, h)"
    moreover have "\<not> ?S < sz + MIN_BLOCK_SIZE" using m s by (simp add: wordnat)
    ultimately have "h\<lparr>total_free := total_free h + sizeof_heap_block\<rparr> = h"
      by (simp add: split_block_def Let_def)
    then have "total_free (h\<lparr>total_free := total_free h + sizeof_heap_block\<rparr>) = total_free h" by (rule arg_cong)
    then show ?thesis by (simp add: sizeof_heap_block_def)
  next
    fix n k1
    assume e: "split_block b sz k h = (k1, h\<lparr>total_free := total_free h + 40\<rparr>)"
      and n: "unat n = unat b + 40 + unat sz"
      and r: "unat ?S = unat sz + 40 + (unat ?S - unat sz - 40)"
      and v: "hview k1 = insert_after b n (unat sz) (unat ?S - unat sz - 40) (hview k)"
      and rest: "kmachine k1 = kmachine k" "kvirtual k1 = kvirtual k"
      and mk: "mark (headers k1 n) = (True, MAGIC_FREE)"
      and mc: "\<And>c. c \<noteq> n \<Longrightarrow> mark (headers k1 c) = mark (headers k c)"
    have nn: "n = block_data b + sz" using n un by (simp add: word_unat_eq_iff)
    have r': "bsize (hview k b) = unat sz + 40 + (unat ?S - unat sz - 40)" using r by (simp add: hview_fields)
    note I = blocks_ok_insert_after(1,2) [OF okD(1) _ r' n]
    let ?k' = "set_used b k1"
    have t: "take_block b sz k h = (block_data b, ?k',
        h\<lparr>total_allocated := total_allocated h + sz, total_free := total_free h + 40 - sz,
          num_allocations := num_allocations h + 1\<rparr>)"
      using b0 e by (simp add: take_block_def Let_def)
    have val: "is_valid (headers ?k' x)" if "x \<in> set (xs @ b # n # ys)" for x
    proof -
      have "is_valid (headers k1 x)"
      proof (cases "x = n")
        case True
        then show ?thesis using mk by (simp add: mark_def is_valid_def)
      next
        case False
        then have "marked (headers k1 x)"
          using that okD(3) [of x] marked_mark [OF mc [OF False]] by auto
        then show ?thesis by (rule marked_is_valid)
      qed
      then show ?thesis by (simp add: set_used_def is_valid_def)
    qed
    show ?thesis
      by (rule that [OF t un]) (use I rest v val in \<open>simp_all add: nn hview_set\<close>)
  qed
qed

lemma found_block:
  assumes ok: "heap_ok k h bs" and f: "find_free_block sz k h = Some b" "b \<noteq> 0"
  obtains xs ys where "bs = xs @ b # ys" "is_free (headers k b)" "sz \<le> block_size (headers k b)"
proof -
  have "b \<in> set bs \<and> is_free (headers k b) \<and> sz \<le> block_size (headers k b)"
    by (rule find_free_block_result [OF heap_okD(1) [OF ok], where sz = sz]) (use f in auto)
  then show ?thesis using that by (auto dest: split_list)
qed

subsection \<open>Very large requests\<close>

text \<open>A request so large that rounding it up to pages wraps around succeeds: \<^verbatim>\<open>malloc\<close>
  returns the data of the first free block, of which it keeps a block of size zero, so not one of the
  bytes asked for belongs to the caller.\<close>

theorem huge_malloc_returns_empty_block:
  assumes "heap_ok k h bs" and "18446744073709547520 < unat n"
    and "find_free_block 0 k h = Some b" "b \<noteq> 0" "56 \<le> unat (block_size (headers k b))"
  shows "\<exists>k' h'. heap_malloc n k h = Some (block_data b, k', h') \<and> block_data b \<noteq> 0
    \<and> block_size (headers k' b) = 0 \<and> \<not> is_free (headers k' b)"
proof -
  have n: "HEAP_ALIGN_UP n = 0" "n \<noteq> 0" using assms(2) by (auto simp: HEAP_ALIGN_UP_def ALIGN_UP_wraps)
  obtain xs ys where bs: "bs = xs @ b # ys" by (rule found_block [OF assms(1,3,4)])
  have ok: "heap_ok k h (xs @ b # ys)" using assms(1) bs by simp
  have s: "unat (0 :: u64) + 56 \<le> unat (block_size (headers k b))" using assms(5) by simp
  obtain k' where t: "take_block b 0 k h = (block_data b, k',
      h\<lparr>total_allocated := total_allocated h + 0, total_free := total_free h + 40 - 0,
        num_allocations := num_allocations h + 1\<rparr>)"
    "unat (block_data b + 0) = unat b + 40 + unat (0 :: u64)"
    "hview k' = (insert_after b (block_data b + 0) (unat (0 :: u64))
       (unat (block_size (headers k b)) - unat (0 :: u64) - 40) (hview k))
         (b := (insert_after b (block_data b + 0) (unat (0 :: u64))
           (unat (block_size (headers k b)) - unat (0 :: u64) - 40) (hview k) b)\<lparr>bfree := False\<rparr>)"
    "kmachine k' = kmachine k" "block_data b + 0 \<notin> set (xs @ b # ys)" "block_data b + 0 \<noteq> 0"
    by (rule take_block_split [OF ok s])
  have "bsize (hview k' b) = 0 \<and> \<not> bfree (hview k' b)"
    using insert_after_facts(1) [OF blocks_okD(1) [OF heap_okD(1) [OF ok]] t(5,6)] by (simp add: t(3))
  then have "block_size (headers k' b) = 0 \<and> \<not> is_free (headers k' b)"
    by (simp add: hview_fields unat_eq_0)
  then show ?thesis
    using malloc_takes_found [of n k h b] n assms(3,4) t(1,6) by (auto simp: n)
qed

lemma example_find:
  "sz \<le> 0xFFFD8 \<Longrightarrow> find_free_block sz example_kernel example_heap = Some 0x100000"
proof -
  assume "sz \<le> 0xFFFD8"
  moreover have "first_block example_heap = 0x100000" "is_free (headers example_kernel 0x100000)"
    "block_size (headers example_kernel 0x100000) = 0xFFFD8"
    by (simp_all add: example_heap_def example_kernel_def example_header_def new_heap_block_def)
  ultimately show ?thesis
    by (simp add: find_free_block_def find_from.simps [of sz example_kernel "0x100000"])
qed

theorem huge_malloc_returns_empty_block_witness:
  "\<exists>k' h'. heap_malloc 0xFFFFFFFFFFFFFFFF example_kernel example_heap = Some (0x100028, k', h')
     \<and> block_size (headers k' 0x100000) = 0"
proof -
  have "56 \<le> unat (block_size (headers example_kernel 0x100000))"
    by (simp add: example_kernel_def example_header_def new_heap_block_def)
  then show ?thesis
    using huge_malloc_returns_empty_block [OF example_heap_ok, of "0xFFFFFFFFFFFFFFFF" "0x100000"]
      example_find [of 0]
    by (simp add: block_data_def sizeof_heap_block_def) blast
qed

subsection \<open>Statistics\<close>

definition sum_sizes :: "bool \<Rightarrow> blocks \<Rightarrow> addr list \<Rightarrow> u64" where
  "sum_sizes f v bs = (\<Sum>b \<leftarrow> bs. if bfree (v b) = f then of_nat (bsize (v b)) else 0)"

lemma sum_sizes_simps [simp]:
  "sum_sizes f v [] = 0"
  "sum_sizes f v (b # bs) = (if bfree (v b) = f then of_nat (bsize (v b)) else 0) + sum_sizes f v bs"
  "sum_sizes f v (xs @ bs) = sum_sizes f v xs + sum_sizes f v bs"
  by (simp_all add: sum_sizes_def)

lemma sum_sizes_cong:
  "(\<And>b. b \<in> set bs \<Longrightarrow> bfree (w b) = bfree (v b) \<and> bsize (w b) = bsize (v b)) \<Longrightarrow>
    sum_sizes f w bs = sum_sizes f v bs"
  by (induction bs) auto

lemma validate_from_result:
  assumes "segment (hview k) p c bs q 0" "\<And>b. b \<in> set bs \<Longrightarrow> is_valid (headers k b)"
  shows "validate_from k h ca cf c = Some (ca + sum_sizes False (hview k) bs = total_allocated h
    \<and> cf + sum_sizes True (hview k) bs = total_free h)"
  using assms
proof (induction bs arbitrary: p c ca cf)
  case Nil
  then show ?case by (simp add: validate_from.simps [of k h ca cf])
next
  case (Cons b bs)
  then have c: "c = b" "b \<noteq> 0" "segment (hview k) b (next_block (headers k b)) bs q 0" "is_valid (headers k b)"
    by (simp_all add: hview_fields)
  have IH: "validate_from k h x y (next_block (headers k b)) = Some (x + sum_sizes False (hview k) bs = total_allocated h
    \<and> y + sum_sizes True (hview k) bs = total_free h)" for x y
    using Cons.IH [OF c(3)] Cons.prems(2) by simp
  show ?case
    using c(1,2,4) by (simp add: validate_from.simps [of k h ca cf b] IH) (simp add: hview_fields add.assoc)
qed

lemma validate_heap_result:
  assumes "linked (hview k) (first_block h) bs" "\<And>b. b \<in> set bs \<Longrightarrow> is_valid (headers k b)"
  shows "validate_heap k h = Some (sum_sizes False (hview k) bs = total_allocated h
    \<and> sum_sizes True (hview k) bs = total_free h)"
  using assms validate_from_result [of k 0 "first_block h" bs _ h 0 0]
  by (auto simp: validate_heap_def linked_def)

text \<open>\<^verbatim>\<open>malloc\<close> breaks the heap's own check: when it splits a block, it adds the size
  of the new header to the count of free bytes instead of subtracting it, so a heap that
  \<^verbatim>\<open>validate_heap\<close> accepts is reported as corrupted after the first allocation that splits
  a block.\<close>

theorem malloc_split_fails_validation:
  assumes ok: "heap_ok k h bs" and "validate_heap k h = Some True" and "n \<noteq> 0"
    and f: "find_free_block (HEAP_ALIGN_UP n) k h = Some b" "b \<noteq> 0"
    and s: "unat (HEAP_ALIGN_UP n) + 56 \<le> unat (block_size (headers k b))"
  shows "\<exists>k' h'. heap_malloc n k h = Some (block_data b, k', h') \<and> validate_heap k' h' = Some False"
proof -
  let ?s = "HEAP_ALIGN_UP n" and ?n = "block_data b + HEAP_ALIGN_UP n"
  let ?r = "unat (block_size (headers k b)) - unat ?s - 40"
  obtain xs ys where bs: "bs = xs @ b # ys" and bf: "is_free (headers k b)" by (rule found_block [OF ok f])
  have ok1: "heap_ok k h (xs @ b # ys)" using ok bs by simp
  note l = blocks_okD(1) [OF heap_okD(1) [OF ok1]]
  let ?h = "h\<lparr>total_allocated := total_allocated h + ?s, total_free := total_free h + 40 - ?s,
        num_allocations := num_allocations h + 1\<rparr>"
  obtain k' where t: "take_block b ?s k h = (block_data b, k', ?h)"
    "hview k' = (insert_after b ?n (unat ?s) ?r (hview k))
         (b := (insert_after b ?n (unat ?s) ?r (hview k) b)\<lparr>bfree := False\<rparr>)"
    "?n \<notin> set (xs @ b # ys)" "?n \<noteq> 0"
    "\<And>x. x \<in> set (xs @ b # ?n # ys) \<Longrightarrow> is_valid (headers k' x)"
    by (rule take_block_split [OF ok1 s]) blast
  note F = insert_after_facts [OF l t(3,4), where sz = "unat ?s" and r = ?r]
  have d: "b \<notin> set xs" "b \<notin> set ys" "?n \<noteq> b" using l t(3) by (auto simp: linked_def)
  have l': "linked (hview k') (first_block ?h) (xs @ b # ?n # ys)"
    unfolding t(2)
    by (rule linked_update [OF linked_insert_after [OF _ t(4,3)]]) (use l in auto)
  have c: "sum_sizes True (hview k') zs = sum_sizes True (hview k) zs" if "set zs \<subseteq> set xs \<union> set ys" for zs
  proof (rule sum_sizes_cong)
    fix x assume "x \<in> set zs"
    then have "x \<noteq> b" "x \<noteq> ?n" using that d t(3) by auto
    then show "bfree (hview k' x) = bfree (hview k x) \<and> bsize (hview k' x) = bsize (hview k x)"
      using F(6) [of x] by (simp add: t(2))
  qed
  have tf: "sum_sizes True (hview k) (xs @ b # ys) = total_free h"
    using assms(2) validate_heap_result [OF l] marked_is_valid [OF heap_okD(3) [OF ok1]] by simp
  have "sum_sizes True (hview k') (xs @ b # ?n # ys)
      = sum_sizes True (hview k) xs + (of_nat ?r + sum_sizes True (hview k) ys)"
    using F d c [of xs] c [of ys] by (simp add: t(2))
  moreover have "(of_nat ?r :: u64) = block_size (headers k b) - ?s - 40"
    using s by (simp add: of_nat_diff)
  ultimately have "sum_sizes True (hview k') (xs @ b # ?n # ys) = total_free h - ?s - 40"
    using tf bf by (simp add: hview_fields algebra_simps)
  moreover have "total_free h - ?s - 40 \<noteq> total_free h + 40 - ?s"
  proof
    assume "total_free h - ?s - 40 = total_free h + 40 - ?s"
    then have "total_free h - ?s - 40 - (total_free h + 40 - ?s) = 0" by simp
    moreover have "total_free h - ?s - 40 - (total_free h + 40 - ?s) = - 80" by simp
    ultimately show False by simp
  qed
  ultimately have "sum_sizes True (hview k') (xs @ b # ?n # ys) \<noteq> total_free ?h"
    by simp
  then have "validate_heap k' ?h = Some False" using validate_heap_result [OF l' t(5)] by simp
  then show ?thesis using malloc_takes_found [OF assms(3) f] t(1) by auto
qed

theorem malloc_split_fails_validation_witness:
  "validate_heap example_kernel example_heap = Some True
   \<and> (\<exists>k' h'. heap_malloc 100 example_kernel example_heap = Some (0x100028, k', h')
        \<and> validate_heap k' h' = Some False)"
proof -
  have a: "HEAP_ALIGN_UP 100 = 0x1000" by (simp add: HEAP_ALIGN_UP_def ALIGN_UP_def ALIGN_DOWN_def)
  have v: "validate_heap example_kernel example_heap = Some True"
    using validate_heap_result [of example_kernel example_heap "[0x100000]"]
    by (simp add: linked_def hview_fields example_kernel_def example_heap_def example_header_def
        new_heap_block_def is_valid_def MAGIC_FREE_def)
  have s: "unat (HEAP_ALIGN_UP 100) + 56 \<le> unat (block_size (headers example_kernel 0x100000))"
    by (simp add: a example_kernel_def example_header_def new_heap_block_def)
  show ?thesis
    using malloc_split_fails_validation [OF example_heap_ok v, of 100 "0x100000"] s v example_find [of "0x1000"]
    by (simp add: a block_data_def sizeof_heap_block_def)
qed

subsection \<open>Aligned allocation\<close>

lemma next_page:
  assumes "IS_ALIGNED b" and "unat b + 4192 < 18446744073709551616"
  shows "ALIGN_UP (block_data b + 8) = b + 0x1000"
proof -
  obtain j where j: "unat b = 4096 * j" using assms(1) by (rule IS_ALIGNED_E)
  have "unat (b + 48) = 4096 * j + 48" using assms(2) j by (simp add: unat_add_nowrap)
  moreover have "4096 * j + 48 \<le> 18446744073709547520" using assms(2) j by simp
  ultimately have "unat (ALIGN_UP (b + 48)) = (4096 * j + 48 + 4095) div 4096 * 4096"
    using unat_ALIGN_UP [of "b + 48"] by simp
  also have "\<dots> = unat (b + 0x1000)" using assms(2) j by (simp add: unat_add_nowrap)
  finally have "ALIGN_UP (b + 48) = b + 0x1000" by (simp only: word_unat_eq_iff)
  moreover have "block_data b + 8 = b + 48" by (simp add: block_data_def sizeof_heap_block_def)
  ultimately show ?thesis by (simp only:)
qed

text \<open>\<^verbatim>\<open>aligned_alloc\<close> rounds the pointer up to the next page but reserves only
  alignment plus eight extra bytes: a request for 4000 bytes aligned to 8, served from a block that
  starts on a page, is given the page after the block's header page, so the caller's bytes cover the
  header of the next block.\<close>

theorem aligned_alloc_overruns_block:
  assumes ok: "heap_ok k h bs" and f: "find_free_block 0x1000 k h = Some b" "b \<noteq> 0"
    and a: "IS_ALIGNED b" and s: "4152 \<le> unat (block_size (headers k b))"
  shows "\<exists>p k' h'. aligned_alloc 8 4000 k h = Some (p, k', h') \<and> p = b + 0x1000
    \<and> block_size (headers k' b) = 0x1000 \<and> is_free (headers k' (next_block (headers k' b)))
    \<and> bytes_of (next_block (headers k' b)) 40 \<subseteq> bytes_of p 4000"
proof -
  have r: "HEAP_ALIGN_UP 4016 = 0x1000" by (simp add: HEAP_ALIGN_UP_def ALIGN_UP_def ALIGN_DOWN_def)
  let ?n = "block_data b + 0x1000" and ?r = "unat (block_size (headers k b)) - unat (0x1000 :: u64) - 40"
  obtain xs ys where bs: "bs = xs @ b # ys" by (rule found_block [OF ok f])
  have ok1: "heap_ok k h (xs @ b # ys)" using ok bs by simp
  note l = blocks_okD(1) [OF heap_okD(1) [OF ok1]]
  have b4: "unat b + 40 + unat (block_size (headers k b)) < 18446744073709551616"
    using blocks_okD(4) [OF heap_okD(1) [OF ok1], of b] by (simp add: hview_fields)
  have s1: "unat (0x1000 :: u64) + 56 \<le> unat (block_size (headers k b))" using s by simp
  obtain k1 where t: "take_block b 0x1000 k h = (block_data b, k1,
      h\<lparr>total_allocated := total_allocated h + 0x1000, total_free := total_free h + 40 - 0x1000,
        num_allocations := num_allocations h + 1\<rparr>)"
    "unat ?n = unat b + 40 + unat (0x1000 :: u64)"
    "hview k1 = (insert_after b ?n (unat (0x1000 :: u64)) ?r (hview k))
         (b := (insert_after b ?n (unat (0x1000 :: u64)) ?r (hview k) b)\<lparr>bfree := False\<rparr>)"
    "kmachine k1 = kmachine k" "?n \<notin> set (xs @ b # ys)" "?n \<noteq> 0"
    by (rule take_block_split [OF ok1 s1])
  note F = insert_after_facts [OF l t(5,6), where sz = "unat (0x1000 :: u64)" and r = ?r]
  have nb: "?n \<noteq> b" using t(5) by auto
  have V: "bsize (hview k1 b) = 4096" "bnext (hview k1 b) = ?n" "bfree (hview k1 ?n)"
    using F nb by (simp_all add: t(3))
  have H: "block_size (headers k1 b) = 0x1000" "next_block (headers k1 b) = ?n" "is_free (headers k1 ?n)"
    using V by (simp_all add: hview_fields word_unat_eq_iff)
  have m: "heap_malloc 4016 k h = Some (take_block b 0x1000 k h)"
    using malloc_takes_found [of 4016 k h b] f by (simp add: r)
  have p: "HEAP_ALIGN_UP (block_data b + 8) = b + 0x1000"
    unfolding HEAP_ALIGN_UP_def by (rule next_page [OF a]) (use b4 s in simp)
  have "unat (block_data b) = unat b + 40" using b4 by (simp add: unat_block_data)
  then have bd0: "block_data b \<noteq> 0" by auto
  let ?k = "k1\<lparr>kmachine := store (b + 0x1000 - 8) (block_data b) (kmachine k1)\<rparr>"
  have u: "unat (b + 0x1000) = unat b + 4096" using b4 s by (simp add: unat_add_nowrap)
  have "aligned_alloc 8 4000 k h = Some (b + 0x1000, ?k,
      h\<lparr>total_allocated := total_allocated h + 0x1000, total_free := total_free h + 40 - 0x1000,
        num_allocations := num_allocations h + 1\<rparr>)"
    using bd0 by (simp add: aligned_alloc_def m t(1) p)
  moreover have "bytes_of ?n 40 \<subseteq> bytes_of (b + 0x1000) 4000"
    using t(2) u by (auto simp: bytes_of_def)
  ultimately show ?thesis using H by auto
qed

theorem aligned_alloc_overruns_block_witness:
  "\<exists>k' h'. aligned_alloc 8 4000 example_kernel example_heap = Some (0x101000, k', h')
     \<and> bytes_of (next_block (headers k' 0x100000)) 40 \<subseteq> bytes_of 0x101000 4000"
proof -
  have "4152 \<le> unat (block_size (headers example_kernel 0x100000))" "IS_ALIGNED 0x100000"
    by (simp_all add: example_kernel_def example_header_def new_heap_block_def IS_ALIGNED_def)
  then show ?thesis
    using aligned_alloc_overruns_block [OF example_heap_ok, of "0x100000"] example_find [of "0x1000"] by auto
qed

subsection \<open>Clearing allocation\<close>

lemma product_overflow:
  assumes "num \<noteq> 0"
  shows "(num * sz) div num \<noteq> (sz :: u64) \<longleftrightarrow> 18446744073709551616 \<le> unat num * unat sz"
proof -
  let ?P = "unat num * unat sz"
  have n: "0 < unat num" using assms by (simp add: unat_gt_0)
  have d: "unat ((num * sz) div num) = (?P mod 18446744073709551616) div unat num"
    by (simp add: unat_div unat_word_ariths)
  show ?thesis
  proof
    assume ne: "(num * sz) div num \<noteq> sz"
    show "18446744073709551616 \<le> ?P"
    proof (rule ccontr)
      assume "\<not> 18446744073709551616 \<le> ?P"
      then have "unat ((num * sz) div num) = unat sz" unfolding d using n by simp
      then show False using ne by (simp add: word_unat_eq_iff)
    qed
  next
    assume big: "18446744073709551616 \<le> ?P"
    have "?P mod 18446744073709551616 < 18446744073709551616" by simp
    then have "?P mod 18446744073709551616 < unat sz * unat num" using big by (simp add: mult.commute)
    then have "unat ((num * sz) div num) < unat sz" unfolding d by (rule less_mult_imp_div_less)
    then show "(num * sz) div num \<noteq> sz" by auto
  qed
qed

text \<open>\<^verbatim>\<open>calloc\<close> returns null without touching the heap exactly when the product of
  its arguments does not fit a machine word; otherwise it behaves as \<^verbatim>\<open>malloc\<close> of the product
  and every byte of the result is zero.\<close>

theorem calloc_contract:
  assumes "heap_ok k h bs" and "unat num * unat sz < 18446744073709551616 \<longrightarrow> heap_fits (num * sz)"
  shows "(18446744073709551616 \<le> unat num * unat sz \<longrightarrow> heap_calloc num sz k h = Some (0, k, h))
    \<and> (unat num * unat sz < 18446744073709551616 \<longrightarrow>
        (\<exists>p k1 k' h'. heap_malloc (num * sz) k h = Some (p, k1, h') \<and> heap_calloc num sz k h = Some (p, k', h')
          \<and> headers k' = headers k1 \<and> (p \<noteq> 0 \<longrightarrow> (\<forall>i < num * sz. byte_at (kmachine k') (p + i) = 0))))"
proof (cases "18446744073709551616 \<le> unat num * unat sz")
  case True
  then have "num \<noteq> 0" by auto
  then show ?thesis
    using True product_overflow [of num sz] by (simp add: heap_calloc_def Let_def word_gt_0)
next
  case False
  then have "heap_fits (num * sz)" using assms(2) by simp
  then obtain p k1 h1 where m: "heap_malloc (num * sz) k h = Some (p, k1, h1)"
    by (rule heap_malloc_ok [OF assms(1)]) blast+
  have d: "\<not> (num > 0 \<and> num * sz div num \<noteq> sz)"
    using False product_overflow [of num sz] by (auto simp: word_gt_0)
  let ?k = "if p = 0 then k1 else k1\<lparr>kmachine := snd (memset p 0 (num * sz) (kmachine k1))\<rparr>"
  have "heap_calloc num sz k h = Some (p, ?k, h1)"
    unfolding heap_calloc_def Let_def if_not_P [OF d] m by simp
  moreover have "byte_at (kmachine ?k) (p + i) = 0" if "p \<noteq> 0" "i < num * sz" for i
    using that by (simp add: memset_fills)
  moreover have "headers ?k = headers k1" by simp
  ultimately have "heap_malloc (num * sz) k h = Some (p, k1, h1) \<and> heap_calloc num sz k h = Some (p, ?k, h1)
      \<and> headers ?k = headers k1 \<and> (p \<noteq> 0 \<longrightarrow> (\<forall>i < num * sz. byte_at (kmachine ?k) (p + i) = 0))"
    using m by blast
  then show ?thesis using False by blast
qed

theorem calloc_contract_witness:
  "heap_calloc 0x100000000 0x100000000 example_kernel example_heap = Some (0, example_kernel, example_heap)
   \<and> (\<exists>p k1 k' h'. heap_malloc 100 example_kernel example_heap = Some (p, k1, h')
        \<and> heap_calloc 10 10 example_kernel example_heap = Some (p, k', h') \<and> headers k' = headers k1)"
proof -
  have "heap_fits 100" by (simp add: heap_fits_def)
  then show ?thesis
    using calloc_contract [OF example_heap_ok, of "0x100000000" "0x100000000"]
      calloc_contract [OF example_heap_ok, of 10 10] by auto
qed

subsection \<open>Growing a block\<close>

lemma apart_in_heap:
  assumes ok: "heap_ok k h bs" and b: "(b, c) \<in> live (hview k) bs" "(d, e) \<in> live (hview k) bs" "b \<noteq> d"
    and n: "n \<le> c" "n \<le> e"
  shows "bytes_of (block_data b) n \<inter> bytes_of (block_data d) n = {}"
proof -
  have "bytes_of (block_data b) c \<inter> bytes_of (block_data d) e = {}"
    using kh.data_apart [of "(k, h)" bs b c d e] ok b by simp
  then show ?thesis using n by (auto simp: bytes_of_def disjoint_iff)
qed

lemma live_room:
  assumes "heap_ok k h bs" "(b, c) \<in> live (hview k) bs"
  shows "unat (block_data b) + c < 18446744073709551616" "c = unat (block_size (headers k b))"
    "\<not> is_free (headers k b)" "is_valid (headers k b)"
proof -
  have b: "b \<in> set bs" "c = bsize (hview k b)" using assms(2) by (auto simp: live_def)
  have "unat b + 40 + bsize (hview k b) < 18446744073709551616"
    using blocks_okD(4) [OF heap_okD(1) [OF assms(1)] b(1)] .
  then show "unat (block_data b) + c < 18446744073709551616" using b(2) by (simp add: unat_block_data)
  show "c = unat (block_size (headers k b))" "\<not> is_free (headers k b)"
    using assms(2) by (auto simp: live_def hview_fields)
  show "is_valid (headers k b)" by (rule marked_is_valid [OF heap_okD(3) [OF assms(1) b(1)]])
qed

text \<open>C6. \<^verbatim>\<open>realloc\<close> to a size that does not fit the block moves it: when the heap has a
  free block for the new size, the result points to that block, its first bytes are the bytes the old
  block held, the old block is the only one taken out of use, and the heap stays well formed.\<close>

theorem realloc_moves_contents:
  assumes ok: "heap_ok k h bs" and l: "(b, c) \<in> live (hview k) bs" and n: "heap_fits n"
    and big: "block_size (headers k b) < HEAP_ALIGN_UP n"
    and f: "find_free_block (HEAP_ALIGN_UP n) k h = Some d" "d \<noteq> 0"
  shows "\<exists>k' h' bs' e. heap_realloc (block_data b) n k h = Some (block_data d, k', h')
    \<and> heap_ok k' h' bs' \<and> unat n \<le> e
    \<and> live (hview k') bs' = insert (d, e) (live (hview k) bs - {(b, c)})
    \<and> (\<forall>i < block_size (headers k b).
          byte_at (kmachine k') (block_data d + i) = byte_at (kmachine k) (block_data b + i))"
proof -
  let ?s = "HEAP_ALIGN_UP n" and ?old = "block_size (headers k b)"
  note R = heap_fits_rounded [OF n] and L = live_room [OF ok l]
  obtain xs ys where "bs = xs @ d # ys" "is_free (headers k d)" "?s \<le> block_size (headers k d)"
    by (rule found_block [OF ok f])
  then have d: "d \<in> set bs" "is_free (headers k d)" "?s \<le> block_size (headers k d)" by auto
  obtain k1 h1 cs e where t: "take_block d ?s k h = (block_data d, k1, h1)" "heap_ok k1 h1 cs"
    "unat ?s \<le> e" "live (hview k1) cs = insert (d, e) (live (hview k) bs)" "d \<noteq> 0"
    "d \<notin> fst ` live (hview k) bs" "kmachine k1 = kmachine k"
    by (rule take_block_ok [OF ok d R(2)])
  have db: "b \<noteq> d" using l t(6) by force
  have l1: "(b, c) \<in> live (hview k1) cs" "(d, e) \<in> live (hview k1) cs" using l t(4) by auto
  let ?k = "k1\<lparr>kmachine := snd (memcpy (block_data d) (block_data b) ?old (kmachine k1))\<rparr>"
  have s0: "?s \<noteq> 0" "n \<noteq> 0" using big by (auto simp: HEAP_ALIGN_UP_def ALIGN_UP_def ALIGN_DOWN_def)
  have m: "heap_malloc ?s k h = Some (block_data d, k1, h1)"
    using malloc_takes_found [of ?s k h d] s0(1) f t(1) by (simp add: HEAP_ALIGN_UP_def [of ?s])
  have ce: "c \<le> e" using big L(2) t(3) by (simp add: word_less_nat_alt)
  have ok2: "heap_ok ?k h1 cs" using t(2) by (simp add: heap_ok_def)
  have l2: "(b, c) \<in> live (hview ?k) cs" using l1(1) by simp
  obtain k' h' ds where fr: "heap_free (block_data b) ?k h1 = (k', h')" "heap_ok k' h' ds"
    "live (hview k') ds = live (hview ?k) cs - {(b, c)}" "kmachine k' = kmachine ?k"
    by (rule heap_free_ok [OF ok2 l2])
  have bd: "block_data b \<noteq> 0" "block_data d \<noteq> 0" using kernel_live_data(2) [OF t(2)] l1 by auto
  have "heap_realloc (block_data b) n k h = Some (block_data d, k', h')"
    using bd s0(2) L(3,4) leD [OF _ , of ?s ?old] big m fr(1) by (simp add: heap_realloc_def Let_def not_le [symmetric])
  moreover have "byte_at (kmachine k') (block_data d + i) = byte_at (kmachine k) (block_data b + i)"
    if i: "i < ?old" for i
    using memcpy_copies [where src = "block_data b" and dest = "block_data d" and n = ?old
        and m = "kmachine k" and a = "block_data d + i"]
      apart_in_heap [OF t(2) l1 db, of c] ce L(1,2) live_room(1) [OF t(2) l1(2)] i fr(4) t(7)
    by simp
  moreover have "live (hview k') ds = insert (d, e) (live (hview k) bs - {(b, c)})"
    using fr(3) t(4) db by auto
  moreover have "unat n \<le> e" using t(3) R(1) by simp
  ultimately show ?thesis using fr(2) by blast
qed

definition two_blocks_kernel :: kernel where
  "two_blocks_kernel = example_kernel\<lparr>headers := (headers example_kernel)
     (0x100000 := \<lparr>block_size = 0x1000, is_free = False, next_block = 0x101028, prev_block = 0, magic = MAGIC_USED\<rparr>,
      0x101028 := \<lparr>block_size = 0xFEFB0, is_free = True, next_block = 0, prev_block = 0x100000, magic = MAGIC_FREE\<rparr>)\<rparr>"

lemma two_blocks_ok: "heap_ok two_blocks_kernel example_heap [0x100000, 0x101028]"
  by (auto simp: heap_ok_def blocks_ok_def linked_def hview_fields example_kernel_def example_heap_def
      two_blocks_kernel_def marked_def virt_ok_def regions_ok_def bounded_region_def
      disjoint_regions_def space_def foot_def free_bytes_def region_bytes_def bytes_of_def)

theorem realloc_moves_contents_witness:
  "\<exists>k' h'. heap_realloc 0x100028 5000 two_blocks_kernel example_heap = Some (0x101050, k', h')
     \<and> byte_at (kmachine k') 0x101053 = byte_at (kmachine two_blocks_kernel) 0x10002B"
proof -
  have r: "HEAP_ALIGN_UP 5000 = 0x2000" "heap_fits 5000"
    by (simp_all add: HEAP_ALIGN_UP_def ALIGN_UP_def ALIGN_DOWN_def heap_fits_def)
  have v: "first_block example_heap = 0x100000" "\<not> is_free (headers two_blocks_kernel 0x100000)"
    "block_size (headers two_blocks_kernel 0x100000) = 0x1000"
    "next_block (headers two_blocks_kernel 0x100000) = 0x101028"
    "is_free (headers two_blocks_kernel 0x101028)" "block_size (headers two_blocks_kernel 0x101028) = 0xFEFB0"
    by (simp_all add: example_heap_def two_blocks_kernel_def)
  have f: "find_free_block 0x2000 two_blocks_kernel example_heap = Some 0x101028"
    using v by (simp add: find_free_block_def find_from.simps [of _ _ "0x100000"] find_from.simps [of _ _ "0x101028"])
  have l: "(0x100000, 0x1000) \<in> live (hview two_blocks_kernel) [0x100000, 0x101028]"
    using v by (simp add: live_def hview_fields)
  show ?thesis
    using realloc_moves_contents [OF two_blocks_ok l r(2), of "0x101028"] r(1) f v(3)
    by (auto simp: block_data_def sizeof_heap_block_def word_less_nat_alt dest!: spec [of _ 3])
qed

end
