(* ===== verification/Multiboot.thy ===== *)
theory Multiboot
  imports Strings
begin

text \<open>
  The boot loader's data, \<^verbatim>\<open>libs/multiboot.hpp\<close>: C structures read from memory field by
  field, each at the offset the compiler gives it. A field of \<open>n\<close> bytes at offset \<open>k\<close> of the
  object at \<open>a\<close> is \<open>get_at n m a k\<close>; a union is one machine word, and its members read parts of it.
\<close>

subsection \<open>Little-endian fields\<close>

fun load_le :: "nat \<Rightarrow> machine \<Rightarrow> addr \<Rightarrow> 'a::len word" where
  "load_le 0 m a = 0"
| "load_le (Suc n) m a = ucast (byte_at m a) OR push_bit 8 (load_le n m (a + 1))"

fun store_le :: "nat \<Rightarrow> addr \<Rightarrow> 'a::len word \<Rightarrow> machine \<Rightarrow> machine" where
  "store_le 0 a v m = m"
| "store_le (Suc n) a v m = store_le n (a + 1) (drop_bit 8 v) (store_byte a (ucast v) m)"

definition get_at :: "nat \<Rightarrow> machine \<Rightarrow> addr \<Rightarrow> nat \<Rightarrow> 'a::len word" where
  "get_at n m a k = load_le n m (a + word_of_nat k)"

definition put_at :: "nat \<Rightarrow> addr \<Rightarrow> nat \<Rightarrow> 'a::len word \<Rightarrow> machine \<Rightarrow> machine" where
  "put_at n a k v m = store_le n (a + word_of_nat k) v m"

lemma byte_at_store_le:
  "n \<le> 18446744073709551616 \<Longrightarrow> byte_at (store_le n a v m) x
    = (if unat (x - a) < n then ucast (drop_bit (8 * unat (x - a)) v) else byte_at m x)"
proof (induction n a v m rule: store_le.induct)
  case (2 n a v m)
  show ?case
  proof (cases "x = a")
    case True
    then show ?thesis using 2 unat_minus_self_Suc [of a] by (simp add: byte_at_store_byte)
  next
    case False
    then show ?thesis using 2 unat_minus_Suc [of x a] by (simp add: byte_at_store_byte add.commute)
  qed
qed simp

lemma bit_load_le:
  "bit (load_le n m a :: 'a::len word) k
    \<longleftrightarrow> k < LENGTH('a) \<and> k < 8 * n \<and> bit (byte_at m (a + word_of_nat (k div 8))) (k mod 8)"
proof (induction n arbitrary: a k)
  case (Suc n)
  show ?case
  proof (cases "k < 8")
    case True
    then show ?thesis by (auto simp: bit_simps)
  next
    case False
    then have "k div 8 = Suc ((k - 8) div 8)" "(k - 8) mod 8 = k mod 8"
      by (simp_all add: le_div_geq le_mod_geq)
    then show ?thesis using False Suc.IH [of "a + 1" "k - 8"]
      by (auto simp: bit_simps add.assoc dest: bit_imp_le_length)
  qed
qed simp

text \<open>Reading a field after writing one of the same object.\<close>

lemma unat_offsets:
  assumes "i < 4294967296" "j < 4294967296"
  shows "unat (a + word_of_nat i - (a + word_of_nat j) :: u64) = (if j \<le> i then i - j else i + 18446744073709551616 - j)"
proof -
  have "unat (word_of_nat i :: u64) = i" "unat (word_of_nat j :: u64) = j"
    using assms by (simp_all add: unat_of_nat take_bit_nat_eq_self)
  then show ?thesis using assms by (simp add: unat_sub_if' add_diff_cancel_left)
qed

lemma byte_at_put:
  assumes "i < 4294967296" "k < 4294967296" "n \<le> 4294967296"
  shows "byte_at (put_at n a k v m) (a + word_of_nat i)
    = (if k \<le> i \<and> i < k + n then ucast (drop_bit (8 * (i - k)) v) else byte_at m (a + word_of_nat i))"
  using assms unat_offsets [of i k a] by (auto simp: put_at_def byte_at_store_le simp del: add_diff_cancel_left)

lemma get_put_other:
  assumes "k + n \<le> j \<or> j + l \<le> k" "k < 2147483648" "j < 2147483648" "n < 2147483648" "l < 2147483648"
  shows "(get_at l (put_at n a k v m) a j :: 'a::len word) = get_at l m a j"
proof (rule bit_eqI)
  fix i
  have "byte_at (put_at n a k v m) (a + word_of_nat (j + i div 8)) = byte_at m (a + word_of_nat (j + i div 8))"
    if "i < 8 * l"
    using that assms by (subst byte_at_put) auto
  then show "bit (get_at l (put_at n a k v m) a j :: 'a word) i = bit (get_at l m a j :: 'a word) i"
    unfolding get_at_def bit_load_le by (auto simp: add.assoc)
qed

lemma get_put_same:
  fixes v :: "'a::len word"
  assumes "LENGTH('a) = 8 * n" "k < 2147483648" "n < 2147483648"
  shows "get_at n (put_at n a k v m) a k = v"
proof (rule bit_word_eqI)
  fix i assume "i < LENGTH('a)"
  with assms have i: "i < 8 * n" "i div 8 < n" by simp_all
  then have "byte_at (put_at n a k v m) (a + word_of_nat (k + i div 8)) = ucast (drop_bit (8 * (i div 8)) v)"
    using assms by (subst byte_at_put) auto
  then show "bit (get_at n (put_at n a k v m) a k :: 'a word) i = bit v i"
    unfolding get_at_def bit_load_le using assms(1) i by (simp add: add.assoc bit_simps)
qed

subsection \<open>Structures\<close>

record symbol_table =
  tabsize :: u32
  strsize :: u32
  symbol_addr :: u32
  symbol_reserved :: u32

record section_header_table =
  section_num :: u32
  section_size :: u32
  section_addr :: u32
  section_shndx :: u32

record multiboot_info =
  mb_flags :: u32
  mem_lower :: u32
  mem_upper :: u32
  boot_device :: u32
  cmdline :: u32
  mods_count :: u32
  mods_addr :: u32
  info_syms :: "128 word"
  mmap_length :: u32
  mmap_addr :: u32
  drives_length :: u32
  drives_addr :: u32
  config_table :: u32
  boot_loader_name :: u32
  apm_table :: u32
  vbe_control_info :: u32
  vbe_mode_info :: u32
  vbe_mode :: u16
  vbe_interface_seg :: u16
  vbe_interface_off :: u16
  vbe_interface_len :: u16
  framebuffer_addr :: u64
  framebuffer_pitch :: u32
  framebuffer_width :: u32
  framebuffer_height :: u32
  framebuffer_bpp :: u8
  framebuffer_type :: u8
  framebuffer_colors :: u64

text \<open>The members of the two unions.\<close>

definition aout_sym :: "multiboot_info \<Rightarrow> symbol_table" where
  "aout_sym i = \<lparr>tabsize = ucast (info_syms i), strsize = ucast (drop_bit 32 (info_syms i)),
     symbol_addr = ucast (drop_bit 64 (info_syms i)), symbol_reserved = ucast (drop_bit 96 (info_syms i))\<rparr>"

definition elf_sec :: "multiboot_info \<Rightarrow> section_header_table" where
  "elf_sec i = \<lparr>section_num = ucast (info_syms i), section_size = ucast (drop_bit 32 (info_syms i)),
     section_addr = ucast (drop_bit 64 (info_syms i)), section_shndx = ucast (drop_bit 96 (info_syms i))\<rparr>"

definition framebuffer_palette :: "multiboot_info \<Rightarrow> u32 \<times> u16" where
  "framebuffer_palette i = (ucast (framebuffer_colors i), ucast (drop_bit 32 (framebuffer_colors i)))"

definition framebuffer_masks :: "multiboot_info \<Rightarrow> (u8 \<times> u8) list" where
  "framebuffer_masks i = map (\<lambda>k. (ucast (drop_bit (16 * k) (framebuffer_colors i)),
     ucast (drop_bit (16 * k + 8) (framebuffer_colors i)))) [0, 1, 2]"

text \<open>The object at an address. The two bytes after the type of the frame buffer are padding.\<close>

definition read_boot_info :: "machine \<Rightarrow> addr \<Rightarrow> multiboot_info" where
  "read_boot_info m a = \<lparr>mb_flags = get_at 4 m a 0, mem_lower = get_at 4 m a 4, mem_upper = get_at 4 m a 8,
     boot_device = get_at 4 m a 12, cmdline = get_at 4 m a 16,
     mods_count = get_at 4 m a 20, mods_addr = get_at 4 m a 24, info_syms = get_at 16 m a 28,
     mmap_length = get_at 4 m a 44, mmap_addr = get_at 4 m a 48,
     drives_length = get_at 4 m a 52, drives_addr = get_at 4 m a 56,
     config_table = get_at 4 m a 60, boot_loader_name = get_at 4 m a 64, apm_table = get_at 4 m a 68,
     vbe_control_info = get_at 4 m a 72, vbe_mode_info = get_at 4 m a 76, vbe_mode = get_at 2 m a 80,
     vbe_interface_seg = get_at 2 m a 82, vbe_interface_off = get_at 2 m a 84, vbe_interface_len = get_at 2 m a 86,
     framebuffer_addr = get_at 8 m a 88, framebuffer_pitch = get_at 4 m a 96,
     framebuffer_width = get_at 4 m a 100, framebuffer_height = get_at 4 m a 104,
     framebuffer_bpp = get_at 1 m a 108, framebuffer_type = get_at 1 m a 109,
     framebuffer_colors = get_at 8 m a 112\<rparr>"

text \<open>The same object as the boot loader writes it.\<close>

definition write_boot_info :: "addr \<Rightarrow> multiboot_info \<Rightarrow> machine \<Rightarrow> machine" where
  "write_boot_info a i = fold (\<lambda>f. f)
     [put_at 4 a 0 (mb_flags i), put_at 4 a 4 (mem_lower i), put_at 4 a 8 (mem_upper i),
      put_at 4 a 12 (boot_device i), put_at 4 a 16 (cmdline i),
      put_at 4 a 20 (mods_count i), put_at 4 a 24 (mods_addr i), put_at 16 a 28 (info_syms i),
      put_at 4 a 44 (mmap_length i), put_at 4 a 48 (mmap_addr i),
      put_at 4 a 52 (drives_length i), put_at 4 a 56 (drives_addr i),
      put_at 4 a 60 (config_table i), put_at 4 a 64 (boot_loader_name i), put_at 4 a 68 (apm_table i),
      put_at 4 a 72 (vbe_control_info i), put_at 4 a 76 (vbe_mode_info i), put_at 2 a 80 (vbe_mode i),
      put_at 2 a 82 (vbe_interface_seg i), put_at 2 a 84 (vbe_interface_off i), put_at 2 a 86 (vbe_interface_len i),
      put_at 8 a 88 (framebuffer_addr i), put_at 4 a 96 (framebuffer_pitch i),
      put_at 4 a 100 (framebuffer_width i), put_at 4 a 104 (framebuffer_height i),
      put_at 1 a 108 (framebuffer_bpp i), put_at 1 a 109 (framebuffer_type i),
      put_at 8 a 112 (framebuffer_colors i)]"

lemma read_write_boot_info: "read_boot_info (write_boot_info a i m) a = i"
  by (cases i) (simp add: read_boot_info_def write_boot_info_def get_put_other get_put_same del: One_nat_def)

text \<open>What is written at an object leaves the bytes beside it alone.\<close>

lemma byte_at_put_beside:
  assumes "k + n \<le> unat (x - a)" "k + n < 4294967296"
  shows "byte_at (put_at n a k v m) x = byte_at m x"
proof -
  have k: "unat (word_of_nat k :: u64) = k" using assms(2) by (simp add: unat_of_nat take_bit_nat_eq_self)
  have "unat (x - (a + word_of_nat k)) = unat (x - a) - k"
    using assms k by (simp add: diff_diff_eq [symmetric] unat_sub_nowrap wordnat)
  then show ?thesis using assms by (auto simp: put_at_def byte_at_store_le)
qed

lemma write_boot_info_beside: "same_bytes (\<lambda>x. 120 \<le> unat (x - a)) m (write_boot_info a i m)"
  by (simp add: same_bytes_def write_boot_info_def byte_at_put_beside del: One_nat_def)

lemma get_at_cong:
  assumes "same_bytes P m m'" "\<And>i. i < l \<Longrightarrow> P (a + word_of_nat i)" "k + n \<le> l"
  shows "(get_at n m' a k :: 'a::len word) = get_at n m a k"
proof (rule bit_eqI)
  fix i
  have "byte_at m' (a + word_of_nat (k + i div 8)) = byte_at m (a + word_of_nat (k + i div 8))" if "i < 8 * n"
  proof -
    have "k + i div 8 < l" using that assms(3) by auto
    then have "P (a + word_of_nat (k + i div 8))" by (rule assms(2))
    then show ?thesis using assms(1) unfolding same_bytes_def by blast
  qed
  then show "bit (get_at n m' a k :: 'a word) i = bit (get_at n m a k :: 'a word) i"
    unfolding get_at_def bit_load_le by (auto simp: add.assoc)
qed

lemma read_boot_info_cong:
  assumes "same_bytes P m m'" "\<And>i. i < 120 \<Longrightarrow> P (a + word_of_nat i)"
  shows "read_boot_info m' a = read_boot_info m a"
  by (simp add: read_boot_info_def get_at_cong [OF assms] del: One_nat_def)

subsection \<open>The memory map\<close>

text \<open>The packed \<^verbatim>\<open>struct multiboot_mmap_entry\<close>. Its field \<^verbatim>\<open>size\<close> does not count itself.\<close>

record mmap_entry =
  entry_size :: u32
  entry_addr :: u64
  entry_len :: u64
  entry_type :: u32

definition read_entry :: "machine \<Rightarrow> addr \<Rightarrow> mmap_entry" where
  "read_entry m a = \<lparr>entry_size = get_at 4 m a 0, entry_addr = get_at 8 m a 4,
     entry_len = get_at 8 m a 12, entry_type = get_at 4 m a 20\<rparr>"

definition write_entry :: "addr \<Rightarrow> mmap_entry \<Rightarrow> machine \<Rightarrow> machine" where
  "write_entry a e m = put_at 4 a 20 (entry_type e) (put_at 8 a 12 (entry_len e)
     (put_at 8 a 4 (entry_addr e) (put_at 4 a 0 (entry_size e) m)))"

lemma read_write_entry: "read_entry (write_entry a e m) a = e"
  by (cases e) (simp add: read_entry_def write_entry_def get_put_other get_put_same)

lemma write_entry_beside: "same_bytes (\<lambda>x. 24 \<le> unat (x - a)) m (write_entry a e m)"
  by (simp add: same_bytes_def write_entry_def byte_at_put_beside)

lemma read_entry_cong:
  assumes "same_bytes P m m'" "\<And>i. i < 24 \<Longrightarrow> P (a + word_of_nat i)"
  shows "read_entry m' a = read_entry m a"
  by (simp add: read_entry_def get_at_cong [OF assms] del: One_nat_def)

text \<open>A map of entries one after the other, as the boot loader writes it and as it is walked.\<close>

fun write_mmap :: "addr \<Rightarrow> mmap_entry list \<Rightarrow> machine \<Rightarrow> machine" where
  "write_mmap a [] m = m"
| "write_mmap a (x # xs) m = write_mmap (a + ucast (entry_size x) + 4) xs (write_entry a x m)"

fun mmap_laid :: "machine \<Rightarrow> addr \<Rightarrow> mmap_entry list \<Rightarrow> addr \<Rightarrow> bool" where
  "mmap_laid m a [] e \<longleftrightarrow> a = e"
| "mmap_laid m a (x # xs) e \<longleftrightarrow>
     a < e \<and> read_entry m a = x \<and> mmap_laid m (a + ucast (entry_size x) + 4) xs e"

definition mmap_bytes :: "mmap_entry list \<Rightarrow> nat" where
  "mmap_bytes es = (\<Sum>x \<leftarrow> es. unat (entry_size x) + 4)"

lemma mmap_bytes_simps [simp]:
  "mmap_bytes [] = 0" "mmap_bytes (x # xs) = unat (entry_size x) + 4 + mmap_bytes xs"
  by (simp_all add: mmap_bytes_def)

lemma unat_next_entry:
  assumes "unat (a :: u64) + mmap_bytes (x # xs) < 18446744073709551616"
  shows "unat (a + ucast (entry_size x) + 4) = unat a + unat (entry_size x) + 4"
proof -
  have "unat (ucast (entry_size x) :: u64) = unat (entry_size x)"
    using u32_bound [of "entry_size x"] by (simp add: unsigned_ucast_eq take_bit_nat_eq_self)
  then show ?thesis
    using assms unat_add_nowrap [of a "ucast (entry_size x)"] unat_add_nowrap [of "a + ucast (entry_size x)" 4]
    by simp
qed

lemma unat_beside: "a \<le> (x :: u64) \<Longrightarrow> unat a + n \<le> unat x \<Longrightarrow> n \<le> unat (x - a)"
  by (simp add: unat_sub_nowrap)

lemma unat_before:
  assumes "x < (a :: u64)" "unat a + n \<le> 18446744073709551616"
  shows "n \<le> unat (x - a)"
  using assms by (simp add: unat_sub_if' wordnat)

lemma write_mmap_beside:
  assumes "unat a + mmap_bytes es < 18446744073709551616" "\<forall>x \<in> set es. 20 \<le> unat (entry_size x)"
  shows "same_bytes (\<lambda>x. unat x < unat a \<or> unat a + mmap_bytes es \<le> unat x) m (write_mmap a es m)"
  using assms
proof (induction es arbitrary: a m)
  case (Cons e es)
  let ?b = "a + ucast (entry_size e) + 4"
  have b: "unat ?b = unat a + unat (entry_size e) + 4" by (rule unat_next_entry [OF Cons.prems(1)])
  have "byte_at (write_mmap ?b es (write_entry a e m)) x = byte_at (write_entry a e m) x"
    if "unat x < unat a \<or> unat a + mmap_bytes (e # es) \<le> unat x" for x
    using Cons.IH [of ?b "write_entry a e m"] Cons.prems b that by (auto simp: same_bytes_def)
  moreover have "byte_at (write_entry a e m) x = byte_at m x"
    if "unat x < unat a \<or> unat a + mmap_bytes (e # es) \<le> unat x" for x
  proof -
    have "24 \<le> unat (x - a)"
      using that Cons.prems unat_beside [of a x 24] unat_before [of x a 24] by (auto simp: wordnat)
    then show ?thesis using write_entry_beside [of a m e] by (simp add: same_bytes_def)
  qed
  ultimately show ?case by (simp add: same_bytes_def)
qed (simp add: same_bytes_def)

text \<open>A memory map written by the boot loader is read back entry by entry.\<close>

lemma write_mmap_laid:
  assumes "unat a + mmap_bytes es < 18446744073709551616" "\<forall>x \<in> set es. 20 \<le> unat (entry_size x)"
  shows "mmap_laid (write_mmap a es m) a es (a + word_of_nat (mmap_bytes es))"
  using assms
proof (induction es arbitrary: a m)
  case (Cons e es)
  let ?b = "a + ucast (entry_size e) + 4" and ?n = "mmap_bytes (e # es)"
  have b: "unat ?b = unat a + unat (entry_size e) + 4" by (rule unat_next_entry [OF Cons.prems(1)])
  have "read_entry (write_mmap ?b es (write_entry a e m)) a = read_entry (write_entry a e m) a"
  proof (rule read_entry_cong)
    show "same_bytes (\<lambda>x. unat x < unat ?b \<or> unat ?b + mmap_bytes es \<le> unat x) (write_entry a e m)
      (write_mmap ?b es (write_entry a e m))"
      using Cons.prems b by (intro write_mmap_beside) simp_all
    show "unat (a + word_of_nat i) < unat ?b \<or> unat ?b + mmap_bytes es \<le> unat (a + word_of_nat i)"
      if "i < 24" for i
      using that Cons.prems b by (simp add: unat_add_small)
  qed
  moreover have "mmap_laid (write_mmap ?b es (write_entry a e m)) ?b es (?b + word_of_nat (mmap_bytes es))"
    using Cons.prems b by (intro Cons.IH) simp_all
  moreover have "?b + word_of_nat (mmap_bytes es) = a + word_of_nat ?n" by (simp add: algebra_simps)
  moreover have "a < a + word_of_nat ?n"
    using unat_add_small [OF Cons.prems(1)] by (simp only: wordnat mmap_bytes_simps)
  ultimately show ?case by (simp add: read_write_entry)
qed simp

text \<open>Records and maps are kept with the bytes they lie in.\<close>

lemma read_boot_info_kept:
  assumes "same_bytes (\<lambda>x. unat x \<in> R) m m'" "bytes_of a 120 \<subseteq> R" "unat a + 120 < 18446744073709551616"
  shows "read_boot_info m' a = read_boot_info m a"
proof (rule read_boot_info_cong [OF assms(1)])
  fix i :: nat assume "i < 120"
  moreover from this have "unat (a + word_of_nat i) = unat a + i"
    using assms(3) by (intro unat_add_small) simp
  ultimately show "unat (a + word_of_nat i) \<in> R" using assms(2) by (auto simp: bytes_of_def)
qed

lemma mmap_laid_kept:
  assumes "same_bytes (\<lambda>x. unat x \<in> R) m m'" "bytes_of a (mmap_bytes es) \<subseteq> R"
    "unat a + mmap_bytes es < 18446744073709551616" "\<forall>x \<in> set es. 20 \<le> unat (entry_size x)"
  shows "mmap_laid m' a es e = mmap_laid m a es e"
  using assms(2-4)
proof (induction es arbitrary: a)
  case (Cons x es)
  let ?b = "a + ucast (entry_size x) + 4"
  have b: "unat ?b = unat a + unat (entry_size x) + 4" by (rule unat_next_entry [OF Cons.prems(2)])
  have "read_entry m' a = read_entry m a"
  proof (rule read_entry_cong [OF assms(1)])
    fix i :: nat assume i: "i < 24"
    have x: "i < mmap_bytes (x # es)" using i Cons.prems(3) by simp
    then have "unat (a + word_of_nat i) = unat a + i" using Cons.prems(2) by (intro unat_add_small) simp
    then show "unat (a + word_of_nat i) \<in> R" using x Cons.prems(1) by (auto simp: bytes_of_def)
  qed
  moreover have "mmap_laid m' ?b es e = mmap_laid m ?b es e"
  proof (rule Cons.IH)
    show "bytes_of ?b (mmap_bytes es) \<subseteq> R" using Cons.prems(1) b by (auto simp: bytes_of_def)
    show "unat ?b + mmap_bytes es < 18446744073709551616" using Cons.prems(2) b by simp
  qed (use Cons.prems(3) in simp)
  ultimately show ?case by simp
qed simp

text \<open>Writing objects changes nothing but memory.\<close>

lemma store_le_rest [simp]:
  "placement (store_le n a v m) = placement m" "cr3 (store_le n a v m) = cr3 m"
  "invlpgs (store_le n a v m) = invlpgs m"
  by (induction n a v m rule: store_le.induct) simp_all

lemma put_at_rest [simp]:
  "placement (put_at n a k v m) = placement m" "cr3 (put_at n a k v m) = cr3 m"
  "invlpgs (put_at n a k v m) = invlpgs m"
  by (simp_all add: put_at_def)

lemma write_boot_info_rest [simp]:
  "placement (write_boot_info a i m) = placement m" "cr3 (write_boot_info a i m) = cr3 m"
  "invlpgs (write_boot_info a i m) = invlpgs m"
  by (simp_all add: write_boot_info_def)

lemma write_mmap_rest [simp]:
  "placement (write_mmap a es m) = placement m" "cr3 (write_mmap a es m) = cr3 m"
  "invlpgs (write_mmap a es m) = invlpgs m"
  by (induction a es m rule: write_mmap.induct) (simp_all add: write_entry_def)

subsection \<open>Structures the kernel only declares\<close>

record multiboot_header =
  header_magic :: u32
  header_flags :: u32
  header_checksum :: u32
  header_addr :: u32
  load_addr :: u32
  load_end_addr :: u32
  bss_end_addr :: u32
  entry_addr32 :: u32
  mode_type :: u32
  header_width :: u32
  header_height :: u32
  header_depth :: u32

record mod_list =
  mod_start :: u32
  mod_end :: u32
  mod_cmdline :: u32
  mod_pad :: u32

record apm_info =
  apm_version :: u16
  apm_cseg :: u16
  apm_offset :: u32
  apm_cseg_16 :: u16
  apm_dseg :: u16
  apm_flags :: u16
  apm_cseg_len :: u16
  apm_cseg_16_len :: u16
  apm_dseg_len :: u16

record multiboot_color =
  red :: u8
  green :: u8
  blue :: u8

definition read_header :: "machine \<Rightarrow> addr \<Rightarrow> multiboot_header" where
  "read_header m a = \<lparr>header_magic = get_at 4 m a 0, header_flags = get_at 4 m a 4,
     header_checksum = get_at 4 m a 8, header_addr = get_at 4 m a 12, load_addr = get_at 4 m a 16,
     load_end_addr = get_at 4 m a 20, bss_end_addr = get_at 4 m a 24, entry_addr32 = get_at 4 m a 28,
     mode_type = get_at 4 m a 32, header_width = get_at 4 m a 36, header_height = get_at 4 m a 40,
     header_depth = get_at 4 m a 44\<rparr>"

definition read_module :: "machine \<Rightarrow> addr \<Rightarrow> mod_list" where
  "read_module m a = \<lparr>mod_start = get_at 4 m a 0, mod_end = get_at 4 m a 4,
     mod_cmdline = get_at 4 m a 8, mod_pad = get_at 4 m a 12\<rparr>"

definition read_apm_info :: "machine \<Rightarrow> addr \<Rightarrow> apm_info" where
  "read_apm_info m a = \<lparr>apm_version = get_at 2 m a 0, apm_cseg = get_at 2 m a 2,
     apm_offset = get_at 4 m a 4, apm_cseg_16 = get_at 2 m a 8, apm_dseg = get_at 2 m a 10,
     apm_flags = get_at 2 m a 12, apm_cseg_len = get_at 2 m a 14, apm_cseg_16_len = get_at 2 m a 16,
     apm_dseg_len = get_at 2 m a 18\<rparr>"

definition read_color :: "machine \<Rightarrow> addr \<Rightarrow> multiboot_color" where
  "read_color m a = \<lparr>red = get_at 1 m a 0, green = get_at 1 m a 1, blue = get_at 1 m a 2\<rparr>"

end
