(* ===== verification/Logger.thy ===== *)
theory Logger
  imports Main
begin

text \<open>
  The logger of \<^verbatim>\<open>libs/logger.hpp\<close>: it takes a level and a message and does nothing with
  either, so the models of the routines that log leave their messages out, except where logging
  is all the routine does.
\<close>

datatype log_level = TRACE | INFO | WARNING | ERROR | CRITICAL

definition log :: "log_level \<Rightarrow> string \<Rightarrow> 's \<Rightarrow> 's" where
  "log level message s = s"

end
