(* ===== verification/Manager.thy ===== *)
theory Manager
  imports Heap_Properties Multiboot Logger
begin

text \<open>
  Start-up of memory management: \<^verbatim>\<open>memory/memory_manager.cpp\<close>, the global functions at
  the end of \<^verbatim>\<open>memory/heap.cpp\<close>, and \<^verbatim>\<open>kalloc\<close> and \<^verbatim>\<open>kfree\<close> of
  \<^verbatim>\<open>memory/allocators.cpp\<close>. The record \<open>memory_state\<close> holds the global pointers; the objects
  they point to are in \<open>world\<close> and \<open>kheap\<close>. The boot loader's memory map is walked in
  memory, entry by entry (theory \<open>Multiboot\<close>).
\<close>

subsection \<open>State\<close>

record memory_state =
  world :: kernel
  g_physical_manager :: addr
  g_kernel_virtual_manager :: addr
  g_kernel_heap :: addr
  kheap :: heap

record memory_stats =
  total_physical :: u64
  available_physical :: u64
  used_physical :: u64
  kernel_heap_size :: u64
  kernel_heap_used :: u64

definition MULTIBOOT_INFO_MEMORY :: u32 where
  "MULTIBOOT_INFO_MEMORY = 0x00000001"

definition MULTIBOOT_INFO_MEM_MAP :: u32 where
  "MULTIBOOT_INFO_MEM_MAP = 0x00000040"

definition MULTIBOOT_MEMORY_AVAILABLE :: u32 where
  "MULTIBOOT_MEMORY_AVAILABLE = 1"

definition sizeof_physical :: u64 where
  "sizeof_physical = 16"

definition sizeof_virt :: u64 where
  "sizeof_virt = 24"

definition sizeof_heap :: u64 where
  "sizeof_heap = 80"

subsection \<open>The memory map\<close>

text \<open>What one entry does to the total, and to the start and size of the largest region so far.\<close>

definition scan_entry :: "mmap_entry \<Rightarrow> u64 \<times> addr \<times> u64 \<Rightarrow> u64 \<times> addr \<times> u64" where
  "scan_entry e s =
     (case s of (tot, st, sz) \<Rightarrow>
        if entry_type e = MULTIBOOT_MEMORY_AVAILABLE then
          let tot = tot + entry_len e
          in if entry_addr e < MB 8 then
               if entry_addr e + entry_len e > MB 8 then
                 let available_start = MB 8;
                     available_size = (entry_addr e + entry_len e) - MB 8
                 in if available_size > sz then (tot, available_start, available_size)
                    else (tot, st, sz)
               else (tot, st, sz)
             else if entry_len e > sz then (tot, entry_addr e, entry_len e)
             else (tot, st, sz)
        else (tot, st, sz))"

partial_function (option) scan_mmap ::
  "machine \<Rightarrow> addr \<Rightarrow> addr \<Rightarrow> u64 \<times> addr \<times> u64 \<Rightarrow> (u64 \<times> addr \<times> u64) option" where
  "scan_mmap m mmap mmap_end s =
     (if mmap < mmap_end then
        scan_mmap m (mmap + ucast (entry_size (read_entry m mmap)) + 4) mmap_end
          (scan_entry (read_entry m mmap) s)
      else Some s)"

text \<open>The start and size of the largest region; the outer \<open>None\<close> is a scan that never ends, the
  inner one the early return when the boot loader gives no memory information.\<close>

definition largest_region :: "multiboot_info \<Rightarrow> machine \<Rightarrow> (addr \<times> u64) option option" where
  "largest_region bootinfo m =
     (if mb_flags bootinfo AND MULTIBOOT_INFO_MEM_MAP \<noteq> 0 then
        (case scan_mmap m (ucast (mmap_addr bootinfo) + KVIRTUAL_ADDRESS)
               (ucast (mmap_addr bootinfo + mmap_length bootinfo) + KVIRTUAL_ADDRESS) (0, 0, 0) of
           None \<Rightarrow> None
         | Some (tot, st, sz) \<Rightarrow> Some (Some (st, sz)))
      else if mb_flags bootinfo AND MULTIBOOT_INFO_MEMORY \<noteq> 0 then
        (let upper_mem = ucast (mem_upper bootinfo * 1024) in Some (Some (MB 8, upper_mem - (MB 8 - MB 1))))
      else Some None)"

subsection \<open>Initialisation\<close>

definition init_kernel_heap :: "memory_state \<Rightarrow> memory_state" where
  "init_kernel_heap s =
     (if g_kernel_heap s \<noteq> 0 then s
      else
        let INITIAL_HEAP_SIZE = MB 1;
            k = world s
        in case virt_alloc INITIAL_HEAP_SIZE (kvirtual k) of (heap_vaddr, v) \<Rightarrow>
          let k = k\<lparr>kvirtual := v\<rparr> in
          if heap_vaddr = 0 then s\<lparr>world := k\<rparr>
          else case placement_kalloc sizeof_heap True (kmachine k) of (heap_obj_addr, m) \<Rightarrow>
            (case heap_new heap_vaddr INITIAL_HEAP_SIZE (k\<lparr>kmachine := m\<rparr>) of (k, h) \<Rightarrow>
               s\<lparr>world := k, kheap := h, g_kernel_heap := heap_obj_addr\<rparr>))"

definition init_virtual :: "memory_state \<Rightarrow> memory_state" where
  "init_virtual s =
     (case placement_kalloc sizeof_virt True (kmachine (world s)) of (virt_mgr_addr, m) \<Rightarrow>
        (case virt_new m of (m, v) \<Rightarrow>
           s\<lparr>world := (world s)\<lparr>kmachine := m, kvirtual := v\<rparr>, g_kernel_virtual_manager := virt_mgr_addr\<rparr>))"

definition init_physical :: "addr \<Rightarrow> u64 \<Rightarrow> memory_state \<Rightarrow> memory_state option" where
  "init_physical st sz s =
     (case placement_kalloc sizeof_physical True (kmachine (world s)) of (phys_mgr_addr, m) \<Rightarrow>
        (case physical_setup st sz m physical_new of
           None \<Rightarrow> None
         | Some (m, p) \<Rightarrow>
             Some (s\<lparr>world := (world s)\<lparr>kmachine := m, kphysical := p\<rparr>, g_physical_manager := phys_mgr_addr\<rparr>)))"

definition initialize_memory :: "multiboot_info \<Rightarrow> memory_state \<Rightarrow> memory_state option" where
  "initialize_memory bootinfo s =
     (case largest_region bootinfo (kmachine (world s)) of
        None \<Rightarrow> None
      | Some None \<Rightarrow> Some s
      | Some (Some (st, sz)) \<Rightarrow>
          if sz < MB 4 then Some s
          else case init_physical st sz s of
                 None \<Rightarrow> None
               | Some s \<Rightarrow> Some (init_kernel_heap (init_virtual s)))"

definition print_stats :: "memory_state \<Rightarrow> memory_state" where
  "print_stats s =
     fold (log INFO) [''=== Kernel Heap Statistics ==='', ''Total heap size (KB):'', ''Allocated (KB):'',
       ''Free (KB):'', ''Total allocations:'', ''Total frees:'', ''Outstanding allocations:''] s"

definition print_memory_info :: "memory_state \<Rightarrow> memory_state" where
  "print_memory_info s =
     (if g_physical_manager s = 0 \<or> g_kernel_virtual_manager s = 0
      then log WARNING ''Memory managers not initialized'' s
      else let s = log INFO ''=== Memory Information ==='' s
           in if g_kernel_heap s \<noteq> 0 then print_stats s else s)"

lemma print_memory_info_silent [simp]: "print_memory_info s = s"
  by (simp add: print_memory_info_def print_stats_def log_def)

definition get_memory_stats :: "memory_state \<Rightarrow> memory_stats" where
  "get_memory_stats s =
     (let stats = \<lparr>total_physical = 0, available_physical = 0, used_physical = 0,
                   kernel_heap_size = 0, kernel_heap_used = 0\<rparr>
      in if g_kernel_heap s \<noteq> 0
         then stats\<lparr>kernel_heap_size := get_total_size (kheap s),
                    kernel_heap_used := get_allocated_size (kheap s)\<rparr>
         else stats)"

subsection \<open>The global allocation functions\<close>

text \<open>Running a heap operation on the global heap.\<close>

definition on_heap :: "(kernel \<Rightarrow> heap \<Rightarrow> (addr \<times> kernel \<times> heap) option) \<Rightarrow> memory_state \<Rightarrow>
    (addr \<times> memory_state) option" where
  "on_heap f s =
     (case f (world s) (kheap s) of None \<Rightarrow> None
      | Some (p, k, h) \<Rightarrow> Some (p, s\<lparr>world := k, kheap := h\<rparr>))"

definition on_placement :: "u64 \<Rightarrow> memory_state \<Rightarrow> (addr \<times> memory_state) option" where
  "on_placement n s =
     (case placement_kalloc n True (kmachine (world s)) of (p, m) \<Rightarrow>
        Some (p, s\<lparr>world := (world s)\<lparr>kmachine := m\<rparr>\<rparr>))"

definition kmalloc :: "u64 \<Rightarrow> memory_state \<Rightarrow> (addr \<times> memory_state) option" where
  "kmalloc n s = (if g_kernel_heap s = 0 then on_placement n s else on_heap (heap_malloc n) s)"

definition kfree :: "addr \<Rightarrow> memory_state \<Rightarrow> memory_state" where
  "kfree p s =
     (if g_kernel_heap s = 0 \<or> p = 0 then s
      else case heap_free p (world s) (kheap s) of (k, h) \<Rightarrow> s\<lparr>world := k, kheap := h\<rparr>)"

definition krealloc :: "addr \<Rightarrow> u64 \<Rightarrow> memory_state \<Rightarrow> (addr \<times> memory_state) option" where
  "krealloc p n s = (if g_kernel_heap s = 0 then Some (0, s) else on_heap (heap_realloc p n) s)"

definition kcalloc :: "u64 \<Rightarrow> u64 \<Rightarrow> memory_state \<Rightarrow> (addr \<times> memory_state) option" where
  "kcalloc num n s = (if g_kernel_heap s = 0 then Some (0, s) else on_heap (heap_calloc num n) s)"

definition kmalloc_aligned :: "u64 \<Rightarrow> u64 \<Rightarrow> memory_state \<Rightarrow> (addr \<times> memory_state) option" where
  "kmalloc_aligned al n s = (if g_kernel_heap s = 0 then Some (0, s) else on_heap (aligned_alloc al n) s)"

text \<open>The functions of \<^verbatim>\<open>allocators.cpp\<close>, outside the namespace.\<close>

definition kalloc :: "u64 \<Rightarrow> memory_state \<Rightarrow> (addr \<times> memory_state) option" where
  "kalloc n s = (if g_kernel_heap s \<noteq> 0 then kmalloc n s else on_placement n s)"

definition kernel_kfree :: "addr \<Rightarrow> memory_state \<Rightarrow> memory_state" where
  "kernel_kfree p s = (if g_kernel_heap s \<noteq> 0 then kfree p s else s)"

subsection \<open>The largest region\<close>

definition available :: "mmap_entry \<Rightarrow> bool" where
  "available x \<longleftrightarrow> entry_type x = MULTIBOOT_MEMORY_AVAILABLE"

definition entry_fits :: "mmap_entry \<Rightarrow> bool" where
  "entry_fits x \<longleftrightarrow> unat (entry_addr x) + unat (entry_len x) < 18446744073709551616"

text \<open>The bytes of an entry the kernel may use: it keeps the first 8 MB for itself.\<close>

definition usable :: "mmap_entry \<Rightarrow> nat set" where
  "usable x = (if available x then bytes_of (entry_addr x) (unat (entry_len x)) - {..<8388608} else {})"

lemma scan_mmap_laid:
  "mmap_laid m a es e \<Longrightarrow> scan_mmap m a e s = Some (fold scan_entry es s)"
  by (induction es arbitrary: a s) (simp_all add: scan_mmap.simps [of m _ e])

lemma scan_entry_best:
  assumes "scan_entry x (t, a, n) = (t', a', n')" and "entry_fits x"
  shows "n \<le> n' \<and> card (usable x) \<le> unat n' \<and> (a' = a \<and> n' = n \<or> usable x = bytes_of a' (unat n'))
    \<and> t' = (if available x then t + entry_len x else t)"
proof (cases "available x")
  case False
  then show ?thesis using assms(1) by (simp add: scan_entry_def available_def usable_def)
next
  case True
  let ?a = "unat (entry_addr x)" and ?n = "unat (entry_len x)"
  have sum: "unat (entry_addr x + entry_len x) = ?a + ?n"
    using assms(2) by (simp add: entry_fits_def unat_add_nowrap)
  have mb: "unat (MB 8) = 8388608" by (simp add: size_literals)
  have u: "usable x = {max ?a 8388608 ..< ?a + ?n}"
    using True by (auto simp: usable_def bytes_of_def)
  define st sz where "st = (if entry_addr x < MB 8 then MB 8 else entry_addr x)"
    and "sz = (if \<not> entry_addr x < MB 8 then entry_len x
       else if entry_addr x + entry_len x > MB 8 then entry_addr x + entry_len x - MB 8 else 0)"
  have s: "scan_entry x (t, a, n) = (t + entry_len x, if sz > n then (st, sz) else (a, n))"
    using True unfolding scan_entry_def available_def st_def sz_def Let_def
    by (cases "entry_addr x < MB 8") simp_all
  have "unat sz = ?a + ?n - max ?a 8388608"
    using sum mb by (simp add: sz_def unat_sub wordnat)
  moreover have "unat st = max ?a 8388608" using mb by (simp add: st_def wordnat)
  ultimately have "card (usable x) = unat sz" "usable x = bytes_of st (unat sz)"
    by (auto simp: u bytes_of_def)
  then show ?thesis using s assms(1) True by (simp add: wordnat split: if_splits)
qed

lemma fold_scan_best:
  assumes "fold scan_entry es (t, a, n) = (t', a', n')" and "\<forall>x \<in> set es. entry_fits x"
  shows "n \<le> n' \<and> (\<forall>x \<in> set es. card (usable x) \<le> unat n')
    \<and> (a' = a \<and> n' = n \<or> (\<exists>x \<in> set es. usable x = bytes_of a' (unat n')))
    \<and> t' = t + sum_list (map entry_len (filter available es))"
  using assms
proof (induction es arbitrary: t a n)
  case (Cons x es)
  obtain t1 a1 n1 where 1: "scan_entry x (t, a, n) = (t1, a1, n1)" by (cases "scan_entry x (t, a, n)")
  have 2: "fold scan_entry es (t1, a1, n1) = (t', a', n')" using Cons.prems(1) 1 by simp
  have "n \<le> n1 \<and> card (usable x) \<le> unat n1 \<and> (a1 = a \<and> n1 = n \<or> usable x = bytes_of a1 (unat n1))
    \<and> t1 = (if available x then t + entry_len x else t)"
    using scan_entry_best [OF 1] Cons.prems(2) by simp
  moreover have "n1 \<le> n' \<and> (\<forall>x \<in> set es. card (usable x) \<le> unat n')
    \<and> (a' = a1 \<and> n' = n1 \<or> (\<exists>x \<in> set es. usable x = bytes_of a' (unat n')))
    \<and> t' = t1 + sum_list (map entry_len (filter available es))"
    using Cons.IH [OF 2] Cons.prems(2) by simp
  ultimately show ?case by (auto simp: wordnat)
qed simp

text \<open>C30. Scanning the boot loader's memory map ends, and finds the largest run of available bytes
  above the kernel's 8 MB that one entry offers; the total is the sum of the available entries'
  lengths.\<close>

theorem scan_finds_largest_region:
  assumes "mmap_laid m a es e" and "\<forall>x \<in> set es. entry_fits x"
  shows "\<exists>st n. scan_mmap m a e (0, 0, 0) = Some (sum_list (map entry_len (filter available es)), st, n)
    \<and> (\<forall>x \<in> set es. card (usable x) \<le> unat n)
    \<and> (n = 0 \<or> (\<exists>x \<in> set es. usable x = bytes_of st (unat n)))"
proof -
  obtain t st n where f: "fold scan_entry es (0, 0, 0) = (t, st, n)"
    by (cases "fold scan_entry es (0, 0, 0)")
  show ?thesis
    using fold_scan_best [OF f assms(2)] scan_mmap_laid [OF assms(1), of "(0, 0, 0)"] f by auto
qed

text \<open>A memory map as a boot loader writes it: 639 KB of low memory and the memory from 1 MB up to 3 GB,
  for a kernel image that ends 4 MB into physical memory.\<close>

definition basic_info :: "u32 \<Rightarrow> u32 \<Rightarrow> u32 \<Rightarrow> u32 \<Rightarrow> u32 \<Rightarrow> multiboot_info" where
  "basic_info flags lower upper len a = \<lparr>mb_flags = flags, mem_lower = lower, mem_upper = upper, boot_device = 0,
     cmdline = 0, mods_count = 0, mods_addr = 0, info_syms = 0, mmap_length = len, mmap_addr = a,
     drives_length = 0, drives_addr = 0, config_table = 0, boot_loader_name = 0, apm_table = 0,
     vbe_control_info = 0, vbe_mode_info = 0, vbe_mode = 0, vbe_interface_seg = 0, vbe_interface_off = 0,
     vbe_interface_len = 0, framebuffer_addr = 0, framebuffer_pitch = 0, framebuffer_width = 0,
     framebuffer_height = 0, framebuffer_bpp = 0, framebuffer_type = 0, framebuffer_colors = 0\<rparr>"

lemma basic_info_simps [simp]:
  "mb_flags (basic_info f l u n a) = f" "mem_lower (basic_info f l u n a) = l"
  "mem_upper (basic_info f l u n a) = u" "mmap_length (basic_info f l u n a) = n"
  "mmap_addr (basic_info f l u n a) = a"
  by (simp_all add: basic_info_def)

definition boot_info :: multiboot_info where
  "boot_info = basic_info 0x40 0 0 48 0x10000"

definition boot_entries :: "mmap_entry list" where
  "boot_entries = [\<lparr>entry_size = 20, entry_addr = 0, entry_len = 0x9FC00, entry_type = 1\<rparr>,
     \<lparr>entry_size = 20, entry_addr = 0x100000, entry_len = 0xBFF00000, entry_type = 1\<rparr>]"

definition boot_machine :: machine where
  "boot_machine = write_mmap 0xFFFFFFFF80010000 boot_entries (write_boot_info 0xFFFFFFFF80009000 boot_info
     \<lparr>placement = 0xFFFFFFFF80400000, mem = (\<lambda>a. 0), cr3 = 0x1000, invlpgs = []\<rparr>)"

lemma boot_machine_placement [simp]: "placement boot_machine = 0xFFFFFFFF80400000"
  by (simp add: boot_machine_def)

lemma boot_mmap: "mmap_laid boot_machine 0xFFFFFFFF80010000 boot_entries 0xFFFFFFFF80010030"
  using write_mmap_laid [of "0xFFFFFFFF80010000" boot_entries]
  by (simp add: boot_machine_def boot_entries_def mmap_bytes_def)

theorem scan_finds_largest_region_witness:
  "\<exists>st n. scan_mmap boot_machine 0xFFFFFFFF80010000 0xFFFFFFFF80010030 (0, 0, 0) = Some (0xBFF9FC00, st, n)
    \<and> 0xBF800000 \<le> unat n"
proof -
  have "\<forall>x \<in> set boot_entries. entry_fits x" by (simp add: boot_entries_def entry_fits_def)
  moreover have "sum_list (map entry_len (filter available boot_entries)) = 0xBFF9FC00"
    by (simp add: boot_entries_def available_def MULTIBOOT_MEMORY_AVAILABLE_def)
  moreover have "usable (boot_entries ! 1) = {8388608 ..< 3221225472}"
    by (auto simp: boot_entries_def usable_def available_def MULTIBOOT_MEMORY_AVAILABLE_def bytes_of_def)
  then have "card (usable (boot_entries ! 1)) = 0xBF800000" by simp
  moreover have "boot_entries ! 1 \<in> set boot_entries" by (simp add: boot_entries_def)
  ultimately show ?thesis
    using scan_finds_largest_region [OF boot_mmap] by (metis (no_types, lifting))
qed

end
