(* ===== verification/Manager_Properties.thy ===== *)
theory Manager_Properties
  imports Manager
begin

text \<open>
  The state memory management is in once \<^verbatim>\<open>initialize_memory\<close> has run.
\<close>

subsection \<open>After initialisation\<close>

text \<open>The kernel heap asks a fresh address-space manager for its range, is given address 0, and
  takes that for a failure.\<close>

lemma init_kernel_heap_fresh:
  assumes "g_kernel_heap s = 0"
  shows "g_kernel_heap (init_kernel_heap (init_virtual s)) = 0
    \<and> kphysical (world (init_kernel_heap (init_virtual s))) = kphysical (world s)
    \<and> kmachine (world (init_kernel_heap (init_virtual s))) = (kmachine (world s))
        \<lparr>placement := ALIGN_UP (placement (kmachine (world s))) + 56\<rparr>
    \<and> g_physical_manager (init_kernel_heap (init_virtual s)) = g_physical_manager s"
proof -
  obtain p m where k: "placement_kalloc sizeof_virt True (kmachine (world s)) = (p, m)"
    by (cases "placement_kalloc sizeof_virt True (kmachine (world s))")
  obtain m' v where v: "virt_new m = (m', v)" by (cases "virt_new m")
  have "free_mem_list v = [\<lparr>start = 0, extent = 0x4000000000\<rparr>]" using virt_new_eq [of m] v by simp
  then have "fst (virt_alloc (MB 1) v) = 0"
    by (simp add: virt_alloc_def size_literals ALIGN_UP_def ALIGN_DOWN_def)
  then obtain v' where a: "virt_alloc (MB 1) v = (0, v')" by (cases "virt_alloc (MB 1) v") simp
  have "m' = (kmachine (world s))\<lparr>placement := ALIGN_UP (placement (kmachine (world s))) + 56\<rparr>"
    using k v by (auto simp: virt_new_def push_region_def placement_kalloc_eq sizeof_virt_def
        sizeof_region_def sizeof_node_def Let_def)
  then show ?thesis using assms k v a by (simp add: init_kernel_heap_def init_virtual_def Let_def)
qed

lemma init_physical_heap:
  "init_physical st n s = Some s' \<Longrightarrow> g_kernel_heap s' = g_kernel_heap s"
  by (auto simp: init_physical_def split: prod.splits option.splits)

lemma initialize_memory_heap:
  "g_kernel_heap s = 0 \<Longrightarrow> initialize_memory bi s = Some s' \<Longrightarrow> g_kernel_heap s' = 0"
  using init_physical_heap init_kernel_heap_fresh [THEN conjunct1]
  by (force simp: initialize_memory_def split: option.splits if_splits)

text \<open>C32. Start-up never creates the kernel heap, whatever memory the boot loader reports: the range
  reserved for it starts at address 0, which is taken for a failed reservation. From then on
  \<^verbatim>\<open>kalloc\<close> and \<^verbatim>\<open>kmalloc\<close> only bump the boot pointer, \<^verbatim>\<open>kfree\<close> does nothing, and
  \<^verbatim>\<open>krealloc\<close>, \<^verbatim>\<open>kcalloc\<close> and \<^verbatim>\<open>kmalloc_aligned\<close> always fail.\<close>

theorem initialize_memory_never_creates_heap:
  assumes "g_kernel_heap s = 0" and "initialize_memory bi s = Some s'"
  shows "g_kernel_heap s' = 0
    \<and> kalloc n s' = on_placement n s' \<and> kmalloc n s' = on_placement n s'
    \<and> kfree p s' = s' \<and> kernel_kfree p s' = s'
    \<and> krealloc p n s' = Some (0, s') \<and> kcalloc j n s' = Some (0, s')
    \<and> kmalloc_aligned al n s' = Some (0, s')"
proof -
  have "g_kernel_heap s' = 0" using assms by (rule initialize_memory_heap)
  then show ?thesis
    by (simp add: kalloc_def kmalloc_def kfree_def kernel_kfree_def krealloc_def kcalloc_def
        kmalloc_aligned_def)
qed

lemma phys_pool_raise:
  assumes "phys_pool (m, p) fs" "placement m \<le> q"
  shows "phys_pool (m\<lparr>placement := q\<rparr>, p) fs"
proof -
  obtain xs where "node_list (mem m) (free_list p) xs" "map snd xs = fs" "nodes_below (placement m) xs"
    using assms(1) by (rule phys_poolE)
  moreover have "\<forall>f \<in> set fs. valid_frame (m\<lparr>placement := q\<rparr>, p) f"
    using assms(1) by (simp add: phys_pool_def valid_frame_def)
  ultimately show ?thesis
    using nodes_below_mono assms(2) by (fastforce simp: phys_pool_def)
qed

lemma pages_ordered:
  assumes "unat st + unat n < 18446744073709551616" "4096 \<le> unat n"
  shows "ALIGN_UP st \<le> ALIGN_DOWN (st + n)"
proof -
  have "unat (st + n) = unat st + unat n" using assms(1) by (rule unat_add_nowrap)
  moreover have "unat (ALIGN_UP st) = (unat st + 4095) div 4096 * 4096"
    using assms by (intro unat_ALIGN_UP) simp
  moreover have "(x + 4095) div 4096 * 4096 \<le> x + y - (x + y) mod 4096" if "4096 \<le> y" for x y :: nat
    using that div_le_mono [of "x + 4095" "x + y" 4096] by (simp add: minus_mod_eq_div_mult)
  ultimately show ?thesis using assms(2) by (simp add: wordnat unat_ALIGN_DOWN)
qed

text \<open>The machine on which the frame manager is set up: its object lies on the next page boundary.\<close>

definition boot_nodes :: "memory_state \<Rightarrow> addr" where
  "boot_nodes s = ALIGN_UP (placement (kmachine (world s))) + 16"

definition boot_room :: "u64 \<Rightarrow> memory_state \<Rightarrow> bool" where
  "boot_room n s \<longleftrightarrow> headroom (unat n div 256 + 16384) (kmachine (world s))"

lemma boot_nodes_bounds:
  assumes "boot_room n s"
  shows "unat (boot_nodes s) = unat (ALIGN_UP (placement (kmachine (world s)))) + 16"
    "unat (placement (kmachine (world s))) \<le> unat (ALIGN_UP (placement (kmachine (world s))))"
    "unat (boot_nodes s) + unat n div 256 + 8192 < 18446744073709551616" "0 < unat (boot_nodes s)"
proof -
  let ?p = "placement (kmachine (world s))"
  have p: "unat ?p + unat n div 256 + 16384 < 18446744073709551616" using assms by (simp add: boot_room_def headroom_def)
  then show "unat ?p \<le> unat (ALIGN_UP ?p)" using ALIGN_UP_ge [of ?p] by (simp add: wordnat)
  have "unat (ALIGN_UP ?p) < unat ?p + 4096" using p by (intro ALIGN_UP_lt) simp
  then show "unat (boot_nodes s) = unat (ALIGN_UP ?p) + 16" "unat (boot_nodes s) + unat n div 256 + 8192 < 18446744073709551616"
    "0 < unat (boot_nodes s)"
    using p by (simp_all add: boot_nodes_def unat_add_nowrap)
qed

lemma initialize_memory_result:
  assumes r: "largest_region bi (kmachine (world s)) = Some (Some (st, n))"
    and b: "0 < unat st" "unat st + unat n < 18446744073709551616" "4194304 \<le> unat n"
    and room: "boot_room n s" and h: "g_kernel_heap s = 0"
  obtains s' where "initialize_memory bi s = Some s'"
    "phys_pool (kmachine (world s'), kphysical (world s')) (rev (frame_run (ALIGN_UP st) (whole_pages st n)))"
    "node_list (mem (kmachine (world s'))) (free_list (kphysical (world s')))
       (rev (node_run (boot_nodes s) (ALIGN_UP st) (whole_pages st n)))"
    "kept_below (placement (kmachine (world s))) (kmachine (world s)) (kmachine (world s'))"
    "unat (placement (kmachine (world s))) \<le> unat (placement (kmachine (world s')))"
    "unat (placement (kmachine (world s'))) \<le> unat (placement (kmachine (world s))) + unat n div 256 + 8264"
proof -
  define m where "m = (kmachine (world s))\<lparr>placement := boot_nodes s\<rparr>"
  note B = boot_nodes_bounds [OF room]
  have n4: "4096 \<le> unat n" using b(3) by simp
  note o = pages_ordered [OF b(2) n4] and W = whole_pages_cover [OF b(2) n4 pages_ordered [OF b(2) n4]]
  have hr: "headroom (unat n div 256) m" using B by (simp add: headroom_def m_def)
  obtain w where w: "physical_setup st n m physical_new = Some w"
    "node_list (mem (fst w)) (free_list (snd w)) (rev (node_run (placement m) (ALIGN_UP st) (whole_pages st n)))"
    "unat (placement (fst w)) = unat (placement m) + 16 * whole_pages st n"
    by (rule physical_setup_nodes [OF b(2) o hr n4]) blast
  have "placement (kmachine (world s)) \<le> placement m" using B by (simp add: m_def wordnat)
  then have "kept_below (placement (kmachine (world s))) m (fst w)"
    by (rule physical_setup_below [OF b(2) o hr n4 w(1)])
  then have below: "kept_below (placement (kmachine (world s))) (kmachine (world s)) (fst w)"
    by (simp add: kept_below_def m_def)
  have pool: "phys_pool w (rev (frame_run (ALIGN_UP st) (whole_pages st n)))"
    using physical_setup_pool [OF b(1,2) o hr n4] w(1) by simp
  have k: "placement_kalloc sizeof_physical True (kmachine (world s)) = (ALIGN_UP (placement (kmachine (world s))), m)"
    by (simp add: placement_kalloc_eq sizeof_physical_def m_def boot_nodes_def Let_def)
  let ?s = "s\<lparr>world := (world s)\<lparr>kmachine := fst w, kphysical := snd w\<rparr>,
    g_physical_manager := ALIGN_UP (placement (kmachine (world s)))\<rparr>"
  let ?s' = "init_kernel_heap (init_virtual ?s)"
  have "init_physical st n s = Some ?s" using w(1) by (simp add: init_physical_def k split: prod.split)
  then have "initialize_memory bi s = Some ?s'"
    using r b(3) by (simp add: initialize_memory_def size_literals wordnat)
  moreover have F: "kphysical (world ?s') = snd w" "kmachine (world ?s') = (fst w)\<lparr>placement := ALIGN_UP (placement (fst w)) + 56\<rparr>"
    using init_kernel_heap_fresh [of ?s] h by simp_all
  moreover
  have u: "unat (placement (fst w)) + 8192 < 18446744073709551616"
    using w(3) W(4) B(3) by (simp add: m_def)
  then have up: "unat (ALIGN_UP (placement (fst w))) < unat (placement (fst w)) + 4096" by (intro ALIGN_UP_lt) simp
  moreover have ge: "unat (placement (fst w)) \<le> unat (ALIGN_UP (placement (fst w)))"
    using ALIGN_UP_ge [of "placement (fst w)"] u by (simp add: wordnat)
  have e: "unat (ALIGN_UP (placement (fst w)) + 56) = unat (ALIGN_UP (placement (fst w))) + 56"
    using u up by (simp add: unat_add_nowrap)
  have "phys_pool ((fst w)\<lparr>placement := ALIGN_UP (placement (fst w)) + 56\<rparr>, snd w)
      (rev (frame_run (ALIGN_UP st) (whole_pages st n)))"
    by (rule phys_pool_raise) (use pool ge e in \<open>simp_all add: wordnat\<close>)
  moreover have "unat (ALIGN_UP (placement (kmachine (world s)))) < unat (placement (kmachine (world s))) + 4096"
    using room by (intro ALIGN_UP_lt) (simp add: boot_room_def headroom_def)
  then have "unat (placement (kmachine (world s))) \<le> unat (placement (kmachine (world ?s')))"
    "unat (placement (kmachine (world ?s'))) \<le> unat (placement (kmachine (world s))) + unat n div 256 + 8264"
    using w(3) W(4) B(1,2) up ge unfolding F(2) by (simp_all add: e m_def)
  moreover have "kept_below (placement (kmachine (world s))) (kmachine (world s)) (kmachine (world ?s'))"
    using below unfolding F(2) by (simp add: kept_below_def)
  ultimately show ?thesis using that [of ?s'] w(2) by (simp add: m_def)
qed

text \<open>C31. When the largest region has 4 MB or more and boot memory has room for the list nodes,
  start-up returns with a frame allocator whose free list holds exactly the whole frames of that
  region, each once.\<close>

theorem initialize_memory_frames:
  assumes "largest_region bi (kmachine (world s)) = Some (Some (st, n))"
    and "0 < unat st" "unat st + unat n < 18446744073709551616" "4194304 \<le> unat n"
    and "boot_room n s" and "g_kernel_heap s = 0"
  shows "\<exists>s'. initialize_memory bi s = Some s'
    \<and> phys_pool (kmachine (world s'), kphysical (world s')) (rev (frame_run (ALIGN_UP st) (whole_pages st n)))
    \<and> distinct (frame_run (ALIGN_UP st) (whole_pages st n))"
proof -
  have n4: "4096 \<le> unat n" using assms(4) by simp
  have "distinct (frame_run (ALIGN_UP st) (whole_pages st n))"
    using whole_pages_cover(1) [OF assms(3) n4 pages_ordered [OF assms(3) n4]] u64_bound [of "ALIGN_DOWN (st + n)"]
    by (intro distinct_frame_run) simp
  then show ?thesis using initialize_memory_result [OF assms] by blast
qed

lemma node_run_nth:
  "i < k \<Longrightarrow> (q + word_of_nat (16 * i), a + word_of_nat (4096 * i)) \<in> set (node_run q a k)"
  by (auto simp: node_run_def)

text \<open>C35. The nodes of the frame list and the frames themselves can be the same memory: the nodes
  grow upwards from the end of the kernel image, 16 bytes for every frame, and only the first 8 MB of
  physical memory are kept out of the frames. When the nodes reach past the start of the region, a
  node of the list lies, physically, at the start of a frame that is handed out.\<close>

theorem free_list_inside_free_frames:
  assumes "largest_region bi (kmachine (world s)) = Some (Some (st, n))"
    and b: "0 < unat st" "unat st + unat n < 18446744073709551616" "4194304 \<le> unat n"
    and room: "boot_room n s" and h: "g_kernel_heap s = 0"
    and c: "unat KVIRTUAL_ADDRESS + unat (ALIGN_UP st) < 18446744073709551616"
    and d: "unat (boot_nodes s) \<le> unat KVIRTUAL_ADDRESS + unat (ALIGN_UP st)"
      "unat KVIRTUAL_ADDRESS + unat (ALIGN_UP st) < unat (boot_nodes s) + 16 * whole_pages st n"
  shows "\<exists>s' xs node. initialize_memory bi s = Some s'
    \<and> node_list (mem (kmachine (world s'))) (free_list (kphysical (world s'))) xs
    \<and> node \<in> fst ` set xs \<and> kvirt_to_physical node \<in> snd ` set xs"
proof -
  let ?k = "whole_pages st n" and ?a = "ALIGN_UP st" and ?q = "boot_nodes s"
  note B = boot_nodes_bounds [OF room]
  have n4: "4096 \<le> unat n" using b(3) by simp
  note W = whole_pages_cover [OF b(2) n4 pages_ordered [OF b(2) n4]]
  obtain s' where s': "initialize_memory bi s = Some s'"
    "node_list (mem (kmachine (world s'))) (free_list (kphysical (world s'))) (rev (node_run ?q ?a ?k))"
    by (rule initialize_memory_result [OF assms(1) b room h]) blast
  define i where "i = (unat KVIRTUAL_ADDRESS + unat ?a - unat ?q) div 16"
  have al: "16 dvd unat ?a" "16 dvd unat (ALIGN_UP (placement (kmachine (world s))))"
    using ALIGN_UP_aligned [of st] ALIGN_UP_aligned [of "placement (kmachine (world s))"]
    by (auto simp: IS_ALIGNED_iff_dvd dvd_def intro: exI [of _ "256 * j" for j])
  have "16 dvd unat KVIRTUAL_ADDRESS" by (simp add: KVIRTUAL_ADDRESS_def)
  then have "16 dvd unat KVIRTUAL_ADDRESS + unat ?a - unat ?q"
    using al B(1) by (intro dvd_diff_nat) simp_all
  then have i: "unat ?q + 16 * i = unat KVIRTUAL_ADDRESS + unat ?a" using d(1) by (simp add: i_def)
  have k: "i < ?k" "0 < ?k" using i d(2) by linarith+
  have "unat (?q + word_of_nat (16 * i)) = unat KVIRTUAL_ADDRESS + unat ?a"
    using i c by (subst unat_add_small) (simp_all add: unat_of_nat)
  moreover have "unat (KVIRTUAL_ADDRESS + ?a) = unat KVIRTUAL_ADDRESS + unat ?a"
    using c by (rule unat_add_nowrap)
  ultimately have "?q + word_of_nat (16 * i) = KVIRTUAL_ADDRESS + ?a" by (simp only: word_unat_eq_iff)
  then have "kvirt_to_physical (?q + word_of_nat (16 * i)) = ?a" by (simp add: kvirt_to_physical_def)
  moreover have "?a \<in> snd ` set (node_run ?q ?a ?k)"
    using node_run_nth [OF k(2), of ?q ?a] by force
  moreover have "?q + word_of_nat (16 * i) \<in> fst ` set (node_run ?q ?a ?k)"
    using node_run_nth [OF k(1), of ?q ?a] by force
  ultimately have "?q + word_of_nat (16 * i) \<in> fst ` set (rev (node_run ?q ?a ?k))
      \<and> kvirt_to_physical (?q + word_of_nat (16 * i)) \<in> snd ` set (rev (node_run ?q ?a ?k))"
    by (simp only: set_rev)
  then show ?thesis using s' by blast
qed

subsection \<open>Without a memory map\<close>

text \<open>Without a memory map, a machine whose upper memory is smaller than the 7 MB the kernel keeps
  for itself is not refused: the size of the free region wraps around to almost the whole address space,
  so the check for 4 MB passes and start-up installs a frame allocator that has no frame.\<close>

theorem small_memory_not_refused:
  assumes "mb_flags bi AND MULTIBOOT_INFO_MEM_MAP = 0" "mb_flags bi AND MULTIBOOT_INFO_MEMORY \<noteq> 0"
    and "unat (mem_upper bi) < 7168" and "g_kernel_heap s = 0"
  shows "\<exists>s' n. largest_region bi (kmachine (world s)) = Some (Some (MB 8, n)) \<and> MB 4 \<le> n
    \<and> initialize_memory bi s = Some s' \<and> g_physical_manager s' = ALIGN_UP (placement (kmachine (world s)))
    \<and> physical_alloc (kmachine (world s')) (kphysical (world s')) = (0, kphysical (world s'))"
proof -
  let ?u = "ucast (mem_upper bi * 1024) :: u64"
  define n where "n = ?u - (MB 8 - MB 1)"
  have "unat (mem_upper bi * 1024) = unat (mem_upper bi) * 1024"
    using assms(3) by (simp add: unat_word_ariths)
  then have u: "unat ?u = unat (mem_upper bi) * 1024"
    using assms(3) by (simp add: unsigned_ucast_eq take_bit_nat_eq_self)
  have "unat (?u + 0x100000) = unat (mem_upper bi) * 1024 + 1048576"
    using u assms(3) by (simp add: unat_add_nowrap)
  moreover have "MB 8 + n = ?u + 0x100000" by (simp add: n_def size_literals)
  ultimately have e: "unat (MB 8 + n) = unat (mem_upper bi) * 1024 + 1048576" by (simp only:)
  have "n = ?u - 0x700000" by (simp add: n_def size_literals)
  then have n: "unat n = unat (mem_upper bi) * 1024 + 18446744073709551616 - 7340032"
    using u assms(3) by (simp add: unat_sub_if')
  have r: "largest_region bi (kmachine (world s)) = Some (Some (MB 8, n))"
    using assms(1,2) by (simp add: largest_region_def Let_def n_def)
  have "\<not> ALIGN_UP (MB 8) < ALIGN_DOWN (MB 8 + n)"
    using e assms(3) by (simp add: unat_ALIGN_DOWN unat_ALIGN_UP wordnat size_literals)
  then have p: "physical_setup (MB 8) n m physical_new = Some (m, physical_new\<lparr>physical_end := MB 8 + n\<rparr>)" for m
    by (simp add: physical_setup_def Let_def setup_loop.simps)
  obtain m where k: "placement_kalloc sizeof_physical True (kmachine (world s)) = (ALIGN_UP (placement (kmachine (world s))), m)"
    by (simp add: placement_kalloc_eq Let_def)
  let ?s = "s\<lparr>world := (world s)\<lparr>kmachine := m, kphysical := physical_new\<lparr>physical_end := MB 8 + n\<rparr>\<rparr>,
    g_physical_manager := ALIGN_UP (placement (kmachine (world s)))\<rparr>"
  have 4: "MB 4 \<le> n" using n assms(3) by (simp add: wordnat size_literals)
  then have "initialize_memory bi s = Some (init_kernel_heap (init_virtual ?s))"
    using r p by (simp add: initialize_memory_def init_physical_def k not_less)
  then show ?thesis
    using r 4 init_kernel_heap_fresh [of ?s] assms(4) by (simp add: physical_alloc_def physical_new_def Let_def)
qed

text \<open>Without a memory map, the amount of upper memory is computed in 32 bits: a machine with 4 GB
  more gets the same frames.\<close>

theorem upper_memory_wraps:
  assumes "mb_flags bi AND MULTIBOOT_INFO_MEM_MAP = 0"
  shows "initialize_memory (bi\<lparr>mem_upper := mem_upper bi + 0x400000\<rparr>) s = initialize_memory bi s"
proof -
  define bi' where "bi' = bi\<lparr>mem_upper := mem_upper bi + 0x400000\<rparr>"
  have "mem_upper bi' * 1024 = mem_upper bi * 1024" by (simp add: bi'_def distrib_right)
  moreover have "mb_flags bi' = mb_flags bi" by (simp add: bi'_def)
  ultimately have "largest_region bi' m = largest_region bi m" for m
    using assms by (simp add: largest_region_def)
  then show ?thesis unfolding bi'_def [symmetric] by (simp add: initialize_memory_def)
qed

subsection \<open>A machine with 3 GB\<close>

definition boot_state :: memory_state where
  "boot_state = \<lparr>world = example_kernel\<lparr>kmachine := boot_machine\<rparr>, g_physical_manager = 0,
     g_kernel_virtual_manager = 0, g_kernel_heap = 0, kheap = example_heap\<rparr>"

lemma boot_region: "largest_region boot_info (kmachine (world boot_state)) = Some (Some (0x800000, 0xBF800000))"
proof -
  have "fold scan_entry boot_entries (0, 0, 0) = (0xBFF9FC00, 0x800000, 0xBF800000)"
    by (simp add: boot_entries_def scan_entry_def MULTIBOOT_MEMORY_AVAILABLE_def size_literals)
  then show ?thesis
    using scan_mmap_laid [OF boot_mmap, of "(0, 0, 0)"]
    by (simp add: largest_region_def boot_info_def boot_state_def MULTIBOOT_INFO_MEM_MAP_def KVIRTUAL_ADDRESS_def)
qed

lemma boot_room: "boot_room 0xBF800000 boot_state"
  by (simp add: boot_room_def headroom_def boot_state_def)

lemma boot_heap: "g_kernel_heap boot_state = 0"
  by (simp add: boot_state_def)

theorem initialize_memory_frames_witness:
  "\<exists>s'. initialize_memory boot_info boot_state = Some s'
    \<and> phys_pool (kmachine (world s'), kphysical (world s'))
        (rev (frame_run (ALIGN_UP 0x800000) (whole_pages 0x800000 0xBF800000)))"
  using initialize_memory_frames [OF boot_region _ _ _ boot_room boot_heap] by auto

theorem initialize_memory_never_creates_heap_witness:
  "\<exists>s'. initialize_memory boot_info boot_state = Some s' \<and> g_kernel_heap s' = 0
    \<and> kcalloc 1 8 s' = Some (0, s')"
proof -
  obtain s' where s': "initialize_memory boot_info boot_state = Some s'"
    by (rule initialize_memory_result [OF boot_region _ _ _ boot_room boot_heap]) simp_all
  then show ?thesis
    using initialize_memory_never_creates_heap [OF boot_heap s', of 0 0 1] 
      initialize_memory_never_creates_heap [OF boot_heap s', of 8 0 1] by blast
qed

theorem free_list_inside_free_frames_witness:
  "\<exists>s' xs node. initialize_memory boot_info boot_state = Some s'
    \<and> node_list (mem (kmachine (world s'))) (free_list (kphysical (world s'))) xs
    \<and> node \<in> fst ` set xs \<and> kvirt_to_physical node \<in> snd ` set xs"
proof -
  have "boot_nodes boot_state = 0xFFFFFFFF80400010" "ALIGN_UP 0x800000 = 0x800000"
    "whole_pages 0x800000 0xBF800000 = 784384"
    by (simp_all add: boot_nodes_def boot_state_def ALIGN_UP_def ALIGN_DOWN_def whole_pages_def)
  then show ?thesis
    using free_list_inside_free_frames [OF boot_region _ _ _ boot_room boot_heap]
    by (simp add: KVIRTUAL_ADDRESS_def)
qed

theorem small_memory_not_refused_witness:
  "\<exists>s' n. initialize_memory (basic_info 1 640 1024 0 0)
      boot_state = Some s' \<and> MB 4 \<le> n
    \<and> largest_region (basic_info 1 640 1024 0 0)
      (kmachine (world boot_state)) = Some (Some (MB 8, n))"
proof -
  let ?bi = "basic_info 1 640 1024 0 0"
  have "mb_flags ?bi AND MULTIBOOT_INFO_MEM_MAP = 0" "mb_flags ?bi AND MULTIBOOT_INFO_MEMORY \<noteq> 0"
    "unat (mem_upper ?bi) < 7168"
    by (simp_all add: MULTIBOOT_INFO_MEM_MAP_def MULTIBOOT_INFO_MEMORY_def)
  from small_memory_not_refused [OF this boot_heap] show ?thesis by blast
qed

theorem upper_memory_wraps_witness:
  "initialize_memory (basic_info 1 640 0x408000 0 0) boot_state
    = initialize_memory (basic_info 1 640 0x8000 0 0) boot_state"
  using upper_memory_wraps [of "basic_info 1 640 0x8000 0 0"]
  by (simp add: MULTIBOOT_INFO_MEM_MAP_def basic_info_def)

end
