(* ===== verification/Ports.thy ===== *)
theory Ports
  imports Prelude
begin

text \<open>
  The processor instructions of \<^verbatim>\<open>arch/amd64/instructions.cpp\<close> that act on the hardware
  rather than on memory, the two model-specific register instructions of \<^verbatim>\<open>main.cpp\<close>, and the port methods of class \<^verbatim>\<open>amd64\<close>
  (\<^verbatim>\<open>arch/amd64/amd64.hpp\<close>) built on them. Every instruction appends itself to the trace of
  executed instructions (most recent first); what an \<^verbatim>\<open>in\<close> instruction reads is decided by
  the hardware, a parameter of the model: a function of the trace and the port (for a
  model-specific register, of the trace and its number).
\<close>

subsection \<open>Instructions\<close>

datatype instruction = Outb u16 u8 | Outw u16 u16 | Outl u16 u32
  | Inb u16 | Inw u16 | Inl u16 | Sti | Cli | Hlt | Pause | Int3 | Lidt addr | Rdmsr u32 | Wrmsr u32 u32 u32

type_synonym trace = "instruction list"

record hardware =
  port8 :: "trace \<Rightarrow> u16 \<Rightarrow> u8"
  port16 :: "trace \<Rightarrow> u16 \<Rightarrow> u16"
  port32 :: "trace \<Rightarrow> u16 \<Rightarrow> u32"
  msr :: "trace \<Rightarrow> u32 \<Rightarrow> u32 \<times> u32"

definition sti :: "trace \<Rightarrow> trace" where
  "sti tr = Sti # tr"

definition cli :: "trace \<Rightarrow> trace" where
  "cli tr = Cli # tr"

definition hlt :: "trace \<Rightarrow> trace" where
  "hlt tr = Hlt # tr"

definition cpu_pause :: "trace \<Rightarrow> trace" where
  "cpu_pause tr = Pause # tr"

definition breakpoint :: "trace \<Rightarrow> trace" where
  "breakpoint tr = Int3 # tr"

definition outb :: "u16 \<Rightarrow> u8 \<Rightarrow> trace \<Rightarrow> trace" where
  "outb port v tr = Outb port v # tr"

definition outw :: "u16 \<Rightarrow> u16 \<Rightarrow> trace \<Rightarrow> trace" where
  "outw port v tr = Outw port v # tr"

definition outl :: "u16 \<Rightarrow> u32 \<Rightarrow> trace \<Rightarrow> trace" where
  "outl port v tr = Outl port v # tr"

definition inb :: "hardware \<Rightarrow> u16 \<Rightarrow> trace \<Rightarrow> u8 \<times> trace" where
  "inb hw port tr = (port8 hw tr port, Inb port # tr)"

definition inw :: "hardware \<Rightarrow> u16 \<Rightarrow> trace \<Rightarrow> u16 \<times> trace" where
  "inw hw port tr = (port16 hw tr port, Inw port # tr)"

definition inl :: "hardware \<Rightarrow> u16 \<Rightarrow> trace \<Rightarrow> u32 \<times> trace" where
  "inl hw port tr = (port32 hw tr port, Inl port # tr)"

definition lidt :: "addr \<Rightarrow> trace \<Rightarrow> trace" where
  "lidt idt tr = Lidt idt # tr"

text \<open>\<^verbatim>\<open>rdmsr\<close> reads the model-specific register whose number is in \<^verbatim>\<open>ecx\<close> into
  \<^verbatim>\<open>eax\<close> (low half) and \<^verbatim>\<open>edx\<close>; \<^verbatim>\<open>wrmsr\<close> writes it.\<close>

definition rdmsr :: "hardware \<Rightarrow> u32 \<Rightarrow> trace \<Rightarrow> u32 \<times> u32 \<times> trace" where
  "rdmsr hw ecx tr = (case msr hw tr ecx of (eax, edx) \<Rightarrow> (eax, edx, Rdmsr ecx # tr))"

definition wrmsr :: "u32 \<Rightarrow> u32 \<Rightarrow> u32 \<Rightarrow> trace \<Rightarrow> trace" where
  "wrmsr ecx eax edx tr = Wrmsr ecx eax edx # tr"

definition io_wait :: "trace \<Rightarrow> trace" where
  "io_wait tr = outb 0x80 0 tr"

subsection \<open>Port methods of the architecture class\<close>

definition read_port :: "hardware \<Rightarrow> u16 \<Rightarrow> trace \<Rightarrow> u8 \<times> trace" where
  "read_port hw value_port tr = inb hw value_port tr"

definition write_port :: "u16 \<Rightarrow> u8 \<Rightarrow> trace \<Rightarrow> trace" where
  "write_port value_port v tr = outb value_port v tr"

definition read_byte :: "hardware \<Rightarrow> u32 \<Rightarrow> u16 \<Rightarrow> u16 \<Rightarrow> trace \<Rightarrow> u8 \<times> trace" where
  "read_byte hw a addr_port value_port tr = inb hw value_port (outl addr_port a tr)"

definition read_word :: "hardware \<Rightarrow> u32 \<Rightarrow> u16 \<Rightarrow> u16 \<Rightarrow> trace \<Rightarrow> u16 \<times> trace" where
  "read_word hw a addr_port value_port tr = inw hw value_port (outl addr_port a tr)"

definition read_dword :: "hardware \<Rightarrow> u32 \<Rightarrow> u16 \<Rightarrow> u16 \<Rightarrow> trace \<Rightarrow> u32 \<times> trace" where
  "read_dword hw a addr_port value_port tr = inl hw value_port (outl addr_port a tr)"

definition write_byte :: "u32 \<Rightarrow> u16 \<Rightarrow> u16 \<Rightarrow> u8 \<Rightarrow> trace \<Rightarrow> trace" where
  "write_byte a addr_port value_port v tr = outb value_port v (outl addr_port a tr)"

definition write_word :: "u32 \<Rightarrow> u16 \<Rightarrow> u16 \<Rightarrow> u16 \<Rightarrow> trace \<Rightarrow> trace" where
  "write_word a addr_port value_port v tr = outw value_port v (outl addr_port a tr)"

definition write_dword :: "u32 \<Rightarrow> u16 \<Rightarrow> u16 \<Rightarrow> u32 \<Rightarrow> trace \<Rightarrow> trace" where
  "write_dword a addr_port value_port v tr = outl value_port v (outl addr_port a tr)"

definition cpu_halt :: "trace \<Rightarrow> trace" where
  "cpu_halt tr = cli (hlt (sti tr))"

lemmas instruction_defs = sti_def cli_def hlt_def outb_def outw_def outl_def inb_def inw_def inl_def
  lidt_def io_wait_def

lemmas port_defs = read_port_def write_port_def read_byte_def read_word_def read_dword_def
  write_byte_def write_word_def write_dword_def instruction_defs

end
