(* ===== verification/Timer.thy ===== *)
theory Timer
  imports Ports
begin

text \<open>
  The programmable interval timer, \<^verbatim>\<open>drivers/peripherals/timer.cpp\<close>: the constructor programs
  the divisor of channel 0, and every timer interrupt counts one tick. Dividing by a frequency
  of 0 is a processor exception in the source and \<open>None\<close> here.
\<close>

subsection \<open>State and operations\<close>

definition CHANNEL_0 :: u16 where
  "CHANNEL_0 = 0x40"

definition LOHI :: u8 where
  "LOHI = 0x30"

definition MODE_2 :: u8 where
  "MODE_2 = 0x04"

definition PIT_COMMAND_REG :: u16 where
  "PIT_COMMAND_REG = 0x43"

definition PIT_BINARY_MODE :: u8 where
  "PIT_BINARY_MODE = 0x00"

definition PIT_FREQUENCY :: u32 where
  "PIT_FREQUENCY = 1193182"

record timer =
  frequency :: u32
  ticks :: u64

definition timer_new :: "u32 \<Rightarrow> trace \<Rightarrow> (timer \<times> trace) option" where
  "timer_new freq tr =
     (let t = \<lparr>frequency = freq, ticks = 0\<rparr>
      in if frequency t = 0 then None
         else let divisor = PIT_FREQUENCY div frequency t;
                  divisor = (if divisor < 1 then 1 else if divisor > 65535 then 65535 else divisor);
                  cmd = ucast CHANNEL_0 OR LOHI OR MODE_2 OR PIT_BINARY_MODE;
                  tr = write_port PIT_COMMAND_REG cmd tr;
                  tr = write_port CHANNEL_0 (ucast (divisor AND 0xff)) tr;
                  tr = write_port CHANNEL_0 (ucast (drop_bit 8 divisor AND 0xff)) tr
              in Some (t, tr))"

definition on_timer :: "timer \<Rightarrow> timer" where
  "on_timer t = t\<lparr>ticks := ticks t + 1\<rparr>"

definition get_frequency :: "timer \<Rightarrow> u32" where
  "get_frequency t = frequency t"

definition get_ticks :: "timer \<Rightarrow> u64" where
  "get_ticks t = ticks t"

lemmas timer_consts = CHANNEL_0_def LOHI_def MODE_2_def PIT_COMMAND_REG_def PIT_BINARY_MODE_def
  PIT_FREQUENCY_def

subsection \<open>Properties\<close>

definition clamped_divisor :: "u32 \<Rightarrow> u32" where
  "clamped_divisor freq =
     (let d = PIT_FREQUENCY div freq in if d < 1 then 1 else if d > 65535 then 65535 else d)"

lemma timer_new_eq:
  assumes "freq \<noteq> 0"
  shows "timer_new freq tr = Some (\<lparr>frequency = freq, ticks = 0\<rparr>,
    Outb 0x40 (ucast (drop_bit 8 (clamped_divisor freq) AND 0xff))
    # Outb 0x40 (ucast (clamped_divisor freq AND 0xff)) # Outb 0x43 0x74 # tr)"
  using assms
  by (simp add: timer_new_def clamped_divisor_def Let_def port_defs CHANNEL_0_def LOHI_def MODE_2_def
      PIT_COMMAND_REG_def PIT_BINARY_MODE_def)

lemma clamped_divisor_range: "1 \<le> unat (clamped_divisor freq) \<and> unat (clamped_divisor freq) \<le> 65535"
proof -
  have "d < 1 \<longleftrightarrow> unat d = 0" for d :: u32 by (simp add: word_less_nat_alt)
  then show ?thesis
    by (auto simp: clamped_divisor_def Let_def word_less_nat_alt not_less)
qed

lemma unat_clamped_divisor:
  "unat (clamped_divisor freq) = max 1 (min 65535 (1193182 div unat freq))"
proof -
  have "unat (PIT_FREQUENCY div freq) = 1193182 div unat freq"
    by (simp add: PIT_FREQUENCY_def unat_div)
  then show ?thesis
    by (auto simp: clamped_divisor_def Let_def word_less_nat_alt min_def max_def)
qed

lemma unat_low_byte: "unat (ucast (d AND 0xff :: u32) :: u8) = unat d mod 256"
proof -
  have m: "(0xff :: u32) = mask 8" by (simp add: mask_eq_exp_minus_1)
  have "(ucast (d AND 0xff) :: u8) = ucast d"
    unfolding m by (rule bit_word_eqI) (simp add: bit_simps)
  then show ?thesis by (simp add: unsigned_ucast_eq take_bit_eq_mod)
qed

text \<open>For every frequency but 0 the constructor sends, low byte first, the divisor
  1193182 / frequency limited to the range from 1 to 65535, and starts counting at 0.\<close>

theorem timer_divisor_sent:
  assumes "freq \<noteq> 0"
  shows "\<exists>lo hi cmd. timer_new freq tr
      = Some (\<lparr>frequency = freq, ticks = 0\<rparr>, Outb 0x40 hi # Outb 0x40 lo # Outb 0x43 cmd # tr)
    \<and> unat lo + 256 * unat hi = max 1 (min 65535 (1193182 div unat freq))"
proof -
  let ?d = "clamped_divisor freq"
  have "unat (drop_bit 8 ?d) = unat ?d div 256"
    by (simp add: unat_div unsigned_drop_bit_eq drop_bit_eq_div)
  then have "unat (ucast (?d AND 0xff) :: u8) + 256 * unat (ucast (drop_bit 8 ?d AND 0xff) :: u8) = unat ?d"
    using clamped_divisor_range [of freq] mod_less [of "unat ?d div 256" 256]
    by (simp only: unat_low_byte) (simp add: div_less_iff_less_mult)
  then show ?thesis
    using timer_new_eq [OF assms, of tr] unat_clamped_divisor [of freq] by metis
qed

theorem timer_divisor_sent_witness:
  "\<exists>lo hi cmd. timer_new 100 []
      = Some (\<lparr>frequency = 100, ticks = 0\<rparr>, [Outb 0x40 hi, Outb 0x40 lo, Outb 0x43 cmd])
    \<and> unat lo + 256 * unat hi = 11931"
  using timer_divisor_sent [of 100 "[]"] by simp

text \<open>The command byte is built with the port number of channel 0 (0x40) instead of its
  selector 0, so the two select bits, 7 and 6, name channel 1; the divisor then goes to the data
  port of channel 0, whose mode was not set.\<close>

theorem timer_command_selects_channel_1:
  assumes "timer_new freq tr = Some (t, tr')"
  shows "\<exists>cmd rest. tr' = rest @ Outb 0x43 cmd # tr \<and> drop_bit 6 cmd = 1"
proof -
  have "freq \<noteq> 0" using assms by (auto simp: timer_new_def)
  then have "tr' = [Outb 0x40 (ucast (drop_bit 8 (clamped_divisor freq) AND 0xff)),
      Outb 0x40 (ucast (clamped_divisor freq AND 0xff))] @ Outb 0x43 0x74 # tr"
    using assms by (simp add: timer_new_eq)
  moreover have "drop_bit 6 (0x74 :: u8) = 1" by simp
  ultimately show ?thesis by blast
qed

theorem timer_command_selects_channel_1_witness:
  "\<exists>cmd rest. [Outb 0x40 0x2e, Outb 0x40 0x9b, Outb 0x43 0x74] = rest @ Outb 0x43 cmd # [] \<and> drop_bit 6 cmd = 1"
proof (rule timer_command_selects_channel_1)
  show "timer_new 100 [] = Some (\<lparr>frequency = 100, ticks = 0\<rparr>, [Outb 0x40 0x2e, Outb 0x40 0x9b, Outb 0x43 0x74])"
    by (simp add: timer_new_eq clamped_divisor_def PIT_FREQUENCY_def Let_def)
qed

end
