(* ===== verification/Stdlib.thy ===== *)
theory Stdlib
  imports Strings
begin

text \<open>
  The integer formatter of \<^verbatim>\<open>libs/stdlib.hpp\<close>. The text is written byte by byte into the
  caller's buffer, least significant digit first, and reversed in place. The functional
  specification is the list of digits of a number and the reader of such a list.
\<close>

subsection \<open>Operations\<close>

datatype base = Bin | Oct | Dec | Hex

fun base_value :: "base \<Rightarrow> u64" where
  "base_value Bin = 2"
| "base_value Oct = 8"
| "base_value Dec = 10"
| "base_value Hex = 16"

lemma base_value_bounds: "2 \<le> unat (base_value b)" "unat (base_value b) \<le> 16"
  by (cases b; simp)+

lemma base_value_cases:
  "base_value b = 2 \<or> base_value b = 8 \<or> base_value b = 10 \<or> base_value b = 16"
  by (cases b) simp_all

definition digit_char :: "u8 \<Rightarrow> u8" where
  "digit_char digit = (if digit < 10 then 48 + digit else 97 + digit - 10)"

function digits_loop :: "addr \<Rightarrow> u64 \<Rightarrow> base \<Rightarrow> u64 \<Rightarrow> machine \<Rightarrow> u64 \<times> machine" where
  "digits_loop buffer uvalue b i m =
     (if uvalue \<noteq> 0
      then let digit = ucast (uvalue mod base_value b);
               m = store_byte (buffer + i) (digit_char digit) m
           in digits_loop buffer (uvalue div base_value b) b (i + 1) m
      else (i, m))"
  by auto
termination
proof (relation "measure (\<lambda>(buffer, uvalue, b, i, m). unat uvalue)", simp, clarsimp)
  fix u :: u64 and b
  assume "u \<noteq> 0"
  then have "0 < unat u" by (simp add: unat_gt_0)
  then show "unat (u div base_value b) < unat u"
    using base_value_bounds [of b] by (simp add: unat_div)
qed

declare digits_loop.simps [simp del]

function reverse_loop :: "addr \<Rightarrow> u64 \<Rightarrow> u64 \<Rightarrow> machine \<Rightarrow> machine" where
  "reverse_loop buffer j i m =
     (if j < i
      then let temp = byte_at m (buffer + j);
               m = store_byte (buffer + j) (byte_at m (buffer + i)) m;
               m = store_byte (buffer + i) temp m
           in reverse_loop buffer (j + 1) (i - 1) m
      else m)"
  by auto
termination
proof (relation "measure (\<lambda>(buffer, j, i, m). unat i - unat j)", simp, clarsimp)
  fix j i :: u64
  assume "j < i"
  moreover from this have "unat (i - 1) = unat i - 1"
    by (metis One_nat_def unat_minus_one word_not_simps(1))
  ultimately show "unat (i - 1) - unat (j + 1) < unat i - unat j"
    by (simp add: unat_Suc_less wordnat)
qed

declare reverse_loop.simps [simp del]

definition itoa :: "addr \<Rightarrow> u64 \<Rightarrow> u64 \<Rightarrow> base \<Rightarrow> machine \<Rightarrow> machine" where
  "itoa buffer buffer_size v b m =
     (if buffer_size \<le> 1 then m
      else if v = 0
      then store_byte (buffer + 1) 0 (store_byte (buffer + 0) 48 m)
      else let negative = (b = Dec \<and> sint v < 0);
               uvalue = (if negative then - v else v);
               (i, m) = digits_loop buffer uvalue b 0 m;
               (i, m) = (if negative then (i + 1, store_byte (buffer + i) 45 m) else (i, m));
               m = store_byte (buffer + i) 0 m
           in reverse_loop buffer 0 (i - 1) m)"

subsection \<open>Specification: digits and how they are read\<close>

fun digits :: "nat \<Rightarrow> nat \<Rightarrow> nat list" where
  "digits b n = (if n = 0 \<or> b < 2 then [] else digits b (n div b) @ [n mod b])"

declare digits.simps [simp del]

definition read_digits :: "nat \<Rightarrow> nat list \<Rightarrow> nat" where
  "read_digits b ds = foldl (\<lambda>n d. b * n + d) 0 ds"

definition digit_of_char :: "u8 \<Rightarrow> nat" where
  "digit_of_char c = (if unat c < 58 then unat c - 48 else unat c - 87)"

text \<open>A number as a person reads it: an optional minus sign and the digits.\<close>

definition read_number :: "base \<Rightarrow> u8 list \<Rightarrow> int" where
  "read_number b cs =
     (case cs of [] \<Rightarrow> 0
      | c # ds \<Rightarrow> if c = 45 then - int (read_digits (unat (base_value b)) (map digit_of_char ds))
                  else int (read_digits (unat (base_value b)) (map digit_of_char cs)))"

definition text_at :: "machine \<Rightarrow> addr \<Rightarrow> nat \<Rightarrow> u8 list" where
  "text_at m p n = map (\<lambda>k. byte_at m (p + of_nat k)) [0..<n]"

lemma digits_0 [simp]: "digits b 0 = []"
  by (simp add: digits.simps)

lemma digits_bound: "d \<in> set (digits b n) \<Longrightarrow> d < b"
proof (induction b n rule: digits.induct)
  case (1 b n)
  then show ?case by (subst (asm) (2) digits.simps) (auto split: if_splits)
qed

lemma read_digits_snoc [simp]: "read_digits b (ds @ [d]) = b * read_digits b ds + d"
  by (simp add: read_digits_def)

lemma read_digits_digits: "2 \<le> b \<Longrightarrow> read_digits b (digits b n) = n"
proof (induction b n rule: digits.induct)
  case (1 b n)
  then show ?case
    by (cases "n = 0") (simp_all add: digits.simps [of b n] read_digits_def)
qed

lemma length_digits: "2 \<le> b \<Longrightarrow> n < b ^ k \<Longrightarrow> length (digits b n) \<le> k"
proof (induction b n arbitrary: k rule: digits.induct)
  case (1 b n)
  show ?case
  proof (cases "n = 0")
    case False
    with 1(3) obtain j where k: "k = Suc j" by (cases k) auto
    have "n div b < b ^ j" using 1(2,3) k by (simp add: div_less_iff_less_mult mult.commute)
    with 1 False k show ?thesis by (simp add: digits.simps [of b n])
  qed simp
qed

lemma digits_at_least: "2 \<le> b \<Longrightarrow> b ^ k \<le> n \<Longrightarrow> k < length (digits b n)"
proof (rule ccontr)
  assume b: "2 \<le> b" "b ^ k \<le> n" and "\<not> k < length (digits b n)"
  have "read_digits b ds < b ^ length ds" if "\<forall>d\<in>set ds. d < b" for ds
    using that
  proof (induction ds rule: rev_induct)
    case (snoc d ds)
    then have "b * read_digits b ds + d < b * (read_digits b ds + 1)" by simp
    also have "\<dots> \<le> b * b ^ length ds" using snoc by (intro mult_le_mono2) simp
    finally show ?case by simp
  qed (simp add: read_digits_def)
  then have "n < b ^ length (digits b n)"
    using digits_bound read_digits_digits [OF b(1)] by metis
  moreover have "b ^ length (digits b n) \<le> b ^ k"
    using \<open>\<not> _\<close> b(1) by (intro power_increasing) simp_all
  ultimately show False using b(2) by simp
qed

subsection \<open>The two loops\<close>

abbreviation digit_list :: "base \<Rightarrow> u64 \<Rightarrow> nat list" where
  "digit_list b u \<equiv> digits (unat (base_value b)) (unat u)"

lemma digit_list_step:
  assumes "u \<noteq> 0"
  shows "digit_list b u = digit_list b (u div base_value b) @ [unat (u mod base_value b)]"
proof -
  have "unat u \<noteq> 0" using assms by (simp add: unat_eq_0)
  then show ?thesis
    using base_value_bounds [of b] by (subst digits.simps) (simp add: unat_div unat_mod)
qed

lemma length_digit_list: "length (digit_list b u) \<le> 64"
proof (rule length_digits)
  have "(2 :: nat) ^ 64 \<le> unat (base_value b) ^ 64"
    using base_value_bounds(1) [of b] by (rule power_mono) simp
  then show "unat u < unat (base_value b) ^ 64" using u64_bound [of u] by simp
qed (rule base_value_bounds)

lemma digits_loop_result:
  assumes "unat i + length (digit_list b u) < 18446744073709551616"
  shows "fst (digits_loop buffer u b i m) = i + of_nat (length (digit_list b u))
    \<and> byte_at (snd (digits_loop buffer u b i m)) a
      = (if unat i \<le> unat (a - buffer) \<and> unat (a - buffer) < unat i + length (digit_list b u)
         then digit_char (of_nat (rev (digit_list b u) ! (unat (a - buffer) - unat i)))
         else byte_at m a)"
  using assms
proof (induction buffer u b i m rule: digits_loop.induct)
  case (1 buffer u b i m)
  show ?case
  proof (cases "u = 0")
    case True
    then have "digits_loop buffer u b i m = (i, m)" by (simp add: digits_loop.simps)
    with True show ?thesis by auto
  next
    case False
    let ?n = "length (digit_list b (u div base_value b))" and ?x = "unat (a - buffer)"
    let ?c = "digit_char (ucast (u mod base_value b))"
    let ?m = "store_byte (buffer + i) ?c m"
    note st = digit_list_step [OF False, of b]
    have len: "unat i + Suc ?n < 18446744073709551616" using 1(2) st by simp
    then have i1: "unat (i + 1) = Suc (unat i)" by (simp add: unat_add_nowrap)
    have run: "digits_loop buffer u b i m = digits_loop buffer (u div base_value b) b (i + 1) ?m"
      using False by (simp add: digits_loop.simps [of buffer u] Let_def)
    have IH: "fst (digits_loop buffer u b i m) = i + 1 + of_nat ?n
      \<and> byte_at (snd (digits_loop buffer u b i m)) a
        = (if Suc (unat i) \<le> ?x \<and> ?x < Suc (unat i) + ?n
           then digit_char (of_nat (rev (digit_list b (u div base_value b)) ! (?x - Suc (unat i))))
           else byte_at ?m a)"
      using 1(1) [OF False refl refl] len i1 unfolding run by simp
    have hit: "a = buffer + i \<longleftrightarrow> ?x = unat i"
      by (metis add_diff_cancel_left' diff_add_cancel add.commute word_unat_eq_iff)
    have c: "?c = digit_char (of_nat (unat (u mod base_value b)))"
      by (simp only: of_nat_unat)
    have nth: "rev (digit_list b u) ! (?x - unat i)
      = (if ?x = unat i then unat (u mod base_value b)
         else rev (digit_list b (u div base_value b)) ! (?x - Suc (unat i)))"
      if "unat i \<le> ?x" using that st by (auto simp: nth_Cons' )
    show ?thesis
      using IH st c hit nth by (auto simp: byte_at_store_byte)
  qed
qed

lemma reverse_loop_bytes:
  assumes "unat i < 128" "unat j \<le> unat i + 1"
  shows "byte_at (reverse_loop buffer j i m) a
    = (if unat j \<le> unat (a - buffer) \<and> unat (a - buffer) \<le> unat i
       then byte_at m (buffer + of_nat (unat i + unat j - unat (a - buffer)))
       else byte_at m a)"
  using assms
proof (induction buffer j i m rule: reverse_loop.induct)
  case (1 buffer j i m)
  let ?x = "unat (a - buffer)"
  have hit: "a = buffer + k \<longleftrightarrow> ?x = unat k" for k
    by (metis add_diff_cancel_left' diff_add_cancel add.commute word_unat_eq_iff)
  have of_x: "buffer + of_nat ?x = a" by simp
  show ?case
  proof (cases "j < i")
    case False
    then have "reverse_loop buffer j i m = m" by (simp add: reverse_loop.simps)
    moreover have "byte_at m (buffer + of_nat (unat i + unat j - ?x)) = byte_at m a"
      if "unat j \<le> ?x" "?x \<le> unat i"
    proof -
      have "unat i + unat j - ?x = ?x" using that False 1(3) by (simp add: wordnat)
      then show ?thesis using of_x by simp
    qed
    ultimately show ?thesis by simp
  next
    case True
    let ?m = "store_byte (buffer + i) (byte_at m (buffer + j))
       (store_byte (buffer + j) (byte_at m (buffer + i)) m)"
    have run: "reverse_loop buffer j i m = reverse_loop buffer (j + 1) (i - 1) ?m"
      using True by (simp add: reverse_loop.simps [of buffer j i m] Let_def)
    have ji: "unat j < unat i" using True by (simp add: wordnat)
    then have i1: "unat (i - 1) = unat i - 1"
      by (metis One_nat_def True unat_minus_one word_not_simps(1))
    have j1: "unat (j + 1) = unat j + 1" using True by (simp add: unat_Suc_less)
    have sum: "unat i - Suc 0 + Suc (unat j) = unat i + unat j" using ji by simp
    have IH: "byte_at (reverse_loop buffer j i m) a
      = (if Suc (unat j) \<le> ?x \<and> ?x \<le> unat i - 1
         then byte_at ?m (buffer + of_nat (unat i + unat j - ?x)) else byte_at ?m a)"
      using 1(1) [OF True refl refl refl] 1(2) ji i1 j1 sum unfolding run by simp
    have small: "unat (of_nat k :: u64) = k" if "k < 256" for k
      using that by (simp add: unat_of_nat take_bit_eq_mod)
    have m: "byte_at ?m c = (if unat (c - buffer) = unat i then byte_at m (buffer + j)
        else if unat (c - buffer) = unat j then byte_at m (buffer + i) else byte_at m c)" for c
      using byte_at_store_byte by (auto simp: word_unat_eq_iff [symmetric] byte_at_store_byte)
    show ?thesis
    proof (cases "Suc (unat j) \<le> ?x \<and> ?x \<le> unat i - 1")
      case T: True
      let ?k = "unat i + unat j - ?x"
      have "unat (of_nat ?k :: u64) = ?k" using 1(2) ji by (intro small) simp
      then have off: "unat (buffer + of_nat ?k - buffer) = ?k" by simp
      have k: "?k \<noteq> unat i" "?k \<noteq> unat j" using T ji by linarith+
      have "byte_at ?m (buffer + of_nat ?k) = byte_at m (buffer + of_nat ?k)"
        using m [of "buffer + of_nat ?k"] k unfolding off by presburger
      moreover have "unat j \<le> ?x \<and> ?x \<le> unat i" using T by linarith
      ultimately show ?thesis unfolding IH using T by presburger
    next
      case F: False
      have ends: "?x = unat j \<Longrightarrow> buffer + of_nat (unat i + unat j - ?x) = buffer + i"
        "?x = unat i \<Longrightarrow> buffer + of_nat (unat i + unat j - ?x) = buffer + j"
        by (simp_all only: add_diff_cancel_left' add_diff_cancel_right' of_nat_unat ucast_id)
      show ?thesis
      proof (cases "unat j \<le> ?x \<and> ?x \<le> unat i")
        case R: True
        then consider (l) "?x = unat j" | (r) "?x = unat i" using F by linarith
        then have "byte_at ?m a = byte_at m (buffer + of_nat (unat i + unat j - ?x))"
        proof cases
          case l
          have "byte_at ?m a = byte_at m (buffer + i)" using m [of a] ji unfolding l by simp
          then show ?thesis unfolding ends(1) [OF l] .
        next
          case r
          have "byte_at ?m a = byte_at m (buffer + j)" using m [of a] ji unfolding r by simp
          then show ?thesis unfolding ends(2) [OF r] .
        qed
        with IH F R show ?thesis by presburger
      next
        case O: False
        with ji have "byte_at ?m a = byte_at m a" using m [of a] by auto
        with IH F O show ?thesis by presburger
      qed
    qed
  qed
qed

subsection \<open>The text that is written\<close>

definition digit_text :: "base \<Rightarrow> u64 \<Rightarrow> u8 list" where
  "digit_text b u = map (\<lambda>d. digit_char (of_nat d)) (digit_list b u)"

definition itoa_text :: "base \<Rightarrow> u64 \<Rightarrow> u8 list" where
  "itoa_text b v =
     (if v = 0 then [48]
      else if b = Dec \<and> sint v < 0 then 45 # digit_text b (- v) else digit_text b v)"

lemma digit_text_nonempty: "u \<noteq> 0 \<Longrightarrow> digit_text b u \<noteq> []"
  using digit_list_step [of u b] by (simp add: digit_text_def)

lemma length_itoa_text: "0 < length (itoa_text b v)" "length (itoa_text b v) \<le> 65"
  using length_digit_list [of b v] length_digit_list [of b "- v"] digit_text_nonempty [of v b]
  by (auto simp: itoa_text_def digit_text_def)

lemma at_offset: "a = buffer + k \<longleftrightarrow> unat (a - buffer) = unat (k :: u64)"
  by (metis add_diff_cancel_left' diff_add_cancel add.commute word_unat_eq_iff)

text \<open>The first byte of the reversed text is the last one that was written, so the sign, put
  after the digits, comes first.\<close>

lemma itoa_bytes:
  assumes "1 < buffer_size"
  shows "byte_at (itoa buffer buffer_size v b m) a
    = (let x = unat (a - buffer); t = itoa_text b v
       in if x < length t then t ! x else if x = length t then 0 else byte_at m a)"
proof (cases "v = 0")
  case True
  have big: "\<not> buffer_size \<le> 1" using assms by simp
  have "byte_at (itoa buffer buffer_size v b m) a
    = (if unat (a - buffer) = 1 then 0 else if unat (a - buffer) = 0 then 48 else byte_at m a)"
    using True big at_offset [of a buffer 0] at_offset [of a buffer 1]
    by (simp add: itoa_def byte_at_store_byte)
  then show ?thesis using True by (simp add: itoa_text_def Let_def less_Suc_eq)
next
  case False
  define neg where "neg \<longleftrightarrow> b = Dec \<and> sint v < 0"
  define u where "u = (if neg then - v else v)"
  define ds where "ds = digit_list b u"
  define m1 where "m1 = snd (digits_loop buffer u b 0 m)"
  let ?m1 = m1 and ?n = "of_nat (length ds) :: u64"
  let ?x = "unat (a - buffer)"
  define k where "k = (if neg then length ds + 1 else length ds)"
  let ?m2 = "if neg then store_byte (buffer + ?n) 45 ?m1 else ?m1"
  let ?m3 = "store_byte (buffer + of_nat k) 0 ?m2"
  have len: "length ds \<le> 64" "0 < length ds"
    using length_digit_list [of b u] digit_list_step [of u b] False
    by (auto simp: ds_def u_def)
  then have k1: "of_nat k - 1 = (of_nat (k - 1) :: u64)" by (simp add: k_def of_nat_diff Suc_leI)
  have "unat (of_nat k - 1 :: u64) = k - 1"
    using len unfolding k1 by (simp add: k_def unat_of_nat take_bit_eq_mod)
  then have small: "unat ?n = length ds" "unat (of_nat k :: u64) = k" "unat (of_nat k - 1 :: u64) = k - 1"
    using len by (simp_all add: k_def unat_of_nat take_bit_eq_mod)
  have L: "fst (digits_loop buffer u b 0 m) = ?n"
    "byte_at ?m1 c = (if unat (c - buffer) < length ds
       then digit_char (of_nat (rev ds ! unat (c - buffer))) else byte_at m c)" for c
    using digits_loop_result [of 0 b u buffer m c] len by (simp_all add: ds_def m1_def)
  have "digits_loop buffer u b 0 m = (?n, ?m1)" using L(1) by (metis prod.collapse m1_def)
  then have run: "itoa buffer buffer_size v b m = reverse_loop buffer 0 (of_nat k - 1) ?m3"
    using assms False unfolding itoa_def neg_def [symmetric]
    by (simp add: Let_def u_def [symmetric] k_def not_le [symmetric] add.commute)
  have m3: "byte_at ?m3 c = (if unat (c - buffer) = k then 0
      else if unat (c - buffer) < length ds then digit_char (of_nat (rev ds ! unat (c - buffer)))
      else if unat (c - buffer) < k then 45 else byte_at m c)" for c
    using small at_offset [of c buffer "of_nat k"] at_offset [of c buffer ?n] L(2) [of c]
    by (auto simp: byte_at_store_byte k_def)
  have tx: "itoa_text b v = (if neg then [45] else []) @ map (\<lambda>d. digit_char (of_nat d)) ds"
    using False by (auto simp: itoa_text_def neg_def u_def ds_def digit_text_def)
  then have lt: "length (itoa_text b v) = k" by (simp add: k_def)
  have "byte_at (itoa buffer buffer_size v b m) a
    = (if ?x < k then byte_at ?m3 (buffer + of_nat (k - 1 - ?x)) else byte_at ?m3 a)"
  proof -
    have kp: "0 < k" using len(2) by (simp add: k_def)
    have "unat (0 :: u64) \<le> ?x \<and> ?x \<le> unat (of_nat k - 1 :: u64) \<longleftrightarrow> ?x < k"
      using kp unfolding small(3) by auto
    moreover have "k - 1 + unat (0 :: u64) - ?x = k - 1 - ?x" by simp
    moreover have "k \<le> 65" using len(1) by (simp add: k_def)
    then have "unat (of_nat k - 1 :: u64) < 128" unfolding small(3) by linarith
    ultimately show ?thesis
      using reverse_loop_bytes [of "of_nat k - 1" 0 buffer ?m3 a] unfolding run small(3) by simp
  qed
  moreover have "byte_at ?m3 (buffer + of_nat (k - 1 - ?x)) = itoa_text b v ! ?x" if "?x < k"
  proof -
    let ?j = "k - 1 - ?x"
    have j: "?j < k" and kn: "k = (if neg then length ds + 1 else length ds)"
      using that by (simp_all add: k_def)
    have "unat (of_nat ?j :: u64) = ?j"
      using len j kn by (simp add: unat_of_nat take_bit_eq_mod split: if_splits)
    then have "byte_at ?m3 (buffer + of_nat ?j)
      = (if ?j < length ds then digit_char (of_nat (rev ds ! ?j)) else 45)"
      unfolding m3 using j by simp
    also have "\<dots> = itoa_text b v ! ?x"
    proof (cases neg)
      case True
      then show ?thesis using that kn len(2) by (cases ?x) (auto simp: tx rev_nth Suc_diff_Suc)
    next
      case F: False
      then have "?j < length ds" "rev ds ! ?j = ds ! ?x" using that kn by (simp_all add: rev_nth)
      then show ?thesis using that kn F by (simp add: tx)
    qed
    finally show ?thesis .
  qed
  ultimately show ?thesis using m3 [of a] len by (auto simp: Let_def lt k_def)
qed

lemma digit_of_char_digit_char: "d < 16 \<Longrightarrow> digit_of_char (digit_char (of_nat d)) = d"
proof -
  assume "d < 16"
  then have "unat (of_nat d :: u8) = d" by (simp add: unat_of_nat take_bit_eq_mod)
  then show ?thesis
    using \<open>d < 16\<close> by (auto simp: digit_of_char_def digit_char_def word_less_nat_alt unat_word_ariths)
qed

lemma digit_char_range: "d < 16 \<Longrightarrow> 48 \<le> unat (digit_char (of_nat d))"
proof -
  assume "d < 16"
  then have "unat (of_nat d :: u8) = d" by (simp add: unat_of_nat take_bit_eq_mod)
  then show ?thesis
    using \<open>d < 16\<close> by (auto simp: digit_char_def word_less_nat_alt unat_word_ariths)
qed

lemma digit_list_bound: "d \<in> set (digit_list b u) \<Longrightarrow> d < 16"
  using digits_bound base_value_bounds(2) [of b] less_le_trans by blast

lemma read_digit_text:
  "read_digits (unat (base_value b)) (map digit_of_char (digit_text b u)) = unat u"
proof -
  have "map digit_of_char (digit_text b u) = digit_list b u"
    unfolding digit_text_def map_map
    by (rule map_idI) (use digit_list_bound digit_of_char_digit_char in auto)
  then show ?thesis by (simp add: read_digits_digits base_value_bounds)
qed

lemma digit_text_chars: "c \<in> set (digit_text b u) \<Longrightarrow> 48 \<le> unat c"
  using digit_list_bound digit_char_range by (auto simp: digit_text_def)

lemma itoa_text_chars: "0 \<notin> set (itoa_text b v)"
  using digit_text_chars [of 0 b v] digit_text_chars [of 0 b "- v"] by (auto simp: itoa_text_def)

lemma sint_u64: "sint (v :: u64) = (if uint v < 9223372036854775808 then uint v
    else uint v - 18446744073709551616)"
proof -
  have "sint v = (uint v + 9223372036854775808) mod 18446744073709551616 - 9223372036854775808"
    by (simp add: sint_uint signed_take_bit_eq_take_bit_shift take_bit_eq_mod)
  moreover have "0 \<le> uint v" "uint v < 18446744073709551616" using uint_lt2p [of v] by simp_all
  moreover have "(uint v + 9223372036854775808) mod 18446744073709551616
      = uint v - 9223372036854775808" if "9223372036854775808 \<le> uint v"
  proof -
    have "uint v + 9223372036854775808 = (uint v - 9223372036854775808) + 18446744073709551616"
      by simp
    moreover have "(uint v - 9223372036854775808) mod 18446744073709551616
        = uint v - 9223372036854775808"
      using that \<open>uint v < _\<close> by (intro mod_pos_pos_trivial) simp_all
    ultimately show ?thesis by (simp only: mod_add_self2)
  qed
  ultimately show ?thesis by (auto simp: mod_pos_pos_trivial not_less)
qed

lemma sint_negative: "sint (v :: u64) < 0 \<Longrightarrow> int (unat (- v)) = - sint v"
proof -
  assume neg: "sint v < 0"
  have "uint v = sint v + 18446744073709551616"
    using neg by (simp add: sint_u64 split: if_splits)
  moreover have "v \<noteq> 0" using neg by auto
  moreover from \<open>v \<noteq> 0\<close> have "uint v \<noteq> 0" by (simp add: uint_0_iff)
  then have "0 < uint v" using uint_nonnegative [of v] by linarith
  ultimately show ?thesis
    using uint_lt2p [of v] mod_pos_pos_trivial [of "18446744073709551616 - uint v" 18446744073709551616]
      mod_add_self2 [of "- uint v" 18446744073709551616]
    by (simp add: uint_word_ariths uint_nat [symmetric] del: mod_add_self2)
qed

lemma read_itoa_text:
  "read_number b (itoa_text b v) = (if b = Dec then sint v else uint v)"
proof (cases "v = 0")
  case True
  then show ?thesis
    by (cases b) (simp_all add: itoa_text_def read_number_def read_digits_def digit_of_char_def)
next
  case False
  then obtain c cs where t: "digit_text b v = c # cs" using digit_text_nonempty by (cases "digit_text b v") auto
  then have "48 \<le> unat c" using digit_text_chars [of c b v] by simp
  then have "c \<noteq> 45" by auto
  then have pos: "read_number b (digit_text b v) = uint v"
    using read_digit_text [of b v] t by (simp add: read_number_def)
  have neg: "read_number b (45 # digit_text b (- v)) = - int (unat (- v))"
    using read_digit_text [of b "- v"] by (simp add: read_number_def)
  have "sint v = uint v" if "\<not> sint v < 0"
    using that uint_lt2p [of v] by (simp add: sint_u64 split: if_splits)
  then show ?thesis using False pos neg sint_negative [of v] by (auto simp: itoa_text_def)
qed

lemma digits_loop_rest [simp]:
  "placement (snd (digits_loop buffer u b i m)) = placement m
    \<and> cr3 (snd (digits_loop buffer u b i m)) = cr3 m"
proof (induction buffer u b i m rule: digits_loop.induct)
  case (1 buffer u b i m)
  show ?case
  proof (cases "u = 0")
    case False
    then show ?thesis using 1 [OF False refl refl] by (simp add: digits_loop.simps [of buffer u] Let_def)
  qed (simp add: digits_loop.simps [of buffer 0])
qed

lemma reverse_loop_rest [simp]:
  "placement (reverse_loop buffer j i m) = placement m \<and> cr3 (reverse_loop buffer j i m) = cr3 m"
proof (induction buffer j i m rule: reverse_loop.induct)
  case (1 buffer j i m)
  show ?case
  proof (cases "j < i")
    case True
    then show ?thesis using 1 [OF True refl refl refl] by (simp add: reverse_loop.simps [of buffer j i] Let_def)
  qed (simp add: reverse_loop.simps [of buffer j i])
qed

text \<open>The text takes at most 65 bytes and its terminator one.\<close>

lemma itoa_writes: "writes_only buffer 66 m (itoa buffer buffer_size v b m)"
proof -
  have "placement (itoa buffer buffer_size v b m) = placement m \<and> cr3 (itoa buffer buffer_size v b m) = cr3 m"
    by (simp add: itoa_def Let_def split_def)
  moreover have "byte_at (itoa buffer buffer_size v b m) x = byte_at m x" if "66 \<le> unat (x - buffer)" for x
  proof (cases "1 < buffer_size")
    case True
    then show ?thesis
      using itoa_bytes [OF True, of buffer v b m x] length_itoa_text(2) [of b v] that by (simp add: Let_def)
  qed (simp add: itoa_def not_less)
  ultimately show ?thesis by (simp add: writes_only_def same_bytes_def)
qed

subsection \<open>Properties\<close>

lemma itoa_at:
  assumes "1 < buffer_size" and "k \<le> length (itoa_text b v)"
  shows "byte_at (itoa buffer buffer_size v b m) (buffer + of_nat k)
    = (if k < length (itoa_text b v) then itoa_text b v ! k else 0)"
proof -
  have "k \<le> 65" using assms(2) length_itoa_text(2) [of b v] by linarith
  then have k: "unat (buffer + of_nat k - buffer) = k" by (simp add: unat_of_nat take_bit_eq_mod)
  show ?thesis
    using assms(2) itoa_bytes [OF assms(1), of buffer v b m "buffer + of_nat k"]
    unfolding k Let_def by (auto simp: le_less)
qed

lemma itoa_string:
  assumes "1 < buffer_size"
  shows "text_at (itoa buffer buffer_size v b m) buffer (length (itoa_text b v)) = itoa_text b v"
    and "strlen buffer (itoa buffer buffer_size v b m) = Some (of_nat (length (itoa_text b v)))"
proof -
  let ?t = "itoa_text b v" and ?m = "itoa buffer buffer_size v b m"
  note at = itoa_at [OF assms, of _ b v buffer m]
  show tx: "text_at ?m buffer (length ?t) = ?t"
    unfolding text_at_def by (rule nth_equalityI) (simp_all add: at)
  have "?t ! k \<noteq> 0" if "k < length ?t" for k
    using that itoa_text_chars [of b v] nth_mem by metis
  then show "strlen buffer ?m = Some (of_nat (length ?t))"
    using strlen_loop_result [of "length ?t" ?m buffer 0] at [of "length ?t"] at
    by (simp add: strlen_def)
qed

text \<open>C21. The text \<^verbatim>\<open>itoa\<close> leaves in the buffer reads back as the number, in all four bases:
  measured with \<^verbatim>\<open>strlen\<close> and parsed, it gives the signed value in decimal and the
  unsigned value of the same 64 bits in the other bases (INT64_MIN in decimal is left out,
  its negation is undefined in C++).\<close>

theorem itoa_roundtrip:
  assumes "1 < buffer_size" and "\<not> (b = Dec \<and> v = 0x8000000000000000)"
  shows "\<exists>n. strlen buffer (itoa buffer buffer_size v b m) = Some n
    \<and> read_number b (text_at (itoa buffer buffer_size v b m) buffer (unat n))
      = (if b = Dec then sint v else uint v)"
proof -
  have "unat (of_nat (length (itoa_text b v)) :: u64) = length (itoa_text b v)"
    using length_itoa_text(2) [of b v] by (simp add: unat_of_nat take_bit_eq_mod)
  then show ?thesis
    using itoa_string [OF assms(1), of buffer v b m] read_itoa_text [of b v] by metis
qed

definition blank_machine :: machine where
  "blank_machine = \<lparr>placement = 0x1000, mem = (\<lambda>_. 0), cr3 = 0, invlpgs = []\<rparr>"

theorem itoa_roundtrip_witness:
  "\<exists>n. strlen 0x2000 (itoa 0x2000 32 (- 4096) Dec blank_machine) = Some n
    \<and> read_number Dec (text_at (itoa 0x2000 32 (- 4096) Dec blank_machine) 0x2000 (unat n)) = - 4096"
proof -
  have "sint (- 4096 :: u64) = - 4096" by simp
  then show ?thesis using itoa_roundtrip [of 32 Dec "- 4096" "0x2000" blank_machine] by simp
qed

text \<open>Apart from refusing sizes 0 and 1, \<^verbatim>\<open>itoa\<close> ignores the size of the buffer: a
  number with at least as many digits as the buffer has bytes is written past its end, where
  the terminator always lands.\<close>

theorem itoa_overruns_buffer:
  assumes "1 < buffer_size" and "\<not> (b = Dec \<and> sint v < 0)"
    and "unat (base_value b) ^ (unat buffer_size - 1) \<le> unat v"
  shows "\<exists>k \<ge> buffer_size. \<forall>m. byte_at (itoa buffer buffer_size v b m) (buffer + k) = 0"
proof (intro exI conjI allI)
  let ?n = "length (itoa_text b v)"
  have n: "unat (of_nat ?n :: u64) = ?n"
    using length_itoa_text(2) [of b v] by (simp add: unat_of_nat take_bit_eq_mod)
  have "v \<noteq> 0" using assms(3) base_value_bounds(1) [of b] by (auto simp: not_le)
  then have "?n = length (digit_list b v)"
    using assms(2) by (auto simp: itoa_text_def digit_text_def)
  moreover have "unat buffer_size - 1 < length (digit_list b v)"
    by (rule digits_at_least) (use assms(3) base_value_bounds(1) in simp_all)
  ultimately show "buffer_size \<le> of_nat ?n" unfolding word_le_nat_alt n by linarith
  show "byte_at (itoa buffer buffer_size v b m) (buffer + of_nat ?n) = 0" for m
    using itoa_bytes [OF assms(1), of buffer v b m "buffer + of_nat ?n"] n by (simp add: Let_def)
qed

theorem itoa_overruns_buffer_witness:
  "\<exists>k \<ge> 4. \<forall>m. byte_at (itoa 0x2000 4 0xffff Hex m) (0x2000 + k) = 0"
  using itoa_overruns_buffer [of 4 Hex "0xffff" "0x2000"] by simp

end
