(* ===== verification/Steps.thy ===== *)
theory Steps
  imports Prelude
begin

text \<open>
  Sequences of operations that may fail, as the longer functions of the kernel are composed of
  them, and the contract such operations share: from a state that satisfies the invariant an
  operation returns, keeps the invariant and is related to its result. The locale closes the
  contract under sequencing and under conditionals; the bus scan and the kernel entry interpret
  it with what they keep.
\<close>

fun run_all :: "('s \<Rightarrow> 's option) list \<Rightarrow> 's \<Rightarrow> 's option" where
  "run_all [] s = Some s"
| "run_all (f # fs) s = (case f s of None \<Rightarrow> None | Some s \<Rightarrow> run_all fs s)"

definition keeps :: "('s \<Rightarrow> bool) \<Rightarrow> ('s \<Rightarrow> 's \<Rightarrow> bool) \<Rightarrow> ('s \<Rightarrow> 's option) \<Rightarrow> bool" where
  "keeps ok rel f \<longleftrightarrow> (\<forall>s. ok s \<longrightarrow> (\<exists>s'. f s = Some s' \<and> ok s' \<and> rel s s'))"

lemma keepsI: "(\<And>s. ok s \<Longrightarrow> \<exists>s'. f s = Some s' \<and> ok s' \<and> rel s s') \<Longrightarrow> keeps ok rel f"
  by (simp add: keeps_def)

lemma keepsE:
  assumes "keeps ok rel f" "ok s"
  obtains s' where "f s = Some s'" "ok s'" "rel s s'"
  using assms unfolding keeps_def by blast

text \<open>An operation run on a state prepared by another one, which need not fail.\<close>

lemma keeps_after:
  assumes "keeps ok rel f" "\<And>s. ok s \<Longrightarrow> ok (g s)" "\<And>s s'. rel (g s) s' \<Longrightarrow> rel s s'"
  shows "keeps ok rel (\<lambda>s. f (g s))"
  using assms unfolding keeps_def by blast

locale step_contract =
  fixes ok :: "'s \<Rightarrow> bool" and rel :: "'s \<Rightarrow> 's \<Rightarrow> bool"
  assumes rel_refl: "ok s \<Longrightarrow> rel s s"
    and rel_trans: "rel s t \<Longrightarrow> rel t u \<Longrightarrow> rel s u"
begin

lemma skip: "keeps ok rel Some"
  by (simp add: keeps_def rel_refl)

lemma seq:
  assumes "keeps ok rel f" "keeps ok rel g"
  shows "keeps ok rel (\<lambda>s. case f s of None \<Rightarrow> None | Some s \<Rightarrow> g s)"
proof (rule keepsI)
  fix s assume "ok s"
  with assms(1) obtain t where t: "f s = Some t" "ok t" "rel s t" by (rule keepsE)
  from assms(2) t(2) obtain u where "g t = Some u" "ok u" "rel t u" by (rule keepsE)
  with t show "\<exists>u. (case f s of None \<Rightarrow> None | Some s \<Rightarrow> g s) = Some u \<and> ok u \<and> rel s u"
    using rel_trans by auto
qed

lemma run_all: "\<forall>f \<in> set fs. keeps ok rel f \<Longrightarrow> keeps ok rel (run_all fs)"
proof (induction fs)
  case Nil
  show ?case using skip by (simp add: keeps_def)
next
  case (Cons f fs)
  then have "keeps ok rel (\<lambda>s. case f s of None \<Rightarrow> None | Some s \<Rightarrow> run_all fs s)"
    by (intro seq) simp_all
  then show ?case by (simp add: keeps_def)
qed

lemma cond: "keeps ok rel f \<Longrightarrow> keeps ok rel g \<Longrightarrow> keeps ok rel (\<lambda>s. if c s then f s else g s)"
  by (simp add: keeps_def)

lemma guarded: "keeps ok rel f \<Longrightarrow> keeps ok rel (\<lambda>s. if c s then f s else Some s)"
  by (rule cond [OF _ skip])

end

text \<open>
  A device that takes inputs one by one and shows a view of its state: while it is ready, every
  input acts on the view as a specification says, and leaves what the frame relation describes.
  A stream of inputs then acts as the stream of specified effects.
\<close>

locale device =
  fixes ready :: "'s \<Rightarrow> bool" and view :: "'s \<Rightarrow> 'a" and put :: "'c \<Rightarrow> 's \<Rightarrow> 's"
    and spec :: "'c \<Rightarrow> 'a \<Rightarrow> 'a" and frame :: "'s \<Rightarrow> 's \<Rightarrow> bool"
  assumes put_ready: "ready s \<Longrightarrow> ready (put c s)"
    and put_view: "ready s \<Longrightarrow> view (put c s) = spec c (view s)"
    and put_frame: "ready s \<Longrightarrow> frame (put c s) s"
    and frame_refl: "frame s s"
    and frame_trans: "frame u t \<Longrightarrow> frame t s \<Longrightarrow> frame u s"
begin

lemma puts:
  assumes "ready s"
  shows "view (foldl (\<lambda>s c. put c s) s cs) = foldl (\<lambda>a c. spec c a) (view s) cs
    \<and> ready (foldl (\<lambda>s c. put c s) s cs) \<and> frame (foldl (\<lambda>s c. put c s) s cs) s"
  using assms
proof (induction cs arbitrary: s)
  case Nil
  then show ?case by (simp add: frame_refl)
next
  case (Cons c cs)
  have "frame (put c s) s" "ready (put c s)" "view (put c s) = spec c (view s)"
    using Cons.prems by (rule put_frame, rule put_ready, rule put_view)
  with Cons.IH [of "put c s"] show ?case
    using frame_trans [of _ "put c s" s] by simp
qed

end

end
