(* ===== verification/Video.thy ===== *)
theory Video
  imports Stdlib Steps
begin

text \<open>
  The text console: class \<^verbatim>\<open>iprotected_mode\<close> of \<^verbatim>\<open>arch/iprotected_mode.hpp\<close> and
  its implementation in \<^verbatim>\<open>arch/amd64/video/protected_mode.cpp\<close>. The video memory at
  \<open>VGA_VIRTUAL_ADDRESS\<close> is the component \<open>videobuf\<close>, a map from the index of a 16-bit cell
  to its contents; it is device memory, and no string that is printed lies in it. The loops
  over rows and columns have constant bounds and are folds over the lists of their counters.
  The refinement at the end shows that the console is a scrolling list of rows.
\<close>

subsection \<open>State\<close>

definition WIDTH :: nat where
  "WIDTH = 80"

definition HEIGHT :: nat where
  "HEIGHT = 25"

datatype colors = BLACK | BLUE | GREEN | CYAN | RED | PURPLE | BROWN | GRAY | DARK_GRAY
  | LIGHT_BLUE | LIGHT_GREEN | LIGHT_CYAN | LIGHT_RED | LIGHT_PURPLE | YELLOW | WHITE

fun color_value :: "colors \<Rightarrow> u32" where
  "color_value BLACK = 0" | "color_value BLUE = 1" | "color_value GREEN = 2"
| "color_value CYAN = 3" | "color_value RED = 4" | "color_value PURPLE = 5"
| "color_value BROWN = 6" | "color_value GRAY = 7" | "color_value DARK_GRAY = 8"
| "color_value LIGHT_BLUE = 9" | "color_value LIGHT_GREEN = 10" | "color_value LIGHT_CYAN = 11"
| "color_value LIGHT_RED = 12" | "color_value LIGHT_PURPLE = 13" | "color_value YELLOW = 14"
| "color_value WHITE = 15"

record protected_mode =
  current_color :: colors
  col :: u8
  lin :: u8
  videobuf :: "nat \<Rightarrow> u16"

definition protected_mode_new :: "(nat \<Rightarrow> u16) \<Rightarrow> protected_mode" where
  "protected_mode_new vga = \<lparr>current_color = GRAY, col = 0, lin = 0, videobuf = vga\<rparr>"

definition poke :: "nat \<Rightarrow> u16 \<Rightarrow> protected_mode \<Rightarrow> protected_mode" where
  "poke k v s = s\<lparr>videobuf := (videobuf s)(k := v)\<rparr>"

subsection \<open>Operations\<close>

text \<open>The blank cell is \<^verbatim>\<open>' ' | 1 << 8\<close>; a character is a signed \<^verbatim>\<open>char\<close>, which the
  expression \<^verbatim>\<open>c | current_color_ << 8\<close> extends to 32 bits.\<close>

definition blank_cell :: u16 where
  "blank_cell = 32 OR push_bit 8 1"

definition char_cell :: "u8 \<Rightarrow> colors \<Rightarrow> u16" where
  "char_cell c color = ucast ((scast c :: u32) OR push_bit 8 (color_value color))"

definition scroll_down :: "protected_mode \<Rightarrow> protected_mode" where
  "scroll_down s =
     (let s = foldl (\<lambda>s y. foldl (\<lambda>s x. poke ((y - 1) * WIDTH + x) (videobuf s (y * WIDTH + x)) s)
                                 s [0..<WIDTH])
                    s [1..<HEIGHT];
          s = foldl (\<lambda>s x. poke ((HEIGHT - 1) * WIDTH + x) blank_cell s) s [0..<WIDTH]
      in s\<lparr>lin := of_nat (HEIGHT - 1)\<rparr>)"

definition clear_screen :: "protected_mode \<Rightarrow> protected_mode" where
  "clear_screen s =
     (let s = s\<lparr>current_color := GRAY\<rparr>;
          s = foldl (\<lambda>s y. foldl (\<lambda>s x. poke (y * WIDTH + x) blank_cell s) s [0..<WIDTH])
                    s [0..<HEIGHT]
      in s\<lparr>lin := 0, col := 0\<rparr>)"

definition printc :: "u8 \<Rightarrow> protected_mode \<Rightarrow> protected_mode" where
  "printc c s =
     (if c = 10 \<or> c = 13
      then let s = s\<lparr>col := 0\<rparr>;
               s = s\<lparr>lin := lin s + 1\<rparr>
           in if unat (lin s) \<ge> HEIGHT then scroll_down s else s
      else let s = poke (unat (lin s) * WIDTH + unat (col s)) (char_cell c (current_color s)) s;
               s = s\<lparr>col := col s + 1\<rparr>
           in if unat (col s) \<ge> WIDTH
              then let s = s\<lparr>col := 0\<rparr>;
                       s = s\<lparr>lin := lin s + 1\<rparr>
                   in if unat (lin s) \<ge> HEIGHT then scroll_down s else s
              else s)"

text \<open>A string in memory, up to its terminator; and a string literal of the source, as the list
  of its characters.\<close>

partial_function (option) prints :: "addr \<Rightarrow> machine \<Rightarrow> protected_mode \<Rightarrow> protected_mode option" where
  "prints p m s =
     (if byte_at m p \<noteq> 0 then prints (p + 1) m (printc (byte_at m p) s) else Some s)"

definition prints_literal :: "string \<Rightarrow> protected_mode \<Rightarrow> protected_mode" where
  "prints_literal str s = foldl (\<lambda>s c. printc (of_char c) s) s str"

text \<open>The local buffers of \<^verbatim>\<open>printd\<close> and \<^verbatim>\<open>printx\<close> are 32 bytes of the kernel stack; their
  address is the first argument.\<close>

definition printd :: "addr \<Rightarrow> u32 \<Rightarrow> machine \<Rightarrow> protected_mode \<Rightarrow> (protected_mode \<times> machine) option" where
  "printd buffer d m s =
     (let m = itoa buffer 32 (scast d) Dec m
      in case prints buffer m s of None \<Rightarrow> None | Some s \<Rightarrow> Some (s, m))"

definition printx :: "addr \<Rightarrow> u64 \<Rightarrow> machine \<Rightarrow> protected_mode \<Rightarrow> (protected_mode \<times> machine) option" where
  "printx buffer x m s =
     (let m = itoa buffer 32 x Hex m;
          s = prints_literal ''0x'' s
      in case prints buffer m s of None \<Rightarrow> None | Some s \<Rightarrow> Some (s, m))"

text \<open>
  \<^verbatim>\<open>print\<close> dispatches on the static type of its argument. A value of any integer type is its
  64-bit extension; it is passed to \<^verbatim>\<open>printd(int)\<close>. Only \<^verbatim>\<open>const char *\<close> counts
  as a string; a \<^verbatim>\<open>char *\<close> falls through to the error branch. The source prints no
  floating point value.
\<close>

datatype print_arg = ConstCharPtr addr | Literal string | CharPtr addr | Char u8 | Integral u64

definition print :: "addr \<Rightarrow> print_arg \<Rightarrow> machine \<Rightarrow> protected_mode \<Rightarrow> (protected_mode \<times> machine) option" where
  "print buffer v m s =
     (case v of
        ConstCharPtr p \<Rightarrow> (case prints p m s of None \<Rightarrow> None | Some s \<Rightarrow> Some (s, m))
      | Literal str \<Rightarrow> Some (prints_literal str s, m)
      | Char c \<Rightarrow> Some (printc c s, m)
      | Integral n \<Rightarrow> printd buffer (ucast n) m s
      | CharPtr p \<Rightarrow>
          (case prints p m (prints_literal ''Err: '' s) of None \<Rightarrow> None | Some s \<Rightarrow> Some (s, m)))"

fun print_args :: "addr \<Rightarrow> print_arg list \<Rightarrow> machine \<Rightarrow> protected_mode \<Rightarrow> (protected_mode \<times> machine) option" where
  "print_args buffer [] m s = Some (s, m)"
| "print_args buffer (v # vs) m s =
     (case print buffer v m s of None \<Rightarrow> None | Some (s, m) \<Rightarrow> print_args buffer vs m s)"

definition set_color :: "colors \<Rightarrow> protected_mode \<Rightarrow> protected_mode" where
  "set_color c s = s\<lparr>current_color := c\<rparr>"

definition set_column :: "u8 \<Rightarrow> protected_mode \<Rightarrow> protected_mode" where
  "set_column c s = s\<lparr>col := (if unat c > WIDTH then 0 else c)\<rparr>"

definition set_line :: "u8 \<Rightarrow> protected_mode \<Rightarrow> protected_mode" where
  "set_line l s = s\<lparr>lin := (if unat l > HEIGHT then 0 else l)\<rparr>"

definition ncolumns :: "protected_mode \<Rightarrow> u8" where
  "ncolumns s = col s"

definition nlines :: "protected_mode \<Rightarrow> u8" where
  "nlines s = lin s"

lemma poke_simps [simp]:
  "current_color (poke k v s) = current_color s" "col (poke k v s) = col s"
  "lin (poke k v s) = lin s" "videobuf (poke k v s) = (videobuf s)(k := v)"
  by (simp_all add: poke_def)

subsection \<open>The loops over cells\<close>

lemma same_cells: "\<forall>i. f i = videobuf s i \<Longrightarrow> s\<lparr>videobuf := f\<rparr> = s"
  by (intro protected_mode.equality) auto

lemma eq_cells: "\<forall>i. f i = g i \<Longrightarrow> s\<lparr>videobuf := f\<rparr> = s\<lparr>videobuf := g\<rparr>"
  by (intro protected_mode.equality) auto

lemma fill_cells:
  "foldl (\<lambda>s x. poke (k + x) v s) s [0..<n]
   = s\<lparr>videobuf := (\<lambda>i. if k \<le> i \<and> i < k + n then v else videobuf s i)\<rparr>"
  by (induction n) (auto simp: poke_def less_Suc_eq intro!: same_cells [symmetric] eq_cells)

lemma copy_cells:
  assumes "d + n \<le> e"
  shows "foldl (\<lambda>s x. poke (d + x) (videobuf s (e + x)) s) s [0..<n]
    = s\<lparr>videobuf := (\<lambda>i. if d \<le> i \<and> i < d + n then videobuf s (e + (i - d)) else videobuf s i)\<rparr>"
  using assms
  by (induction n) (auto simp: poke_def less_Suc_eq intro!: same_cells [symmetric] eq_cells)

text \<open>The upper n rows are moved up by one.\<close>

lemma scroll_rows:
  "foldl (\<lambda>s y. foldl (\<lambda>s x. poke ((y - 1) * WIDTH + x) (videobuf s (y * WIDTH + x)) s)
                 s [0..<WIDTH]) s [1..<Suc n]
   = s\<lparr>videobuf := (\<lambda>i. if i < n * WIDTH then videobuf s (i + WIDTH) else videobuf s i)\<rparr>"
  (is "foldl ?row s _ = _")
proof (induction n)
  case 0
  then show ?case by (auto intro!: same_cells [symmetric])
next
  case (Suc n)
  have row: "?row t (Suc n) = t\<lparr>videobuf := (\<lambda>i. if n * WIDTH \<le> i \<and> i < n * WIDTH + WIDTH
      then videobuf t (Suc n * WIDTH + (i - n * WIDTH)) else videobuf t i)\<rparr>" for t
    using copy_cells [of "n * WIDTH" WIDTH "Suc n * WIDTH" t] by simp
  have eq: "[1..<Suc (Suc n)] = [1..<Suc n] @ [Suc n]" by simp
  show ?case
    unfolding eq foldl_append foldl_Cons foldl_Nil Suc.IH row
    by (auto intro!: eq_cells simp: add.commute)
qed

lemma scroll_down_eq:
  "scroll_down s = s\<lparr>lin := 24, videobuf := (\<lambda>i. if i < 1920 then videobuf s (i + 80)
     else if i < 2000 then blank_cell else videobuf s i)\<rparr>"
proof -
  have h: "[1..<HEIGHT] = [1..<Suc 24]" by (simp only: HEIGHT_def) simp
  show ?thesis unfolding scroll_down_def Let_def h scroll_rows fill_cells
    by (intro protected_mode.equality) (auto simp: HEIGHT_def WIDTH_def)
qed

lemma clear_rows:
  "foldl (\<lambda>s y. foldl (\<lambda>s x. poke (y * WIDTH + x) v s) s [0..<WIDTH]) s [0..<n]
   = s\<lparr>videobuf := (\<lambda>i. if i < n * WIDTH then v else videobuf s i)\<rparr>"
  by (induction n) (auto simp: fill_cells intro!: same_cells [symmetric] eq_cells)

lemma clear_screen_eq:
  "clear_screen s = s\<lparr>current_color := GRAY, lin := 0, col := 0,
     videobuf := (\<lambda>i. if i < 2000 then blank_cell else videobuf s i)\<rparr>"
  unfolding clear_screen_def Let_def clear_rows
  by (auto simp: HEIGHT_def WIDTH_def intro!: protected_mode.equality)

subsection \<open>Specification: a scrolling list of rows\<close>

record terminal =
  rows :: "u16 list list"
  cursor :: "nat \<times> nat"
  pen :: colors

definition blank_row :: "u16 list" where
  "blank_row = replicate 80 blank_cell"

definition new_line :: "terminal \<Rightarrow> terminal" where
  "new_line t =
     (if fst (cursor t) < 24 then t\<lparr>cursor := (Suc (fst (cursor t)), 0)\<rparr>
      else t\<lparr>rows := tl (rows t) @ [blank_row], cursor := (24, 0)\<rparr>)"

definition put_char :: "u8 \<Rightarrow> terminal \<Rightarrow> terminal" where
  "put_char c t =
     (if c = 10 \<or> c = 13 then new_line t
      else case cursor t of (y, x) \<Rightarrow>
        let t = t\<lparr>rows := (rows t)[y := (rows t ! y)[x := char_cell c (pen t)]]\<rparr>
        in if x = 79 then new_line t else t\<lparr>cursor := (y, Suc x)\<rparr>)"

definition terminal_of :: "protected_mode \<Rightarrow> terminal" where
  "terminal_of s = \<lparr>rows = map (\<lambda>y. map (\<lambda>x. videobuf s (y * 80 + x)) [0..<80]) [0..<25],
     cursor = (unat (lin s), unat (col s)), pen = current_color s\<rparr>"

definition on_screen :: "protected_mode \<Rightarrow> bool" where
  "on_screen s \<longleftrightarrow> unat (lin s) < HEIGHT \<and> unat (col s) < WIDTH"

text \<open>Every operation keeps the memory after the 2000 cells.\<close>

definition same_beyond :: "protected_mode \<Rightarrow> protected_mode \<Rightarrow> bool" where
  "same_beyond s t \<longleftrightarrow> (\<forall>i \<ge> 2000. videobuf s i = videobuf t i)"

lemma nth_rows: "y < 25 \<Longrightarrow> x < 80 \<Longrightarrow> rows (terminal_of s) ! y ! x = videobuf s (y * 80 + x)"
  by (simp add: terminal_of_def)

lemma grid_eqI:
  assumes "length g = 25" "length h = 25"
    and "\<And>y. y < 25 \<Longrightarrow> length (g ! y) = 80" "\<And>y. y < 25 \<Longrightarrow> length (h ! y) = 80"
    and "\<And>y x. y < 25 \<Longrightarrow> x < 80 \<Longrightarrow> g ! y ! x = h ! y ! x"
  shows "g = (h :: 'a list list)"
  using assms by (intro nth_equalityI) auto

lemma rows_shape [simp]:
  "length (rows (terminal_of s)) = 25"
  "y < 25 \<Longrightarrow> length (rows (terminal_of s) ! y) = 80"
  by (simp_all add: terminal_of_def)

lemma rows_scroll: "rows (terminal_of (scroll_down s)) = tl (rows (terminal_of s)) @ [blank_row]"
proof (rule grid_eqI)
  fix y x :: nat assume yx: "y < 25" "x < 80"
  show "rows (terminal_of (scroll_down s)) ! y ! x = (tl (rows (terminal_of s)) @ [blank_row]) ! y ! x"
  proof (cases "y < 24")
    case True
    then have "y * 80 + x < 1920" "Suc y * 80 + x = y * 80 + x + 80" using yx by simp_all
    then have "videobuf (scroll_down s) (y * 80 + x) = videobuf s (Suc y * 80 + x)"
      by (simp add: scroll_down_eq add.commute add.left_commute del: mult_Suc)
    with True yx show ?thesis by (simp add: nth_rows nth_append nth_tl)
  next
    case False
    then have "y = 24" using yx by simp
    with yx show ?thesis by (simp add: nth_rows nth_append scroll_down_eq blank_row_def)
  qed
qed (auto simp: nth_append nth_tl blank_row_def)

lemma rows_poke:
  assumes "y < 25" "x < 80"
  shows "rows (terminal_of (poke (y * 80 + x) v s))
    = (rows (terminal_of s))[y := (rows (terminal_of s) ! y)[x := v]]"
proof (rule grid_eqI)
  fix i j :: nat assume ij: "i < 25" "j < 80"
  have "i * 80 + j = y * 80 + x \<longleftrightarrow> i = y \<and> j = x"
  proof
    assume *: "i * 80 + j = y * 80 + x"
    have "(i * 80 + j) div 80 = i" "(y * 80 + x) div 80 = y" using assms ij by simp_all
    with * show "i = y \<and> j = x" by simp
  qed simp
  then show "rows (terminal_of (poke (y * 80 + x) v s)) ! i ! j
    = (rows (terminal_of s))[y := (rows (terminal_of s) ! y)[x := v]] ! i ! j"
    using assms ij by (simp add: nth_rows nth_list_update)
qed (use assms in \<open>auto simp: nth_list_update\<close>)

lemma terminal_scroll:
  assumes "lin s = 25" "col s = 0"
  shows "terminal_of (scroll_down s)
    = terminal_of s\<lparr>rows := tl (rows (terminal_of s)) @ [blank_row], cursor := (24, 0)\<rparr>"
  using rows_scroll [of s] assms
  by (intro terminal.equality) (simp_all add: terminal_of_def scroll_down_eq)

text \<open>Moving to the next line, as both branches of \<^verbatim>\<open>printc\<close> do it.\<close>

lemma next_line_refines:
  assumes "unat (lin s) < 25"
  defines "t \<equiv> s\<lparr>col := 0, lin := lin s + 1\<rparr>"
  shows "terminal_of (if HEIGHT \<le> unat (lin t) then scroll_down t else t)
      = new_line (terminal_of s)"
    and "on_screen (if HEIGHT \<le> unat (lin t) then scroll_down t else t)"
    and "same_beyond (if HEIGHT \<le> unat (lin t) then scroll_down t else t) s"
proof -
  have l: "unat (lin s + 1) = Suc (unat (lin s))"
    using assms(1) by (simp add: unat_word_ariths)
  have rows_t: "rows (terminal_of t) = rows (terminal_of s)"
    by (simp add: terminal_of_def t_def)
  show "terminal_of (if HEIGHT \<le> unat (lin t) then scroll_down t else t)
      = new_line (terminal_of s)"
  proof (cases "unat (lin s) < 24")
    case True
    then show ?thesis by (simp add: t_def l HEIGHT_def new_line_def terminal_of_def)
  next
    case False
    then have e: "unat (lin s) = 24" using assms(1) by simp
    then have "lin s = 24" by (simp add: word_unat_eq_iff)
    then have "lin t = 25" "col t = 0" by (simp_all add: t_def)
    then show ?thesis
      using terminal_scroll [of t] rows_t e l
      by (simp add: t_def HEIGHT_def new_line_def) (simp add: terminal_of_def)
  qed
  show "on_screen (if HEIGHT \<le> unat (lin t) then scroll_down t else t)"
    by (auto simp: on_screen_def HEIGHT_def WIDTH_def scroll_down_eq t_def)
  show "same_beyond (if HEIGHT \<le> unat (lin t) then scroll_down t else t) s"
    by (auto simp: same_beyond_def scroll_down_eq t_def)
qed

lemma printc_refines:
  assumes "on_screen s"
  shows "terminal_of (printc c s) = put_char c (terminal_of s)"
    and "on_screen (printc c s)" and "same_beyond (printc c s) s"
proof -
  have b: "unat (lin s) < 25" "unat (col s) < 80" using assms by (simp_all add: on_screen_def HEIGHT_def WIDTH_def)
  define p where "p = poke (unat (lin s) * 80 + unat (col s)) (char_cell c (current_color s)) s"
  have pb: "unat (lin p) < 25" "col p = col s" using b by (simp_all add: p_def)
  have tp: "terminal_of p = terminal_of s\<lparr>rows := (rows (terminal_of s))[unat (lin s) :=
      (rows (terminal_of s) ! unat (lin s))[unat (col s) := char_cell c (current_color s)]]\<rparr>"
    using rows_poke [OF b] unfolding p_def
    by (intro terminal.equality) (simp_all, simp_all add: terminal_of_def)
  have sp: "same_beyond p s" using b by (auto simp: same_beyond_def p_def)
  have u: "unat (col s + 1) = Suc (unat (col s))" using b by (simp add: unat_word_ariths)
  note nl = next_line_refines [OF b(1)] next_line_refines [OF pb(1)]
  have run: "printc c s = (if c = 10 \<or> c = 13
      then (let t = s\<lparr>col := 0, lin := lin s + 1\<rparr>
            in if HEIGHT \<le> unat (lin t) then scroll_down t else t)
      else if unat (col s) = 79
      then (let t = p\<lparr>col := 0, lin := lin p + 1\<rparr>
            in if HEIGHT \<le> unat (lin t) then scroll_down t else t)
      else p\<lparr>col := col p + 1\<rparr>)"
    using b u by (auto simp: printc_def Let_def p_def WIDTH_def)
  have cur: "cursor (terminal_of s) = (unat (lin s), unat (col s))" "pen (terminal_of s) = current_color s"
    by (simp_all add: terminal_of_def)
  have step: "terminal_of (p\<lparr>col := col p + 1\<rparr>)
      = terminal_of p\<lparr>cursor := (unat (lin s), Suc (unat (col s)))\<rparr>"
    using u pb by (simp add: terminal_of_def) (simp add: p_def)
  show "terminal_of (printc c s) = put_char c (terminal_of s)"
    unfolding run using nl(1,4) tp step cur by (simp add: put_char_def Let_def)
  show "on_screen (printc c s)"
    unfolding run using nl(2,5) b pb u by (simp add: Let_def) (auto simp: on_screen_def HEIGHT_def WIDTH_def)
  show "same_beyond (printc c s) s"
    unfolding run using nl(3,6) sp by (simp add: Let_def) (auto simp: same_beyond_def)
qed

lemma prints_step: "prints p m s = (if byte_at m p \<noteq> 0 then prints (p + 1) m (printc (byte_at m p) s) else Some s)"
  by (rule prints.simps)

lemma prints_string:
  assumes "\<forall>k < length str. byte_at m (p + of_nat k) = str ! k" and "0 \<notin> set str"
    and "byte_at m (p + of_nat (length str)) = 0"
  shows "prints p m s = Some (foldl (\<lambda>s c. printc c s) s str)"
  using assms
proof (induction str arbitrary: p s)
  case Nil
  then show ?case by (simp add: prints_step)
next
  case (Cons c cs)
  have "byte_at m (p + 1 + of_nat k) = cs ! k" if "k < length cs" for k
    using Cons.prems(1) [rule_format, of "Suc k"] that by (simp add: add.assoc)
  then have "prints (p + 1) m (printc c s) = Some (foldl (\<lambda>s c. printc c s) (printc c s) cs)"
    using Cons.prems by (intro Cons.IH) (auto simp: add.assoc)
  then show ?case using Cons.prems(1) [rule_format, of 0] Cons.prems(2) by (auto simp: prints_step [of p])
qed

text \<open>The console is a device whose view is the list of rows.\<close>

interpretation screen: device on_screen terminal_of printc put_char same_beyond
  by unfold_locales (simp_all add: printc_refines, simp_all add: same_beyond_def)

subsection \<open>Properties\<close>

text \<open>C22. The console refines a scrolling list of 25 rows of 80 cells: printing a string that
  ends with a NUL returns, its effect on the rows, the cursor and the colour is that of
  putting its characters one by one, with the rows moved up when the last one is left; the
  cursor stays on the screen and no memory after the screen changes.\<close>

theorem prints_refines_terminal:
  assumes "on_screen s" and "text_at m p n = str" and "0 \<notin> set str" and "byte_at m (p + of_nat n) = 0"
  shows "\<exists>s'. prints p m s = Some s'
    \<and> terminal_of s' = foldl (\<lambda>t c. put_char c t) (terminal_of s) str
    \<and> on_screen s' \<and> same_beyond s' s"
proof -
  have "length str = n" "\<forall>k < n. byte_at m (p + of_nat k) = str ! k"
    using assms(2) by (auto simp: text_at_def)
  then show ?thesis
    using prints_string [of str m p s] assms(3,4) screen.puts [OF assms(1), of str] by auto
qed

definition last_line :: protected_mode where
  "last_line = \<lparr>current_color = GRAY, col = 78, lin = 24, videobuf = (\<lambda>_. 0)\<rparr>"

theorem prints_refines_terminal_witness:
  "\<exists>s'. prints 0x1000 example_bytes last_line = Some s'
    \<and> terminal_of s' = foldl (\<lambda>t c. put_char c t) (terminal_of last_line) [0x6f, 0x6b]
    \<and> on_screen s' \<and> same_beyond s' last_line"
proof (rule prints_refines_terminal)
  show "on_screen last_line" by (simp add: on_screen_def last_line_def HEIGHT_def WIDTH_def)
  show "text_at example_bytes 0x1000 2 = [0x6f, 0x6b]"
    by (simp add: text_at_def upt_rec example_bytes_def byte_at_def lane_def cell_of_def)
qed (simp_all add: example_bytes_def byte_at_def lane_def cell_of_def)

lemma prints_itoa:
  "prints buffer (itoa buffer 32 v b m) s = Some (foldl (\<lambda>s c. printc c s) s (itoa_text b v))"
proof -
  let ?t = "itoa_text b v" and ?m = "itoa buffer 32 v b m"
  have "\<forall>k < length ?t. byte_at ?m (buffer + of_nat k) = ?t ! k"
    using itoa_at [of 32 _ b v buffer m] by simp
  moreover have "byte_at ?m (buffer + of_nat (length ?t)) = 0"
    using itoa_at [of 32 "length ?t" b v buffer m] by simp
  ultimately show ?thesis using prints_string itoa_text_chars by blast
qed

lemma printd_result:
  "printd buffer d m s
    = Some (foldl (\<lambda>s c. printc c s) s (itoa_text Dec (scast d)), itoa buffer 32 (scast d) Dec m)"
  by (simp add: printd_def prints_itoa)

lemma printx_result:
  "printx buffer x m s
    = Some (foldl (\<lambda>s c. printc c s) (prints_literal ''0x'' s) (itoa_text Hex x), itoa buffer 32 x Hex m)"
  by (simp add: printx_def prints_itoa)

lemma foldl_printc_on_screen: "on_screen s \<Longrightarrow> on_screen (foldl (\<lambda>s c. printc c s) s str)"
  using screen.puts by blast

lemma prints_literal_foldl: "prints_literal str s = foldl (\<lambda>s c. printc c s) s (map of_char str)"
  by (simp add: prints_literal_def foldl_map)

lemma prints_literal_on_screen: "on_screen s \<Longrightarrow> on_screen (prints_literal str s)"
  unfolding prints_literal_foldl by (rule foldl_printc_on_screen)

text \<open>Arguments that are not pointers are always printed.\<close>

fun total_arg :: "print_arg \<Rightarrow> bool" where
  "total_arg (Literal str) = True" | "total_arg (Integral n) = True" | "total_arg (Char c) = True"
| "total_arg (ConstCharPtr p) = False" | "total_arg (CharPtr p) = False"

lemma print_total:
  assumes "total_arg v"
  obtains s' m' where "print buffer v m s = Some (s', m')" "on_screen s \<longrightarrow> on_screen s'" "writes_only buffer 66 m m'"
proof -
  have "\<exists>s' m'. print buffer v m s = Some (s', m') \<and> (on_screen s \<longrightarrow> on_screen s') \<and> writes_only buffer 66 m m'"
    using assms printc_refines(2)
    by (cases v) (auto simp: print_def printd_result prints_literal_on_screen foldl_printc_on_screen itoa_writes)
  then show thesis using that by blast
qed

lemma print_args_total:
  assumes "\<forall>v \<in> set vs. total_arg v"
  obtains s' m' where "print_args buffer vs m s = Some (s', m')" "on_screen s \<longrightarrow> on_screen s'" "writes_only buffer 66 m m'"
  using assms
proof (induction vs arbitrary: m s thesis)
  case (Cons v vs)
  obtain s1 m1 where 1: "print buffer v m s = Some (s1, m1)" "on_screen s \<longrightarrow> on_screen s1" "writes_only buffer 66 m m1"
    using Cons.prems(2) by (auto elim: print_total [of v buffer m s])
  obtain s2 m2 where 2: "print_args buffer vs m1 s1 = Some (s2, m2)" "on_screen s1 \<longrightarrow> on_screen s2" "writes_only buffer 66 m1 m2"
    using Cons.prems(2) by (auto intro: Cons.IH [of m1 s1])
  show ?case using Cons.prems(1) [of s2 m2] 1 2 writes_only_trans [OF 1(3) 2(3)] by simp
qed simp

text \<open>Printing an integer of any type shows a decimal number that reads back as the signed
  value of its low 32 bits: the values of \<^verbatim>\<open>int\<close> are shown correctly, and 64-bit values such
  as the address of the frame buffer lose their upper half and may appear negative.\<close>

theorem print_shows_low_half:
  "\<exists>str m'. print buffer (Integral n) m s = Some (foldl (\<lambda>s c. printc c s) s str, m')
    \<and> read_number Dec str = sint (ucast n :: u32)"
proof -
  have "sint (scast (ucast n :: u32) :: u64) = sint (ucast n :: u32)"
    by (rule sint_up_scast) (simp add: is_up)
  then show ?thesis
    using printd_result [of buffer "ucast n" m s] read_itoa_text [of Dec "scast (ucast n :: u32)"]
    by (auto simp: print_def)
qed

text \<open>\<^verbatim>\<open>line\<close> accepts the number 25, one more than the last line; the next character is then
  written after the screen memory.\<close>

theorem line_25_writes_past_screen:
  assumes "c \<noteq> 10" "c \<noteq> 13" "unat (col s) < 80"
  shows "videobuf (printc c (set_line 25 s)) (2000 + unat (col s)) = char_cell c (current_color s)"
  using assms by (simp add: printc_def set_line_def HEIGHT_def WIDTH_def Let_def scroll_down_eq)

text \<open>A \<^verbatim>\<open>char *\<close> is no \<^verbatim>\<open>const char *\<close> for the type dispatch: such a string is printed
  with an error mark before it.\<close>

theorem char_pointer_marked_as_error:
  "print buffer (CharPtr p) m s = print buffer (ConstCharPtr p) m (prints_literal ''Err: '' s)"
  by (simp add: print_def)

end
