(* ===== verification/Keyboard.thy ===== *)
theory Keyboard
  imports Video Ports
begin

text \<open>
  The keyboard driver, \<^verbatim>\<open>drivers/peripherals/keyboard.cpp\<close>: two tables indexed by scan code and
  the state of the shift keys. The macro list \<^verbatim>\<open>KEY_CODES\<close> is the list of its pairs of
  characters, without and with shift. Reading a table after its end is undefined in the source
  and \<open>None\<close> here.
\<close>

subsection \<open>Tables\<close>

definition KEY_CODES :: "(u8 \<times> u8) list" where
  "KEY_CODES =
   [(0, 0), (0x1b, 0x1b),
    (0x31, 0x21), (0x32, 0x40), (0x33, 0x23), (0x34, 0x24), (0x35, 0x25),
    (0x36, 0x5e), (0x37, 0x26), (0x38, 0x2a), (0x39, 0x28), (0x30, 0x29),
    (0x2d, 0x5f), (0x3d, 0x2b), (0x08, 0x08), (0x09, 0x09),
    (0x71, 0x51), (0x77, 0x57), (0x65, 0x45), (0x72, 0x52), (0x74, 0x54),
    (0x79, 0x59), (0x75, 0x55), (0x69, 0x49), (0x6f, 0x4f), (0x70, 0x50),
    (0x5b, 0x7b), (0x5d, 0x7d), (0x0a, 0x0a), (0, 0),
    (0x61, 0x41), (0x73, 0x53), (0x64, 0x44), (0x66, 0x46), (0x67, 0x47),
    (0x68, 0x48), (0x6a, 0x4a), (0x6b, 0x4b), (0x6c, 0x4c),
    (0x3b, 0x3a), (0x27, 0x22), (0x60, 0x7e), (0, 0), (0x5c, 0x7c),
    (0x7a, 0x5a), (0x78, 0x58), (0x63, 0x43), (0x76, 0x56), (0x62, 0x42),
    (0x6e, 0x4e), (0x6d, 0x4d), (0x2c, 0x3c), (0x2e, 0x3e), (0x2f, 0x3f), (0, 0),
    (0x2a, 0x2a), (0, 0), (0x20, 0x20), (0, 0),
    (0, 0), (0, 0), (0, 0), (0, 0), (0, 0), (0, 0), (0, 0), (0, 0), (0, 0),
    (0, 0), (0, 0), (0, 0), (0, 0), (0, 0), (0x2d, 0x2d), (0, 0), (0, 0), (0, 0),
    (0x2b, 0x2b), (0, 0), (0, 0), (0, 0), (0, 0), (0, 0), (0, 0), (0, 0),
    (0x5c, 0x7c), (0, 0), (0, 0), (0, 0), (0, 0), (0, 0)]"

definition en_US :: "u8 list" where
  "en_US = map fst KEY_CODES"

definition en_US_shift :: "u8 list" where
  "en_US_shift = map snd KEY_CODES"

definition table_at :: "u8 list \<Rightarrow> u8 \<Rightarrow> u8 option" where
  "table_at tab c = (if unat c < length tab then Some (tab ! unat c) else None)"

subsection \<open>State and operations\<close>

definition DATA_IN_BUFFER :: u16 where
  "DATA_IN_BUFFER = 0x01"

definition STATUS_PORT :: u16 where
  "STATUS_PORT = 0x64"

definition DATA_PORT :: u16 where
  "DATA_PORT = 0x60"

record keyboard =
  shift :: bool

definition keyboard_new :: keyboard where
  "keyboard_new = \<lparr>shift = False\<rparr>"

definition on_keyup :: "u8 \<Rightarrow> keyboard \<Rightarrow> keyboard" where
  "on_keyup c k = (if c = 0xaa \<or> c = 0xb6 then k\<lparr>shift := False\<rparr> else k)"

definition on_keydown :: "u8 \<Rightarrow> keyboard \<Rightarrow> protected_mode \<Rightarrow> (keyboard \<times> protected_mode) option" where
  "on_keydown c k s =
     (if c = 0x2a \<or> c = 0x36 then Some (k\<lparr>shift := True\<rparr>, s)
      else case table_at (if shift k then en_US_shift else en_US) c of
             None \<Rightarrow> None
           | Some ch \<Rightarrow> Some (k, printc ch s))"

definition on_keyboard :: "hardware \<Rightarrow> trace \<Rightarrow> keyboard \<Rightarrow> protected_mode
    \<Rightarrow> (trace \<times> keyboard \<times> protected_mode) option" where
  "on_keyboard hw tr k s =
     (let (status, tr) = read_port hw STATUS_PORT tr
      in if ucast status AND DATA_IN_BUFFER = 0 then Some (tr, k, s)
         else let (data, tr) = read_port hw DATA_PORT tr
              in if data AND 0x80 \<noteq> 0 then Some (tr, on_keyup data k, s)
                 else case on_keydown data k s of
                        None \<Rightarrow> None
                      | Some (k, s) \<Rightarrow> Some (tr, k, s))"

end
