(* ===== verification/Cxxabi.thy ===== *)
theory Cxxabi
  imports Prelude
begin

text \<open>
  The C++ run-time support of \<^verbatim>\<open>appendix/\<close>: the table of destructors
  (\<^verbatim>\<open>icxxabi.cpp\<close>), the guards of static local variables (\<^verbatim>\<open>cxa_guard.cpp\<close>)
  and the empty hook for pure virtual calls (\<^verbatim>\<open>cxa_purevirtual.cpp\<close>), and the allocation
  operators of \<^verbatim>\<open>libs/new.cpp\<close> and \<^verbatim>\<open>libs/new.hpp\<close>. Calling a destructor
  is recorded in \<open>calls\<close>, most recent first; the destructors themselves are the program's
  and do not touch the table.
\<close>

subsection \<open>State\<close>

definition ATEXIT_MAX_FUNCS :: nat where
  "ATEXIT_MAX_FUNCS = 128"

record atexit_func_entry =
  destructor_func :: addr
  obj_ptr :: addr
  dso_handle :: addr

record atexit_state =
  atexit_funcs :: "atexit_func_entry list"
  atexit_func_count :: u32
  calls :: "(addr \<times> addr) list"

definition empty_entry :: atexit_func_entry where
  "empty_entry = \<lparr>destructor_func = 0, obj_ptr = 0, dso_handle = 0\<rparr>"

definition atexit_start :: atexit_state where
  "atexit_start = \<lparr>atexit_funcs = replicate ATEXIT_MAX_FUNCS empty_entry, atexit_func_count = 0, calls = []\<rparr>"

subsection \<open>Operations\<close>

definition cxa_atexit :: "addr \<Rightarrow> addr \<Rightarrow> addr \<Rightarrow> atexit_state \<Rightarrow> int \<times> atexit_state" where
  "cxa_atexit f objptr dso t =
     (if unat (atexit_func_count t) \<ge> ATEXIT_MAX_FUNCS then (- 1, t)
      else let i = unat (atexit_func_count t);
               t = t\<lparr>atexit_funcs := (atexit_funcs t)[i := (atexit_funcs t ! i)\<lparr>destructor_func := f\<rparr>]\<rparr>;
               t = t\<lparr>atexit_funcs := (atexit_funcs t)[i := (atexit_funcs t ! i)\<lparr>obj_ptr := objptr\<rparr>]\<rparr>;
               t = t\<lparr>atexit_funcs := (atexit_funcs t)[i := (atexit_funcs t ! i)\<lparr>dso_handle := dso\<rparr>]\<rparr>;
               t = t\<lparr>atexit_func_count := atexit_func_count t + 1\<rparr>
           in (0, t))"

definition call_destructor :: "atexit_func_entry \<Rightarrow> atexit_state \<Rightarrow> atexit_state" where
  "call_destructor e t = t\<lparr>calls := (destructor_func e, obj_ptr e) # calls t\<rparr>"

text \<open>The two loops \<^verbatim>\<open>while (i--)\<close>; the argument is the value of i before the test.\<close>

fun finalize_all :: "nat \<Rightarrow> atexit_state \<Rightarrow> atexit_state" where
  "finalize_all 0 t = t"
| "finalize_all (Suc i) t =
     finalize_all i
       (if destructor_func (atexit_funcs t ! i) \<noteq> 0
        then call_destructor (atexit_funcs t ! i) t else t)"

fun finalize_func :: "addr \<Rightarrow> nat \<Rightarrow> atexit_state \<Rightarrow> atexit_state" where
  "finalize_func f 0 t = t"
| "finalize_func f (Suc i) t =
     finalize_func f i
       (if destructor_func (atexit_funcs t ! i) = f
        then let t = call_destructor (atexit_funcs t ! i) t
             in t\<lparr>atexit_funcs := (atexit_funcs t)[i := (atexit_funcs t ! i)\<lparr>destructor_func := 0\<rparr>]\<rparr>
        else t)"

definition cxa_finalize :: "addr \<Rightarrow> atexit_state \<Rightarrow> atexit_state" where
  "cxa_finalize f t =
     (let i = unat (atexit_func_count t)
      in if f = 0 then finalize_all i t else finalize_func f i t)"

definition cxa_guard_acquire :: "u64 \<Rightarrow> int" where
  "cxa_guard_acquire g = (if g = 0 then 1 else 0)"

definition cxa_guard_release :: "u64 \<Rightarrow> u64" where
  "cxa_guard_release g = 1"

definition cxa_guard_abort :: "u64 \<Rightarrow> u64" where
  "cxa_guard_abort g = g"

definition cxa_pure_virtual :: "'s \<Rightarrow> 's" where
  "cxa_pure_virtual t = t"

text \<open>The global \<^verbatim>\<open>operator new\<close> has no heap behind it and always returns the null pointer; the
  deletions do nothing. Only the placement form yields a usable object.\<close>

definition operator_new :: "u64 \<Rightarrow> addr" where
  "operator_new n = 0"

definition operator_new_array :: "u64 \<Rightarrow> addr" where
  "operator_new_array n = 0"

definition operator_delete :: "addr \<Rightarrow> 's \<Rightarrow> 's" where
  "operator_delete p t = t"

definition operator_delete_array :: "addr \<Rightarrow> 's \<Rightarrow> 's" where
  "operator_delete_array p t = t"

definition operator_delete_placement :: "addr \<Rightarrow> addr \<Rightarrow> 's \<Rightarrow> 's" where
  "operator_delete_placement p q t = t"

definition operator_delete_sized :: "addr \<Rightarrow> u64 \<Rightarrow> 's \<Rightarrow> 's" where
  "operator_delete_sized p n t = t"

definition placement_new :: "u64 \<Rightarrow> addr \<Rightarrow> addr" where
  "placement_new n p = p"

subsection \<open>The table\<close>

text \<open>The table has its 128 slots and the counter counts those in use.\<close>

definition atexit_ok :: "atexit_state \<Rightarrow> bool" where
  "atexit_ok t \<longleftrightarrow> length (atexit_funcs t) = ATEXIT_MAX_FUNCS \<and> unat (atexit_func_count t) \<le> ATEXIT_MAX_FUNCS"

definition registered :: "atexit_state \<Rightarrow> (addr \<times> addr) list" where
  "registered t = map (\<lambda>e. (destructor_func e, obj_ptr e)) (take (unat (atexit_func_count t)) (atexit_funcs t))"

lemma atexit_start_ok: "atexit_ok atexit_start \<and> registered atexit_start = []"
  by (simp add: atexit_ok_def atexit_start_def registered_def)

lemma cxa_atexit_full: "ATEXIT_MAX_FUNCS \<le> unat (atexit_func_count t) \<Longrightarrow> cxa_atexit f p d t = (- 1, t)"
  by (simp add: cxa_atexit_def)

lemma cxa_atexit_adds:
  assumes "atexit_ok t" "unat (atexit_func_count t) < ATEXIT_MAX_FUNCS"
  shows "fst (cxa_atexit f p d t) = 0" "atexit_ok (snd (cxa_atexit f p d t))"
    "registered (snd (cxa_atexit f p d t)) = registered t @ [(f, p)]"
    "calls (snd (cxa_atexit f p d t)) = calls t"
proof -
  let ?i = "unat (atexit_func_count t)"
  have c: "unat (atexit_func_count t + 1) = Suc ?i"
    using assms by (simp add: unat_word_ariths ATEXIT_MAX_FUNCS_def)
  have l: "?i < length (atexit_funcs t)" using assms by (simp add: atexit_ok_def)
  show "fst (cxa_atexit f p d t) = 0" "atexit_ok (snd (cxa_atexit f p d t))"
    "calls (snd (cxa_atexit f p d t)) = calls t"
    using assms l c by (simp_all add: cxa_atexit_def Let_def atexit_ok_def)
  show "registered (snd (cxa_atexit f p d t)) = registered t @ [(f, p)]"
    using assms l c by (simp add: cxa_atexit_def Let_def registered_def take_Suc_conv_app_nth)
qed

lemma finalize_all_eq:
  assumes "n \<le> length (atexit_funcs t)"
  shows "finalize_all n t = t\<lparr>calls :=
    filter (\<lambda>c. fst c \<noteq> 0) (map (\<lambda>e. (destructor_func e, obj_ptr e)) (take n (atexit_funcs t))) @ calls t\<rparr>"
  using assms
  by (induction n arbitrary: t) (simp_all add: call_destructor_def take_Suc_conv_app_nth)

text \<open>Unsetting the entries of one function, and the calls this makes.\<close>

definition unset_func :: "addr \<Rightarrow> atexit_func_entry \<Rightarrow> atexit_func_entry" where
  "unset_func f e = (if destructor_func e = f then e\<lparr>destructor_func := 0\<rparr> else e)"

lemma finalize_func_eq:
  assumes "n \<le> length (atexit_funcs t)"
  shows "finalize_func f n t = t\<lparr>
    atexit_funcs := map (unset_func f) (take n (atexit_funcs t)) @ drop n (atexit_funcs t),
    calls := filter (\<lambda>c. fst c = f) (map (\<lambda>e. (destructor_func e, obj_ptr e)) (take n (atexit_funcs t))) @ calls t\<rparr>"
  using assms
proof (induction n arbitrary: t)
  case (Suc n)
  then have n: "n < length (atexit_funcs t)" by simp
  have drop: "drop n (atexit_funcs t) = atexit_funcs t ! n # drop (Suc n) (atexit_funcs t)"
    using n by (rule Cons_nth_drop_Suc [symmetric])
  show ?case
    using Suc.IH Suc.prems n
    by (simp add: call_destructor_def Let_def take_Suc_conv_app_nth unset_func_def drop drop_update_cancel
        take_update_cancel upd_conv_take_nth_drop)
qed simp

subsection \<open>Properties\<close>

definition register_all :: "(addr \<times> addr \<times> addr) list \<Rightarrow> atexit_state \<Rightarrow> atexit_state" where
  "register_all regs t = foldl (\<lambda>t (f, p, d). snd (cxa_atexit f p d t)) t regs"

definition entry_of :: "addr \<times> addr \<times> addr \<Rightarrow> addr \<times> addr" where
  "entry_of = (\<lambda>(f, p, d). (f, p))"

lemma length_registered: "atexit_ok t \<Longrightarrow> length (registered t) = unat (atexit_func_count t)"
  by (simp add: registered_def atexit_ok_def)

lemma register_all_step:
  assumes "atexit_ok t"
  shows "atexit_ok (snd (cxa_atexit f p d t))
    \<and> registered (snd (cxa_atexit f p d t)) = take 128 (registered t @ [(f, p)])
    \<and> calls (snd (cxa_atexit f p d t)) = calls t"
proof (cases "unat (atexit_func_count t) < ATEXIT_MAX_FUNCS")
  case True
  then show ?thesis
    using cxa_atexit_adds [OF assms True] length_registered [OF assms] by (simp add: ATEXIT_MAX_FUNCS_def)
next
  case False
  then show ?thesis
    using cxa_atexit_full [of t f p d] length_registered [OF assms] assms
    by (simp add: atexit_ok_def ATEXIT_MAX_FUNCS_def)
qed

lemma register_all_result:
  assumes "atexit_ok t"
  shows "atexit_ok (register_all regs t)
    \<and> registered (register_all regs t) = take 128 (registered t @ map entry_of regs)
    \<and> calls (register_all regs t) = calls t"
  using assms
proof (induction regs arbitrary: t)
  case Nil
  then show ?case by (simp add: register_all_def length_registered atexit_ok_def ATEXIT_MAX_FUNCS_def)
next
  case (Cons r rs)
  obtain f p d where r: "r = (f, p, d)" by (cases r)
  let ?t = "snd (cxa_atexit f p d t)"
  have step: "register_all (r # rs) t = register_all rs ?t" by (simp add: register_all_def r)
  have len: "length (registered t) \<le> 128"
    using Cons.prems by (simp add: length_registered) (simp add: atexit_ok_def ATEXIT_MAX_FUNCS_def)
  have "take 128 (take 128 (registered t @ [(f, p)]) @ map entry_of rs)
    = take 128 (registered t @ (f, p) # map entry_of rs)"
    using len by (cases "length (registered t) = 128") simp_all
  then show ?case
    using Cons.IH [of ?t] register_all_step [OF Cons.prems, of f p d]
    by (simp only: step) (simp add: r entry_of_def)
qed

text \<open>C36. Whatever is registered, the counter stays within the 128 slots of the table, the table
  holds the first 128 registrations in order, and further ones are refused without running
  anything.\<close>

theorem atexit_table_bounded:
  "atexit_ok (register_all regs atexit_start)
   \<and> registered (register_all regs atexit_start) = take 128 (map entry_of regs)
   \<and> calls (register_all regs atexit_start) = []"
  using register_all_result [of atexit_start regs] atexit_start_ok
  by (simp add: atexit_start_def)

lemma finalize_all_registered:
  assumes "atexit_ok t"
  shows "cxa_finalize 0 t = t\<lparr>calls := filter (\<lambda>c. fst c \<noteq> 0) (registered t) @ calls t\<rparr>"
  using assms by (simp add: cxa_finalize_def finalize_all_eq atexit_ok_def registered_def)

text \<open>C37. \<^verbatim>\<open>__cxa_finalize(0)\<close> runs the destructors that were registered, each exactly once with
  its object, in the reverse order of registration.\<close>

theorem finalize_reverse_order:
  assumes "length regs \<le> 128" and "0 \<notin> fst ` set regs"
  shows "rev (calls (cxa_finalize 0 (register_all regs atexit_start))) = rev (map entry_of regs)"
proof -
  have "filter (\<lambda>c. fst c \<noteq> 0) (map entry_of regs) = map entry_of regs"
    using assms(2) by (force simp: filter_id_conv entry_of_def image_iff)
  then show ?thesis
    using register_all_result [of atexit_start regs] atexit_start_ok assms(1)
      finalize_all_registered [of "register_all regs atexit_start"]
    by (simp add: atexit_start_def)
qed

theorem finalize_reverse_order_witness:
  "rev (calls (cxa_finalize 0 (register_all [(0x100, 1, 0), (0x200, 2, 0)] atexit_start)))
   = [(0x200, 2), (0x100, 1)]"
  using finalize_reverse_order [of "[(0x100, 1, 0), (0x200, 2, 0)]"] by (simp add: entry_of_def)

text \<open>Finalising everything does not unset the entries it has run, so a second call destroys
  every object a second time.\<close>

theorem finalize_all_runs_again:
  assumes "atexit_ok t" and "calls t = []"
  shows "calls (cxa_finalize 0 (cxa_finalize 0 t))
    = calls (cxa_finalize 0 t) @ calls (cxa_finalize 0 t)"
proof -
  let ?u = "cxa_finalize 0 t"
  have "atexit_ok ?u" "registered ?u = registered t"
    using assms(1) by (simp_all add: finalize_all_registered atexit_ok_def registered_def)
  then show ?thesis using assms by (simp add: finalize_all_registered)
qed

theorem finalize_all_runs_again_witness:
  "let t = register_all [(0x100, 1, 0)] atexit_start
   in calls (cxa_finalize 0 t) = [(0x100, 1)] \<and> calls (cxa_finalize 0 (cxa_finalize 0 t)) = [(0x100, 1), (0x100, 1)]"
proof -
  let ?t = "register_all [(0x100, 1, 0)] atexit_start"
  have t: "atexit_ok ?t" "registered ?t = [(0x100, 1)]" "calls ?t = []"
    using register_all_result [of atexit_start "[(0x100, 1, 0)]"] atexit_start_ok
    by (simp_all add: entry_of_def atexit_start_def)
  then have "calls (cxa_finalize 0 ?t) = [(0x100, 1)]" by (simp add: finalize_all_registered)
  then show ?thesis using finalize_all_runs_again [OF t(1,3)] by simp
qed

text \<open>Finalising one function runs its entries, latest registration first, and unsets
  them: doing it again runs nothing and changes nothing.\<close>

theorem finalize_func_once:
  assumes "atexit_ok t" and "f \<noteq> 0"
  shows "calls (cxa_finalize f t) = filter (\<lambda>c. fst c = f) (registered t) @ calls t
    \<and> cxa_finalize f (cxa_finalize f t) = cxa_finalize f t"
proof -
  let ?n = "unat (atexit_func_count t)"
  have n: "?n \<le> length (atexit_funcs t)" using assms(1) by (simp add: atexit_ok_def)
  define u where "u = cxa_finalize f t"
  have u: "u = t\<lparr>
    atexit_funcs := map (unset_func f) (take ?n (atexit_funcs t)) @ drop ?n (atexit_funcs t),
    calls := filter (\<lambda>c. fst c = f) (registered t) @ calls t\<rparr>"
    using assms(2) finalize_func_eq [OF n, of f] by (simp add: u_def cxa_finalize_def registered_def)
  then have "take ?n (atexit_funcs u) = map (unset_func f) (take ?n (atexit_funcs t))"
    "drop ?n (atexit_funcs u) = drop ?n (atexit_funcs t)" "?n \<le> length (atexit_funcs u)"
    "atexit_func_count u = atexit_func_count t"
    using n by simp_all
  moreover have "unset_func f (unset_func f e) = unset_func f e" for e
    by (simp add: unset_func_def)
  moreover have "destructor_func (unset_func f e) \<noteq> f" for e
    using assms(2) by (simp add: unset_func_def)
  ultimately have "cxa_finalize f u = u"
    using assms(2) finalize_func_eq [of ?n u f]
    by (simp add: cxa_finalize_def comp_def filter_empty_conv) (simp add: u)
  then show ?thesis using u by (simp add: u_def)
qed

theorem finalize_func_once_witness:
  "let t = register_all [(5, 1, 0), (6, 2, 0), (5, 3, 0)] atexit_start
   in calls (cxa_finalize 5 t) = [(5, 1), (5, 3)] \<and> cxa_finalize 5 (cxa_finalize 5 t) = cxa_finalize 5 t"
proof -
  let ?t = "register_all [(5, 1, 0), (6, 2, 0), (5, 3, 0)] atexit_start"
  have "atexit_ok ?t" "registered ?t = [(5, 1), (6, 2), (5, 3)]" "calls ?t = []"
    using register_all_result [of atexit_start "[(5, 1, 0), (6, 2, 0), (5, 3, 0)]"] atexit_start_ok
    by (simp_all add: entry_of_def atexit_start_def)
  then show ?thesis using finalize_func_once [of ?t 5] by simp
qed

end
