(* ===== verification/Irq.thy ===== *)
theory Irq
  imports Timer Keyboard Cxxabi
begin

text \<open>
  Interrupt dispatch, \<^verbatim>\<open>arch/amd64/bootstrap/irq.cpp\<close>, with the registration of the two
  drivers (\<^verbatim>\<open>add_timer\<close>, \<^verbatim>\<open>add_keyboard\<close>, \<^verbatim>\<open>amd64::set_timer_handler\<close>,
  \<^verbatim>\<open>amd64::set_keyboard_handler\<close>) and the frame the interrupt stubs push
  (\<^verbatim>\<open>arch/amd64/registers.hpp\<close>). A driver object is a static local of its registration
  function, guarded by a guard variable; a handler object refers to the driver object and its method,
  and there is one of each type, so the pointer \<^verbatim>\<open>timer_handler_p\<close> is here the fact that it is set.
\<close>

subsection \<open>State\<close>

record regs =
  ds :: u64
  rax :: u64
  rbx :: u64
  rcx :: u64
  rdx :: u64
  r8 :: u64
  r9 :: u64
  r10 :: u64
  r11 :: u64
  r12 :: u64
  r13 :: u64
  r14 :: u64
  r15 :: u64
  rbp :: u64
  rsi :: u64
  rdi :: u64

record interrupt_t =
  registers :: regs
  int_no :: u64
  error_code :: u64
  rip :: u64
  cs :: u64
  rflags :: u64
  userrsp :: u64
  ss :: u64

record devices =
  timer_guard :: u64
  timer_handler_guard :: u64
  timer_instance :: timer
  timer_handler_p :: bool
  keyboard_guard :: u64
  keyboard_handler_guard :: u64
  keyboard_instance :: keyboard
  keyboard_handler_p :: bool
  video :: protected_mode
  executed :: trace

definition PIC_MASTER :: u16 where
  "PIC_MASTER = 0x20"

definition PIC_SLAVE :: u16 where
  "PIC_SLAVE = 0xA0"

definition PIC_EOI :: u8 where
  "PIC_EOI = 0x20"

definition IRQ_TIMER :: u64 where
  "IRQ_TIMER = 0x20"

definition IRQ_KEYBOARD :: u64 where
  "IRQ_KEYBOARD = 0x21"

subsection \<open>Registration\<close>

definition set_timer_handler :: "devices \<Rightarrow> devices" where
  [simp]: "set_timer_handler d = d\<lparr>timer_handler_p := True\<rparr>"

definition set_keyboard_handler :: "devices \<Rightarrow> devices" where
  [simp]: "set_keyboard_handler d = d\<lparr>keyboard_handler_p := True\<rparr>"

definition add_timer :: "u32 \<Rightarrow> devices \<Rightarrow> devices option" where
  "add_timer freq d =
     (case (if cxa_guard_acquire (timer_guard d) = 1
            then case timer_new freq (executed d) of
                   None \<Rightarrow> None
                 | Some (t, tr) \<Rightarrow> Some (d\<lparr>timer_instance := t, executed := tr,
                                            timer_guard := cxa_guard_release (timer_guard d)\<rparr>)
            else Some d) of
        None \<Rightarrow> None
      | Some d \<Rightarrow>
          let d = (if cxa_guard_acquire (timer_handler_guard d) = 1
                   then d\<lparr>timer_handler_guard := cxa_guard_release (timer_handler_guard d)\<rparr> else d)
          in Some (set_timer_handler d))"

definition add_keyboard :: "devices \<Rightarrow> devices" where
  "add_keyboard d =
     (let d = (if cxa_guard_acquire (keyboard_guard d) = 1
               then d\<lparr>keyboard_instance := keyboard_new,
                      keyboard_guard := cxa_guard_release (keyboard_guard d)\<rparr> else d);
          d = (if cxa_guard_acquire (keyboard_handler_guard d) = 1
               then d\<lparr>keyboard_handler_guard := cxa_guard_release (keyboard_handler_guard d)\<rparr> else d)
      in set_keyboard_handler d)"

subsection \<open>Dispatch\<close>

text \<open>\<^verbatim>\<open>interrupt_handler_type\<close> (\<^verbatim>\<open>libs/functional.hpp\<close>): a reference to an object,
  which lives in the static storage, and a method of its class; calling the handler calls the method on
  the object.\<close>

record 'o interrupt_handler_type =
  instance_get :: "devices \<Rightarrow> 'o"
  instance_put :: "'o \<Rightarrow> devices \<Rightarrow> devices"
  handler_method :: "interrupt_t \<Rightarrow> 'o \<Rightarrow> devices \<Rightarrow> ('o \<times> devices) option"

definition call_handler :: "'o interrupt_handler_type \<Rightarrow> interrupt_t \<Rightarrow> devices \<Rightarrow> devices option" where
  "call_handler h i d =
     (case handler_method h i (instance_get h d) d of
        None \<Rightarrow> None
      | Some (ob, d) \<Rightarrow> Some (instance_put h ob d))"

definition timer_handler :: "timer interrupt_handler_type" where
  "timer_handler = \<lparr>instance_get = timer_instance, instance_put = (\<lambda>t d. d\<lparr>timer_instance := t\<rparr>),
     handler_method = (\<lambda>i t d. Some (on_timer t, d))\<rparr>"

definition keyboard_handler :: "hardware \<Rightarrow> keyboard interrupt_handler_type" where
  "keyboard_handler hw = \<lparr>instance_get = keyboard_instance,
     instance_put = (\<lambda>k d. d\<lparr>keyboard_instance := k\<rparr>),
     handler_method = (\<lambda>i k d. case on_keyboard hw (executed d) k (video d) of
        None \<Rightarrow> None
      | Some (tr, k, s) \<Rightarrow> Some (k, d\<lparr>executed := tr, video := s\<rparr>))\<rparr>"

definition interrupt_handler :: "hardware \<Rightarrow> interrupt_t \<Rightarrow> devices \<Rightarrow> devices option" where
  "interrupt_handler hw i d =
     (let d = (if int_no i \<ge> 0x28 then d\<lparr>executed := outb PIC_SLAVE PIC_EOI (executed d)\<rparr> else d);
          d = d\<lparr>executed := outb PIC_MASTER PIC_EOI (executed d)\<rparr>
      in if int_no i = IRQ_TIMER
         then if timer_handler_p d then call_handler timer_handler i d else Some d
         else if int_no i = IRQ_KEYBOARD
         then if keyboard_handler_p d then call_handler (keyboard_handler hw) i d else Some d
         else Some d)"

text \<open>The interrupts of a run, one after the other (the processor does not nest them).\<close>

fun interrupts :: "hardware \<Rightarrow> interrupt_t list \<Rightarrow> devices \<Rightarrow> devices option" where
  "interrupts hw [] d = Some d"
| "interrupts hw (i # is) d =
     (case interrupt_handler hw i d of None \<Rightarrow> None | Some d \<Rightarrow> interrupts hw is d)"

lemmas irq_consts = PIC_MASTER_def PIC_SLAVE_def PIC_EOI_def IRQ_TIMER_def IRQ_KEYBOARD_def

subsection \<open>Properties\<close>

lemma call_timer_handler: "call_handler timer_handler i d = Some (d\<lparr>timer_instance := on_timer (timer_instance d)\<rparr>)"
  by (simp add: call_handler_def timer_handler_def)

lemma call_keyboard_handler:
  "call_handler (keyboard_handler hw) i d =
     (case on_keyboard hw (executed d) (keyboard_instance d) (video d) of
        None \<Rightarrow> None
      | Some (tr, k, s) \<Rightarrow> Some (d\<lparr>executed := tr, keyboard_instance := k, video := s\<rparr>))"
  by (simp add: call_handler_def keyboard_handler_def split: option.split)

lemmas dispatch_defs = interrupt_handler_def call_timer_handler call_keyboard_handler

lemma on_keyboard_trace:
  assumes "on_keyboard hw tr k s = Some (tr', k', s')"
  shows "tr' = Inb 0x64 # tr \<or> tr' = Inb 0x60 # Inb 0x64 # tr"
  using assms
  by (auto simp: on_keyboard_def port_defs STATUS_PORT_def DATA_PORT_def split: if_splits option.splits)

text \<open>C33. Every interrupt is acknowledged before its driver runs: the end-of-interrupt command
  goes to the slave controller exactly when the vector is at least 0x28, then to the master,
  and the driver only reads ports after that.\<close>

theorem interrupt_acknowledged_first:
  assumes "interrupt_handler hw i d = Some d'"
  shows "\<exists>reads. executed d' = reads @ Outb 0x20 0x20
      # (if int_no i \<ge> 0x28 then [Outb 0xA0 0x20] else []) @ executed d
    \<and> set reads \<subseteq> {Inb 0x60, Inb 0x64}"
proof -
  let ?ack = "Outb 0x20 0x20 # (if int_no i \<ge> 0x28 then [Outb 0xA0 0x20] else []) @ executed d"
  have "executed d' = ?ack \<or> (\<exists>k s k' s'. on_keyboard hw ?ack k s = Some (executed d', k', s'))"
    using assms
    by (auto simp: dispatch_defs Let_def instruction_defs irq_consts split: if_splits option.splits)
  then have "\<exists>reads \<in> {[], [Inb 0x64], [Inb 0x60, Inb 0x64]}. executed d' = reads @ ?ack"
    using on_keyboard_trace by fastforce
  then obtain reads where r: "reads \<in> {[], [Inb 0x64], [Inb 0x60, Inb 0x64]}" and "executed d' = reads @ ?ack"
    by blast
  moreover from r have "set reads \<subseteq> {Inb 0x60, Inb 0x64}" by auto
  ultimately show ?thesis by blast
qed

lemma interrupt_keeps_timer:
  assumes "interrupt_handler hw i d = Some d'" "timer_handler_p d"
  shows "timer_handler_p d' \<and> ticks (timer_instance d')
    = ticks (timer_instance d) + (if int_no i = 0x20 then 1 else 0)"
  using assms
  by (auto simp: dispatch_defs Let_def irq_consts on_timer_def split: if_splits option.splits)

lemma ticks_run:
  assumes "interrupts hw is d = Some d'" and "timer_handler_p d"
  shows "timer_handler_p d' \<and> ticks (timer_instance d') = ticks (timer_instance d)
    + of_nat (length (filter (\<lambda>i. int_no i = 0x20) is))"
  using assms
proof (induction "is" arbitrary: d)
  case Nil
  then show ?case by simp
next
  case (Cons i rest)
  then obtain e where e: "interrupt_handler hw i d = Some e" "interrupts hw rest e = Some d'"
    by (auto split: option.splits)
  then show ?case
    using Cons.IH [OF e(2)] interrupt_keeps_timer [OF e(1) Cons.prems(2)] by simp
qed

text \<open>C34. Once the timer is registered, its tick counter counts the timer interrupts of any run
  of interrupts, modulo 2 to the 64; no other interrupt changes it.\<close>

theorem ticks_count_timer_interrupts:
  assumes "interrupts hw is d = Some d'" and "timer_handler_p d"
  shows "ticks (timer_instance d') = ticks (timer_instance d)
    + of_nat (length (filter (\<lambda>i. int_no i = 0x20) is))"
  using ticks_run [OF assms] by blast

subsection \<open>Typing\<close>

text \<open>The keyboard controller as its documentation describes it: the status port reports a
  waiting byte, and the data port delivers the waiting scan codes in order, one per read.\<close>

definition data_reads :: "trace \<Rightarrow> nat" where
  "data_reads tr = length (filter (\<lambda>i. i = Inb 0x60) tr)"

definition delivers :: "hardware \<Rightarrow> nat \<Rightarrow> u8 list \<Rightarrow> bool" where
  "delivers hw n codes \<longleftrightarrow>
     (\<forall>tr. port8 hw tr 0x64 AND 1 = 1
       \<and> (\<forall>k < length codes. data_reads tr = n + k \<longrightarrow> port8 hw tr 0x60 = codes ! k))"

fun typed :: "bool \<Rightarrow> u8 list \<Rightarrow> u8 list" where
  "typed held [] = []"
| "typed held (c # rest) =
     (if c \<in> {0x2a, 0x36} then typed True rest
      else if c \<in> {0xaa, 0xb6} then typed False rest
      else if c AND 0x80 \<noteq> 0 then typed held rest
      else (if held then en_US_shift else en_US) ! unat c # typed held rest)"

definition keyboard_interrupt :: "interrupt_t \<Rightarrow> bool" where
  "keyboard_interrupt i \<longleftrightarrow> int_no i = 0x21"

lemma table_lengths: "length en_US = 91" "length en_US_shift = 91"
  by (simp_all add: en_US_def en_US_shift_def KEY_CODES_def)

lemma delivers_now:
  assumes "delivers hw (data_reads (executed d)) (c # rest)"
  shows "port8 hw (Outb 0x20 0x20 # executed d) 0x64 AND 1 = 1"
    and "port8 hw (Inb 0x64 # Outb 0x20 0x20 # executed d) 0x60 = c"
proof -
  have "data_reads (Inb 0x64 # Outb 0x20 0x20 # executed d) = data_reads (executed d) + 0"
    by (simp add: data_reads_def)
  then show "port8 hw (Outb 0x20 0x20 # executed d) 0x64 AND 1 = 1"
    "port8 hw (Inb 0x64 # Outb 0x20 0x20 # executed d) 0x60 = c"
    using assms unfolding delivers_def by (blast, metis length_greater_0_conv list.distinct(1) nth_Cons_0)
qed

lemma keyboard_interrupt_run:
  assumes "keyboard_interrupt i" "keyboard_handler_p d"
    and "delivers hw (data_reads (executed d)) (c # rest)"
  shows "interrupt_handler hw i d =
    (case (if c AND 0x80 \<noteq> 0 then Some (on_keyup c (keyboard_instance d), video d)
           else on_keydown c (keyboard_instance d) (video d)) of
       None \<Rightarrow> None
     | Some (k, s) \<Rightarrow> Some (d\<lparr>executed := Inb 0x60 # Inb 0x64 # Outb 0x20 0x20 # executed d,
                              keyboard_instance := k, video := s\<rparr>))"
proof -
  note now = delivers_now [OF assms(3)]
  have "(1 :: u8) = mask 1" "(1 :: u16) = mask 1" by (simp_all add: mask_eq_exp_minus_1)
  then have "ucast (port8 hw (Outb 0x20 0x20 # executed d) 0x64) AND (1 :: u16)
    = ucast (port8 hw (Outb 0x20 0x20 # executed d) 0x64 AND 1)"
    by (intro bit_word_eqI) (auto simp: bit_simps)
  then have "ucast (port8 hw (Outb 0x20 0x20 # executed d) 0x64) AND DATA_IN_BUFFER \<noteq> 0"
    using now(1) by (simp add: DATA_IN_BUFFER_def)
  then show ?thesis
    using assms(1,2) now(2)
    by (auto simp: dispatch_defs keyboard_interrupt_def Let_def irq_consts on_keyboard_def
        port_defs STATUS_PORT_def DATA_PORT_def split: option.splits)
qed

lemma keyboard_interrupt_step:
  assumes "keyboard_interrupt i" "keyboard_handler_p d"
    and "delivers hw (data_reads (executed d)) (c # rest)"
    and "c AND 0x80 \<noteq> 0 \<or> unat c < 91"
  obtains d' where "interrupt_handler hw i d = Some d'" "keyboard_handler_p d'"
    "data_reads (executed d') = Suc (data_reads (executed d))"
    "foldl (\<lambda>s c. printc c s) (video d) (typed (shift (keyboard_instance d)) (c # rest))
     = foldl (\<lambda>s c. printc c s) (video d') (typed (shift (keyboard_instance d')) rest)"
proof -
  let ?k = "keyboard_instance d" and ?tr = "Inb 0x60 # Inb 0x64 # Outb 0x20 0x20 # executed d"
  note run = keyboard_interrupt_run [OF assms(1-3)]
  have reads: "data_reads ?tr = Suc (data_reads (executed d))" by (simp add: data_reads_def)
  show thesis
  proof (cases "c AND 0x80 = 0")
    case False
    then have "c \<noteq> 0x2a" "c \<noteq> 0x36" by auto
    then show thesis
      using that [of "d\<lparr>executed := ?tr, keyboard_instance := on_keyup c ?k\<rparr>"] run False reads assms(2)
      by (simp add: on_keyup_def)
  next
    case True
    then have up: "c \<noteq> 0xaa" "c \<noteq> 0xb6" by auto
    show thesis
    proof (cases "c = 0x2a \<or> c = 0x36")
      case True
      then show thesis
        using that [of "d\<lparr>executed := ?tr, keyboard_instance := ?k\<lparr>shift := True\<rparr>\<rparr>"] run reads assms(2)
        by (auto simp: on_keydown_def)
    next
      case F: False
      let ?ch = "(if shift ?k then en_US_shift else en_US) ! unat c"
      have "on_keydown c ?k (video d) = Some (?k, printc ?ch (video d))"
        using F True assms(4) by (simp add: on_keydown_def table_at_def table_lengths)
      then show thesis
        using that [of "d\<lparr>executed := ?tr, video := printc ?ch (video d)\<rparr>"] run True F up reads assms(2)
        by simp
    qed
  qed
qed

lemma other_interrupt_step:
  assumes "\<not> keyboard_interrupt i"
  obtains d' where "interrupt_handler hw i d = Some d'" "keyboard_handler_p d' = keyboard_handler_p d"
    "data_reads (executed d') = data_reads (executed d)" "keyboard_instance d' = keyboard_instance d"
    "video d' = video d"
proof -
  have "\<exists>d'. interrupt_handler hw i d = Some d' \<and> keyboard_handler_p d' = keyboard_handler_p d
    \<and> data_reads (executed d') = data_reads (executed d) \<and> keyboard_instance d' = keyboard_instance d
    \<and> video d' = video d"
    using assms
    by (simp add: dispatch_defs keyboard_interrupt_def Let_def irq_consts instruction_defs data_reads_def)
  then show thesis using that by blast
qed

lemma typing_run:
  assumes "delivers hw (data_reads (executed d)) codes"
    and "\<forall>c \<in> set codes. c AND 0x80 \<noteq> 0 \<or> unat c < 91"
    and "length (filter keyboard_interrupt is) = length codes" and "keyboard_handler_p d"
  shows "\<exists>d'. interrupts hw is d = Some d'
    \<and> video d' = foldl (\<lambda>s c. printc c s) (video d) (typed (shift (keyboard_instance d)) codes)"
  using assms
proof (induction "is" arbitrary: codes d)
  case Nil
  then show ?case by simp
next
  case (Cons i js)
  show ?case
  proof (cases "keyboard_interrupt i")
    case True
    then obtain c rest where codes: "codes = c # rest" using Cons.prems(3) by (cases codes) auto
    obtain d' where d': "interrupt_handler hw i d = Some d'" "keyboard_handler_p d'"
      "data_reads (executed d') = Suc (data_reads (executed d))"
      "foldl (\<lambda>s c. printc c s) (video d) (typed (shift (keyboard_instance d)) codes)
       = foldl (\<lambda>s c. printc c s) (video d') (typed (shift (keyboard_instance d')) rest)"
      unfolding codes
      by (rule keyboard_interrupt_step [OF True Cons.prems(4), of hw c rest]) (use Cons.prems codes in auto)
    have "delivers hw (data_reads (executed d')) rest"
      using Cons.prems(1) unfolding delivers_def d'(3) codes by fastforce
    then have "\<exists>e. interrupts hw js d' = Some e
      \<and> video e = foldl (\<lambda>s c. printc c s) (video d') (typed (shift (keyboard_instance d')) rest)"
      using Cons.prems(2,3) True codes d'(2) by (intro Cons.IH) auto
    then show ?thesis using d'(1,4) by auto
  next
    case False
    obtain d' where d': "interrupt_handler hw i d = Some d'" "keyboard_handler_p d' = keyboard_handler_p d"
      "data_reads (executed d') = data_reads (executed d)" "keyboard_instance d' = keyboard_instance d"
      "video d' = video d"
      by (rule other_interrupt_step [OF False])
    then show ?thesis using Cons.IH [of d' codes] Cons.prems False by simp
  qed
qed

text \<open>C26. Typing: when the controller delivers scan codes that the tables cover, a run of
  interrupts with one keyboard interrupt for each of them, in any interleaving with others, shows
  exactly the characters a shift-aware reading of the codes gives, in order, and nothing else.\<close>

theorem keyboard_types_text:
  assumes "delivers hw (data_reads (executed d)) codes"
    and "\<forall>c \<in> set codes. c AND 0x80 \<noteq> 0 \<or> unat c < 91"
    and "length (filter keyboard_interrupt is) = length codes" and "keyboard_handler_p d"
  shows "\<exists>d'. interrupts hw is d = Some d'
    \<and> video d' = foldl (\<lambda>s c. printc c s) (video d) (typed (shift (keyboard_instance d)) codes)"
  using typing_run [OF assms] .

definition key_a_codes :: "u8 list" where
  "key_a_codes = [0x2a, 0x1e, 0xaa, 0x1e]"

definition typing_hardware :: "u8 list \<Rightarrow> hardware" where
  "typing_hardware codes = \<lparr>port8 = (\<lambda>tr p. if p = 0x64 then 1 else codes ! data_reads tr),
     port16 = (\<lambda>tr p. 0), port32 = (\<lambda>tr p. 0), msr = (\<lambda>tr r. (0, 0))\<rparr>"

definition keyboard_devices :: devices where
  "keyboard_devices = \<lparr>timer_guard = 0, timer_handler_guard = 0,
     timer_instance = \<lparr>frequency = 0, ticks = 0\<rparr>, timer_handler_p = False,
     keyboard_guard = 1, keyboard_handler_guard = 1, keyboard_instance = keyboard_new,
     keyboard_handler_p = True, video = protected_mode_new (\<lambda>i. 0), executed = []\<rparr>"

definition keyboard_irq :: interrupt_t where
  "keyboard_irq = \<lparr>registers = \<lparr>ds = 0, rax = 0, rbx = 0, rcx = 0, rdx = 0, r8 = 0, r9 = 0, r10 = 0,
     r11 = 0, r12 = 0, r13 = 0, r14 = 0, r15 = 0, rbp = 0, rsi = 0, rdi = 0\<rparr>,
     int_no = 0x21, error_code = 0, rip = 0, cs = 8, rflags = 0, userrsp = 0, ss = 0\<rparr>"

text \<open>The same devices with the timer registered, and an interrupt with a given vector.\<close>

definition timer_devices :: devices where
  "timer_devices = keyboard_devices\<lparr>timer_handler_p := True\<rparr>"

definition irq :: "u64 \<Rightarrow> interrupt_t" where
  "irq n = keyboard_irq\<lparr>int_no := n\<rparr>"

theorem keyboard_types_text_witness:
  "\<exists>d'. interrupts (typing_hardware key_a_codes)
      [keyboard_irq, irq 0x20, keyboard_irq, keyboard_irq, irq 0x2e, keyboard_irq] timer_devices = Some d'
    \<and> video d' = foldl (\<lambda>s c. printc c s) (protected_mode_new (\<lambda>i. 0)) [0x41, 0x61]"
proof -
  let ?is = "[keyboard_irq, irq 0x20, keyboard_irq, keyboard_irq, irq 0x2e, keyboard_irq]"
  have e: "en_US ! 0x1e = 0x61" "en_US_shift ! 0x1e = 0x41"
    by (simp_all add: en_US_def en_US_shift_def KEY_CODES_def)
  have t: "typed False key_a_codes = [0x41, 0x61]" by (simp add: key_a_codes_def e)
  have "delivers (typing_hardware key_a_codes) (data_reads (executed timer_devices)) key_a_codes"
    by (simp add: delivers_def typing_hardware_def timer_devices_def keyboard_devices_def data_reads_def)
  moreover have "\<forall>c \<in> set key_a_codes. c AND 0x80 \<noteq> 0 \<or> unat c < 91"
    by (simp add: key_a_codes_def)
  moreover have "length (filter keyboard_interrupt ?is) = length key_a_codes"
    by (simp add: key_a_codes_def keyboard_interrupt_def irq_def keyboard_irq_def)
  moreover have "keyboard_handler_p timer_devices" by (simp add: timer_devices_def keyboard_devices_def)
  ultimately show ?thesis
    using keyboard_types_text [of "typing_hardware key_a_codes" timer_devices key_a_codes ?is] t
    by (simp add: timer_devices_def keyboard_devices_def keyboard_new_def)
qed

text \<open>A scan code from 0x5b to 0x7f, which the second byte of an extended key can be, reads
  behind the end of the character tables.\<close>

theorem keyboard_reads_past_table:
  assumes "delivers hw (data_reads (executed d)) [c]" and "0x5b \<le> c" "c < 0x80"
    and "keyboard_interrupt i" and "keyboard_handler_p d"
  shows "interrupt_handler hw i d = None"
proof -
  have c: "0x5b \<le> unat c" "unat c < 128" using assms(2,3) by (simp_all add: wordnat)
  have "\<not> bit c 7"
  proof -
    have "take_bit 7 c = c" using c by (simp add: word_unat_eq_iff unsigned_take_bit_eq take_bit_nat_eq_self)
    then show ?thesis by (metis bit_take_bit_iff less_irrefl)
  qed
  then have "c AND 0x80 = 0"
    using and_exp_eq_0_iff_not_bit [of c 7] by simp
  moreover have "c \<noteq> 0x2a \<and> c \<noteq> 0x36" using c by auto
  ultimately show ?thesis
    using keyboard_interrupt_run [OF assms(4,5,1)] c
    by (simp add: on_keydown_def table_at_def table_lengths)
qed

theorem keyboard_reads_past_table_witness:
  "interrupt_handler (typing_hardware [0x5b]) keyboard_irq keyboard_devices = None"
  by (rule keyboard_reads_past_table [where c = "0x5b"])
    (simp_all add: delivers_def typing_hardware_def keyboard_devices_def data_reads_def
      keyboard_interrupt_def keyboard_irq_def)

theorem ticks_count_timer_interrupts_witness:
  "\<exists>d'. interrupts (typing_hardware [0x1e]) [irq 0x20, irq 0x2c, irq 0x20] timer_devices = Some d'
    \<and> ticks (timer_instance d') = 2"
proof -
  obtain d' where d: "interrupts (typing_hardware [0x1e]) [irq 0x20, irq 0x2c, irq 0x20] timer_devices = Some d'"
    by (simp add: dispatch_defs Let_def irq_consts irq_def timer_devices_def)
  have "timer_handler_p timer_devices" "ticks (timer_instance timer_devices) = 0"
    by (simp_all add: timer_devices_def keyboard_devices_def)
  then show ?thesis
    using ticks_count_timer_interrupts [OF d] d by (simp add: irq_def)
qed

theorem interrupt_acknowledged_first_witness:
  "\<exists>d' reads. interrupt_handler (typing_hardware []) (irq 0x2e) timer_devices = Some d'
    \<and> executed d' = reads @ [Outb 0x20 0x20, Outb 0xA0 0x20] \<and> set reads \<subseteq> {Inb 0x60, Inb 0x64}"
proof -
  obtain d' where d: "interrupt_handler (typing_hardware []) (irq 0x2e) timer_devices = Some d'"
    by (simp add: dispatch_defs Let_def irq_consts irq_def)
  then show ?thesis
    using interrupt_acknowledged_first [OF d] by (simp add: irq_def timer_devices_def keyboard_devices_def)
qed

text \<open>The table has no entry for F8, so every key after F7 has the character of its successor:
  the code of the keypad minus is 0x4a and that of the keypad plus 0x4e.\<close>

theorem keypad_keys_shifted:
  "table_at en_US 0x49 = Some 0x2d \<and> table_at en_US 0x4a = Some 0
   \<and> table_at en_US 0x4d = Some 0x2b \<and> table_at en_US 0x4e = Some 0"
  by (simp add: table_at_def en_US_def KEY_CODES_def)

end
