(* ===== verification/Pci.thy ===== *)
theory Pci
  imports Video Ports Steps "HOL-Library.Product_Lexorder"
begin

text \<open>
  The scan of the PCI bus, \<^verbatim>\<open>drivers/bus/pci.cpp\<close> and \<^verbatim>\<open>pci.hpp\<close>. Its state is
  the trace of port accesses, the memory with the stack buffers of the number formatter, the
  console on which each device is reported, and the list \<open>found\<close> of the descriptions that were
  built, in order. The source passes a callback along and never calls it; it is left out. A
  bridge scan would recurse into the secondary bus: the recursion is bounded by a nesting depth,
  and \<open>None\<close> stands for a scan that goes deeper. Statements in sequence, and loops with constant
  bounds, are lists of state transformers run one after the other.
\<close>

subsection \<open>Data\<close>

definition PCI_ADDRESS_PORT :: u16 where
  "PCI_ADDRESS_PORT = 0xcf8"

definition PCI_VALUE_PORT :: u16 where
  "PCI_VALUE_PORT = 0xcfc"

definition MAX_PCI_FUNCTIONS :: nat where
  "MAX_PCI_FUNCTIONS = 8"

definition MAX_PCI_SLOTS :: nat where
  "MAX_PCI_SLOTS = 32"

definition PCI_VENDOR_ID :: u16 where "PCI_VENDOR_ID = 0x00"
definition PCI_DEVICE_ID :: u16 where "PCI_DEVICE_ID = 0x02"
definition PCI_SUBCLASS :: u16 where "PCI_SUBCLASS = 0x0a"
definition PCI_CLASS :: u16 where "PCI_CLASS = 0x0b"
definition PCI_HEADER_TYPE :: u16 where "PCI_HEADER_TYPE = 0x0e"
definition PCI_SECONDARY_BUS :: u16 where "PCI_SECONDARY_BUS = 0x19"
definition PCI_TYPE_BRIDGE :: int where "PCI_TYPE_BRIDGE = 0x604"
definition PCI_NONE :: u16 where "PCI_NONE = 0xffff"

definition PCI_BARS :: "u16 list" where
  "PCI_BARS = [0x10, 0x14, 0x18, 0x1c, 0x20, 0x24]"

record pci_address =
  bus :: u8
  slot :: u8
  func :: u8

record pci_info =
  address :: pci_address
  klass :: u8
  sub_class :: u8
  vendor :: u16
  device_id :: u16
  bars :: "u32 list"

text \<open>\<open>found\<close> has no counterpart in the code: it is a log of the descriptions that \<^verbatim>\<open>scan_function\<close>
  builds on its stack and prints.\<close>

record pci_state =
  pci_trace :: trace
  pci_memory :: machine
  pci_video :: protected_mode
  found :: "pci_info list"

definition pci_address_t :: "u8 \<Rightarrow> u8 \<Rightarrow> u8 \<Rightarrow> pci_address" where
  "pci_address_t b s f = \<lparr>bus = b, slot = s, func = f\<rparr>"

definition get_address :: "pci_address \<Rightarrow> u8 \<Rightarrow> u32" where
  "get_address a field = 0x80000000 OR push_bit 16 (ucast (bus a)) OR push_bit 11 (ucast (slot a))
     OR push_bit 8 (ucast (func a)) OR ucast (field AND 0xfc)"

definition info_hash :: "pci_info \<Rightarrow> u64" where
  "info_hash i = push_bit 32 (ucast (vendor i)) OR ucast (device_id i)"

definition same_device :: "pci_info \<Rightarrow> pci_info \<Rightarrow> bool" where
  "same_device i j \<longleftrightarrow> bus (address i) = bus (address j) \<and> slot (address i) = slot (address j)
     \<and> func (address i) = func (address j)"

subsection \<open>Configuration space accesses\<close>

definition pci_read_byte :: "hardware \<Rightarrow> pci_address \<Rightarrow> u16 \<Rightarrow> trace \<Rightarrow> u8 \<times> trace" where
  "pci_read_byte hw a field tr =
     read_byte hw (get_address a (ucast field)) PCI_ADDRESS_PORT (PCI_VALUE_PORT + (field AND 3)) tr"

definition pci_read_word :: "hardware \<Rightarrow> pci_address \<Rightarrow> u16 \<Rightarrow> trace \<Rightarrow> u16 \<times> trace" where
  "pci_read_word hw a field tr =
     read_word hw (get_address a (ucast field)) PCI_ADDRESS_PORT (PCI_VALUE_PORT + (field AND 2)) tr"

definition pci_read_dword :: "hardware \<Rightarrow> pci_address \<Rightarrow> u16 \<Rightarrow> trace \<Rightarrow> u32 \<times> trace" where
  "pci_read_dword hw a field tr =
     read_dword hw (get_address a (ucast field)) PCI_ADDRESS_PORT PCI_VALUE_PORT tr"

definition pci_write_byte :: "pci_address \<Rightarrow> u16 \<Rightarrow> u8 \<Rightarrow> trace \<Rightarrow> trace" where
  "pci_write_byte a field v tr =
     write_byte (get_address a (ucast field)) PCI_ADDRESS_PORT PCI_VALUE_PORT v tr"

definition pci_write_word :: "pci_address \<Rightarrow> u16 \<Rightarrow> u16 \<Rightarrow> trace \<Rightarrow> trace" where
  "pci_write_word a field v tr =
     write_word (get_address a (ucast field)) PCI_ADDRESS_PORT PCI_VALUE_PORT v tr"

definition pci_write_dword :: "pci_address \<Rightarrow> u16 \<Rightarrow> u32 \<Rightarrow> trace \<Rightarrow> trace" where
  "pci_write_dword a field v tr =
     write_dword (get_address a (ucast field)) PCI_ADDRESS_PORT PCI_VALUE_PORT v tr"

fun pci_read_dwords :: "hardware \<Rightarrow> pci_address \<Rightarrow> u16 list \<Rightarrow> trace \<Rightarrow> u32 list \<times> trace" where
  "pci_read_dwords hw a [] tr = ([], tr)"
| "pci_read_dwords hw a (f # fs) tr =
     (let (v, tr) = pci_read_dword hw a f tr; (vs, tr) = pci_read_dwords hw a fs tr in (v # vs, tr))"

definition get_type :: "hardware \<Rightarrow> pci_address \<Rightarrow> trace \<Rightarrow> u16 \<times> trace" where
  "get_type hw a tr =
     (let (c, tr) = pci_read_byte hw a PCI_CLASS tr;
          (s, tr) = pci_read_byte hw a PCI_SUBCLASS tr
      in (push_bit 8 (ucast c) OR ucast s, tr))"

text \<open>The initialiser list of \<^verbatim>\<open>scan_function\<close>, evaluated from left to right.\<close>

definition read_info :: "hardware \<Rightarrow> pci_address \<Rightarrow> trace \<Rightarrow> pci_info \<times> trace" where
  "read_info hw a tr =
     (let (k, tr) = pci_read_byte hw a PCI_CLASS tr;
          (s, tr) = pci_read_byte hw a PCI_SUBCLASS tr;
          (v, tr) = pci_read_word hw a PCI_VENDOR_ID tr;
          (d, tr) = pci_read_word hw a PCI_DEVICE_ID tr;
          (bs, tr) = pci_read_dwords hw a PCI_BARS tr
      in (\<lparr>address = a, klass = k, sub_class = s, vendor = v, device_id = d, bars = bs\<rparr>, tr))"

subsection \<open>Reporting\<close>

definition show_args :: "addr \<Rightarrow> print_arg list \<Rightarrow> pci_state \<Rightarrow> pci_state option" where
  "show_args buffer vs st =
     (case print_args buffer vs (pci_memory st) (pci_video st) of
        None \<Rightarrow> None | Some (s, m) \<Rightarrow> Some (st\<lparr>pci_memory := m, pci_video := s\<rparr>))"

definition show_hex :: "addr \<Rightarrow> u64 \<Rightarrow> pci_state \<Rightarrow> pci_state option" where
  "show_hex buffer x st =
     (case printx buffer x (pci_memory st) (pci_video st) of
        None \<Rightarrow> None | Some (s, m) \<Rightarrow> Some (st\<lparr>pci_memory := m, pci_video := s\<rparr>))"

definition show_literal :: "string \<Rightarrow> pci_state \<Rightarrow> pci_state option" where
  "show_literal str st = Some (st\<lparr>pci_video := prints_literal str (pci_video st)\<rparr>)"

definition report :: "addr \<Rightarrow> pci_info \<Rightarrow> pci_state \<Rightarrow> pci_state option" where
  "report buffer i =
     run_all
      ([show_args buffer [Literal '' > PCI '', Integral (ucast (bus (address i))), Literal '':'',
          Integral (ucast (slot (address i))), Literal '':'', Integral (ucast (func (address i))),
          Literal '' - ''],
        show_hex buffer (ucast (vendor i)), show_literal '' '',
        show_hex buffer (ucast (device_id i)), show_literal '' '',
        show_hex buffer (ucast (klass i)), show_literal '' '',
        show_hex buffer (ucast (sub_class i)), show_literal [CHR 0x0A]]
       @ (if klass i = 0x1 \<and> sub_class i = 0x6
          then [show_literal ''   ^-- Bars: '',
                show_hex buffer (ucast (bars i ! 0)), show_literal '' '',
                show_hex buffer (ucast (bars i ! 1)), show_literal '' '',
                show_hex buffer (ucast (bars i ! 2)), show_literal '' '',
                show_hex buffer (ucast (bars i ! 3)), show_literal '' '',
                show_hex buffer (ucast (bars i ! 4)), show_literal '' '',
                show_hex buffer (ucast (bars i ! 5)), show_literal [CHR 0x0A]]
          else []))"

subsection \<open>The scan\<close>

text \<open>The argument \<open>nested\<close> scans the secondary bus of a bridge.\<close>

definition scan_function :: "(u8 \<Rightarrow> pci_state \<Rightarrow> pci_state option) \<Rightarrow> hardware \<Rightarrow> addr \<Rightarrow> int
    \<Rightarrow> u8 \<Rightarrow> u8 \<Rightarrow> u8 \<Rightarrow> pci_state \<Rightarrow> pci_state option" where
  "scan_function nested hw buffer type b s f st =
     (let a = pci_address_t b s f;
          (matches, tr) = (if type = -1 then (True, pci_trace st)
                           else let (t, tr) = get_type hw a (pci_trace st) in (type = uint t, tr));
          st = st\<lparr>pci_trace := tr\<rparr>
      in case (if matches
               then let (info, tr) = read_info hw a (pci_trace st)
                    in report buffer info (st\<lparr>pci_trace := tr, found := found st @ [info]\<rparr>)
               else Some st) of
           None \<Rightarrow> None
         | Some st \<Rightarrow>
             if type = PCI_TYPE_BRIDGE
             then let (secondary, tr) = pci_read_byte hw a PCI_SECONDARY_BUS (pci_trace st);
                      st = st\<lparr>pci_trace := tr\<rparr>
                  in if secondary \<noteq> 0 then nested secondary st else Some st
             else Some st)"

definition scan_slot :: "(u8 \<Rightarrow> pci_state \<Rightarrow> pci_state option) \<Rightarrow> hardware \<Rightarrow> addr \<Rightarrow> int
    \<Rightarrow> u8 \<Rightarrow> u8 \<Rightarrow> pci_state \<Rightarrow> pci_state option" where
  "scan_slot nested hw buffer type b s st =
     (let a = pci_address_t b s 0;
          (v, tr) = pci_read_word hw a PCI_VENDOR_ID (pci_trace st);
          st = st\<lparr>pci_trace := tr\<rparr>
      in if v = PCI_NONE then Some st
         else case scan_function nested hw buffer type b s 0 st of
                None \<Rightarrow> None
              | Some st \<Rightarrow>
                  let (h, tr) = pci_read_byte hw a PCI_HEADER_TYPE (pci_trace st);
                      st = st\<lparr>pci_trace := tr\<rparr>
                  in if h AND 0x80 = 0 then Some st
                     else run_all
                       (map (\<lambda>f st.
                          let (v, tr) = pci_read_word hw (pci_address_t b s (of_nat f)) PCI_VENDOR_ID
                                          (pci_trace st);
                              st = st\<lparr>pci_trace := tr\<rparr>
                          in if v \<noteq> PCI_NONE
                             then scan_function nested hw buffer type b s (of_nat f) st
                             else Some st)
                         [1..<MAX_PCI_FUNCTIONS]) st)"

fun scan_bus :: "nat \<Rightarrow> hardware \<Rightarrow> addr \<Rightarrow> int \<Rightarrow> u8 \<Rightarrow> pci_state \<Rightarrow> pci_state option" where
  "scan_bus 0 hw buffer type b st = None"
| "scan_bus (Suc depth) hw buffer type b st =
     run_all (map (\<lambda>s. scan_slot (scan_bus depth hw buffer type) hw buffer type b (of_nat s))
                [0..<MAX_PCI_SLOTS]) st"

fun host_loop :: "nat \<Rightarrow> hardware \<Rightarrow> addr \<Rightarrow> nat list \<Rightarrow> pci_state \<Rightarrow> pci_state option" where
  "host_loop depth hw buffer [] st = Some st"
| "host_loop depth hw buffer (f # fs) st =
     (let (v, tr) = pci_read_word hw (pci_address_t 0 0 (of_nat f)) PCI_VENDOR_ID (pci_trace st);
          st = st\<lparr>pci_trace := tr\<rparr>
      in if v = PCI_NONE then Some st
         else case scan_bus depth hw buffer (- 1) (of_nat f) st of
                None \<Rightarrow> None | Some st \<Rightarrow> host_loop depth hw buffer fs st)"

definition scan_device :: "nat \<Rightarrow> hardware \<Rightarrow> addr \<Rightarrow> pci_state \<Rightarrow> pci_state option" where
  "scan_device depth hw buffer st =
     (let (h, tr) = pci_read_byte hw (pci_address_t 0 0 0) PCI_HEADER_TYPE (pci_trace st);
          st = st\<lparr>pci_trace := tr\<rparr>
      in if h AND 0x80 = 0 then scan_bus depth hw buffer (- 1) 0 st
         else host_loop depth hw buffer [0..<MAX_PCI_FUNCTIONS] st)"

definition scan_hardware :: "nat \<Rightarrow> hardware \<Rightarrow> addr \<Rightarrow> pci_state \<Rightarrow> pci_state option" where
  "scan_hardware depth hw buffer st = scan_device depth hw buffer st"

subsection \<open>Reporting always returns\<close>

text \<open>Reporting writes to the screen and, for the digits of a number, to the buffer on the
  stack, and nothing else.\<close>

definition reported :: "addr \<Rightarrow> pci_state \<Rightarrow> machine \<Rightarrow> protected_mode \<Rightarrow> bool" where
  "reported buffer st m s \<longleftrightarrow> (on_screen (pci_video st) \<longrightarrow> on_screen s) \<and> writes_only buffer 66 (pci_memory st) m"

definition quiet :: "addr \<Rightarrow> (pci_state \<Rightarrow> pci_state option) \<Rightarrow> bool" where
  "quiet buffer f \<longleftrightarrow> (\<forall>st. \<exists>m s. f st = Some (st\<lparr>pci_memory := m, pci_video := s\<rparr>) \<and> reported buffer st m s)"

lemma quietI:
  "(\<And>st. \<exists>m s. f st = Some (st\<lparr>pci_memory := m, pci_video := s\<rparr>) \<and> reported buffer st m s)
    \<Longrightarrow> quiet buffer f"
  unfolding quiet_def by blast

lemma quietE:
  assumes "quiet buffer f"
  obtains m s where "f st = Some (st\<lparr>pci_memory := m, pci_video := s\<rparr>)" "reported buffer st m s"
  using assms unfolding quiet_def by blast

lemma quiet_run_all: "\<forall>f \<in> set fs. quiet buffer f \<Longrightarrow> quiet buffer (run_all fs)"
proof (induction fs)
  case Nil
  have "st = st\<lparr>pci_memory := pci_memory st, pci_video := pci_video st\<rparr>" "reported buffer st (pci_memory st) (pci_video st)"
    for st :: pci_state by (simp_all add: reported_def)
  then show ?case unfolding quiet_def run_all.simps by blast
next
  case (Cons f fs)
  show ?case
  proof (rule quietI)
    fix st :: pci_state
    obtain m s where f: "f st = Some (st\<lparr>pci_memory := m, pci_video := s\<rparr>)" "reported buffer st m s"
      using Cons.prems by (auto elim: quietE [where st = st])
    let ?st = "st\<lparr>pci_memory := m, pci_video := s\<rparr>"
    have "quiet buffer (run_all fs)" using Cons by simp
    then obtain m' s' where fs: "run_all fs ?st = Some (?st\<lparr>pci_memory := m', pci_video := s'\<rparr>)"
      "reported buffer ?st m' s'"
      by (rule quietE)
    have "reported buffer st m' s'"
      using f(2) fs(2) writes_only_trans [of buffer 66 "pci_memory st" m m'] by (simp add: reported_def)
    then show "\<exists>m s. run_all (f # fs) st = Some (st\<lparr>pci_memory := m, pci_video := s\<rparr>) \<and> reported buffer st m s"
      using f fs by auto
  qed
qed

lemma quiet_show_hex: "quiet buffer (show_hex buffer x)"
proof (rule quietI)
  fix st :: pci_state
  let ?s = "foldl (\<lambda>s c. printc c s) (prints_literal ''0x'' (pci_video st)) (itoa_text Hex x)"
  have "show_hex buffer x st
    = Some (st\<lparr>pci_memory := itoa buffer 32 x Hex (pci_memory st), pci_video := ?s\<rparr>)"
    by (simp add: show_hex_def printx_result)
  moreover have "reported buffer st (itoa buffer 32 x Hex (pci_memory st)) ?s"
    using foldl_printc_on_screen prints_literal_on_screen itoa_writes by (auto simp: reported_def)
  ultimately show "\<exists>m s. show_hex buffer x st = Some (st\<lparr>pci_memory := m, pci_video := s\<rparr>)
    \<and> reported buffer st m s" by blast
qed

lemma quiet_show_literal: "quiet buffer (show_literal str)"
proof (rule quietI)
  fix st :: pci_state
  have "show_literal str st = Some (st\<lparr>pci_memory := pci_memory st,
      pci_video := prints_literal str (pci_video st)\<rparr>)"
    by (simp add: show_literal_def)
  moreover have "reported buffer st (pci_memory st) (prints_literal str (pci_video st))"
    using prints_literal_on_screen by (simp add: reported_def)
  ultimately show "\<exists>m s. show_literal str st = Some (st\<lparr>pci_memory := m, pci_video := s\<rparr>)
    \<and> reported buffer st m s" by blast
qed

lemma quiet_show_args: "\<forall>v \<in> set vs. total_arg v \<Longrightarrow> quiet buffer (show_args buffer vs)"
proof (rule quietI)
  fix st :: pci_state
  assume "\<forall>v \<in> set vs. total_arg v"
  then obtain s' m' where p: "print_args buffer vs (pci_memory st) (pci_video st) = Some (s', m')"
    "on_screen (pci_video st) \<longrightarrow> on_screen s'" "writes_only buffer 66 (pci_memory st) m'"
    by (rule print_args_total)
  then have "show_args buffer vs st = Some (st\<lparr>pci_memory := m', pci_video := s'\<rparr>)"
    by (simp add: show_args_def)
  with p(2,3) show "\<exists>m s. show_args buffer vs st = Some (st\<lparr>pci_memory := m, pci_video := s\<rparr>)
    \<and> reported buffer st m s" by (auto simp: reported_def)
qed

lemma quiet_report: "quiet buffer (report buffer i)"
  unfolding report_def
  by (rule quiet_run_all) (auto simp: quiet_show_hex quiet_show_literal intro!: quiet_show_args)

subsection \<open>The configuration space\<close>

text \<open>The documented mechanism: after a dword is written to port 0xcf8, ports 0xcfc to 0xcff give
  the bytes of the configuration dword it selects.\<close>

definition pci_ports :: "hardware \<Rightarrow> (u32 \<Rightarrow> u32) \<Rightarrow> bool" where
  "pci_ports hw cfg \<longleftrightarrow> (\<forall>a tr.
     (\<forall>k < 4. port8 hw (Outl 0xcf8 a # tr) (0xcfc + k) = ucast (drop_bit (8 * unat k) (cfg a)))
     \<and> (\<forall>k \<in> {0, 2}. port16 hw (Outl 0xcf8 a # tr) (0xcfc + k) = ucast (drop_bit (8 * unat k) (cfg a)))
     \<and> port32 hw (Outl 0xcf8 a # tr) 0xcfc = cfg a)"

definition conf_byte :: "(u32 \<Rightarrow> u32) \<Rightarrow> pci_address \<Rightarrow> u16 \<Rightarrow> u8" where
  "conf_byte cfg a field = ucast (drop_bit (8 * unat (field AND 3)) (cfg (get_address a (ucast field))))"

definition conf_word :: "(u32 \<Rightarrow> u32) \<Rightarrow> pci_address \<Rightarrow> u16 \<Rightarrow> u16" where
  "conf_word cfg a field = ucast (drop_bit (8 * unat (field AND 2)) (cfg (get_address a (ucast field))))"

definition conf_dword :: "(u32 \<Rightarrow> u32) \<Rightarrow> pci_address \<Rightarrow> u16 \<Rightarrow> u32" where
  "conf_dword cfg a field = cfg (get_address a (ucast field))"

definition info_of :: "(u32 \<Rightarrow> u32) \<Rightarrow> pci_address \<Rightarrow> pci_info" where
  "info_of cfg a = \<lparr>address = a, klass = conf_byte cfg a PCI_CLASS, sub_class = conf_byte cfg a PCI_SUBCLASS,
     vendor = conf_word cfg a PCI_VENDOR_ID, device_id = conf_word cfg a PCI_DEVICE_ID,
     bars = map (conf_dword cfg a) PCI_BARS\<rparr>"

lemma low_bits: "(x :: u16) AND 3 < 4" "(x AND 2) \<in> {0, 2 :: u16}"
proof -
  have "(3 :: u16) = mask 2" by (simp add: mask_eq_exp_minus_1)
  then have "x AND 3 = take_bit 2 x" by (simp add: take_bit_eq_mask)
  then have "unat (x AND 3) = take_bit 2 (unat x)" by (simp add: unsigned_take_bit_eq)
  then have "unat (x AND 3) < 4" using take_bit_nat_less_exp [of 2 "unat x"] by simp
  then show "x AND 3 < 4" by (simp add: word_less_nat_alt)
  have "x AND 2 = (if bit x 1 then 2 else 0)"
    using and_exp_eq_0_iff_not_bit [of x 1]
    by (intro bit_word_eqI) (auto simp: bit_simps bit_2_iff)
  then show "x AND 2 \<in> {0, 2}" by simp
qed

lemma pci_read_conf:
  assumes "pci_ports hw cfg"
  shows "fst (pci_read_byte hw a field tr) = conf_byte cfg a field"
    and "fst (pci_read_word hw a field tr) = conf_word cfg a field"
    and "fst (pci_read_dword hw a field tr) = conf_dword cfg a field"
proof -
  note defs = pci_read_byte_def pci_read_word_def pci_read_dword_def port_defs
    PCI_ADDRESS_PORT_def PCI_VALUE_PORT_def conf_byte_def conf_word_def conf_dword_def
  show "fst (pci_read_byte hw a field tr) = conf_byte cfg a field"
    "fst (pci_read_dword hw a field tr) = conf_dword cfg a field"
    using assms low_bits(1) [of field] by (simp_all add: pci_ports_def defs)
  have "port16 hw (Outl 0xcf8 (get_address a (ucast field)) # tr) (0xcfc + (field AND 2))
    = ucast (drop_bit (8 * unat (field AND 2)) (cfg (get_address a (ucast field))))"
    using assms low_bits(2) [of field] unfolding pci_ports_def by blast
  then show "fst (pci_read_word hw a field tr) = conf_word cfg a field"
    by (simp add: defs)
qed

lemma pci_read_dwords_conf:
  "pci_ports hw cfg \<Longrightarrow> fst (pci_read_dwords hw a fs tr) = map (conf_dword cfg a) fs"
proof (induction fs arbitrary: tr)
  case (Cons f fs)
  have "fst (pci_read_dword hw a f tr) = conf_dword cfg a f" using Cons.prems by (rule pci_read_conf)
  then show ?case using Cons by (auto simp: split_def Let_def)
qed simp

lemma read_info_conf: "pci_ports hw cfg \<Longrightarrow> fst (read_info hw a tr) = info_of cfg a"
  by (simp add: read_info_def split_def Let_def pci_read_conf pci_read_dwords_conf info_of_def)

lemma high_bits_clear:
  assumes "unat x < 2 ^ k" "k \<le> n"
  shows "\<not> bit (x :: u8) n"
proof (cases "n < 8")
  case True
  have "take_bit k x = x" using assms(1) by (simp add: word_unat_eq_iff unsigned_take_bit_eq take_bit_nat_eq_self)
  then show ?thesis using assms(2) by (metis bit_take_bit_iff leD)
qed (use bit_imp_le_length in fastforce)

text \<open>The fields can be read back from an address.\<close>

lemma get_address_fields:
  assumes "slot a < 32" "func a < 8"
  shows "ucast (drop_bit 16 (get_address a f)) = bus a"
    and "ucast (take_bit 5 (drop_bit 11 (get_address a f))) = slot a"
    and "ucast (take_bit 3 (drop_bit 8 (get_address a f))) = func a"
    and "ucast (get_address a f) = f AND 0xfc"
proof -
  have top: "bit (0x80000000 :: int) n \<longleftrightarrow> n = 31" for n
    using bit_exp_iff [of 31 n, where ?'a = int] by auto
  have sl: "\<not> bit (slot a) n" if "5 \<le> n" for n using high_bits_clear [of "slot a" 5 n] assms(1) that by (simp add: word_less_nat_alt)
  have fn: "\<not> bit (func a) n" if "3 \<le> n" for n using high_bits_clear [of "func a" 3 n] assms(2) that by (simp add: word_less_nat_alt)
  have lo: "\<not> bit (f AND 0xfc) n" if "8 \<le> n" for n using that bit_imp_le_length [of f n] by (auto simp: bit_and_iff)
  have bs: "\<not> bit (bus a) n" if "8 \<le> n" for n using that bit_imp_le_length [of "bus a" n] by auto
  note bits = get_address_def bit_simps top sl fn lo bs
  show "ucast (drop_bit 16 (get_address a f)) = bus a"
    by (rule bit_word_eqI) (simp only: get_address_def bit_unsigned_iff bit_drop_bit_eq bit_or_iff comp_def, auto simp: bits)
  show "ucast (take_bit 5 (drop_bit 11 (get_address a f))) = slot a"
    by (rule bit_word_eqI) (auto simp: bits dest: sl)
  show "ucast (take_bit 3 (drop_bit 8 (get_address a f))) = func a"
    by (rule bit_word_eqI) (auto simp: bits)
  show "ucast (get_address a f) = f AND 0xfc"
    by (rule bit_word_eqI) (auto simp: bits)
qed

text \<open>Two configuration accesses name the same dword exactly when they are to the same function
  of the same device on the same bus and to the same dword of its configuration space.\<close>

theorem config_addresses_separate:
  assumes "slot a < 32" "func a < 8" "slot b < 32" "func b < 8"
  shows "get_address a f = get_address b g \<longleftrightarrow> (a :: pci_address) = b \<and> f AND 0xfc = g AND 0xfc"
proof
  assume e: "get_address a f = get_address b g"
  then have "bus a = bus b" "slot a = slot b" "func a = func b" "f AND 0xfc = g AND 0xfc"
    using get_address_fields [OF assms(1,2), of f] get_address_fields [OF assms(3,4), of g] by simp_all
  then show "a = b \<and> f AND 0xfc = g AND 0xfc" by simp
qed (auto simp: get_address_def)

theorem config_addresses_separate_witness:
  "get_address (pci_address_t 0 31 7) 0x10 \<noteq> get_address (pci_address_t 1 0 0) 0x10"
  using config_addresses_separate [of "pci_address_t 0 31 7" "pci_address_t 1 0 0" "0x10" "0x10"]
  by (simp add: pci_address_t_def)

subsection \<open>What a scan finds\<close>

definition exists_function :: "(u32 \<Rightarrow> u32) \<Rightarrow> u8 \<Rightarrow> u8 \<Rightarrow> u8 \<Rightarrow> bool" where
  "exists_function cfg b s f \<longleftrightarrow> conf_word cfg (pci_address_t b s f) PCI_VENDOR_ID \<noteq> PCI_NONE"

definition multifunction :: "(u32 \<Rightarrow> u32) \<Rightarrow> u8 \<Rightarrow> u8 \<Rightarrow> bool" where
  "multifunction cfg b s \<longleftrightarrow> conf_byte cfg (pci_address_t b s 0) PCI_HEADER_TYPE AND 0x80 \<noteq> 0"

definition slot_functions :: "(u32 \<Rightarrow> u32) \<Rightarrow> u8 \<Rightarrow> u8 \<Rightarrow> u8 list" where
  "slot_functions cfg b s =
     (if exists_function cfg b s 0
      then 0 # (if multifunction cfg b s then filter (exists_function cfg b s) (map of_nat [1..<8]) else [])
      else [])"

definition bus_devices :: "(u32 \<Rightarrow> u32) \<Rightarrow> u8 \<Rightarrow> pci_info list" where
  "bus_devices cfg b =
     concat (map (\<lambda>s. map (\<lambda>f. info_of cfg (pci_address_t b s f)) (slot_functions cfg b s))
       (map of_nat [0..<32]))"

definition host_buses :: "(u32 \<Rightarrow> u32) \<Rightarrow> u8 list" where
  "host_buses cfg =
     (if multifunction cfg 0 0 then takeWhile (exists_function cfg 0 0) (map of_nat [0..<8]) else [0])"

text \<open>A step returns and adds these descriptions.\<close>

definition finds :: "(pci_state \<Rightarrow> pci_state option) \<Rightarrow> pci_info list \<Rightarrow> bool" where
  "finds f ds \<longleftrightarrow> (\<forall>st. \<exists>st'. f st = Some st' \<and> found st' = found st @ ds)"

lemma findsE:
  assumes "finds f ds"
  obtains st' where "f st = Some st'" "found st' = found st @ ds"
  using assms unfolding finds_def by blast

lemma finds_run_all: "\<forall>x \<in> set xs. finds (F x) (g x) \<Longrightarrow> finds (run_all (map F xs)) (concat (map g xs))"
proof (induction xs)
  case (Cons x xs)
  show ?case unfolding finds_def
  proof
    fix st :: pci_state
    obtain st1 where 1: "F x st = Some st1" "found st1 = found st @ g x"
      using Cons.prems by (auto elim: findsE [where st = st])
    obtain st2 where "run_all (map F xs) st1 = Some st2" "found st2 = found st1 @ concat (map g xs)"
      using Cons by (auto elim: findsE [where st = st1])
    with 1 show "\<exists>st'. run_all (map F (x # xs)) st = Some st'
      \<and> found st' = found st @ concat (map g (x # xs))"
      by simp
  qed
qed (simp add: finds_def)

lemma finds_function:
  assumes "pci_ports hw cfg"
  shows "finds (scan_function nested hw buffer (- 1) b s f) [info_of cfg (pci_address_t b s f)]"
  unfolding finds_def
proof
  fix st :: pci_state
  let ?a = "pci_address_t b s f"
  obtain i tr where i: "read_info hw ?a (pci_trace st) = (i, tr)" by (cases "read_info hw ?a (pci_trace st)")
  then have "i = info_of cfg ?a" using read_info_conf [OF assms, of ?a "pci_trace st"] by simp
  let ?st = "st\<lparr>pci_trace := tr, found := found st @ [i]\<rparr>"
  obtain m v where "report buffer i ?st = Some (?st\<lparr>pci_memory := m, pci_video := v\<rparr>)"
    using quiet_report by (rule quietE)
  then show "\<exists>st'. scan_function nested hw buffer (- 1) b s f st = Some st'
    \<and> found st' = found st @ [info_of cfg ?a]"
    using i \<open>i = _\<close> by (simp add: scan_function_def PCI_TYPE_BRIDGE_def)
qed

lemma concat_map_if: "concat (map (\<lambda>x. if P x then [h x] else []) xs) = map h (filter P xs)"
  by (induction xs) auto

lemma finds_slot:
  assumes "pci_ports hw cfg"
  shows "finds (scan_slot nested hw buffer (- 1) b s)
    (map (\<lambda>f. info_of cfg (pci_address_t b s f)) (slot_functions cfg b s))"
  unfolding finds_def
proof
  fix st :: pci_state
  let ?a = "pci_address_t b s 0" and ?i = "\<lambda>f. info_of cfg (pci_address_t b s f)"
  let ?F = "\<lambda>f st. let (v, tr) = pci_read_word hw (pci_address_t b s (of_nat f)) PCI_VENDOR_ID (pci_trace st);
      st = st\<lparr>pci_trace := tr\<rparr>
    in if v \<noteq> PCI_NONE then scan_function nested hw buffer (- 1) b s (of_nat f) st else Some st"
  note conf = pci_read_conf [OF assms]
  let ?st = "st\<lparr>pci_trace := snd (pci_read_word hw ?a PCI_VENDOR_ID (pci_trace st))\<rparr>"
  obtain st1 where st1: "scan_function nested hw buffer (- 1) b s 0 ?st = Some st1"
    "found st1 = found st @ [?i 0]"
    using findsE [OF finds_function [OF assms, of nested buffer b s 0], of ?st] by auto
  let ?st1 = "st1\<lparr>pci_trace := snd (pci_read_byte hw ?a PCI_HEADER_TYPE (pci_trace st1))\<rparr>"
  have "finds (?F f) (if exists_function cfg b s (of_nat f) then [?i (of_nat f)] else [])" for f
    unfolding finds_def
  proof
    fix t :: pci_state
    let ?t = "t\<lparr>pci_trace := snd (pci_read_word hw (pci_address_t b s (of_nat f)) PCI_VENDOR_ID (pci_trace t))\<rparr>"
    obtain t' where "scan_function nested hw buffer (- 1) b s (of_nat f) ?t = Some t'"
      "found t' = found t @ [?i (of_nat f)]"
      using findsE [OF finds_function [OF assms, of nested buffer b s "of_nat f"], of ?t] by auto
    then show "\<exists>t'. ?F f t = Some t'
      \<and> found t' = found t @ (if exists_function cfg b s (of_nat f) then [?i (of_nat f)] else [])"
      by (simp add: split_def Let_def conf exists_function_def)
  qed
  then have "finds (run_all (map ?F [1..<MAX_PCI_FUNCTIONS]))
    (concat (map (\<lambda>f. if exists_function cfg b s (of_nat f) then [?i (of_nat f)] else []) [1..<8]))"
    unfolding MAX_PCI_FUNCTIONS_def by (intro finds_run_all) blast
  then obtain st2 where st2: "run_all (map ?F [1..<MAX_PCI_FUNCTIONS]) ?st1 = Some st2"
    "found st2 = found st1 @ map ?i (filter (exists_function cfg b s) (map of_nat [1..<8]))"
    unfolding concat_map_if by (auto elim: findsE [where st = ?st1] simp: filter_map comp_def)
  show "\<exists>st'. scan_slot nested hw buffer (- 1) b s st = Some st'
    \<and> found st' = found st @ map ?i (slot_functions cfg b s)"
    using st1 st2 unfolding scan_slot_def
    by (simp add: split_def Let_def conf slot_functions_def exists_function_def multifunction_def
        del: upt_Suc)
qed

lemma finds_bus:
  assumes "pci_ports hw cfg"
  shows "finds (scan_bus (Suc depth) hw buffer (- 1) b) (bus_devices cfg b)"
proof -
  have "finds (run_all (map (\<lambda>s. scan_slot (scan_bus depth hw buffer (- 1)) hw buffer (- 1) b (of_nat s))
      [0..<MAX_PCI_SLOTS])) (concat (map (\<lambda>s. map (\<lambda>f. info_of cfg (pci_address_t b (of_nat s) f))
      (slot_functions cfg b (of_nat s))) [0..<MAX_PCI_SLOTS]))"
    by (rule finds_run_all) (simp add: finds_slot [OF assms])
  then show ?thesis
    by (simp add: finds_def bus_devices_def MAX_PCI_SLOTS_def comp_def del: upt_Suc)
qed

lemma finds_host_loop:
  assumes "pci_ports hw cfg"
  shows "finds (host_loop (Suc depth) hw buffer fs)
    (concat (map (bus_devices cfg) (takeWhile (exists_function cfg 0 0) (map of_nat fs))))"
proof (induction fs)
  case (Cons f fs)
  show ?case unfolding finds_def
  proof
    fix st :: pci_state
    let ?st = "st\<lparr>pci_trace := snd (pci_read_word hw (pci_address_t 0 0 (of_nat f)) PCI_VENDOR_ID (pci_trace st))\<rparr>"
    obtain st1 where 1: "scan_bus (Suc depth) hw buffer (- 1) (of_nat f) ?st = Some st1"
      "found st1 = found st @ bus_devices cfg (of_nat f)"
      using findsE [OF finds_bus [OF assms, of depth buffer "of_nat f"], of ?st] by auto
    obtain st2 where "host_loop (Suc depth) hw buffer fs st1 = Some st2"
      "found st2 = found st1 @ concat (map (bus_devices cfg) (takeWhile (exists_function cfg 0 0) (map of_nat fs)))"
      using findsE [OF Cons.IH, of st1] by auto
    with 1 show "\<exists>st'. host_loop (Suc depth) hw buffer (f # fs) st = Some st' \<and> found st' = found st
      @ concat (map (bus_devices cfg) (takeWhile (exists_function cfg 0 0) (map of_nat (f # fs))))"
      by (simp add: split_def Let_def pci_read_conf [OF assms] exists_function_def del: scan_bus.simps)
  qed
qed (simp add: finds_def)

lemma scan_hardware_finds:
  assumes "pci_ports hw cfg"
  shows "finds (scan_hardware (Suc depth) hw buffer) (concat (map (bus_devices cfg) (host_buses cfg)))"
  unfolding finds_def
proof
  fix st :: pci_state
  let ?st = "st\<lparr>pci_trace := snd (pci_read_byte hw (pci_address_t 0 0 0) PCI_HEADER_TYPE (pci_trace st))\<rparr>"
  obtain st1 where "scan_bus (Suc depth) hw buffer (- 1) 0 ?st = Some st1"
    "found st1 = found st @ bus_devices cfg 0"
    using findsE [OF finds_bus [OF assms, of depth buffer 0], of ?st] by auto
  moreover obtain st2 where "host_loop (Suc depth) hw buffer [0..<8] ?st = Some st2"
    "found st2 = found st @ concat (map (bus_devices cfg)
      (takeWhile (exists_function cfg 0 0) (map of_nat [0..<8])))"
    using findsE [OF finds_host_loop [OF assms, of depth buffer "[0..<8]"], of ?st] by auto
  ultimately show "\<exists>st'. scan_hardware (Suc depth) hw buffer st = Some st'
    \<and> found st' = found st @ concat (map (bus_devices cfg) (host_buses cfg))"
    by (simp add: scan_hardware_def scan_device_def split_def Let_def pci_read_conf [OF assms]
        multifunction_def host_buses_def MAX_PCI_FUNCTIONS_def del: scan_bus.simps upt_Suc)
qed

subsection \<open>Properties\<close>

text \<open>C23. On a machine with the documented configuration mechanism the scan reports exactly the
  functions that a plain enumeration of the configuration space finds on the buses of the host
  controllers, in order of bus, slot and function, each with its identifiers and base
  addresses: function 0 of every occupied slot, and the others only of multifunction devices.\<close>

theorem scan_equals_enumeration:
  assumes "pci_ports hw cfg"
  shows "\<exists>st'. scan_hardware (Suc depth) hw buffer st = Some st'
    \<and> found st' = found st @ concat (map (bus_devices cfg) (host_buses cfg))"
  using scan_hardware_finds [OF assms, of depth buffer] unfolding finds_def by blast

definition pci_hardware :: "(u32 \<Rightarrow> u32) \<Rightarrow> hardware" where
  "pci_hardware cfg =
     (let dword = (\<lambda>tr. case tr of Outl q a # rest \<Rightarrow> cfg a | _ \<Rightarrow> 0)
      in \<lparr>port8 = (\<lambda>tr p. ucast (drop_bit (8 * unat (p - 0xcfc)) (dword tr))),
          port16 = (\<lambda>tr p. ucast (drop_bit (8 * unat (p - 0xcfc)) (dword tr))),
          port32 = (\<lambda>tr p. dword tr), msr = (\<lambda>tr r. (0, 0))\<rparr>)"

lemma pci_hardware_ports: "pci_ports (pci_hardware cfg) cfg"
  by (simp add: pci_ports_def pci_hardware_def Let_def)

text \<open>One host bridge in slot 0 of bus 0.\<close>

definition one_device :: "u32 \<Rightarrow> u32" where
  "one_device a = (if a = 0x80000000 then 0x12378086 else if a = 0x80000008 then 0x06000002
     else if a = 0x8000000c then 0 else 0xffffffff)"

definition scan_start :: pci_state where
  "scan_start = \<lparr>pci_trace = [], pci_memory = blank_machine, pci_video = protected_mode_new (\<lambda>i. 0), found = []\<rparr>"

lemma one_device_single: "\<not> multifunction one_device 0 0"
  by (simp add: multifunction_def conf_byte_def get_address_def pci_address_t_def PCI_HEADER_TYPE_def
      one_device_def)

theorem scan_equals_enumeration_witness:
  "\<exists>st'. scan_hardware 1 (pci_hardware one_device) 0x8000 scan_start = Some st'
    \<and> found st' = bus_devices one_device 0"
  using scan_equals_enumeration [of "pci_hardware one_device" one_device 0 "0x8000" scan_start]
    pci_hardware_ports one_device_single
  by (simp add: host_buses_def scan_start_def del: scan_bus.simps)

text \<open>With a single host controller every reported device is on bus 0, whatever the
  configuration space holds: bridges are reported like other devices, but the buses behind
  them are never scanned.\<close>

theorem buses_behind_bridges_not_scanned:
  assumes "pci_ports hw cfg" and "\<not> multifunction cfg 0 0"
  shows "\<exists>st' ds. scan_hardware (Suc depth) hw buffer st = Some st' \<and> found st' = found st @ ds
    \<and> (\<forall>d \<in> set ds. bus (address d) = 0)"
proof -
  have "bus (address d) = 0" if "d \<in> set (bus_devices cfg 0)" for d
    using that by (auto simp: bus_devices_def info_of_def pci_address_t_def)
  then show ?thesis
    using scan_hardware_finds [OF assms(1), of depth buffer] assms(2)
    unfolding finds_def host_buses_def by (force simp del: scan_bus.simps)
qed

theorem buses_behind_bridges_not_scanned_witness:
  "\<exists>st' ds. scan_hardware 1 (pci_hardware one_device) 0x8000 scan_start = Some st'
    \<and> found st' = found scan_start @ ds \<and> (\<forall>d \<in> set ds. bus (address d) = 0)"
  using buses_behind_bridges_not_scanned [OF pci_hardware_ports one_device_single, of 0 "0x8000" scan_start]
  by simp

subsection \<open>The order of the devices\<close>

text \<open>Addresses are ordered by bus, then slot, then function.\<close>

instantiation pci_address_ext :: (linorder) linorder
begin

definition less_eq_pci_address_ext :: "'a pci_address_scheme \<Rightarrow> 'a pci_address_scheme \<Rightarrow> bool" where
  "less_eq_pci_address_ext a b \<longleftrightarrow>
     (bus a, slot a, func a, pci_address.more a) \<le> (bus b, slot b, func b, pci_address.more b)"

definition less_pci_address_ext :: "'a pci_address_scheme \<Rightarrow> 'a pci_address_scheme \<Rightarrow> bool" where
  "less_pci_address_ext a b \<longleftrightarrow>
     (bus a, slot a, func a, pci_address.more a) < (bus b, slot b, func b, pci_address.more b)"

instance
proof
  fix a b c :: "'a pci_address_scheme"
  show "a < b \<longleftrightarrow> a \<le> b \<and> \<not> b \<le> a"
    by (simp only: less_eq_pci_address_ext_def less_pci_address_ext_def less_le_not_le)
  show "a \<le> a" by (simp only: less_eq_pci_address_ext_def order_refl)
  show "a \<le> b \<or> b \<le> a" by (simp only: less_eq_pci_address_ext_def linear)
  show "a \<le> c" if "a \<le> b" "b \<le> c" using that by (simp only: less_eq_pci_address_ext_def)
  show "a = b" if "a \<le> b" "b \<le> a"
  proof -
    have "(bus a, slot a, func a, pci_address.more a) = (bus b, slot b, func b, pci_address.more b)"
      using that unfolding less_eq_pci_address_ext_def by (rule order_antisym)
    then show "a = b" by simp
  qed
qed

end

lemma less_pci_address_t:
  "pci_address_t b s f < pci_address_t b' s' f' \<longleftrightarrow>
     b < b' \<or> b = b' \<and> (s < s' \<or> s = s' \<and> f < f')"
  by (auto simp: less_pci_address_ext_def pci_address_t_def le_less)

lemma sorted_wrt_concat_map:
  assumes "sorted_wrt R xs" "\<And>x. x \<in> set xs \<Longrightarrow> sorted_wrt Q (g x)"
    and "\<And>x y a b. R x y \<Longrightarrow> a \<in> set (g x) \<Longrightarrow> b \<in> set (g y) \<Longrightarrow> Q a b"
  shows "sorted_wrt Q (concat (map g xs))"
  using assms by (induction xs) (auto simp: sorted_wrt_append)

lemma sorted_words:
  assumes "n \<le> 256"
  shows "sorted_wrt (<) (map (of_nat :: nat \<Rightarrow> u8) [k..<n])"
proof -
  have "sorted_wrt (\<lambda>i j. (of_nat i :: u8) < of_nat j) [k..<n]"
    by (rule sorted_wrt_mono_rel [OF _ sorted_wrt_upt [of k n]])
      (use assms in \<open>auto simp: word_less_nat_alt unsigned_of_nat take_bit_eq_mod\<close>)
  then show ?thesis by (simp add: sorted_wrt_map)
qed

lemma sorted_slot_functions: "sorted_wrt (<) (slot_functions cfg b s)"
proof -
  have "sorted_wrt (<) (filter (exists_function cfg b s) (map of_nat [1..<8]))"
    by (rule sorted_wrt_filter [OF sorted_words]) simp
  moreover have "0 < (of_nat i :: u8)" if "i \<in> {1..<8}" for i
    using that by (simp add: word_less_nat_alt unsigned_of_nat take_bit_eq_mod)
  ultimately show ?thesis by (auto simp: slot_functions_def simp del: upt_Suc)
qed

lemma address_info_of [simp]: "address (info_of cfg a) = a"
  by (simp add: info_of_def)

lemma sorted_bus_devices: "sorted_wrt (<) (map address (bus_devices cfg b))"
proof -
  have "sorted_wrt (<) (concat (map (\<lambda>s. map (pci_address_t b s) (slot_functions cfg b s)) (map of_nat [0..<32])))"
  proof (rule sorted_wrt_concat_map [OF sorted_words])
    fix s :: u8
    show "sorted_wrt (<) (map (pci_address_t b s) (slot_functions cfg b s))"
      using sorted_slot_functions by (simp add: sorted_wrt_map less_pci_address_t)
  qed (auto simp: less_pci_address_t)
  then show ?thesis by (simp add: bus_devices_def map_concat comp_def del: upt_Suc)
qed

lemma bus_of_device: "a \<in> address ` set (bus_devices cfg b) \<Longrightarrow> \<exists>s f. a = pci_address_t b s f"
  by (fastforce simp: bus_devices_def)

text \<open>C25. The scan reports every function at most once and in increasing order of bus, slot and
  function, whatever the configuration space holds.\<close>

theorem scan_reports_in_order:
  assumes "pci_ports hw cfg"
  shows "\<exists>st' ds. scan_hardware (Suc depth) hw buffer st = Some st' \<and> found st' = found st @ ds
    \<and> sorted_wrt (<) (map address ds) \<and> distinct (map address ds)"
proof -
  let ?g = "\<lambda>b. map address (bus_devices cfg b)"
  have "sorted_wrt (<) (host_buses cfg)"
    using sorted_words [of 8 0] sorted_wrt_append [of "(<)" "takeWhile (exists_function cfg 0 0) (map of_nat [0..<8])"
        "dropWhile (exists_function cfg 0 0) (map of_nat [0..<8])"]
    by (simp add: host_buses_def del: upt_Suc)
  then have s: "sorted_wrt (<) (concat (map ?g (host_buses cfg)))"
  proof (rule sorted_wrt_concat_map)
    fix b b' :: u8 and a a' assume "b < b'" "a \<in> set (?g b)" "a' \<in> set (?g b')"
    then show "a < a'" using bus_of_device [of a cfg b] bus_of_device [of a' cfg b'] by (auto simp: less_pci_address_t)
  qed (rule sorted_bus_devices)
  then have "distinct (concat (map ?g (host_buses cfg)))" by (simp add: strict_sorted_iff)
  with s have ds: "sorted_wrt (<) (map address (concat (map (bus_devices cfg) (host_buses cfg))))
      \<and> distinct (map address (concat (map (bus_devices cfg) (host_buses cfg))))"
    by (simp add: map_concat comp_def)
  obtain st' where "scan_hardware (Suc depth) hw buffer st = Some st'"
    "found st' = found st @ concat (map (bus_devices cfg) (host_buses cfg))"
    using scan_hardware_finds [OF assms] by (rule findsE)
  with ds show ?thesis by blast
qed

theorem scan_reports_in_order_witness:
  "\<exists>st' ds. scan_hardware 1 (pci_hardware one_device) 0x8000 scan_start = Some st' \<and> found st' = found scan_start @ ds
    \<and> sorted_wrt (<) (map address ds) \<and> distinct (map address ds)"
  using scan_reports_in_order [OF pci_hardware_ports, of 0 one_device "0x8000" scan_start] by simp

text \<open>The scan without any assumption on the hardware: it returns, keeps the cursor on the
  screen and writes only to the buffer on the stack.\<close>

definition keeps_screen :: "addr \<Rightarrow> pci_state \<Rightarrow> pci_state \<Rightarrow> bool" where
  "keeps_screen buffer st st' \<longleftrightarrow> reported buffer st (pci_memory st') (pci_video st')"

abbreviation returns :: "addr \<Rightarrow> (pci_state \<Rightarrow> pci_state option) \<Rightarrow> bool" where
  "returns buffer \<equiv> keeps (\<lambda>st. True) (keeps_screen buffer)"

interpretation scan: step_contract "\<lambda>st. True" "keeps_screen buffer" for buffer
  by unfold_locales (auto simp: keeps_screen_def reported_def intro: writes_only_trans)

lemma returns_traced: "returns buffer f \<Longrightarrow> returns buffer (\<lambda>st. f (st\<lparr>pci_trace := g st\<rparr>))"
  by (erule keeps_after) (simp_all add: keeps_screen_def reported_def)

lemma returns_function: "returns buffer (scan_function nested hw buffer (- 1) b s f)"
proof (rule keepsI)
  fix st :: pci_state
  obtain i tr where i: "read_info hw (pci_address_t b s f) (pci_trace st) = (i, tr)"
    by (cases "read_info hw (pci_address_t b s f) (pci_trace st)")
  let ?st = "st\<lparr>pci_trace := tr, found := found st @ [i]\<rparr>"
  obtain m v where "report buffer i ?st = Some (?st\<lparr>pci_memory := m, pci_video := v\<rparr>)"
    "reported buffer ?st m v"
    using quiet_report by (rule quietE)
  with i show "\<exists>st'. scan_function nested hw buffer (- 1) b s f st = Some st' \<and> True \<and> keeps_screen buffer st st'"
    by (simp add: scan_function_def PCI_TYPE_BRIDGE_def keeps_screen_def reported_def)
qed

lemma returns_slot: "returns buffer (scan_slot nested hw buffer (- 1) b s)"
proof -
  let ?a = "pci_address_t b s 0" and ?scan = "scan_function nested hw buffer (- 1) b s"
  let ?v = "\<lambda>a st. pci_read_word hw a PCI_VENDOR_ID (pci_trace st)"
  let ?h = "\<lambda>st. pci_read_byte hw ?a PCI_HEADER_TYPE (pci_trace st)"
  let ?f = "\<lambda>f st. let (v, tr) = ?v (pci_address_t b s (of_nat f)) st; st = st\<lparr>pci_trace := tr\<rparr>
    in if v \<noteq> PCI_NONE then ?scan (of_nat f) st else Some st"
  have more: "returns buffer (?f f)" for f
    unfolding split_def Let_def
    by (intro scan.cond returns_traced [of _ "?scan (of_nat f)"] returns_traced [of _ Some] returns_function scan.skip)
  have rest: "returns buffer (\<lambda>st. let (h, tr) = ?h st; st = st\<lparr>pci_trace := tr\<rparr>
      in if h AND 0x80 = 0 then Some st else run_all (map ?f [1..<MAX_PCI_FUNCTIONS]) st)"
    unfolding split_def Let_def
    by (intro scan.cond returns_traced [of _ Some] returns_traced [of _ "run_all _"] scan.skip scan.run_all)
      (use more in \<open>auto simp: split_def Let_def\<close>)
  have first: "returns buffer (\<lambda>st. case ?scan 0 (st\<lparr>pci_trace := snd (?v ?a st)\<rparr>) of None \<Rightarrow> None
      | Some st \<Rightarrow> let (h, tr) = ?h st; st = st\<lparr>pci_trace := tr\<rparr>
          in if h AND 0x80 = 0 then Some st else run_all (map ?f [1..<MAX_PCI_FUNCTIONS]) st)"
    by (intro scan.seq rest returns_traced [of _ "?scan 0"] returns_function)
  have "returns buffer (\<lambda>st. scan_slot nested hw buffer (- 1) b s st)"
    unfolding scan_slot_def split_def Let_def
    by (intro scan.cond returns_traced [of _ Some] scan.skip) (rule first [unfolded split_def Let_def])
  then show ?thesis by simp
qed

lemma returns_bus: "returns buffer (scan_bus (Suc depth) hw buffer (- 1) b)"
  using scan.run_all [of "map (\<lambda>s. scan_slot (scan_bus depth hw buffer (- 1)) hw buffer (- 1) b (of_nat s))
    [0..<MAX_PCI_SLOTS]"] returns_slot
  by (auto simp: keeps_def)

lemma returns_host_loop: "returns buffer (host_loop (Suc depth) hw buffer fs)"
proof (induction fs)
  case Nil
  show ?case using scan.skip by (simp add: keeps_def)
next
  case (Cons f fs)
  have "returns buffer (\<lambda>st. host_loop (Suc depth) hw buffer (f # fs) st)"
    unfolding host_loop.simps split_def Let_def
    by (intro scan.cond returns_traced [of _ Some] scan.skip scan.seq Cons.IH
        returns_traced [of _ "scan_bus (Suc depth) hw buffer (- 1) (of_nat f)"] returns_bus)
  then show ?case by simp
qed

lemma returns_hardware: "returns buffer (scan_hardware (Suc depth) hw buffer)"
proof -
  have "returns buffer (\<lambda>st. scan_hardware (Suc depth) hw buffer st)"
    unfolding scan_hardware_def scan_device_def split_def Let_def
    by (intro scan.cond returns_traced [of _ "scan_bus (Suc depth) hw buffer (- 1) 0"]
        returns_traced [of _ "host_loop (Suc depth) hw buffer [0..<MAX_PCI_FUNCTIONS]"] returns_bus returns_host_loop)
  then show ?thesis by simp
qed

text \<open>C24. The scan of the hardware returns on every machine, whatever its ports answer: it never
  recurses, so the nesting depth 1 is enough.\<close>

theorem scan_hardware_terminates:
  "\<exists>st'. scan_hardware 1 hw buffer st = Some st'"
proof -
  obtain st' where "scan_hardware (Suc 0) hw buffer st = Some st'"
    using returns_hardware TrueI by (rule keepsE)
  then show ?thesis by auto
qed

end
