(* ===== verification/Segments.thy ===== *)
theory Segments
  imports Placement Ports
begin

text \<open>
  The descriptor tables of \<^verbatim>\<open>arch/amd64/bootstrap/segments.cpp\<close>: the global descriptor
  table, the task-state descriptor, the interrupt table and the programming of the two
  interrupt controllers. A bit field is a range of bits of a word; fields are laid out from the
  low end, as the compiler does for packed structures. The tables are the arrays
  \<^verbatim>\<open>g_entries\<close> and \<^verbatim>\<open>i_entries\<close> in kernel memory, whose addresses the linker chooses
  (parameters of the operations), and the entry points of the assembly stubs of \<^verbatim>\<open>isr.S\<close> are
  given by a function.
\<close>

subsection \<open>Bit fields\<close>

definition set_field :: "nat \<Rightarrow> nat \<Rightarrow> u64 \<Rightarrow> 'a::len word \<Rightarrow> 'a word" where
  "set_field pos width v w =
     (w AND NOT (push_bit pos (mask width))) OR push_bit pos (take_bit width (ucast v))"

definition get_field :: "nat \<Rightarrow> nat \<Rightarrow> 'a::len word \<Rightarrow> u64" where
  "get_field pos width w = ucast (take_bit width (drop_bit pos w))"

subsection \<open>Data\<close>

definition LONG_MODE_GDT_GATES :: u64 where
  "LONG_MODE_GDT_GATES = 7"

definition LONG_MODE_IDT_GATES :: u64 where
  "LONG_MODE_IDT_GATES = 64"

definition sizeof_idt_entry :: u64 where
  "sizeof_idt_entry = 16"

definition sizeof_gdt_entry :: u64 where
  "sizeof_gdt_entry = 8"

datatype isr = Div | Dbg | Nmi | Bkp | Ovf | Bnd | Ill | Cop | Dbl | Ovr | Tss | Seg | Stk | Gen | Pgf
  | Unk | Cft | Aln | Mch | Rs0 | Rs1 | Rs2 | Rs3 | Rs4 | Rs5 | Rs6 | Rs7 | Rs8 | Rs9 | RsA | RsB | RsC
  | Irq0 | Irq1 | Irq2 | Irq3 | Irq4 | Irq5 | Irq6 | Irq7 | Irq8 | Irq9 | Irq10 | Irq11 | Irq12 | Irq13
  | Irq14 | Irq15 | Syscall_int

record cpu_tables =
  tables_memory :: machine
  tables_trace :: trace
  idtr :: "u16 \<times> addr"
  gdtr :: "u16 \<times> addr"

subsection \<open>Segments\<close>

text \<open>The fields of \<^verbatim>\<open>gdt_code_entry\<close> and \<^verbatim>\<open>gdt_data_entry\<close>, assigned in the order of the
  source; the last argument is the uninitialised local variable.\<close>

definition code_entry :: "u64 \<Rightarrow> u64 \<Rightarrow> u64" where
  "code_entry dpl e =
     (let e = set_field 0 42 0x0 e;
          e = set_field 42 1 0x0 e;
          e = set_field 43 2 0x3 e;
          e = set_field 45 2 dpl e;
          e = set_field 47 1 0x1 e;
          e = set_field 48 5 0x0 e;
          e = set_field 53 1 0x1 e;
          e = set_field 54 1 0x0 e;
          e = set_field 55 9 0x0 e
      in e)"

definition data_entry :: "u64 \<Rightarrow> u64" where
  "data_entry e =
     (let e = set_field 0 41 0x0 e;
          e = set_field 41 1 0x1 e;
          e = set_field 42 2 0x0 e;
          e = set_field 44 1 0x1 e;
          e = set_field 45 2 0x0 e;
          e = set_field 47 1 0x1 e;
          e = set_field 48 16 0x0 e
      in e)"

text \<open>\<^verbatim>\<open>gdt_reload\<close> (\<^verbatim>\<open>gdt.S\<close>) loads the table register from the descriptor it is given.
  The four uninitialised locals are the argument u.\<close>

definition gdt_setup :: "u64 \<Rightarrow> addr \<Rightarrow> cpu_tables \<Rightarrow> cpu_tables" where
  "gdt_setup u g_entries t =
     (let m = tables_memory t;
          code = code_entry 0x0 u;
          data = data_entry u;
          user_code = code_entry 0x3 u;
          user_data = data_entry u;
          m = store (g_entries + 8 * 0) 0 m;
          m = store (g_entries + 8 * 1) code m;
          m = store (g_entries + 8 * 2) data m;
          m = store (g_entries + 8 * 3) user_code m;
          m = store (g_entries + 8 * 4) user_data m;
          m = store (g_entries + 8 * 5) 0 m;
          m = store (g_entries + 8 * 6) 0 m
      in t\<lparr>tables_memory := m,
           gdtr := (ucast (sizeof_gdt_entry * LONG_MODE_GDT_GATES - 1), g_entries)\<rparr>)"

text \<open>The two words of a \<^verbatim>\<open>gdt_tss_entry\<close>: limit 0-15, base 16-39, type 40-43, zero 44, dpl
  45-46, present 47, limit 48-51, available 52, base 56-63; and base 0-31, zero 40-44.\<close>

definition tss_low :: "addr \<Rightarrow> u64 \<Rightarrow> u64" where
  "tss_low address w =
     (let w = set_field 16 24 (address AND 0xffffff) w;
          w = set_field 56 8 (drop_bit 24 address AND 0xff) w;
          w = set_field 0 16 0xffff w;
          w = set_field 48 4 0xf w;
          w = set_field 52 1 0x0 w;
          w = set_field 45 2 0x3 w;
          w = set_field 47 1 0x1 w;
          w = set_field 44 1 0x0 w;
          w = set_field 40 4 0x9 w
      in w)"

definition tss_high :: "addr \<Rightarrow> u64 \<Rightarrow> u64" where
  "tss_high address w =
     (let w = set_field 0 32 (drop_bit 32 address) w;
          w = set_field 40 5 0x0 w
      in w)"

definition tss_set_gate :: "addr \<Rightarrow> addr \<Rightarrow> cpu_tables \<Rightarrow> cpu_tables" where
  "tss_set_gate g_entries a t =
     (let m = tables_memory t;
          w0 = tss_low a (mem m (g_entries + 8 * 5));
          w1 = tss_high a (mem m (g_entries + 8 * 6));
          m = store (g_entries + 8 * 5) w0 m;
          m = store (g_entries + 8 * 6) w1 m
      in t\<lparr>tables_memory := m\<rparr>)"

subsection \<open>The interrupt table\<close>

definition load_gate :: "addr \<Rightarrow> u8 \<Rightarrow> machine \<Rightarrow> 128 word" where
  "load_gate entries gate m =
     ucast (mem m (entries + 16 * ucast gate)) OR push_bit 64 (ucast (mem m (entries + 16 * ucast gate + 8)))"

definition store_gate :: "addr \<Rightarrow> u8 \<Rightarrow> 128 word \<Rightarrow> machine \<Rightarrow> machine" where
  "store_gate entries gate e m =
     store (entries + 16 * ucast gate + 8) (ucast (drop_bit 64 e))
       (store (entries + 16 * ucast gate) (ucast e) m)"

text \<open>The fields of \<^verbatim>\<open>idt_entry\<close>: offset 0-15, selector 16-31, stack index 32-34, ignored 35-39,
  type 40-43, zero 44, dpl 45-46, present 47, offset 48-95, ignored 96-127. The two functions of
  the source differ in the privilege level.\<close>

definition gate_entry :: "u64 \<Rightarrow> addr \<Rightarrow> 128 word \<Rightarrow> 128 word" where
  "gate_entry dpl f e =
     (let e = set_field 0 16 (f AND 0xffff) e;
          e = set_field 16 16 0x8 e;
          e = set_field 32 3 0 e;
          e = set_field 35 5 0 e;
          e = set_field 40 4 0xe e;
          e = set_field 44 1 0 e;
          e = set_field 45 2 dpl e;
          e = set_field 47 1 1 e;
          e = set_field 48 48 (drop_bit 16 f AND 0xffffffffffff) e;
          e = set_field 96 32 0 e
      in e)"

definition idt_add_gate :: "addr \<Rightarrow> u8 \<Rightarrow> addr \<Rightarrow> machine \<Rightarrow> machine" where
  "idt_add_gate entries gate f m =
     store_gate entries gate (gate_entry 0 f (load_gate entries gate m)) m"

definition idt_add_user_gate :: "addr \<Rightarrow> u8 \<Rightarrow> addr \<Rightarrow> machine \<Rightarrow> machine" where
  "idt_add_user_gate entries gate f m =
     store_gate entries gate (gate_entry 3 f (load_gate entries gate m)) m"

definition irq_remap :: "trace \<Rightarrow> trace" where
  "irq_remap tr =
     (let OFFSET_PIC1 = 0x20; OFFSET_PIC2 = 0x28;
          PIC1_COMM = 0x20; PIC1_DATA = 0x21; PIC2_COMM = 0xA0; PIC2_DATA = 0xA1;
          ICW1_INIT = 0x11; ICW4_8086 = 0x01;
          tr = io_wait (outb PIC1_COMM ICW1_INIT tr);
          tr = io_wait (outb PIC2_COMM ICW1_INIT tr);
          tr = io_wait (outb PIC1_DATA OFFSET_PIC1 tr);
          tr = io_wait (outb PIC2_DATA OFFSET_PIC2 tr);
          tr = io_wait (outb PIC1_DATA 0x04 tr);
          tr = io_wait (outb PIC2_DATA 0x02 tr);
          tr = io_wait (outb PIC1_DATA ICW4_8086 tr);
          tr = io_wait (outb PIC2_DATA ICW4_8086 tr);
          tr = outb PIC1_DATA 0 tr;
          tr = outb PIC2_DATA 0 tr
      in tr)"

definition exception_gates :: "(u8 \<times> isr) list" where
  "exception_gates =
     [(0, Div), (1, Dbg), (2, Nmi), (3, Bkp), (4, Ovf), (5, Bnd), (6, Ill), (7, Cop), (8, Dbl), (9, Ovr),
      (10, Tss), (11, Seg), (12, Stk), (13, Gen), (14, Pgf), (15, Unk), (16, Cft), (17, Aln), (18, Mch),
      (19, Rs0), (20, Rs1), (21, Rs2), (22, Rs3), (23, Rs4), (24, Rs5), (25, Rs6), (26, Rs7), (27, Rs8),
      (28, Rs9), (29, RsA), (30, RsB), (31, RsC)]"

definition irq_gates :: "(u8 \<times> isr) list" where
  "irq_gates =
     [(32, Irq0), (33, Irq1), (34, Irq2), (35, Irq3), (36, Irq4), (37, Irq5), (38, Irq6), (39, Irq7),
      (40, Irq8), (41, Irq9), (42, Irq10), (43, Irq11), (44, Irq12), (45, Irq13), (46, Irq14), (47, Irq15)]"

definition add_gates :: "(isr \<Rightarrow> addr) \<Rightarrow> addr \<Rightarrow> (u8 \<times> isr) list \<Rightarrow> machine \<Rightarrow> machine" where
  "add_gates entry_point entries gs m =
     foldl (\<lambda>m (gate, h). idt_add_gate entries gate (entry_point h) m) m gs"

text \<open>The descriptor of the table is a local variable at \<open>ptr\<close>.\<close>

definition idt_setup :: "(isr \<Rightarrow> addr) \<Rightarrow> addr \<Rightarrow> addr \<Rightarrow> cpu_tables \<Rightarrow> cpu_tables" where
  "idt_setup entry_point ptr i_entries t =
     (let t = t\<lparr>idtr := (ucast (sizeof_idt_entry * LONG_MODE_IDT_GATES - 1), i_entries),
               tables_trace := lidt ptr (tables_trace t)\<rparr>;
          t = t\<lparr>tables_trace := cli (tables_trace t)\<rparr>;
          t = t\<lparr>tables_memory := add_gates entry_point i_entries exception_gates (tables_memory t)\<rparr>;
          t = t\<lparr>tables_trace := irq_remap (tables_trace t)\<rparr>;
          t = t\<lparr>tables_memory := add_gates entry_point i_entries irq_gates (tables_memory t)\<rparr>;
          t = t\<lparr>tables_memory := idt_add_user_gate i_entries 0x80 (entry_point Syscall_int) (tables_memory t)\<rparr>
      in t\<lparr>tables_trace := sti (tables_trace t)\<rparr>)"

subsection \<open>Reading fields back\<close>

lemma bit_set_field:
  "bit (set_field pos width v (w :: 'a::len word)) n \<longleftrightarrow>
     n < LENGTH('a) \<and> (if pos \<le> n \<and> n < pos + width then n - pos < 64 \<and> bit v (n - pos) else bit w n)"
  by (auto simp: set_field_def bit_simps dest: bit_imp_le_length)

lemma bit_get_field:
  "bit (get_field pos width (w :: 'a::len word)) n \<longleftrightarrow> n < 64 \<and> n < width \<and> bit w (pos + n)"
  by (auto simp: get_field_def bit_simps dest: bit_imp_le_length)

lemma get_same_field:
  assumes "pos + width \<le> LENGTH('a::len)"
  shows "get_field pos width (set_field pos width v (w :: 'a word)) = take_bit width v"
  by (rule bit_word_eqI) (use assms in \<open>auto simp: bit_get_field bit_set_field bit_take_bit_iff\<close>)

lemma get_other_field:
  assumes "pos + width \<le> p \<or> p + wd \<le> pos"
  shows "get_field pos width (set_field p wd v w) = get_field pos width w"
  by (rule bit_word_eqI)
    (use assms in \<open>auto simp: bit_get_field bit_set_field dest: bit_imp_le_length\<close>)

lemma gate_entry_fields:
  "get_field 0 16 (gate_entry dpl f e) = take_bit 16 f"
  "get_field 48 48 (gate_entry dpl f e) = drop_bit 16 f"
  "get_field 16 16 (gate_entry dpl f e) = 0x8" "get_field 32 3 (gate_entry dpl f e) = 0"
  "get_field 40 4 (gate_entry dpl f e) = 0xe" "get_field 44 1 (gate_entry dpl f e) = 0"
  "get_field 45 2 (gate_entry dpl f e) = take_bit 2 dpl" "get_field 47 1 (gate_entry dpl f e) = 1"
proof -
  have m: "(0xffff :: u64) = mask 16" "(0xffffffffffff :: u64) = mask 48"
    by (simp_all add: mask_eq_exp_minus_1)
  have "take_bit 16 (f AND 0xffff) = take_bit 16 f"
    unfolding m by (rule bit_word_eqI) (auto simp: bit_simps)
  then show "get_field 0 16 (gate_entry dpl f e) = take_bit 16 f"
    by (simp add: gate_entry_def Let_def get_same_field get_other_field)
  have "take_bit 48 (drop_bit 16 f AND 0xffffffffffff) = drop_bit 16 f"
    unfolding m by (rule bit_word_eqI) (auto simp: bit_simps dest: bit_imp_le_length)
  then show "get_field 48 48 (gate_entry dpl f e) = drop_bit 16 f"
    by (simp add: gate_entry_def Let_def get_same_field get_other_field)
qed (simp_all add: gate_entry_def Let_def get_same_field get_other_field)

text \<open>What the processor reads from a gate: the entry point, and whether the gate is a present
  interrupt gate of the kernel code segment with this privilege level.\<close>

definition gate_handler :: "128 word \<Rightarrow> addr" where
  "gate_handler e = get_field 0 16 e OR push_bit 16 (get_field 48 48 e)"

definition interrupt_gate :: "u64 \<Rightarrow> 128 word \<Rightarrow> bool" where
  "interrupt_gate dpl e \<longleftrightarrow> get_field 16 16 e = 0x8 \<and> get_field 32 3 e = 0 \<and> get_field 40 4 e = 0xe
     \<and> get_field 44 1 e = 0 \<and> get_field 45 2 e = dpl \<and> get_field 47 1 e = 1"

lemma gate_handler_entry: "gate_handler (gate_entry dpl f e) = f"
  unfolding gate_handler_def gate_entry_fields
proof (rule bit_word_eqI)
  fix n
  show "bit (take_bit 16 f OR push_bit 16 (drop_bit 16 f)) n = bit f n" if "n < LENGTH(64)"
    using that by (cases "n < 16") (auto simp: bit_simps)
qed

lemma interrupt_gate_entry: "take_bit 2 dpl = dpl \<Longrightarrow> interrupt_gate dpl (gate_entry dpl f e)"
  unfolding interrupt_gate_def gate_entry_fields by simp

lemma split_gate: "ucast (ucast e :: u64) OR push_bit 64 (ucast (ucast (drop_bit 64 e) :: u64)) = (e :: 128 word)"
  by (rule bit_word_eqI) (auto simp: bit_simps)

lemma gate_address_inject:
  assumes "j \<in> {0, 8}" "k \<in> {0, 8}"
  shows "entries + 16 * ucast (a :: u8) + j = entries + 16 * ucast b + (k :: u64) \<longleftrightarrow> a = b \<and> j = k"
proof
  have n: "unat (16 * ucast x + i :: u64) = 16 * unat x + unat i" if "i \<in> {0, 8}" for x :: u8 and i :: u64
  proof -
    have x: "unat x < 256" using unsigned_less [of x] by simp
    then have "unat (ucast x :: u64) = unat x" by (simp add: unsigned_ucast_eq take_bit_nat_eq_self)
    with x have "unat (16 * ucast x :: u64) = 16 * unat x" by (simp add: unat_word_ariths)
    then show ?thesis using that x by (auto simp: unat_word_ariths)
  qed
  assume "entries + 16 * ucast a + j = entries + 16 * ucast b + k"
  then have "unat (16 * ucast a + j :: u64) = unat (16 * ucast b + k :: u64)" by (simp add: add.assoc)
  then have "16 * unat a + unat j = 16 * unat b + unat k" by (simp only: n [OF assms(1)] n [OF assms(2)])
  then show "a = b \<and> j = k" using assms by (auto simp: word_unat_eq_iff) presburger+
qed simp

lemma load_store_gate:
  "load_gate entries g (store_gate entries h e m) = (if g = h then e else load_gate entries g m)"
proof -
  note inj = gate_address_inject [of 0 8 entries, simplified] gate_address_inject [of 8 0 entries, simplified]
    gate_address_inject [of 0 0 entries, simplified] gate_address_inject [of 8 8 entries, simplified]
  show ?thesis by (simp add: load_gate_def store_gate_def inj split_gate)
qed

lemma load_add_gate:
  "load_gate entries g (idt_add_gate entries h f m)
   = (if g = h then gate_entry 0 f (load_gate entries h m) else load_gate entries g m)"
  by (simp add: idt_add_gate_def load_store_gate)

lemma load_add_user_gate:
  "load_gate entries g (idt_add_user_gate entries h f m)
   = (if g = h then gate_entry 3 f (load_gate entries h m) else load_gate entries g m)"
  by (simp add: idt_add_user_gate_def load_store_gate)

lemma add_gates_load:
  assumes "distinct (map fst gs)"
  shows "g \<notin> fst ` set gs \<Longrightarrow> load_gate entries g (add_gates ep entries gs m) = load_gate entries g m"
    and "(g, h) \<in> set gs \<Longrightarrow> \<exists>e. load_gate entries g (add_gates ep entries gs m) = gate_entry 0 (ep h) e"
  using assms
proof (induction gs arbitrary: m)
  case (Cons x xs)
  obtain k i where x: "x = (k, i)" by (cases x)
  have step: "add_gates ep entries ((k, i) # xs) m = add_gates ep entries xs (idt_add_gate entries k (ep i) m)" for m
    by (simp add: add_gates_def x)
  {
    case 1
    then show ?case using Cons.IH(1) by (simp add: x step load_add_gate)
  next
    case 2
    then show ?case
      using Cons.IH by (fastforce simp: x step load_add_gate)
  }
qed (simp_all add: add_gates_def)

subsection \<open>Properties\<close>

text \<open>The vector number that each stub of \<^verbatim>\<open>isr.S\<close> pushes, for the handlers in C++ to tell the
  interrupts apart; the system call stub pushes none.\<close>

fun stub_vector :: "isr \<Rightarrow> u8 option" where
  "stub_vector Div = Some 0" | "stub_vector Dbg = Some 1" | "stub_vector Nmi = Some 2" | "stub_vector Bkp = Some 3"
| "stub_vector Ovf = Some 4" | "stub_vector Bnd = Some 5" | "stub_vector Ill = Some 6" | "stub_vector Cop = Some 7"
| "stub_vector Dbl = Some 8" | "stub_vector Ovr = Some 9" | "stub_vector Tss = Some 10" | "stub_vector Seg = Some 11"
| "stub_vector Stk = Some 12" | "stub_vector Gen = Some 13" | "stub_vector Pgf = Some 14" | "stub_vector Unk = Some 15"
| "stub_vector Cft = Some 16" | "stub_vector Aln = Some 17" | "stub_vector Mch = Some 18" | "stub_vector Rs0 = Some 19"
| "stub_vector Rs1 = Some 20" | "stub_vector Rs2 = Some 21" | "stub_vector Rs3 = Some 22" | "stub_vector Rs4 = Some 23"
| "stub_vector Rs5 = Some 24" | "stub_vector Rs6 = Some 25" | "stub_vector Rs7 = Some 26" | "stub_vector Rs8 = Some 27"
| "stub_vector Rs9 = Some 28" | "stub_vector RsA = Some 29" | "stub_vector RsB = Some 30" | "stub_vector RsC = Some 31"
| "stub_vector Irq0 = Some (0 + 0x20)" | "stub_vector Irq1 = Some (1 + 0x20)" | "stub_vector Irq2 = Some (2 + 0x20)"
| "stub_vector Irq3 = Some (3 + 0x20)" | "stub_vector Irq4 = Some (4 + 0x20)" | "stub_vector Irq5 = Some (5 + 0x20)"
| "stub_vector Irq6 = Some (6 + 0x20)" | "stub_vector Irq7 = Some (7 + 0x20)" | "stub_vector Irq8 = Some (8 + 0x20)"
| "stub_vector Irq9 = Some (9 + 0x20)" | "stub_vector Irq10 = Some (10 + 0x20)" | "stub_vector Irq11 = Some (11 + 0x20)"
| "stub_vector Irq12 = Some (12 + 0x20)" | "stub_vector Irq13 = Some (13 + 0x20)" | "stub_vector Irq14 = Some (14 + 0x20)"
| "stub_vector Irq15 = Some (15 + 0x20)" | "stub_vector Syscall_int = None"

lemma exception_gates_distinct: "distinct (map fst exception_gates)"
  by (simp add: exception_gates_def)

lemma irq_gates_distinct: "distinct (map fst irq_gates)"
  by (simp add: irq_gates_def)

lemma gates_below_64:
  "g \<in> fst ` set exception_gates \<Longrightarrow> unat g < 32"
  "g \<in> fst ` set irq_gates \<Longrightarrow> 32 \<le> unat g \<and> unat g < 48"
  by (auto simp: exception_gates_def irq_gates_def)

lemma idt_setup_memory:
  "tables_memory (idt_setup ep ptr i_entries t)
   = idt_add_user_gate i_entries 0x80 (ep Syscall_int)
       (add_gates ep i_entries irq_gates (add_gates ep i_entries exception_gates (tables_memory t)))"
  by (simp add: idt_setup_def Let_def)

lemma idt_setup_gates:
  assumes "(g, h) \<in> set (exception_gates @ irq_gates)"
  shows "\<exists>e. load_gate i_entries g (tables_memory (idt_setup ep ptr i_entries t)) = gate_entry 0 (ep h) e"
proof -
  let ?x = "add_gates ep i_entries exception_gates (tables_memory t)"
  have g: "unat g < 48" using assms gates_below_64 by force
  then have u: "load_gate i_entries g (tables_memory (idt_setup ep ptr i_entries t))
    = load_gate i_entries g (add_gates ep i_entries irq_gates ?x)"
    unfolding idt_setup_memory by (auto simp: load_add_user_gate)
  show ?thesis
  proof (cases "(g, h) \<in> set irq_gates")
    case True
    show ?thesis unfolding u by (rule add_gates_load(2) [OF irq_gates_distinct True])
  next
    case False
    then have ex: "(g, h) \<in> set exception_gates" using assms by simp
    then have "g \<notin> fst ` set irq_gates" using gates_below_64 by force
    then have "load_gate i_entries g (add_gates ep i_entries irq_gates ?x) = load_gate i_entries g ?x"
      by (rule add_gates_load(1) [OF irq_gates_distinct])
    then show ?thesis
      unfolding u using add_gates_load(2) [OF exception_gates_distinct ex, of i_entries ep "tables_memory t"] by simp
  qed
qed

text \<open>Which cells are written: those of the two tables, and of the system call's gate.\<close>

lemma store_gate_cells:
  assumes "2 * unat gate + 1 < n"
  shows "writes_cells (cells_from entries n) m (store_gate entries gate e m)"
proof -
  have w: "word_of_nat (2 * unat gate) = (2 * ucast gate :: u64)" by (simp add: unsigned_ucast_eq of_nat_unat)
  have "entries + 8 * word_of_nat (2 * unat gate) \<in> cells_from entries n"
    "entries + 8 * word_of_nat (2 * unat gate + 1) \<in> cells_from entries n"
    by (rule cells_fromI, use assms in simp)+
  then have "entries + 16 * ucast gate \<in> cells_from entries n" "entries + 16 * ucast gate + 8 \<in> cells_from entries n"
    unfolding of_nat_add w by (simp_all add: algebra_simps)
  then show ?thesis
    unfolding store_gate_def by (intro writes_cells_trans [OF writes_cells_store writes_cells_store])
qed

lemma add_gates_cells:
  "\<forall>(g, h) \<in> set gs. 2 * unat g + 1 < n \<Longrightarrow> writes_cells (cells_from entries n) m (add_gates ep entries gs m)"
proof (induction gs arbitrary: m)
  case (Cons x gs)
  obtain g h where x: "x = (g, h)" by (cases x)
  let ?m = "idt_add_gate entries g (ep h) m"
  have "add_gates ep entries (x # gs) m = add_gates ep entries gs ?m" by (simp add: add_gates_def x)
  moreover have "writes_cells (cells_from entries n) m ?m"
    using Cons.prems x unfolding idt_add_gate_def by (intro store_gate_cells) auto
  moreover have "writes_cells (cells_from entries n) ?m (add_gates ep entries gs ?m)"
    using Cons.prems by (intro Cons.IH) simp
  ultimately show ?case using writes_cells_trans by simp
qed (simp add: add_gates_def)

lemma idt_setup_cells:
  "writes_cells (cells_from i_entries 258) (tables_memory t) (tables_memory (idt_setup ep ptr i_entries t))"
proof -
  have g: "\<forall>(g, h) \<in> set exception_gates. 2 * unat g + 1 < 258" "\<forall>(g, h) \<in> set irq_gates. 2 * unat g + 1 < 258"
    by (simp_all add: exception_gates_def irq_gates_def)
  show ?thesis
    unfolding idt_setup_memory idt_add_user_gate_def
    by (rule writes_cells_trans [OF writes_cells_trans [OF add_gates_cells [OF g(1)] add_gates_cells [OF g(2)]]
        store_gate_cells]) simp
qed

lemma gdt_setup_cells:
  "writes_cells (cells_from g_entries 7) (tables_memory t) (tables_memory (gdt_setup u g_entries t))"
proof -
  have "g_entries + 8 * word_of_nat k \<in> cells_from g_entries 7" if "k < 7" for k
    using that by (rule cells_fromI)
  from this [of 0] this [of 1] this [of 2] this [of 3] this [of 4] this [of 5] this [of 6]
  show ?thesis
    by (simp add: gdt_setup_def Let_def writes_cells_def del: One_nat_def)
qed

lemma stub_vector_gates: "stub_vector h = Some g \<longleftrightarrow> (g, h) \<in> set (exception_gates @ irq_gates)"
  by (cases h) (auto simp: exception_gates_def irq_gates_def)

text \<open>C27. After \<^verbatim>\<open>idt_setup\<close> every exception and every remapped interrupt reaches its own stub: each of
  the vectors 0 to 47 has one stub that pushes its number, and the gate of the vector is a present
  interrupt gate for the kernel code segment at privilege 0, the two halves of whose offset give back the
  entry point of that stub.\<close>

theorem idt_routes_vectors:
  "(\<forall>g < 48. \<exists>!h. stub_vector h = Some g)
   \<and> (\<forall>h g. stub_vector h = Some g \<longrightarrow> g < 48
        \<and> gate_handler (load_gate i_entries g (tables_memory (idt_setup ep ptr i_entries t))) = ep h
        \<and> interrupt_gate 0 (load_gate i_entries g (tables_memory (idt_setup ep ptr i_entries t))))"
proof (intro conjI allI impI)
  fix g :: u8 assume "g < 48"
  then have "unat g \<in> set [0..<48]" by (simp add: wordnat)
  then have "word_of_nat (unat g) \<in> (word_of_nat ` set [0..<48] :: u8 set)" by blast
  then have "g \<in> set (map word_of_nat [0..<48])" by simp
  also have "map word_of_nat [0..<48] = map fst (exception_gates @ irq_gates)"
    by (simp add: exception_gates_def irq_gates_def upt_rec)
  finally have "g \<in> fst ` set (exception_gates @ irq_gates)" by (simp add: image_Un)
  then obtain x where "g = fst x" "x \<in> set (exception_gates @ irq_gates)" by (rule imageE)
  then have h: "(g, snd x) \<in> set (exception_gates @ irq_gates)" by simp
  have "distinct (map fst (exception_gates @ irq_gates))" by (simp add: exception_gates_def irq_gates_def)
  then have "k = snd x" if "(g, k) \<in> set (exception_gates @ irq_gates)" for k
    using h that by (metis eq_key_imp_eq_value)
  then show "\<exists>!h. stub_vector h = Some g" using h unfolding stub_vector_gates by blast
next
  fix h g assume "stub_vector h = Some g"
  then have s: "(g, h) \<in> set (exception_gates @ irq_gates)" by (simp only: stub_vector_gates)
  then show "g < 48" using gates_below_64 by (fastforce simp: wordnat)
  show "gate_handler (load_gate i_entries g (tables_memory (idt_setup ep ptr i_entries t))) = ep h"
    "interrupt_gate 0 (load_gate i_entries g (tables_memory (idt_setup ep ptr i_entries t)))"
    using idt_setup_gates [OF s, of i_entries ep ptr t] by (auto simp: gate_handler_entry interrupt_gate_entry)
qed

theorem idt_routes_vectors_witness:
  "gate_handler (load_gate 0x9000 0x21 (tables_memory (idt_setup (\<lambda>h. if h = Irq1 then 0x40010020 else 0x40000000)
     0x8000 0x9000 \<lparr>tables_memory = \<lparr>placement = 0, mem = (\<lambda>_. 0), cr3 = 0, invlpgs = []\<rparr>,
       tables_trace = [], idtr = (0, 0), gdtr = (0, 0)\<rparr>))) = 0x40010020"
proof -
  have "stub_vector Irq1 = Some 0x21" by simp
  then show ?thesis
    using idt_routes_vectors [of "0x9000" "\<lambda>h. if h = Irq1 then 0x40010020 else 0x40000000" "0x8000"
        "\<lparr>tables_memory = \<lparr>placement = 0, mem = (\<lambda>_. 0), cr3 = 0, invlpgs = []\<rparr>,
          tables_trace = [], idtr = (0, 0), gdtr = (0, 0)\<rparr>"]
    by fastforce
qed

text \<open>The gate of the system call vector 0x80 is stored in the sixteen bytes that start 1024
  bytes after the end of the table of 64 entries, and the limit given to the processor ends
  before it: the vector cannot be used and foreign memory is overwritten.\<close>

theorem syscall_gate_outside_table:
  "gate_handler (load_gate i_entries 0x80 (tables_memory (idt_setup ep ptr i_entries t))) = ep Syscall_int
   \<and> interrupt_gate 3 (load_gate i_entries 0x80 (tables_memory (idt_setup ep ptr i_entries t)))
   \<and> unat (16 * ucast (0x80 :: u8) :: u64) = unat (sizeof_idt_entry * LONG_MODE_IDT_GATES) + 1024
   \<and> unat (fst (idtr (idt_setup ep ptr i_entries t))) < 16 * 0x80"
proof -
  have "take_bit 2 (3 :: u64) = 3" by simp
  then show ?thesis
    unfolding idt_setup_memory
    by (simp add: load_add_user_gate gate_handler_entry interrupt_gate_entry)
      (simp add: idt_setup_def Let_def sizeof_idt_entry_def LONG_MODE_IDT_GATES_def)
qed

subsection \<open>The segment descriptors\<close>

lemma code_entry_init: "code_entry dpl u = code_entry dpl 0"
proof (rule bit_word_eqI)
  fix n assume "n < LENGTH(64)"
  then show "bit (code_entry dpl u) n = bit (code_entry dpl 0) n"
    by (simp add: code_entry_def Let_def bit_set_field; linarith)
qed

lemma data_entry_init: "data_entry u = data_entry 0"
proof (rule bit_word_eqI)
  fix n assume "n < LENGTH(64)"
  then show "bit (data_entry u) n = bit (data_entry 0) n"
    by (simp add: data_entry_def Let_def bit_set_field; linarith)
qed

lemma descriptor_values:
  "code_entry 0 u = 0x0020980000000000" "code_entry 3 u = 0x0020f80000000000"
  "data_entry u = 0x0000920000000000"
proof -
  have "code_entry 0 0 = 0x0020980000000000" "code_entry 3 0 = 0x0020f80000000000"
    "data_entry 0 = 0x0000920000000000"
    by (simp_all add: code_entry_def data_entry_def set_field_def Let_def mask_eq_exp_minus_1)
  then show "code_entry 0 u = 0x0020980000000000" "code_entry 3 u = 0x0020f80000000000"
    "data_entry u = 0x0000920000000000"
    using code_entry_init [of 0 u] code_entry_init [of 3 u] data_entry_init [of u] by simp_all
qed

text \<open>The global descriptor table holds the 64-bit kernel and user code segments with
  privilege levels 0 and 3; the two data descriptors are the same word, so the one meant for
  user data has privilege level 0. The register gets the limit of the seven entries.\<close>

theorem gdt_setup_entries:
  "map (\<lambda>k. mem (tables_memory (gdt_setup u g_entries t)) (g_entries + 8 * k)) [0, 1, 2, 3, 4, 5, 6]
     = [0, 0x0020980000000000, 0x0000920000000000, 0x0020f80000000000, 0x0000920000000000, 0, 0]
   \<and> map (get_field 45 2) [0x0020980000000000, 0x0020f80000000000, 0x0000920000000000 :: u64] = [0, 3, 0]
   \<and> gdtr (gdt_setup u g_entries t) = (55, g_entries)"
  by (simp add: gdt_setup_def Let_def descriptor_values get_field_def
      sizeof_gdt_entry_def LONG_MODE_GDT_GATES_def)

definition tss_base :: "u64 \<Rightarrow> u64 \<Rightarrow> addr" where
  "tss_base w0 w1 = get_field 16 24 w0 OR push_bit 24 (get_field 56 8 w0) OR push_bit 32 (get_field 0 32 w1)"

lemma tss_fields:
  "get_field 16 24 (tss_low a w) = take_bit 24 a" "get_field 56 8 (tss_low a w) = take_bit 8 (drop_bit 24 a)"
  "get_field 0 32 (tss_high a w) = drop_bit 32 a" "get_field 40 4 (tss_low a w) = 9"
  "get_field 45 2 (tss_low a w) = 3" "get_field 47 1 (tss_low a w) = 1"
  "get_field 0 16 (tss_low a w) = 0xffff" "get_field 48 4 (tss_low a w) = 0xf"
proof -
  have m: "(0xffffff :: u64) = mask 24" "(0xff :: u64) = mask 8" by (simp_all add: mask_eq_exp_minus_1)
  have "take_bit 24 (a AND 0xffffff) = take_bit 24 a" "take_bit 8 (drop_bit 24 a AND 0xff) = take_bit 8 (drop_bit 24 a)"
    unfolding m by (rule bit_word_eqI, auto simp: bit_simps)+
  then show "get_field 16 24 (tss_low a w) = take_bit 24 a"
    "get_field 56 8 (tss_low a w) = take_bit 8 (drop_bit 24 a)"
    by (simp_all add: tss_low_def Let_def get_same_field get_other_field)
  have "take_bit 32 (drop_bit 32 a) = drop_bit 32 a"
    by (rule bit_word_eqI) (auto simp: bit_simps dest: bit_imp_le_length)
  then show "get_field 0 32 (tss_high a w) = drop_bit 32 a"
    by (simp add: tss_high_def Let_def get_same_field get_other_field)
qed (simp_all add: tss_low_def Let_def get_same_field get_other_field)

text \<open>C38. The base address in the task-state descriptor, split over three fields of two words,
  reads back as the address it was set to; the descriptor is a present 64-bit TSS of privilege
  level 3 whose limit, split over two fields, is the largest there is, and no other entry of the table
  changes.\<close>

theorem tss_gate_roundtrip:
  "tss_base (mem (tables_memory (tss_set_gate g_entries a t)) (g_entries + 40))
      (mem (tables_memory (tss_set_gate g_entries a t)) (g_entries + 48)) = a
   \<and> get_field 0 16 (mem (tables_memory (tss_set_gate g_entries a t)) (g_entries + 40)) = 0xffff
   \<and> get_field 48 4 (mem (tables_memory (tss_set_gate g_entries a t)) (g_entries + 40)) = 0xf
   \<and> get_field 40 4 (mem (tables_memory (tss_set_gate g_entries a t)) (g_entries + 40)) = 9
   \<and> get_field 45 2 (mem (tables_memory (tss_set_gate g_entries a t)) (g_entries + 40)) = 3
   \<and> get_field 47 1 (mem (tables_memory (tss_set_gate g_entries a t)) (g_entries + 40)) = 1
   \<and> map (\<lambda>k. mem (tables_memory (tss_set_gate g_entries a t)) (g_entries + 8 * k)) [0, 1, 2, 3, 4]
     = map (\<lambda>k. mem (tables_memory t) (g_entries + 8 * k)) [0, 1, 2, 3, 4]"
proof -
  have "take_bit 24 a OR push_bit 24 (take_bit 8 (drop_bit 24 a)) OR push_bit 32 (drop_bit 32 a) = a"
  proof (rule bit_word_eqI)
    fix n assume "n < LENGTH(64)"
    then show "bit (take_bit 24 a OR push_bit 24 (take_bit 8 (drop_bit 24 a)) OR push_bit 32 (drop_bit 32 a)) n
      = bit a n"
      by (cases "n < 24"; cases "n < 32") (auto simp: bit_simps)
  qed
  then show ?thesis
    unfolding tss_base_def by (simp add: tss_set_gate_def Let_def tss_fields del: One_nat_def)
qed

subsection \<open>The interrupt controllers\<close>

text \<open>An 8259 controller as its data sheet describes it: after the first initialisation word on
  the command port the next three bytes on the data port are the vector offset, the cascade
  word and the mode; later bytes on the data port are the interrupt mask.\<close>

record pic =
  awaiting :: nat
  pic_offset :: u8
  pic_cascade :: u8
  pic_mode :: u8
  pic_mask :: u8

definition pic_step :: "u16 \<Rightarrow> instruction \<Rightarrow> pic \<Rightarrow> pic" where
  "pic_step port i p =
     (case i of Outb q v \<Rightarrow>
        if q = port \<and> v AND 0x10 \<noteq> 0 then p\<lparr>awaiting := 3, pic_mask := 0\<rparr>
        else if q = port + 1
        then (if awaiting p = 3 then p\<lparr>pic_offset := v, awaiting := 2\<rparr>
              else if awaiting p = 2 then p\<lparr>pic_cascade := v, awaiting := 1\<rparr>
              else if awaiting p = 1 then p\<lparr>pic_mode := v, awaiting := 0\<rparr>
              else p\<lparr>pic_mask := v\<rparr>)
        else p
      | _ \<Rightarrow> p)"

definition pic_run :: "u16 \<Rightarrow> trace \<Rightarrow> pic \<Rightarrow> pic" where
  "pic_run port tr p = foldr (pic_step port) tr p"

text \<open>Whatever state the two controllers are in, the remapping leaves both initialised: the
  first delivers its eight interrupts at vectors 0x20 to 0x27 and expects the second on its line
  2, the second delivers at 0x28 to 0x2f with identity 2, both in 8086 mode with no interrupt
  masked.\<close>

theorem irq_remap_programs_controllers:
  "pic_run 0x20 (irq_remap tr) p
     = \<lparr>awaiting = 0, pic_offset = 0x20, pic_cascade = 0x04, pic_mode = 0x01, pic_mask = 0\<rparr>
   \<and> pic_run 0xA0 (irq_remap tr) q
     = \<lparr>awaiting = 0, pic_offset = 0x28, pic_cascade = 0x02, pic_mode = 0x01, pic_mask = 0\<rparr>"
  by (simp add: irq_remap_def instruction_defs Let_def pic_run_def pic_step_def)

end
