(* ===== verification/Early_Mapping.thy ===== *)
theory Early_Mapping
  imports Paging Strings
begin

text \<open>
  The early kernel mapping, \<^verbatim>\<open>arch/amd64/memory/pagetable.cpp\<close>: the boot code maps the
  first 8 MB with four page tables out of 512 contiguous ones, and
  \<^verbatim>\<open>map_kernel_memory\<close> fills the other 508. The layout it starts from is that of the
  data section of \<^verbatim>\<open>boot.S\<close> (predicate \<open>boot_tables\<close>); the theorem is what the rest of
  the kernel relies on: the gigabyte above \<open>KVIRTUAL_ADDRESS\<close> is mapped linearly.
\<close>

subsection \<open>Operation\<close>

definition fill_entry :: "addr \<Rightarrow> machine \<times> u64 \<Rightarrow> nat \<Rightarrow> machine \<times> u64" where
  "fill_entry pte s j =
     (case s of (m, paddr) \<Rightarrow>
        let m = store (pte + 8 * of_nat j) (paddr + KB 4) m;
            paddr = mem m (pte + 8 * of_nat j)
        in (m, paddr))"

definition fill_directory :: "addr \<Rightarrow> machine \<times> u64 \<Rightarrow> nat \<Rightarrow> machine \<times> u64" where
  "fill_directory pde_table s i =
     (case s of (m, paddr) \<Rightarrow>
        let m = store (pde_table + 8 * of_nat i) (mem m (pde_table + 8 * of_nat (i - 1)) + KB 4) m;
            pte = ADDRESS (mem m (pde_table + 8 * of_nat i))
        in foldl (fill_entry pte) (m, paddr) [0..<512])"

definition map_kernel_memory :: "machine \<Rightarrow> machine" where
  "map_kernel_memory m =
     (let pml4_table = ADDRESS (get_current_page m);
          pdpt_table = ADDRESS (mem m (pml4_table + 8 * 511));
          pde_table = ADDRESS (mem m (pdpt_table + 8 * 510));
          paddr = mem m (ADDRESS (mem m (pde_table + 8 * 3)) + 8 * 511)
      in fst (foldl (fill_directory pde_table) (m, paddr) [4..<512]))"

subsection \<open>The tables of the boot code\<close>

text \<open>T is the first of the 512 page tables; the tables above them are p4, p3 and p2. The first entries
  of p4 and p3, which the boot code used to reach the low addresses, are cleared before
  \<^verbatim>\<open>kmain\<close> is called.\<close>

definition page_table :: "addr \<Rightarrow> nat \<Rightarrow> addr" where
  "page_table T i = T + 4096 * of_nat i"

definition linear_entry :: "nat \<Rightarrow> u64" where
  "linear_entry n = 4096 * of_nat n + 7"

definition low_tables :: "nat \<Rightarrow> machine \<Rightarrow> addr \<Rightarrow> addr \<Rightarrow> bool" where
  "low_tables k m p2 T \<longleftrightarrow>
     (\<forall>i < k. mem m (p2 + 8 * of_nat i) = (page_table T i - KVIRTUAL_ADDRESS) OR 3)
     \<and> (\<forall>i < k. \<forall>j < 512. mem m (page_table T i + 8 * of_nat j) = linear_entry (512 * i + j))"

definition boot_tables :: "machine \<Rightarrow> addr \<Rightarrow> addr \<Rightarrow> addr \<Rightarrow> addr \<Rightarrow> bool" where
  "boot_tables m p4 p3 p2 T \<longleftrightarrow>
     IS_ALIGNED p4 \<and> IS_ALIGNED p3 \<and> IS_ALIGNED p2 \<and> IS_ALIGNED T
     \<and> unat T + 4096 * 512 < 18446744073709551616
     \<and> p4 \<noteq> p3 \<and> p4 \<noteq> p2 \<and> p3 \<noteq> p2
     \<and> (\<forall>i < 512. page_table T i \<notin> {p4, p3, p2})
     \<and> ADDRESS (cr3 m) = p4
     \<and> mem m (p4 + 8 * 511) = (p3 - KVIRTUAL_ADDRESS) OR 3
     \<and> mem m (p3 + 8 * 510) = (p2 - KVIRTUAL_ADDRESS) OR 3
     \<and> (\<forall>i < 511. mem m (p4 + 8 * of_nat i) = 0) \<and> (\<forall>i < 512. i \<noteq> 510 \<longrightarrow> mem m (p3 + 8 * of_nat i) = 0)
     \<and> low_tables 4 m p2 T"

lemma low_tablesD:
  assumes "low_tables k m p2 T" "i < k"
  shows "mem m (p2 + 8 * of_nat i) = (page_table T i - KVIRTUAL_ADDRESS) OR 3"
    and "j < 512 \<Longrightarrow> mem m (page_table T i + 8 * of_nat j) = linear_entry (512 * i + j)"
  using assms unfolding low_tables_def by blast+

lemma KB_4: "KB 4 = 4096"
  by (simp add: KB_def)

lemma unat_page_table:
  assumes "unat T + 4096 * 512 < 18446744073709551616" "i < 512"
  shows "unat (page_table T i) = unat T + 4096 * i"
proof -
  have "unat (of_nat i :: u64) = i" using assms(2) by (simp add: unat_of_nat take_bit_eq_mod)
  then have "unat (4096 * of_nat i :: u64) = 4096 * i" using assms(2) by (simp add: unat_word_ariths)
  then show ?thesis using assms unfolding page_table_def by (subst unat_add_nowrap) simp_all
qed

lemma page_table_aligned:
  "unat T + 4096 * 512 < 18446744073709551616 \<Longrightarrow> IS_ALIGNED T \<Longrightarrow> i < 512 \<Longrightarrow> IS_ALIGNED (page_table T i)"
  by (simp add: IS_ALIGNED_iff unat_page_table)

lemma page_table_inject:
  "unat T + 4096 * 512 < 18446744073709551616 \<Longrightarrow> i < 512 \<Longrightarrow> j < 512 \<Longrightarrow>
    page_table T i = page_table T j \<longleftrightarrow> i = j"
proof
  assume a: "unat T + 4096 * 512 < 18446744073709551616" "i < 512" "j < 512"
    and "page_table T i = page_table T j"
  then have "unat (page_table T i) = unat (page_table T j)" by (simp only:)
  then show "i = j" unfolding unat_page_table [OF a(1,2)] unat_page_table [OF a(1,3)] by simp
qed simp

lemma unat_index: "j < 512 \<Longrightarrow> unat (of_nat j :: u64) = j"
  by (simp add: unat_of_nat take_bit_eq_mod)

lemma of_nat_index: "i < 512 \<Longrightarrow> j < 512 \<Longrightarrow> (of_nat i :: u64) = of_nat j \<longleftrightarrow> i = j"
proof
  assume "i < 512" "j < 512" and "(of_nat i :: u64) = of_nat j"
  then have "unat (of_nat i :: u64) = unat (of_nat j :: u64)" by (simp only:)
  then show "i = j" unfolding unat_index [OF \<open>i < 512\<close>] unat_index [OF \<open>j < 512\<close>] .
qed simp

lemma fill_table:
  assumes "IS_ALIGNED t" "n \<le> 512"
  shows "snd (foldl (fill_entry t) (m, p) [0..<n]) = p + 4096 * of_nat n
    \<and> cr3 (fst (foldl (fill_entry t) (m, p) [0..<n])) = cr3 m
    \<and> (\<forall>j < n. mem (fst (foldl (fill_entry t) (m, p) [0..<n])) (t + 8 * of_nat j) = p + 4096 * of_nat (Suc j))
    \<and> (\<forall>u i. IS_ALIGNED u \<longrightarrow> u \<noteq> t \<longrightarrow> i < 512 \<longrightarrow>
        mem (fst (foldl (fill_entry t) (m, p) [0..<n])) (u + 8 * of_nat i) = mem m (u + 8 * of_nat i))"
  using assms(2)
proof (induction n)
  case (Suc n)
  obtain m' p' where s: "foldl (fill_entry t) (m, p) [0..<n] = (m', p')" by fastforce
  have IH: "p' = p + 4096 * of_nat n" "cr3 m' = cr3 m"
    "\<forall>j < n. mem m' (t + 8 * of_nat j) = p + 4096 * of_nat (Suc j)"
    "\<And>u i. IS_ALIGNED u \<Longrightarrow> u \<noteq> t \<Longrightarrow> i < 512 \<Longrightarrow> mem m' (u + 8 * of_nat i) = mem m (u + 8 * of_nat i)"
    using Suc s by simp_all
  have run: "foldl (fill_entry t) (m, p) [0..<Suc n]
    = (store (t + 8 * of_nat n) (p' + 4096) m', p' + 4096)"
    by (simp add: s fill_entry_def KB_4 Let_def)
  have inj: "u + 8 * of_nat i = t + 8 * of_nat n \<longleftrightarrow> u = t \<and> i = n" if "IS_ALIGNED u" "i < 512" for u i
    using entry_inject [OF that(1) assms(1), of "of_nat i" "of_nat n"] that(2) Suc.prems
    by (simp add: unat_index of_nat_index)
  have step: "p' + 4096 = p + 4096 * of_nat (Suc n)" unfolding IH(1) by (simp add: algebra_simps)
  have "mem (store (t + 8 * of_nat n) (p' + 4096) m') (t + 8 * of_nat j) = p + 4096 * of_nat (Suc j)"
    if "j < Suc n" for j
  proof (cases "j = n")
    case True
    then show ?thesis using step by simp
  next
    case False
    then have "mem m' (t + 8 * of_nat j) = p + 4096 * of_nat (Suc j)" using IH(3) that by simp
    then show ?thesis using False that Suc.prems inj [OF assms(1), of j] by simp
  qed
  moreover have "mem (store (t + 8 * of_nat n) (p' + 4096) m') (u + 8 * of_nat i) = mem m (u + 8 * of_nat i)"
    if "IS_ALIGNED u" "u \<noteq> t" "i < 512" for u i
    using IH(4) [OF that] inj [OF that(1,3)] that(2) by simp
  moreover have "cr3 (store (t + 8 * of_nat n) (p' + 4096) m') = cr3 m" using IH(2) by simp
  ultimately show ?case unfolding run fst_conv snd_conv using step by blast
qed simp

text \<open>One round of the outer loop extends the mapped tables by one.\<close>

definition mapped_tables :: "nat \<Rightarrow> machine \<times> u64 \<Rightarrow> addr \<Rightarrow> addr \<Rightarrow> addr \<Rightarrow> addr \<Rightarrow> bool" where
  "mapped_tables k s p4 p3 p2 T \<longleftrightarrow>
     boot_tables (fst s) p4 p3 p2 T \<and> low_tables k (fst s) p2 T
     \<and> snd s = linear_entry (512 * k - 1)"

lemma linear_entry_add: "linear_entry n + 4096 * of_nat k = linear_entry (n + k)"
  by (simp add: linear_entry_def algebra_simps)

lemma next_table:
  assumes "unat T + 4096 * 512 < 18446744073709551616" "IS_ALIGNED T" "Suc i < 512"
  shows "((page_table T i - KVIRTUAL_ADDRESS) OR 3) + 4096 = (page_table T (Suc i) - KVIRTUAL_ADDRESS) OR 3"
proof -
  have or3: "x OR 3 = x + 3" if "x AND 3 = 0" for x :: u64
    using disjunctive_add_eq_or [of x 3] that by simp
  have al: "(t - KVIRTUAL_ADDRESS) AND 3 = 0" if "IS_ALIGNED t" for t
  proof -
    have "ALIGN_DOWN (t - KVIRTUAL_ADDRESS) = t - KVIRTUAL_ADDRESS"
      using that by (simp add: KVIRTUAL_aligned ALIGN_DOWN_ident)
    then have e: "(t - KVIRTUAL_ADDRESS) AND - 4096 = t - KVIRTUAL_ADDRESS" by (simp add: ALIGN_DOWN_def)
    have "((t - KVIRTUAL_ADDRESS) AND - 4096) AND 3 = 0" by (simp add: and.assoc)
    then show ?thesis unfolding e .
  qed
  have "IS_ALIGNED (page_table T i)" "IS_ALIGNED (page_table T (Suc i))"
    using assms by (simp_all add: page_table_aligned)
  then show ?thesis
    by (simp add: or3 al) (simp add: page_table_def algebra_simps)
qed

text \<open>The round writes the next entry of the directory, then the page table it points to.\<close>

lemma fill_directory_run:
  assumes "mapped_tables k s p4 p3 p2 T" "4 \<le> k" "k < 512"
  shows "fill_directory p2 s k = foldl (fill_entry (page_table T k))
    (store (p2 + 8 * of_nat k) ((page_table T k - KVIRTUAL_ADDRESS) OR 3) (fst s), snd s) [0..<512]"
proof -
  obtain m p where s: "s = (m, p)" by fastforce
  have room: "unat T + 4096 * 512 < 18446744073709551616" and al: "IS_ALIGNED T" and low: "low_tables k m p2 T"
    using assms(1) by (auto simp: mapped_tables_def boot_tables_def s)
  have "mem m (p2 + 8 * of_nat (k - 1)) = (page_table T (k - 1) - KVIRTUAL_ADDRESS) OR 3"
    by (rule low_tablesD(1) [OF low]) (use assms(2) in simp)
  moreover have "((page_table T (k - 1) - KVIRTUAL_ADDRESS) OR 3) + 4096 = (page_table T k - KVIRTUAL_ADDRESS) OR 3"
    using next_table [OF room al, of "k - 1"] assms(2,3) by simp
  ultimately have e: "mem m (p2 + 8 * of_nat (k - 1)) + KB 4 = (page_table T k - KVIRTUAL_ADDRESS) OR 3"
    by (simp only: KB_4)
  show ?thesis
    unfolding s fill_directory_def prod.case Let_def e
    using ADDRESS_table(1) [OF page_table_aligned [OF room al assms(3)] dir_flag_3_7(1)] by simp
qed

text \<open>What it does to an entry of any page-aligned table.\<close>

lemma fill_directory_entries:
  assumes "mapped_tables k s p4 p3 p2 T" "4 \<le> k" "k < 512"
  shows "snd (fill_directory p2 s k) = snd s + 4096 * of_nat 512"
    and "cr3 (fst (fill_directory p2 s k)) = cr3 (fst s)"
    and "j < 512 \<Longrightarrow> mem (fst (fill_directory p2 s k)) (page_table T k + 8 * of_nat j) = snd s + 4096 * of_nat (Suc j)"
    and "IS_ALIGNED u \<Longrightarrow> u \<noteq> page_table T k \<Longrightarrow> i < 512 \<Longrightarrow>
      mem (fst (fill_directory p2 s k)) (u + 8 * of_nat i)
        = (if u = p2 \<and> i = k then (page_table T k - KVIRTUAL_ADDRESS) OR 3 else mem (fst s) (u + 8 * of_nat i))"
proof -
  have room: "unat T + 4096 * 512 < 18446744073709551616" and al: "IS_ALIGNED p2" "IS_ALIGNED T"
    using assms(1) by (auto simp: mapped_tables_def boot_tables_def)
  note FT = fill_table [OF page_table_aligned [OF room al(2) assms(3)] order.refl,
    of "store (p2 + 8 * of_nat k) ((page_table T k - KVIRTUAL_ADDRESS) OR 3) (fst s)" "snd s"]
  show "snd (fill_directory p2 s k) = snd s + 4096 * of_nat 512"
    "cr3 (fst (fill_directory p2 s k)) = cr3 (fst s)"
    "j < 512 \<Longrightarrow> mem (fst (fill_directory p2 s k)) (page_table T k + 8 * of_nat j) = snd s + 4096 * of_nat (Suc j)"
    unfolding fill_directory_run [OF assms] using FT by (blast, simp only: store_simps, blast)
  show "mem (fst (fill_directory p2 s k)) (u + 8 * of_nat i)
      = (if u = p2 \<and> i = k then (page_table T k - KVIRTUAL_ADDRESS) OR 3 else mem (fst s) (u + 8 * of_nat i))"
    if "IS_ALIGNED u" "u \<noteq> page_table T k" "i < 512"
    unfolding fill_directory_run [OF assms]
    using FT that entry_inject [OF that(1) al(1), of "of_nat i" "of_nat k"] assms(3)
    by (simp add: unat_index of_nat_index)
qed

lemma fill_directory_low:
  assumes "mapped_tables k s p4 p3 p2 T" "4 \<le> k" "k < 512"
  shows "low_tables (Suc k) (fst (fill_directory p2 s k)) p2 T"
proof -
  have al: "IS_ALIGNED p2" "IS_ALIGNED T" and room: "unat T + 4096 * 512 < 18446744073709551616"
    and off: "\<And>i. i < 512 \<Longrightarrow> page_table T i \<noteq> p2" and low: "low_tables k (fst s) p2 T"
    and p: "snd s = linear_entry (512 * k - 1)"
    using assms(1) by (auto simp: mapped_tables_def boot_tables_def)
  note E = fill_directory_entries [OF assms]
  have "mem (fst (fill_directory p2 s k)) (p2 + 8 * of_nat i) = (page_table T i - KVIRTUAL_ADDRESS) OR 3"
    if "i < Suc k" for i
    using E(4) [OF al(1), of i] off [OF assms(3)] low_tablesD(1) [OF low, of i] that assms(3)
    by (cases "i = k") auto
  moreover have "mem (fst (fill_directory p2 s k)) (page_table T i + 8 * of_nat j) = linear_entry (512 * i + j)"
    if "i < Suc k" "j < 512" for i j
  proof (cases "i = k")
    case True
    then show ?thesis
      using E(3) [OF that(2)] assms(2) unfolding p linear_entry_add by simp
  next
    case False
    then have i: "i < k" "i < 512" using that(1) assms(3) by simp_all
    then show ?thesis
      using E(4) [OF page_table_aligned [OF room al(2)], of i j] page_table_inject [OF room, of i k]
        off [of i] low_tablesD(2) [OF low, of i j] that(2) assms(3) by simp
  qed
  ultimately show ?thesis unfolding low_tables_def by blast
qed

lemma fill_directory_step:
  assumes "mapped_tables k s p4 p3 p2 T" "4 \<le> k" "k < 512"
  shows "mapped_tables (Suc k) (fill_directory p2 s k) p4 p3 p2 T
    \<and> cr3 (fst (fill_directory p2 s k)) = cr3 (fst s)"
proof -
  note B = assms(1) [unfolded mapped_tables_def boot_tables_def]
  note E = fill_directory_entries [OF assms]
  have al: "IS_ALIGNED p4" "IS_ALIGNED p3" "IS_ALIGNED p2" "IS_ALIGNED T"
    and ne: "p4 \<noteq> p2" "p3 \<noteq> p2" and off: "page_table T k \<notin> {p4, p3, p2}"
    and p: "snd s = linear_entry (512 * k - 1)"
    using B assms(3) by auto
  have low: "low_tables (Suc k) (fst (fill_directory p2 s k)) p2 T"
    using assms by (rule fill_directory_low)
  moreover from this have "low_tables 4 (fst (fill_directory p2 s k)) p2 T"
    using assms(2) by (auto simp: low_tables_def)
  moreover have "mem (fst (fill_directory p2 s k)) (p4 + 8 * of_nat i) = mem (fst s) (p4 + 8 * of_nat i)"
    "mem (fst (fill_directory p2 s k)) (p3 + 8 * of_nat i) = mem (fst s) (p3 + 8 * of_nat i)" if "i < 512" for i
    using E(4) [OF al(1) _ that] E(4) [OF al(2) _ that] ne off by auto
  note this [of 511] this [of 510] this
  moreover have "snd (fill_directory p2 s k) = linear_entry (512 * Suc k - 1)"
    using E(1) assms(2) unfolding p linear_entry_add by simp
  ultimately show ?thesis
    using B E(2) unfolding mapped_tables_def boot_tables_def by simp
qed

lemma fill_directories:
  assumes "mapped_tables 4 s p4 p3 p2 T" "k \<le> 508"
  shows "mapped_tables (k + 4) (foldl (fill_directory p2) s [4..<k + 4]) p4 p3 p2 T
    \<and> cr3 (fst (foldl (fill_directory p2) s [4..<k + 4])) = cr3 (fst s)"
  using assms(2)
proof (induction k)
  case 0
  then show ?case using assms(1) by simp
next
  case (Suc k)
  have upt: "[4..<Suc k + 4] = [4..<k + 4] @ [k + 4]"
    using upt_Suc_append [of 4 "k + 4"] by (simp only: add_Suc)
  show ?case
    unfolding upt foldl_append foldl_Cons foldl_Nil
    using Suc fill_directory_step [of "k + 4" "foldl (fill_directory p2) s [4..<k + 4]" p4 p3 p2 T]
    by (simp add: Suc_le_eq)
qed

lemma map_kernel_memory_run:
  assumes "boot_tables m p4 p3 p2 T"
  shows "mapped_tables 4 (m, linear_entry (512 * 4 - 1)) p4 p3 p2 T"
    and "map_kernel_memory m = fst (foldl (fill_directory p2) (m, linear_entry (512 * 4 - 1)) [4..<508 + 4])"
proof -
  note B = assms [unfolded boot_tables_def]
  have p3: "ADDRESS (mem m (p4 + 8 * 511)) = p3" and p2: "ADDRESS (mem m (p3 + 8 * 510)) = p2"
    using B ADDRESS_table(1) [of p3 3] ADDRESS_table(1) [of p2 3] by simp_all
  have "IS_ALIGNED (page_table T 3)" using B by (intro page_table_aligned) simp_all
  then have t: "ADDRESS (mem m (p2 + 8 * 3)) = page_table T 3"
    using B ADDRESS_table(1) [of "page_table T 3" 3] low_tablesD(1) [of 4 m p2 T 3] by simp
  have paddr: "mem m (page_table T 3 + 8 * 511) = linear_entry (512 * 4 - 1)"
    using B low_tablesD(2) [of 4 m p2 T 3 511] by simp
  show "mapped_tables 4 (m, linear_entry (512 * 4 - 1)) p4 p3 p2 T"
    using assms B by (simp add: mapped_tables_def)
  show "map_kernel_memory m = fst (foldl (fill_directory p2) (m, linear_entry (512 * 4 - 1)) [4..<508 + 4])"
    using B p3 p2 t paddr by (simp add: map_kernel_memory_def Let_def get_current_page_def)
qed

lemma map_kernel_memory_tables:
  assumes "boot_tables m p4 p3 p2 T"
  shows "boot_tables (map_kernel_memory m) p4 p3 p2 T \<and> low_tables 512 (map_kernel_memory m) p2 T
    \<and> cr3 (map_kernel_memory m) = cr3 m"
  using fill_directories [OF map_kernel_memory_run(1) [OF assms], of 508] map_kernel_memory_run(2) [OF assms]
  by (simp add: mapped_tables_def)

text \<open>The cells of the directory and of the 512 page tables are the only ones written.\<close>

lemma fill_entries_cells:
  "\<forall>j \<in> set js. t + 8 * of_nat j \<in> C \<Longrightarrow> writes_cells C (fst s) (fst (foldl (fill_entry t) s js))"
proof (induction js arbitrary: s)
  case (Cons j js)
  have "writes_cells C (fst s) (fst (fill_entry t s j))"
    using Cons.prems by (auto simp: fill_entry_def Let_def split_def intro: writes_cells_store)
  moreover have "writes_cells C (fst (fill_entry t s j)) (fst (foldl (fill_entry t) (fill_entry t s j) js))"
    using Cons by simp
  ultimately show ?case using writes_cells_trans by simp
qed simp

lemma page_table_cells: "i < 512 \<Longrightarrow> j < 512 \<Longrightarrow> page_table T i + 8 * of_nat j \<in> cells_from T (512 * 512)"
  unfolding cells_from_def page_table_def
  by (intro image_eqI [where x = "512 * i + j"]) (simp_all add: algebra_simps)

lemma fill_directory_cells:
  assumes "mapped_tables k s p4 p3 p2 T" "4 \<le> k" "k < 512"
  shows "writes_cells (cells_from p2 512 \<union> cells_from T (512 * 512)) (fst s) (fst (fill_directory p2 s k))"
proof -
  let ?C = "cells_from p2 512 \<union> cells_from T (512 * 512)"
  let ?m = "store (p2 + 8 * of_nat k) ((page_table T k - KVIRTUAL_ADDRESS) OR 3) (fst s)"
  have "p2 + 8 * of_nat k \<in> ?C" using assms(3) by (simp add: cells_from_def)
  then have "writes_cells ?C (fst s) ?m" by (rule writes_cells_store)
  moreover have "writes_cells ?C ?m (fst (fill_directory p2 s k))"
    unfolding fill_directory_run [OF assms]
    using fill_entries_cells [of "[0..<512]" "page_table T k" ?C "(?m, snd s)"] page_table_cells [OF assms(3)] by auto
  ultimately show ?thesis by (rule writes_cells_trans)
qed

lemma fill_directories_cells:
  assumes "mapped_tables 4 s p4 p3 p2 T" "k \<le> 508"
  shows "writes_cells (cells_from p2 512 \<union> cells_from T (512 * 512)) (fst s)
    (fst (foldl (fill_directory p2) s [4..<k + 4]))"
  using assms(2)
proof (induction k)
  case (Suc k)
  have upt: "[4..<Suc k + 4] = [4..<k + 4] @ [k + 4]"
    using upt_Suc_append [of 4 "k + 4"] by (simp only: add_Suc)
  have "mapped_tables (k + 4) (foldl (fill_directory p2) s [4..<k + 4]) p4 p3 p2 T"
    using fill_directories [OF assms(1), of k] Suc.prems by simp
  then show ?case
    using Suc fill_directory_cells [of "k + 4" "foldl (fill_directory p2) s [4..<k + 4]" p4 p3 p2 T]
    unfolding upt foldl_append foldl_Cons foldl_Nil by (auto elim: writes_cells_trans)
qed simp

lemma map_kernel_memory_cells:
  assumes "boot_tables m p4 p3 p2 T"
  shows "writes_cells (cells_from p2 512 \<union> cells_from T (512 * 512)) m (map_kernel_memory m)"
  using fill_directories_cells [of "(m, linear_entry (512 * 4 - 1))" p4 p3 p2 T 508] map_kernel_memory_run [OF assms]
  by simp

subsection \<open>The linear gigabyte\<close>

lemma unat_index_field: "unat (drop_bit k v AND 0x1ff :: u64) = unat v div 2 ^ k mod 512"
proof -
  have "(0x1ff :: u64) = mask 9" by (simp add: mask_eq_exp_minus_1)
  then have "drop_bit k v AND 0x1ff = take_bit 9 (drop_bit k v)" by (simp add: take_bit_eq_mask)
  then show ?thesis
    by (simp add: unsigned_take_bit_eq unat_drop_bit_eq) (simp add: take_bit_eq_mod drop_bit_eq_div)
qed

lemma kernel_page_index:
  assumes "unat v = 18446744071562067968 + w" "w < 1073741824"
  shows "page_index v = [511, 510, of_nat (w div 2097152), of_nat (w div 4096 mod 512)]"
proof -
  have "PML4 v = 511" "PDPT v = 510"
  proof -
    have "unat v div 2 ^ 39 = 33554431" using assms by (intro div_nat_eqI) simp_all
    then have "unat (PML4 v) = unat (511 :: u64)" unfolding PML4_def unat_index_field by simp
    then show "PML4 v = 511" by (simp only: word_unat_eq_iff)
    have "unat v div 2 ^ 30 = 17179869182" using assms by (intro div_nat_eqI) simp_all
    then have "unat (PDPT v) = unat (510 :: u64)" unfolding PDPT_def unat_index_field by simp
    then show "PDPT v = 510" by (simp only: word_unat_eq_iff)
  qed
  moreover have "PDE v = of_nat (w div 2097152)"
  proof -
    have "unat v = w + 8796093021184 * 2097152" using assms by simp
    then have "unat v div 2 ^ 21 = w div 2097152 + 8796093021184" by simp
    moreover have "w div 2097152 < 512" using assms(2) by (simp add: div_less_iff_less_mult)
    moreover have "8796093021184 = 17179869182 * (512 :: nat)" by simp
    ultimately have "unat (PDE v) = w div 2097152"
      unfolding PDE_def unat_index_field by (metis mod_less mod_mult_self1 mult.commute)
    then show ?thesis by (metis of_nat_unat ucast_id)
  qed
  moreover have "PTE v = of_nat (w div 4096 mod 512)"
  proof -
    have "unat v = w + 4503599626846208 * 4096" using assms by simp
    then have "unat v div 2 ^ 12 = w div 4096 + 8796093021184 * 512" by simp
    then have "unat (PTE v) = w div 4096 mod 512"
      unfolding PTE_def unat_index_field by (metis mod_mult_self1 mult.commute)
    then show ?thesis by (metis of_nat_unat ucast_id)
  qed
  ultimately show ?thesis by (simp add: page_index_def)
qed

lemma linear_entry_present: "PRESENT (linear_entry n)"
  by (simp add: PRESENT_iff linear_entry_def)

definition fully_mapped :: "machine \<Rightarrow> addr \<Rightarrow> addr \<Rightarrow> addr \<Rightarrow> addr \<Rightarrow> bool" where
  "fully_mapped m p4 p3 p2 T \<longleftrightarrow> boot_tables m p4 p3 p2 T \<and> low_tables 512 m p2 T"

lemma fully_mapped_translate:
  assumes "fully_mapped m p4 p3 p2 T" and "KVIRTUAL_ADDRESS \<le> v" "v - KVIRTUAL_ADDRESS < 0x40000000"
  shows "translate m (cr3 m) v = Some (ALIGN_DOWN (kvirt_to_physical v) + 7)"
proof -
  let ?w = "unat (v - KVIRTUAL_ADDRESS)"
  let ?i = "?w div 2097152" and ?j = "?w div 4096 mod 512"
  have v: "unat v = 18446744071562067968 + ?w" "?w < 1073741824"
    using assms(2,3) by (simp_all add: wordnat unat_sub_nowrap KVIRTUAL_ADDRESS_def)
  have i: "?i < 512" using v(2) by (simp add: div_less_iff_less_mult)
  note B = assms(1) [unfolded fully_mapped_def, THEN conjunct1, unfolded boot_tables_def]
    and L = assms(1) [unfolded fully_mapped_def, THEN conjunct2]
  have al: "IS_ALIGNED p3" "IS_ALIGNED p2" "IS_ALIGNED (page_table T ?i)"
    using B i page_table_aligned [of T ?i] by simp_all
  have e4: "mem m (p4 + 8 * 511) = (p3 - KVIRTUAL_ADDRESS) OR 3"
    and e3: "mem m (p3 + 8 * 510) = (p2 - KVIRTUAL_ADDRESS) OR 3" and p4: "ADDRESS (cr3 m) = p4"
    using B by simp_all
  have e2: "mem m (p2 + 8 * of_nat ?i) = (page_table T ?i - KVIRTUAL_ADDRESS) OR 3"
    by (rule low_tablesD(1) [OF L i])
  have e1: "mem m (page_table T ?i + 8 * of_nat ?j) = linear_entry (512 * ?i + ?j)"
    by (rule low_tablesD(2) [OF L i]) simp
  have "translate m (cr3 m) v = Some (linear_entry (512 * ?i + ?j))"
    unfolding translate_def kernel_page_index [OF v] p4 walk_simps
    by (simp only: e4 e3 e2 e1 ADDRESS_table [OF al(1) dir_flag_3_7(1)]
        ADDRESS_table [OF al(2) dir_flag_3_7(1)] ADDRESS_table [OF al(3) dir_flag_3_7(1)]
        linear_entry_present if_True)
  moreover have "512 * ?i + ?j = ?w div 4096"
    using div_mult2_eq [of ?w 4096 512] mult_div_mod_eq [of 512 "?w div 4096"] by simp
  moreover have "linear_entry (?w div 4096) = ALIGN_DOWN (kvirt_to_physical v) + 7"
  proof -
    have "unat (ALIGN_DOWN (v - KVIRTUAL_ADDRESS)) = 4096 * (?w div 4096)"
      by (simp only: unat_ALIGN_DOWN minus_mod_eq_mult_div)
    then have "ALIGN_DOWN (v - KVIRTUAL_ADDRESS) = of_nat (4096 * (?w div 4096))"
      by (metis of_nat_unat ucast_id)
    then show ?thesis by (simp add: linear_entry_def kvirt_to_physical_def)
  qed
  ultimately show ?thesis by (simp only:)
qed

text \<open>C28. Starting from the tables of the boot code, \<^verbatim>\<open>map_kernel_memory\<close> maps the whole
  gigabyte from \<open>KVIRTUAL_ADDRESS\<close> linearly: every address in it is translated to the physical
  page that lies \<open>KVIRTUAL_ADDRESS\<close> lower, present, writable and with the user bit set in the
  last level.\<close>

theorem kernel_gigabyte_linear:
  assumes "boot_tables m p4 p3 p2 T" and "KVIRTUAL_ADDRESS \<le> v" "v - KVIRTUAL_ADDRESS < 0x40000000"
  shows "translate (map_kernel_memory m) (cr3 m) v = Some (ALIGN_DOWN (kvirt_to_physical v) + 7)"
  using fully_mapped_translate [of "map_kernel_memory m" p4 p3 p2 T v] map_kernel_memory_tables [OF assms(1)] assms(2,3)
  by (simp add: fully_mapped_def)

subsection \<open>What the tables depend on\<close>

definition table_bytes :: "addr \<Rightarrow> addr \<Rightarrow> addr \<Rightarrow> addr \<Rightarrow> nat set" where
  "table_bytes p4 p3 p2 T = bytes_of p4 4096 \<union> bytes_of p3 4096 \<union> bytes_of p2 4096 \<union> bytes_of T 2097152"

text \<open>A cell of a page-aligned range whose bytes are kept is kept.\<close>

lemma aligned_cell_kept:
  assumes "same_bytes (\<lambda>x. unat x \<in> R) m m'" "IS_ALIGNED a" "bytes_of a (8 * n) \<subseteq> R"
    "unat a + 8 * n \<le> 18446744073709551616" "k < n"
  shows "mem m' (a + 8 * of_nat k) = mem m (a + 8 * of_nat k)"
proof -
  let ?c = "a + 8 * of_nat k"
  have "unat (a + word_of_nat (8 * k)) = unat a + 8 * k" using assms(4,5) by (intro unat_add_small) simp
  then have c: "unat ?c = unat a + 8 * k" by simp
  have "8 dvd unat a" using assms(2) dvd_trans [of "8 :: nat" 4096] by (simp add: IS_ALIGNED_iff_dvd)
  then have "8 dvd unat ?c" unfolding c by simp
  then have "?c = cell_of ?c" using unat_cell_of [of ?c] by (simp add: word_unat_eq_iff)
  then show ?thesis
  proof (rule mem_from_bytes)
    fix i :: nat assume i: "i < 8"
    have "unat (?c + word_of_nat i) = unat ?c + i" using i c assms(4,5) by (intro unat_add_small) simp
    then have "unat (?c + word_of_nat i) \<in> bytes_of a (8 * n)" using i c assms(5) by (simp add: bytes_of_def)
    then show "byte_at m' (?c + word_of_nat i) = byte_at m (?c + word_of_nat i)"
      using assms(1,3) unfolding same_bytes_def by blast
  qed
qed

lemma IS_ALIGNED_room: "IS_ALIGNED a \<Longrightarrow> unat a + 4096 \<le> 18446744073709551616"
proof -
  assume "IS_ALIGNED a"
  then obtain k where k: "unat a = 4096 * k" by (auto simp: IS_ALIGNED_iff_dvd)
  then show ?thesis using u64_bound [of a] by simp
qed

lemma low_tables_kept:
  assumes "same_bytes (\<lambda>x. unat x \<in> R) m m'" "table_bytes p4 p3 p2 T \<subseteq> R" "IS_ALIGNED p2" "IS_ALIGNED T"
    "unat T + 4096 * 512 < 18446744073709551616" "n \<le> 512"
  shows "low_tables n m' p2 T = low_tables n m p2 T"
proof -
  have p2: "mem m' (p2 + 8 * of_nat i) = mem m (p2 + 8 * of_nat i)" if "i < n" for i
    using that assms(2,6) IS_ALIGNED_room [OF assms(3)]
    by (intro aligned_cell_kept [OF assms(1,3), of 512]) (auto simp: table_bytes_def)
  have "mem m' (T + 8 * of_nat k) = mem m (T + 8 * of_nat k)" if "k < 262144" for k
    using that assms(2,5) by (intro aligned_cell_kept [OF assms(1,4), of 262144]) (auto simp: table_bytes_def)
  from this [of "512 * i + j" for i j] have "mem m' (page_table T i + 8 * of_nat j) = mem m (page_table T i + 8 * of_nat j)"
    if "i < n" "j < 512" for i j
    using that assms(6) by (simp add: page_table_def algebra_simps)
  with p2 show ?thesis by (simp add: low_tables_def)
qed

lemma boot_tables_kept:
  assumes "same_bytes (\<lambda>x. unat x \<in> R) m m'" "cr3 m' = cr3 m" "table_bytes p4 p3 p2 T \<subseteq> R"
    "boot_tables m p4 p3 p2 T"
  shows "boot_tables m' p4 p3 p2 T"
proof -
  note B = assms(4) [unfolded boot_tables_def]
  have al: "IS_ALIGNED p4" "IS_ALIGNED p3" "IS_ALIGNED p2" "IS_ALIGNED T"
    and room: "unat T + 4096 * 512 < 18446744073709551616" using B by simp_all
  have p4: "mem m' (p4 + 8 * of_nat i) = mem m (p4 + 8 * of_nat i)" if "i < 512" for i
    by (rule aligned_cell_kept [OF assms(1) al(1) _ _ that])
      (use assms(3) IS_ALIGNED_room [OF al(1)] in \<open>auto simp: table_bytes_def\<close>)
  have p3: "mem m' (p3 + 8 * of_nat i) = mem m (p3 + 8 * of_nat i)" if "i < 512" for i
    by (rule aligned_cell_kept [OF assms(1) al(2) _ _ that])
      (use assms(3) IS_ALIGNED_room [OF al(2)] in \<open>auto simp: table_bytes_def\<close>)
  note p4 [of 511] p3 [of 510]
  moreover have "low_tables 4 m' p2 T = low_tables 4 m p2 T"
    by (rule low_tables_kept [OF assms(1,3) al(3,4) room]) simp
  ultimately show ?thesis using B assms(2) p4 p3 unfolding boot_tables_def by simp
qed

lemma fully_mapped_kept:
  assumes "same_bytes (\<lambda>x. unat x \<in> R) m m'" "cr3 m' = cr3 m" "table_bytes p4 p3 p2 T \<subseteq> R"
    "fully_mapped m p4 p3 p2 T"
  shows "fully_mapped m' p4 p3 p2 T"
proof -
  note F = assms(4) [unfolded fully_mapped_def]
  have "IS_ALIGNED p2" "IS_ALIGNED T" "unat T + 4096 * 512 < 18446744073709551616"
    using F by (simp_all add: boot_tables_def)
  then show ?thesis
    using low_tables_kept [OF assms(1,3)] boot_tables_kept [OF assms(1-3)] F by (simp add: fully_mapped_def)
qed

text \<open>Tables as the boot code leaves them, from the page at KVIRTUAL_ADDRESS + 0x1000 on.\<close>

abbreviation "B4 \<equiv> 0xffffffff80001000 :: addr"
abbreviation "B3 \<equiv> 0xffffffff80002000 :: addr"
abbreviation "B2 \<equiv> 0xffffffff80003000 :: addr"
abbreviation "B1 \<equiv> 0xffffffff80004000 :: addr"

definition boot_entry :: "addr \<Rightarrow> u64 \<Rightarrow> u64" where
  "boot_entry t i =
     (if t = B4 \<and> i = 511 then 0x2003 else if t = B3 \<and> i = 510 then 0x3003
      else if t = B2 \<and> unat i < 4 then (page_table B1 (unat i) - KVIRTUAL_ADDRESS) OR 3
      else if B1 \<le> t \<and> unat (t - B1) < 4 * 4096
      then linear_entry (512 * (unat (t - B1) div 4096) + unat i) else 0)"

definition boot_paging :: machine where
  "boot_paging = \<lparr>placement = 0xffffffff80400000, mem = paged boot_entry, cr3 = 0x1000, invlpgs = []\<rparr>"

lemma boot_paging_tables: "boot_tables boot_paging B4 B3 B2 B1"
proof -
  have al: "IS_ALIGNED B4" "IS_ALIGNED B3" "IS_ALIGNED B2" "IS_ALIGNED B1"
    by (simp_all add: IS_ALIGNED_def)
  have room: "unat B1 + 4096 * 512 < 18446744073709551616" by simp
  have u: "unat (page_table B1 i) = 18446744071562084352 + 4096 * i" if "i < 512" for i
    using unat_page_table [OF room that] by simp
  have ne: "page_table B1 i \<noteq> B4" "page_table B1 i \<noteq> B3" "page_table B1 i \<noteq> B2" if "i < 512" for i
    using u [OF that] by auto
  have "low_tables 4 boot_paging B2 B1"
    unfolding low_tables_def
  proof (intro conjI allI impI)
    fix i :: nat assume i: "i < 4"
    then have n: "unat (of_nat i :: u64) = i" by (intro unat_index) simp
    have "mem boot_paging (B2 + 8 * of_nat i) = boot_entry B2 (of_nat i)"
      unfolding boot_paging_def by (simp, rule paged_entry [OF al(3)]) (use n i in simp)
    then show "mem boot_paging (B2 + 8 * of_nat i) = (page_table B1 i - KVIRTUAL_ADDRESS) OR 3"
      using n i by (simp add: boot_entry_def)
    fix j :: nat assume j: "j < 512"
    then have nj: "unat (of_nat j :: u64) = j" by (rule unat_index)
    have i': "i < 512" using i by simp
    have "mem boot_paging (page_table B1 i + 8 * of_nat j) = boot_entry (page_table B1 i) (of_nat j)"
      unfolding boot_paging_def
      by (simp, rule paged_entry [OF page_table_aligned [OF room al(4) i']]) (use nj j in simp)
    moreover have "B1 \<le> page_table B1 i" using u [OF i'] by (simp add: wordnat)
    moreover from this have "unat (page_table B1 i - B1) = 4096 * i"
      using u [OF i'] by (simp add: unat_sub_nowrap)
    ultimately show "mem boot_paging (page_table B1 i + 8 * of_nat j) = linear_entry (512 * i + j)"
      using ne [OF i'] nj i by (simp add: boot_entry_def)
  qed
  moreover have "mem boot_paging (B4 + 8 * 511) = (B3 - KVIRTUAL_ADDRESS) OR 3"
    "mem boot_paging (B3 + 8 * 510) = (B2 - KVIRTUAL_ADDRESS) OR 3"
    using paged_entry [OF al(1), of 511 boot_entry] paged_entry [OF al(2), of 510 boot_entry]
    by (simp_all add: boot_paging_def boot_entry_def KVIRTUAL_ADDRESS_def)
  moreover have "mem boot_paging (B4 + 8 * of_nat i) = 0" if "i < 511" for i
    using paged_entry [OF al(1), of "of_nat i" boot_entry] that unat_index [of i] of_nat_index [of i 511]
    by (simp add: boot_paging_def boot_entry_def)
  moreover have "mem boot_paging (B3 + 8 * of_nat i) = 0" if "i < 512" "i \<noteq> 510" for i
    using paged_entry [OF al(2), of "of_nat i" boot_entry] that unat_index [of i] of_nat_index [of i 510]
    by (simp add: boot_paging_def boot_entry_def)
  moreover have "ADDRESS (cr3 boot_paging) = B4"
    by (simp add: boot_paging_def ADDRESS_def KVIRTUAL_ADDRESS_def)
  ultimately show ?thesis
    unfolding boot_tables_def using al room ne by simp
qed

theorem kernel_gigabyte_linear_witness:
  "translate (map_kernel_memory boot_paging) 0x1000 0xffffffff80b80123 = Some 0xb80007"
proof -
  have "cr3 boot_paging = 0x1000" by (simp add: boot_paging_def)
  then show ?thesis
    using kernel_gigabyte_linear [OF boot_paging_tables, of "0xffffffff80b80123"]
    by (simp add: KVIRTUAL_ADDRESS_def kvirt_to_physical_def ALIGN_DOWN_def)
qed

end
