(* ===== verification/Kernel_Main.thy ===== *)
theory Kernel_Main
  imports Manager_Properties Irq Pci Segments Early_Mapping
begin

text \<open>
  The kernel's entry point, \<^verbatim>\<open>kmain\<close> of \<^verbatim>\<open>main.cpp\<close>, with the construction of the
  architecture object (\<^verbatim>\<open>archs.hpp\<close>, \<^verbatim>\<open>arch/amd64/amd64.cpp\<close>). It puts the components
  together: descriptor tables and early mapping, console, memory management, the bus scan and
  the two drivers. The record \<open>image\<close> collects the addresses the linker and the compiler choose;
  the first lines of \<open>kernel_state\<close> are the memory and the devices of the theories below.
\<close>

subsection \<open>State\<close>

record image =
  entry_point :: "isr \<Rightarrow> addr"
  idt_ptr_address :: addr
  i_entries_address :: addr
  g_entries_address :: addr
  stack_buffer :: addr
  stack_garbage :: u64

record kernel_state =
  ks_memory :: memory_state
  ks_devices :: devices
  ks_idtr :: "u16 \<times> addr"
  ks_gdtr :: "u16 \<times> addr"

definition MULTIBOOT_BOOTLOADER_MAGIC :: u64 where
  "MULTIBOOT_BOOTLOADER_MAGIC = 0x2BADB002"

definition MULTIBOOT_INFO_CMDLINE :: u32 where
  "MULTIBOOT_INFO_CMDLINE = 0x00000004"

definition MULTIBOOT_INFO_VBE_INFO :: u32 where
  "MULTIBOOT_INFO_VBE_INFO = 0x00000800"

definition MULTIBOOT_INFO_FRAMEBUFFER_INFO :: u32 where
  "MULTIBOOT_INFO_FRAMEBUFFER_INFO = 0x00001000"

definition machine_of :: "kernel_state \<Rightarrow> machine" where
  "machine_of ks = kmachine (world (ks_memory ks))"

definition with_machine :: "machine \<Rightarrow> kernel_state \<Rightarrow> kernel_state" where
  "with_machine m ks = ks\<lparr>ks_memory := (ks_memory ks)\<lparr>world := (world (ks_memory ks))\<lparr>kmachine := m\<rparr>\<rparr>\<rparr>"

lemma with_machine_simps [simp]:
  "machine_of (with_machine m ks) = m" "ks_devices (with_machine m ks) = ks_devices ks"
  "ks_idtr (with_machine m ks) = ks_idtr ks" "ks_gdtr (with_machine m ks) = ks_gdtr ks"
  "with_machine m' (with_machine m ks) = with_machine m' ks"
  by (simp_all add: with_machine_def machine_of_def)

lemma machine_of_devices [simp]: "machine_of (ks\<lparr>ks_devices := d\<rparr>) = machine_of ks"
  by (simp add: machine_of_def)

text \<open>The boot loader's record, to which \<^verbatim>\<open>bootinfo\<close> points, as it is in memory now.\<close>

definition boot_info_at :: "addr \<Rightarrow> kernel_state \<Rightarrow> multiboot_info" where
  "boot_info_at bootinfo ks = read_boot_info (machine_of ks) bootinfo"

subsection \<open>The architecture object\<close>

text \<open>The constructor \<^verbatim>\<open>amd64::amd64\<close>: its member \<^verbatim>\<open>video_\<close> is constructed, then the
  tables and the mapping are set up.\<close>

definition sizeof_iarch :: u64 where
  "sizeof_iarch = 8"

definition amd64_new :: "image \<Rightarrow> kernel_state \<Rightarrow> kernel_state" where
  "amd64_new im ks =
     (let d = ks_devices ks;
          d = d\<lparr>video := protected_mode_new (videobuf (video d))\<rparr>;
          t = \<lparr>tables_memory = machine_of ks, tables_trace = executed d, idtr = ks_idtr ks, gdtr = ks_gdtr ks\<rparr>;
          t = idt_setup (entry_point im) (idt_ptr_address im) (i_entries_address im) t;
          t = gdt_setup (stack_garbage im) (g_entries_address im) t;
          m = map_kernel_memory (tables_memory t)
      in with_machine m (ks\<lparr>ks_devices := d\<lparr>executed := tables_trace t\<rparr>,
                            ks_idtr := idtr t, ks_gdtr := gdtr t\<rparr>))"

text \<open>The size of an \<^verbatim>\<open>amd64\<close> object: the table pointer, the member \<^verbatim>\<open>video_\<close> (table pointer,
  colour, column, line, buffer of 4000 16-bit cells, padding) and the two pointers of
  \<^verbatim>\<open>paging_\<close>.\<close>

definition sizeof_protected_mode :: nat where
  "sizeof_protected_mode = 8 + 4 + 1 + 1 + 2 * (WIDTH * (HEIGHT * 2)) + 2"

definition sizeof_amd64 :: nat where
  "sizeof_amd64 = 8 + sizeof_protected_mode + 16"

definition get_arch :: "image \<Rightarrow> kernel_state \<Rightarrow> addr \<times> kernel_state" where
  "get_arch im ks =
     (case placement_kalloc sizeof_iarch False (machine_of ks) of (p, m) \<Rightarrow>
        (placement_new (of_nat sizeof_amd64) p, amd64_new im (with_machine m ks)))"

definition get_arch_name :: string where
  "get_arch_name = ''amd64''"

subsection \<open>Entry\<close>

definition kprint :: "image \<Rightarrow> print_arg list \<Rightarrow> kernel_state \<Rightarrow> kernel_state option" where
  "kprint im vs ks =
     (case print_args (stack_buffer im) vs (machine_of ks) (video (ks_devices ks)) of
        None \<Rightarrow> None
      | Some (s, m) \<Rightarrow> Some (with_machine m (ks\<lparr>ks_devices := (ks_devices ks)\<lparr>video := s\<rparr>\<rparr>)))"

definition print_command_line :: "image \<Rightarrow> addr \<Rightarrow> kernel_state \<Rightarrow> kernel_state option" where
  "print_command_line im bootinfo ks =
     (if mb_flags (boot_info_at bootinfo ks) AND MULTIBOOT_INFO_CMDLINE \<noteq> 0
      then let p = ucast (cmdline (boot_info_at bootinfo ks)) + KVIRTUAL_ADDRESS
           in kprint im [Literal ''Command line: '', CharPtr p, Literal [CHR 0x0A, CHR 0x0A]] ks
      else Some ks)"

text \<open>Printing a field: it is read when the call is made.\<close>

definition kprint_field :: "image \<Rightarrow> addr \<Rightarrow> string \<Rightarrow> (multiboot_info \<Rightarrow> u64) \<Rightarrow> print_arg list
    \<Rightarrow> kernel_state \<Rightarrow> kernel_state option" where
  "kprint_field im bootinfo str f vs ks =
     kprint im (Literal str # Integral (f (boot_info_at bootinfo ks)) # vs) ks"

definition print_vbe :: "image \<Rightarrow> addr \<Rightarrow> kernel_state \<Rightarrow> kernel_state option" where
  "print_vbe im bootinfo ks =
     (if mb_flags (boot_info_at bootinfo ks) AND MULTIBOOT_INFO_VBE_INFO \<noteq> 0
      then run_all
        [kprint_field im bootinfo ''VBE mode: '' (\<lambda>bi. ucast (vbe_mode bi)) [],
         kprint_field im bootinfo '', iface segment: '' (\<lambda>bi. ucast (vbe_interface_seg bi)) [],
         kprint_field im bootinfo '', iface offset: '' (\<lambda>bi. ucast (vbe_interface_off bi)) [],
         kprint_field im bootinfo '', iface length: '' (\<lambda>bi. ucast (vbe_interface_len bi))
           [Literal [CHR 0x0A, CHR 0x0A]]] ks
      else Some ks)"

definition framebuffer_type_name :: "u8 \<Rightarrow> string" where
  "framebuffer_type_name t = (if t = 0 then ''Indexed'' else if t = 1 then ''RGB''
     else if t = 2 then ''EGA Text'' else ''Unknown'')"

definition print_framebuffer :: "image \<Rightarrow> addr \<Rightarrow> kernel_state \<Rightarrow> kernel_state option" where
  "print_framebuffer im bootinfo ks =
     (if mb_flags (boot_info_at bootinfo ks) AND MULTIBOOT_INFO_FRAMEBUFFER_INFO \<noteq> 0
      then run_all
        [kprint_field im bootinfo ''Framebuffer address: '' framebuffer_addr [],
         kprint_field im bootinfo '', width: '' (\<lambda>bi. ucast (framebuffer_width bi)) [],
         kprint_field im bootinfo '', height: '' (\<lambda>bi. ucast (framebuffer_height bi)) [],
         kprint_field im bootinfo '', bpp: '' (\<lambda>bi. ucast (framebuffer_bpp bi)) [],
         kprint_field im bootinfo '', pitch: '' (\<lambda>bi. ucast (framebuffer_pitch bi)) [Char 10],
         kprint im [Literal ''Framebuffer type: ''],
         \<lambda>ks. kprint im [Literal (framebuffer_type_name (framebuffer_type (boot_info_at bootinfo ks)) @ [CHR 0x0A])] ks,
         kprint im [Literal [CHR 0x0A]]] ks
      else Some ks)"

definition kmain_memory :: "addr \<Rightarrow> kernel_state \<Rightarrow> kernel_state option" where
  "kmain_memory bootinfo ks =
     (case initialize_memory (boot_info_at bootinfo ks) (ks_memory ks) of
        None \<Rightarrow> None | Some s \<Rightarrow> Some (ks\<lparr>ks_memory := s\<rparr>))"

definition kmain_scan :: "nat \<Rightarrow> hardware \<Rightarrow> image \<Rightarrow> kernel_state \<Rightarrow> kernel_state option" where
  "kmain_scan depth hw im ks =
     (let d = ks_devices ks
      in case scan_hardware depth hw (stack_buffer im)
           \<lparr>pci_trace = executed d, pci_memory = machine_of ks, pci_video = video d, found = []\<rparr> of
           None \<Rightarrow> None
         | Some st \<Rightarrow> Some (with_machine (pci_memory st)
             (ks\<lparr>ks_devices := d\<lparr>executed := pci_trace st, video := pci_video st\<rparr>\<rparr>)))"

definition kmain_drivers :: "kernel_state \<Rightarrow> kernel_state option" where
  "kmain_drivers ks =
     (case add_timer 100 (ks_devices ks) of
        None \<Rightarrow> None
      | Some d \<Rightarrow> Some (ks\<lparr>ks_devices := add_keyboard d\<rparr>))"

definition kmain :: "nat \<Rightarrow> hardware \<Rightarrow> image \<Rightarrow> addr \<Rightarrow> u64 \<Rightarrow> kernel_state \<Rightarrow> kernel_state option" where
  "kmain depth hw im bootinfo magic_number ks =
     (if magic_number \<noteq> MULTIBOOT_BOOTLOADER_MAGIC then Some ks
      else case get_arch im ks of (arch, ks) \<Rightarrow>
        if arch = 0 then Some ks
        else run_all
          [\<lambda>ks. Some (ks\<lparr>ks_devices := (ks_devices ks)\<lparr>video := clear_screen (video (ks_devices ks))\<rparr>\<rparr>),
           kprint im [Literal (''Welcome to CoronelOS!'' @ [CHR 0x0A] @ ''Arch: ''), Literal get_arch_name, Char 10],
           kmain_memory bootinfo,
           print_command_line im bootinfo, print_vbe im bootinfo, print_framebuffer im bootinfo,
           kprint im [Literal (''Scanning PCI devices...'' @ [CHR 0x0A])],
           kmain_scan depth hw im,
           kmain_drivers,
           \<lambda>ks. Some (ks\<lparr>ks_memory := print_memory_info (ks_memory ks)\<rparr>)] ks)"

text \<open>\<^verbatim>\<open>force_pic_mode\<close> is defined and never called.\<close>

definition force_pic_mode :: "hardware \<Rightarrow> trace \<Rightarrow> trace" where
  "force_pic_mode hw tr =
     (case rdmsr hw 0x1B tr of (eax, edx, tr) \<Rightarrow>
        if eax AND 0x800 \<noteq> 0 then wrmsr 0x1B (eax AND NOT 0x800) edx tr else tr)"

subsection \<open>What the steps keep\<close>

text \<open>A step returns, keeps the cursor on the screen, keeps the table registers, the guards of
  the driver objects and the state of memory management, and writes only to the buffer on the stack.\<close>

definition shown :: "kernel_state \<Rightarrow> bool" where
  "shown ks \<longleftrightarrow> on_screen (video (ks_devices ks))"

definition memory_kept :: "image \<Rightarrow> kernel_state \<Rightarrow> kernel_state \<Rightarrow> bool" where
  "memory_kept im ks ks' \<longleftrightarrow> writes_only (stack_buffer im) 66 (machine_of ks) (machine_of ks')
     \<and> (\<forall>m. ks_memory (with_machine m ks') = ks_memory (with_machine m ks))"

definition same_setup :: "image \<Rightarrow> kernel_state \<Rightarrow> kernel_state \<Rightarrow> bool" where
  "same_setup im ks ks' \<longleftrightarrow> ks_idtr ks' = ks_idtr ks \<and> ks_gdtr ks' = ks_gdtr ks
     \<and> timer_guard (ks_devices ks') = timer_guard (ks_devices ks)
     \<and> keyboard_guard (ks_devices ks') = keyboard_guard (ks_devices ks)
     \<and> memory_kept im ks ks'"

interpretation boot: step_contract shown "same_setup im" for im
  by unfold_locales (auto simp: same_setup_def memory_kept_def intro: writes_only_trans)

abbreviation boot_step :: "image \<Rightarrow> (kernel_state \<Rightarrow> kernel_state option) \<Rightarrow> bool" where
  "boot_step im \<equiv> keeps shown (same_setup im)"

lemma with_machine_memory:
  "ks_memory (with_machine m (ks\<lparr>ks_devices := d\<rparr>)) = ks_memory (with_machine m ks)"
  by (simp add: with_machine_def)

lemma same_setup_video:
  "writes_only (stack_buffer im) 66 (machine_of ks) m \<Longrightarrow>
    same_setup im ks (with_machine m (ks\<lparr>ks_devices := (ks_devices ks)\<lparr>video := s\<rparr>\<rparr>))"
  by (simp add: same_setup_def memory_kept_def with_machine_memory)

lemma kprint_result:
  assumes "shown ks" "\<forall>v \<in> set vs. total_arg v"
  obtains ks' where "kprint im vs ks = Some ks'" "shown ks'" "same_setup im ks ks'"
proof -
  obtain s m where "print_args (stack_buffer im) vs (machine_of ks) (video (ks_devices ks)) = Some (s, m)"
    "on_screen (video (ks_devices ks)) \<longrightarrow> on_screen s" "writes_only (stack_buffer im) 66 (machine_of ks) m"
    using assms(2) by (rule print_args_total)
  then show thesis
    using assms(1) that [of "with_machine m (ks\<lparr>ks_devices := (ks_devices ks)\<lparr>video := s\<rparr>\<rparr>)"]
    by (simp add: kprint_def shown_def same_setup_video)
qed

lemma boot_step_kprint: "\<forall>v \<in> set vs. total_arg v \<Longrightarrow> boot_step im (kprint im vs)"
  by (rule keepsI) (metis kprint_result)

text \<open>The arguments may be read from the state.\<close>

lemma boot_step_kprint_of: "(\<And>ks. \<forall>v \<in> set (vs ks). total_arg v) \<Longrightarrow> boot_step im (\<lambda>ks. kprint im (vs ks) ks)"
  by (rule keepsI) (metis kprint_result)

lemma boot_step_field: "\<forall>v \<in> set vs. total_arg v \<Longrightarrow> boot_step im (kprint_field im bootinfo str f vs)"
  using boot_step_kprint_of [of "\<lambda>ks. Literal str # Integral (f (boot_info_at bootinfo ks)) # vs" im]
  by (simp add: kprint_field_def [abs_def])

lemma boot_step_vbe: "boot_step im (print_vbe im bootinfo)"
proof -
  have "boot_step im (\<lambda>ks. print_vbe im bootinfo ks)"
    unfolding print_vbe_def
    by (rule boot.guarded, rule boot.run_all) (auto intro!: boot_step_field)
  then show ?thesis by simp
qed

lemma boot_step_framebuffer: "boot_step im (print_framebuffer im bootinfo)"
proof -
  have "boot_step im (\<lambda>ks. print_framebuffer im bootinfo ks)"
    unfolding print_framebuffer_def
    by (rule boot.guarded, rule boot.run_all) (auto intro!: boot_step_field boot_step_kprint boot_step_kprint_of)
  then show ?thesis by simp
qed

lemma boot_step_scan: "boot_step im (kmain_scan (Suc depth) hw im)"
proof (rule keepsI)
  fix ks
  let ?st = "\<lparr>pci_trace = executed (ks_devices ks), pci_memory = machine_of ks,
    pci_video = video (ks_devices ks), found = []\<rparr>"
  assume "shown ks"
  moreover obtain st where "scan_hardware (Suc depth) hw (stack_buffer im) ?st = Some st"
    "keeps_screen (stack_buffer im) ?st st"
    using returns_hardware TrueI by (rule keepsE)
  ultimately show "\<exists>ks'. kmain_scan (Suc depth) hw im ks = Some ks' \<and> shown ks' \<and> same_setup im ks ks'"
    by (simp add: kmain_scan_def Let_def shown_def same_setup_def memory_kept_def with_machine_memory
        keeps_screen_def reported_def)
qed

text \<open>A string in memory, and the command line the boot loader left, if it left one.\<close>

definition string_in :: "machine \<Rightarrow> addr \<Rightarrow> u8 list \<Rightarrow> bool" where
  "string_in m p str \<longleftrightarrow> (\<forall>k < length str. byte_at m (p + of_nat k) = str ! k) \<and> 0 \<notin> set str
     \<and> byte_at m (p + of_nat (length str)) = 0"

definition command_line_ends :: "machine \<Rightarrow> addr \<Rightarrow> bool" where
  "command_line_ends m bootinfo \<longleftrightarrow> mb_flags (read_boot_info m bootinfo) AND MULTIBOOT_INFO_CMDLINE = 0
     \<or> (\<exists>str. string_in m (ucast (cmdline (read_boot_info m bootinfo)) + KVIRTUAL_ADDRESS) str)"

lemma print_command_line_result:
  assumes "shown ks" "command_line_ends (machine_of ks) bootinfo"
  obtains ks' where "print_command_line im bootinfo ks = Some ks'" "shown ks'" "same_setup im ks ks'"
proof (cases "mb_flags (boot_info_at bootinfo ks) AND MULTIBOOT_INFO_CMDLINE = 0")
  case True
  then show ?thesis using that [of ks] assms(1) boot.rel_refl [OF assms(1)] by (simp add: print_command_line_def)
next
  case False
  let ?p = "ucast (cmdline (boot_info_at bootinfo ks)) + KVIRTUAL_ADDRESS :: addr" and ?v = "video (ks_devices ks)"
  obtain str where str: "string_in (machine_of ks) ?p str"
    using False assms(2) by (auto simp: command_line_ends_def boot_info_at_def)
  define s where "s = prints_literal [CHR 0x0A, CHR 0x0A] (foldl (\<lambda>s c. printc c s)
    (prints_literal ''Err: '' (prints_literal ''Command line: '' ?v)) str)"
  have "prints ?p (machine_of ks) s0 = Some (foldl (\<lambda>s c. printc c s) s0 str)" for s0
    using str unfolding string_in_def by (intro prints_string) simp_all
  then have "print_args (stack_buffer im) [Literal ''Command line: '', CharPtr ?p, Literal [CHR 0x0A, CHR 0x0A]]
      (machine_of ks) ?v = Some (s, machine_of ks)"
    by (simp add: print_def s_def)
  moreover have "on_screen s"
    using assms(1) prints_literal_on_screen foldl_printc_on_screen unfolding s_def shown_def by blast
  ultimately show ?thesis
    using False that [of "with_machine (machine_of ks) (ks\<lparr>ks_devices := (ks_devices ks)\<lparr>video := s\<rparr>\<rparr>)"]
    by (simp add: print_command_line_def kprint_def shown_def same_setup_video)
qed

text \<open>Both drivers are registered with their fresh objects.\<close>

definition drivers_ready :: "devices \<Rightarrow> bool" where
  "drivers_ready d \<longleftrightarrow> timer_handler_p d \<and> keyboard_handler_p d
     \<and> timer_instance d = \<lparr>frequency = 100, ticks = 0\<rparr> \<and> keyboard_instance d = \<lparr>shift = False\<rparr>"

lemma kmain_drivers_result:
  assumes "timer_guard (ks_devices ks) = 0" "keyboard_guard (ks_devices ks) = 0"
  obtains d where "kmain_drivers ks = Some (ks\<lparr>ks_devices := d\<rparr>)" "drivers_ready d"
    "video d = video (ks_devices ks)"
proof -
  obtain tr where "timer_new 100 (executed (ks_devices ks)) = Some (\<lparr>frequency = 100, ticks = 0\<rparr>, tr)"
    using timer_new_eq [of 100] by auto
  then have "\<exists>d. add_timer 100 (ks_devices ks) = Some d \<and> timer_handler_p d \<and> keyboard_guard d = 0
    \<and> timer_instance d = \<lparr>frequency = 100, ticks = 0\<rparr> \<and> video d = video (ks_devices ks)"
    using assms by (simp add: add_timer_def cxa_guard_acquire_def Let_def)
  then obtain d where "add_timer 100 (ks_devices ks) = Some d" "timer_handler_p d" "keyboard_guard d = 0"
    "timer_instance d = \<lparr>frequency = 100, ticks = 0\<rparr>" "video d = video (ks_devices ks)"
    by blast
  then show thesis
    using that [of "add_keyboard d"]
    by (simp add: kmain_drivers_def add_keyboard_def Let_def drivers_ready_def cxa_guard_acquire_def keyboard_new_def)
qed

lemma print_args_literals:
  "\<forall>v \<in> set vs. case v of Literal str \<Rightarrow> True | Char c \<Rightarrow> True | _ \<Rightarrow> False \<Longrightarrow>
    print_args buffer vs m s = Some (s', m') \<Longrightarrow> m' = m"
proof (induction vs arbitrary: s)
  case (Cons v vs)
  then obtain s1 where "print buffer v m s = Some (s1, m)"
    by (cases v) (auto simp: print_def)
  then show ?case using Cons by (auto split: option.splits)
qed simp

lemma get_arch_result:
  "fst (get_arch im ks) = placement (machine_of ks)"
  "ks_idtr (snd (get_arch im ks)) = (1023, i_entries_address im)"
  "ks_gdtr (snd (get_arch im ks)) = (55, g_entries_address im)"
  "timer_guard (ks_devices (snd (get_arch im ks))) = timer_guard (ks_devices ks)"
  "keyboard_guard (ks_devices (snd (get_arch im ks))) = keyboard_guard (ks_devices ks)"
  by (simp_all add: get_arch_def placement_new_def placement_kalloc_eq Let_def amd64_new_def with_machine_def
      idt_setup_def gdt_setup_def sizeof_idt_entry_def LONG_MODE_IDT_GATES_def sizeof_gdt_entry_def
      LONG_MODE_GDT_GATES_def)

abbreviation greeting :: "print_arg list" where
  "greeting \<equiv> [Literal (''Welcome to CoronelOS!'' @ [CHR 0x0A] @ ''Arch: ''), Literal get_arch_name, Char 10]"

text \<open>Greeting the user leaves the memory alone.\<close>

lemma with_same_machine [simp]: "with_machine (machine_of ks) ks = ks"
  by (simp add: with_machine_def machine_of_def)

lemma greeting_result:
  assumes "shown ks"
  obtains ks' where "kprint im greeting ks = Some ks'" "shown ks'" "same_setup im ks ks'" "ks_memory ks' = ks_memory ks"
proof -
  obtain s m where p: "print_args (stack_buffer im) greeting (machine_of ks) (video (ks_devices ks)) = Some (s, m)"
    "on_screen (video (ks_devices ks)) \<longrightarrow> on_screen s" "writes_only (stack_buffer im) 66 (machine_of ks) m"
    by (rule print_args_total [of greeting]) simp
  then have m: "m = machine_of ks" by (intro print_args_literals [OF _ p(1)]) simp
  let ?ks = "with_machine m (ks\<lparr>ks_devices := (ks_devices ks)\<lparr>video := s\<rparr>\<rparr>)"
  have "ks_memory ?ks = ks_memory ks"
    using with_machine_memory by (simp add: m)
  then show thesis
    using p assms that [of ?ks] by (simp add: kprint_def shown_def same_setup_video)
qed

text \<open>The printing and the scan after the set-up of memory.\<close>

lemma boot_step_rest:
  "boot_step im (run_all [print_vbe im bootinfo, print_framebuffer im bootinfo,
     kprint im [Literal (''Scanning PCI devices...'' @ [CHR 0x0A])], kmain_scan 1 hw im])"
  by (rule boot.run_all)
    (use boot_step_vbe boot_step_framebuffer boot_step_kprint boot_step_scan [of _ 0] in simp)

text \<open>What the boot needs: room for the architecture object, the guards of the driver objects
  unset, memory that can be set up, and a command line that ends, if there is one.\<close>

definition bootable :: "image \<Rightarrow> addr \<Rightarrow> memory_state \<Rightarrow> kernel_state \<Rightarrow> bool" where
  "bootable im bootinfo s ks \<longleftrightarrow> placement (machine_of ks) \<noteq> 0
     \<and> timer_guard (ks_devices ks) = 0 \<and> keyboard_guard (ks_devices ks) = 0
     \<and> initialize_memory (boot_info_at bootinfo (snd (get_arch im ks))) (ks_memory (snd (get_arch im ks))) = Some s
     \<and> command_line_ends (kmachine (world s)) bootinfo"

lemma run_all_append: "run_all (fs @ gs) s = (case run_all fs s of None \<Rightarrow> None | Some s \<Rightarrow> run_all gs s)"
  by (induction fs arbitrary: s) (auto split: option.split)

text \<open>From the set-up of memory on: s is the state of memory management it leaves.\<close>

lemma kmain_from_memory:
  assumes "shown ks" "command_line_ends (machine_of ks) bootinfo"
    "timer_guard (ks_devices ks) = 0" "keyboard_guard (ks_devices ks) = 0"
  obtains ks' where "run_all [print_command_line im bootinfo, print_vbe im bootinfo, print_framebuffer im bootinfo,
      kprint im [Literal (''Scanning PCI devices...'' @ [CHR 0x0A])], kmain_scan 1 hw im, kmain_drivers,
      \<lambda>ks. Some (ks\<lparr>ks_memory := print_memory_info (ks_memory ks)\<rparr>)] ks = Some ks'"
    "shown ks'" "drivers_ready (ks_devices ks')" "ks_idtr ks' = ks_idtr ks" "ks_gdtr ks' = ks_gdtr ks"
    "memory_kept im ks ks'"
proof -
  obtain k1 where k1: "print_command_line im bootinfo ks = Some k1" "shown k1" "same_setup im ks k1"
    using assms(1,2) by (rule print_command_line_result)
  obtain k2 where k2: "run_all [print_vbe im bootinfo, print_framebuffer im bootinfo,
      kprint im [Literal (''Scanning PCI devices...'' @ [CHR 0x0A])], kmain_scan 1 hw im] k1 = Some k2"
    "shown k2" "same_setup im k1 k2"
    using boot_step_rest k1(2) by (rule keepsE)
  have same: "same_setup im ks k2" using boot.rel_trans k1(3) k2(3) .
  then have "timer_guard (ks_devices k2) = 0" "keyboard_guard (ks_devices k2) = 0"
    using assms(3,4) by (simp_all add: same_setup_def)
  then obtain d where d: "kmain_drivers k2 = Some (k2\<lparr>ks_devices := d\<rparr>)" "drivers_ready d"
    "video d = video (ks_devices k2)"
    by (rule kmain_drivers_result)
  have "run_all [print_command_line im bootinfo, print_vbe im bootinfo, print_framebuffer im bootinfo,
      kprint im [Literal (''Scanning PCI devices...'' @ [CHR 0x0A])], kmain_scan 1 hw im, kmain_drivers,
      \<lambda>ks. Some (ks\<lparr>ks_memory := print_memory_info (ks_memory ks)\<rparr>)] ks = Some (k2\<lparr>ks_devices := d\<rparr>)"
    using k1(1) k2(1) d(1) by (auto split: option.splits)
  then show thesis
    using that [of "k2\<lparr>ks_devices := d\<rparr>"] d k2(2) same
    by (simp add: same_setup_def shown_def memory_kept_def with_machine_memory)
qed

lemma kmain_result:
  assumes "bootable im bootinfo s ks"
  obtains ks' where "kmain 1 hw im bootinfo MULTIBOOT_BOOTLOADER_MAGIC ks = Some ks'" "shown ks'"
    "drivers_ready (ks_devices ks')" "ks_idtr ks' = (1023, i_entries_address im)" "ks_gdtr ks' = (55, g_entries_address im)"
    "writes_only (stack_buffer im) 66 (kmachine (world s)) (machine_of ks')"
    "ks_memory ks' = s\<lparr>world := (world s)\<lparr>kmachine := machine_of ks'\<rparr>\<rparr>"
proof -
  note A = assms [unfolded bootable_def]
  obtain arch k0 where g: "get_arch im ks = (arch, k0)" by fastforce
  note G = get_arch_result [of im ks, unfolded g fst_conv snd_conv]
  define k1 where "k1 = k0\<lparr>ks_devices := (ks_devices k0)\<lparr>video := clear_screen (video (ks_devices k0))\<rparr>\<rparr>"
  have "shown k1"
    by (simp add: k1_def shown_def on_screen_def clear_screen_eq HEIGHT_def WIDTH_def)
  then obtain k2 where k2: "kprint im greeting k1 = Some k2" "shown k2" "same_setup im k1 k2" "ks_memory k2 = ks_memory k1"
    by (rule greeting_result)
  define k3 where "k3 = k2\<lparr>ks_memory := s\<rparr>"
  have "machine_of k2 = machine_of k0" using k2(4) by (simp add: machine_of_def k1_def)
  then have km: "kmain_memory bootinfo k2 = Some k3"
    using k2(4) A g by (simp add: kmain_memory_def k3_def k1_def boot_info_at_def)
  have k3: "shown k3" "command_line_ends (machine_of k3) bootinfo" "timer_guard (ks_devices k3) = 0"
    "keyboard_guard (ks_devices k3) = 0"
    using k2(2,3) A G by (simp_all add: k3_def k1_def shown_def same_setup_def machine_of_def)
  obtain ks' where ks': "run_all [print_command_line im bootinfo, print_vbe im bootinfo, print_framebuffer im bootinfo,
      kprint im [Literal (''Scanning PCI devices...'' @ [CHR 0x0A])], kmain_scan 1 hw im, kmain_drivers,
      \<lambda>ks. Some (ks\<lparr>ks_memory := print_memory_info (ks_memory ks)\<rparr>)] k3 = Some ks'"
    "shown ks'" "drivers_ready (ks_devices ks')" "ks_idtr ks' = ks_idtr k3" "ks_gdtr ks' = ks_gdtr k3"
    "memory_kept im k3 ks'"
    using k3 by (rule kmain_from_memory)
  have "kmain 1 hw im bootinfo MULTIBOOT_BOOTLOADER_MAGIC ks = Some ks'"
    using ks'(1) k2(1) km A G(1) by (simp add: kmain_def g k1_def)
  moreover have "ks_memory (with_machine (machine_of ks') ks') = ks_memory (with_machine (machine_of ks') k3)"
    using ks'(6) unfolding memory_kept_def by blast
  then have "ks_memory ks' = s\<lparr>world := (world s)\<lparr>kmachine := machine_of ks'\<rparr>\<rparr>"
    by (simp add: k3_def) (simp add: with_machine_def)
  moreover have "writes_only (stack_buffer im) 66 (kmachine (world s)) (machine_of ks')"
    using ks'(6) by (simp add: memory_kept_def k3_def machine_of_def)
  ultimately show thesis
    using that ks' k2(3) G by (simp add: k3_def k1_def same_setup_def)
qed

subsection \<open>Properties\<close>

lemma power_2_11: "(0x800 :: u32) = 2 ^ 11"
  by simp

lemma bit_0x800: "bit (0x800 :: u32) k \<longleftrightarrow> k = 11"
  unfolding power_2_11 bit_exp_iff possible_bit_word by auto

text \<open>After \<^verbatim>\<open>force_pic_mode\<close> the enable bit of the interrupt controller's register is clear:
  the register is written back, with only that bit changed, when the bit was set, and is not
  written otherwise.\<close>

theorem force_pic_mode_disables:
  assumes "msr hw tr 0x1B = (eax, edx)"
  shows "if bit eax 11
    then \<exists>v. force_pic_mode hw tr = Wrmsr 0x1B v edx # Rdmsr 0x1B # tr \<and> (\<forall>k. bit v k \<longleftrightarrow> bit eax k \<and> k \<noteq> 11)
    else force_pic_mode hw tr = Rdmsr 0x1B # tr"
proof -
  have "bit (eax AND NOT 0x800) k \<longleftrightarrow> bit eax k \<and> k \<noteq> 11" for k
    using bit_imp_le_length [of eax k] unfolding bit_and_iff bit_not_iff_eq bit_0x800 possible_bit_word by auto
  moreover have "eax AND 0x800 \<noteq> 0 \<longleftrightarrow> bit eax 11"
    using and_exp_eq_0_iff_not_bit [of eax 11] by simp
  ultimately show ?thesis using assms by (simp add: force_pic_mode_def rdmsr_def wrmsr_def)
qed

theorem force_pic_mode_disables_witness:
  "\<exists>v. force_pic_mode \<lparr>port8 = (\<lambda>tr p. 0), port16 = (\<lambda>tr p. 0), port32 = (\<lambda>tr p. 0),
      msr = (\<lambda>tr r. (0xFEE00900, 0))\<rparr> [] = [Wrmsr 0x1B v 0, Rdmsr 0x1B] \<and> \<not> bit v 11"
proof -
  have "bit (0xFEE00900 :: u32) 11"
    using and_exp_eq_0_iff_not_bit [of "0xFEE00900 :: u32" 11] by simp
  then show ?thesis
    using force_pic_mode_disables [of "\<lparr>port8 = (\<lambda>tr p. 0), port16 = (\<lambda>tr p. 0), port32 = (\<lambda>tr p. 0),
      msr = (\<lambda>tr r. (0xFEE00900, 0))\<rparr>" "[]" "0xFEE00900" 0] by auto
qed

definition sample_image :: image where
  "sample_image = \<lparr>entry_point = (\<lambda>h. 0xffffffff80220000), idt_ptr_address = 0xffffffff80250000,
     i_entries_address = 0xffffffff80241000, g_entries_address = 0xffffffff80240000,
     stack_buffer = 0xffffffff80250100, stack_garbage = 0\<rparr>"

definition blank_devices :: devices where
  "blank_devices = keyboard_devices\<lparr>keyboard_guard := 0, keyboard_handler_guard := 0, keyboard_handler_p := False\<rparr>"

text \<open>The machine as the boot code leaves it, with the boot loader's record and memory map.\<close>

definition loaded_info :: multiboot_info where
  "loaded_info = basic_info 0x40 0 0 48 0x310000"

definition loaded_machine :: machine where
  "loaded_machine = write_mmap 0xffffffff80310000 boot_entries
     (write_boot_info 0xffffffff80300000 loaded_info boot_paging)"

lemma loaded_machine_rest [simp]: "placement loaded_machine = 0xffffffff80400000" "cr3 loaded_machine = 0x1000"
  by (simp_all add: loaded_machine_def boot_paging_def)

definition sample_start :: kernel_state where
  "sample_start = \<lparr>ks_memory = boot_state\<lparr>world := (world boot_state)\<lparr>kmachine := loaded_machine\<rparr>\<rparr>, ks_devices = blank_devices, ks_idtr = (0, 0), ks_gdtr = (0, 0)\<rparr>"

lemma fill_entries_placement: "placement (fst (foldl (fill_entry t) s js)) = placement (fst s)"
  by (induction js arbitrary: s) (simp_all add: fill_entry_def Let_def split_def)

lemma fill_directories_placement: "placement (fst (foldl (fill_directory t) s is)) = placement (fst s)"
  by (induction "is" arbitrary: s)
    (simp_all add: fill_directory_def Let_def split_def fill_entries_placement)

lemma idt_setup_placement:
  "placement (tables_memory (idt_setup ep ptr i_entries t)) = placement (tables_memory t)"
  using idt_setup_cells by (simp add: writes_cells_def)

lemma gdt_setup_placement: "placement (tables_memory (gdt_setup u g t)) = placement (tables_memory t)"
  using gdt_setup_cells by (simp add: writes_cells_def)

lemma map_kernel_memory_placement: "placement (map_kernel_memory m) = placement m"
  by (simp only: map_kernel_memory_def Let_def fill_directories_placement fst_conv)

lemma amd64_new_placement: "placement (machine_of (amd64_new im ks)) = placement (machine_of ks)"
proof -
  have "machine_of (amd64_new im ks) = map_kernel_memory (tables_memory (gdt_setup (stack_garbage im)
    (g_entries_address im) (idt_setup (entry_point im) (idt_ptr_address im) (i_entries_address im)
      \<lparr>tables_memory = machine_of ks,
        tables_trace = executed (ks_devices ks\<lparr>video := protected_mode_new (videobuf (video (ks_devices ks)))\<rparr>),
        idtr = ks_idtr ks, gdtr = ks_gdtr ks\<rparr>)))"
    unfolding amd64_new_def Let_def with_machine_def by (simp add: machine_of_def)
  then show ?thesis by (simp only: map_kernel_memory_placement gdt_setup_placement idt_setup_placement) simp
qed

text \<open>C40. The architecture object is built in a block of \<^verbatim>\<open>sizeof(iarch)\<close> = 8 bytes although
  it has 8040: the next page-aligned boot allocation, which \<^verbatim>\<open>initialize_memory\<close> makes, lies
  in the middle of the object.\<close>

theorem arch_object_overlapped:
  assumes "unat (placement (machine_of ks)) + 8192 < 18446744073709551616"
    and "get_arch im ks = (arch, ks')" and "placement_kalloc n True (machine_of ks') = (b, m)"
  shows "bytes_of b 3936 \<subseteq> bytes_of arch sizeof_amd64 \<and> b \<noteq> arch"
proof -
  let ?p = "placement (machine_of ks)"
  have a: "arch = ?p" using assms(2) get_arch_result(1) [of im ks] by simp
  define m0 where "m0 = (machine_of ks)\<lparr>placement := ?p + 8\<rparr>"
  have "ks' = amd64_new im (with_machine m0 ks)"
    using assms(2) by (auto simp: get_arch_def placement_new_def placement_kalloc_eq Let_def sizeof_iarch_def m0_def)
  then have "placement (machine_of ks') = placement (machine_of (with_machine m0 ks))"
    by (simp only: amd64_new_placement)
  then have "placement (machine_of ks') = ?p + 8" by (simp add: with_machine_def machine_of_def m0_def)
  then have b: "b = ALIGN_UP (?p + 8)" using assms(3) by (simp add: placement_kalloc_eq Let_def)
  have p8: "unat (?p + 8) = unat ?p + 8" using assms(1) by (simp add: unat_add_nowrap)
  then have "unat (?p + 8) \<le> unat b" "unat b < unat (?p + 8) + 4096"
    unfolding b using ALIGN_UP_ge [of "?p + 8"] ALIGN_UP_lt [of "?p + 8"] assms(1) by (simp_all add: wordnat)
  then show ?thesis
    using p8 unfolding a by (auto simp: bytes_of_def sizeof_amd64_def sizeof_protected_mode_def WIDTH_def HEIGHT_def)
qed

theorem arch_object_overlapped_witness:
  "\<exists>arch ks' b m. get_arch sample_image sample_start = (arch, ks')
    \<and> placement_kalloc 16 True (machine_of ks') = (b, m)
    \<and> bytes_of b 3936 \<subseteq> bytes_of arch sizeof_amd64 \<and> b \<noteq> arch"
proof -
  obtain arch ks' where g: "get_arch sample_image sample_start = (arch, ks')" by fastforce
  obtain b m where b: "placement_kalloc 16 True (machine_of ks') = (b, m)" by fastforce
  have "unat (placement (machine_of sample_start)) + 8192 < 18446744073709551616"
    by (simp add: machine_of_def sample_start_def boot_state_def boot_machine_def)
  from arch_object_overlapped [OF this g b] g b show ?thesis by blast
qed

end
