(* ===== verification/Boot.thy ===== *)
theory Boot
  imports Kernel_Main
begin

text \<open>
  The whole boot, from the state the assembly of \<^verbatim>\<open>boot.S\<close> leaves to the end of
  \<^verbatim>\<open>kmain\<close>: the descriptor tables and the early mapping are written, the boot loader's
  record and memory map are read, the frame list is built above the kernel image, and printing
  uses a buffer on the stack. Each part writes its own bytes of memory; the predicates below say
  how the parts are laid out, and the theorems that what one part leaves is still there when the
  boot is over.
\<close>

subsection \<open>Layout\<close>

definition setup_bytes :: "image \<Rightarrow> addr \<Rightarrow> addr \<Rightarrow> nat set" where
  "setup_bytes im p2 T = bytes_of (i_entries_address im) 2064 \<union> bytes_of (g_entries_address im) 56
     \<union> bytes_of p2 4096 \<union> bytes_of T 2097152"

definition image_layout :: "image \<Rightarrow> addr \<Rightarrow> addr \<Rightarrow> addr \<Rightarrow> addr \<Rightarrow> addr \<Rightarrow> bool" where
  "image_layout im p4 p3 p2 T q \<longleftrightarrow>
     unat (i_entries_address im) + 2064 \<le> unat q \<and> unat (g_entries_address im) + 56 \<le> unat q
     \<and> unat (stack_buffer im) + 66 \<le> unat q \<and> table_bytes p4 p3 p2 T \<subseteq> {..<unat q}
     \<and> table_bytes p4 p3 p2 T \<inter> (bytes_of (i_entries_address im) 2064 \<union> bytes_of (g_entries_address im) 56
          \<union> bytes_of (stack_buffer im) 66) = {}"

text \<open>What the boot loader leaves: a record, a memory map and perhaps a command line, in the
  bytes \<open>R\<close>.\<close>

definition loader_map :: "nat set \<Rightarrow> machine \<Rightarrow> multiboot_info \<Rightarrow> mmap_entry list \<Rightarrow> bool" where
  "loader_map R m bi es \<longleftrightarrow> (let a = ucast (mmap_addr bi) + KVIRTUAL_ADDRESS
     in mb_flags bi AND MULTIBOOT_INFO_MEM_MAP \<noteq> 0
      \<and> mmap_laid m a es (ucast (mmap_addr bi + mmap_length bi) + KVIRTUAL_ADDRESS)
      \<and> unat a + mmap_bytes es < 18446744073709551616 \<and> bytes_of a (mmap_bytes es) \<subseteq> R
      \<and> (\<forall>x \<in> set es. 20 \<le> unat (entry_size x) \<and> entry_fits x))"

definition loader_command_line :: "nat set \<Rightarrow> machine \<Rightarrow> multiboot_info \<Rightarrow> bool" where
  "loader_command_line R m bi \<longleftrightarrow> mb_flags bi AND MULTIBOOT_INFO_CMDLINE = 0
     \<or> (\<exists>str. let p = ucast (cmdline bi) + KVIRTUAL_ADDRESS
          in string_in m p str \<and> unat p + Suc (length str) < 18446744073709551616
           \<and> bytes_of p (Suc (length str)) \<subseteq> R)"

definition loader_data :: "nat set \<Rightarrow> machine \<Rightarrow> addr \<Rightarrow> mmap_entry list \<Rightarrow> bool" where
  "loader_data R m bootinfo es \<longleftrightarrow> bytes_of bootinfo 120 \<subseteq> R \<and> unat bootinfo + 120 < 18446744073709551616
     \<and> loader_map R m (read_boot_info m bootinfo) es \<and> loader_command_line R m (read_boot_info m bootinfo)"

subsection \<open>Keeping the boot loader's data\<close>

lemma string_in_kept:
  assumes "same_bytes (\<lambda>x. unat x \<in> R) m m'" "bytes_of p (Suc (length str)) \<subseteq> R"
    "unat p + Suc (length str) < 18446744073709551616"
  shows "string_in m' p str = string_in m p str"
proof -
  have "byte_at m' (p + of_nat k) = byte_at m (p + of_nat k)" if "k \<le> length str" for k
  proof -
    have "unat (p + of_nat k) = unat p + k" using that assms(3) by (intro unat_add_small) simp
    then have "unat (p + of_nat k) \<in> R" using that assms(2) by (auto simp: bytes_of_def)
    then show ?thesis using assms(1) unfolding same_bytes_def by blast
  qed
  then show ?thesis by (simp add: string_in_def)
qed

lemma loader_data_kept:
  assumes "same_bytes (\<lambda>x. unat x \<in> R) m m'" "loader_data R m bootinfo es"
  shows "loader_data R m' bootinfo es" "read_boot_info m' bootinfo = read_boot_info m bootinfo"
proof -
  let ?bi = "read_boot_info m bootinfo"
  show bi: "read_boot_info m' bootinfo = ?bi"
    using assms(2) by (intro read_boot_info_kept [OF assms(1)]) (simp_all add: loader_data_def)
  have "loader_map R m' ?bi es"
    using assms(2) mmap_laid_kept [OF assms(1)] by (auto simp: loader_data_def loader_map_def Let_def)
  moreover have "loader_command_line R m' ?bi"
    using assms(2) string_in_kept [OF assms(1)] unfolding loader_data_def loader_command_line_def Let_def by blast
  ultimately show "loader_data R m' bootinfo es" using assms(2) bi by (simp add: loader_data_def)
qed

lemma loader_command_line_ends: "loader_data R m bootinfo es \<Longrightarrow> command_line_ends m bootinfo"
  by (auto simp: loader_data_def loader_command_line_def command_line_ends_def Let_def)

text \<open>The scan of the map and what it is good for.\<close>

lemma loader_region:
  assumes "loader_map R m bi es" "\<exists>x \<in> set es. 4194304 \<le> card (usable x)"
  obtains st n where "largest_region bi m = Some (Some (st, n))" "\<forall>x \<in> set es. card (usable x) \<le> unat n"
    "\<exists>x \<in> set es. usable x = bytes_of st (unat n) \<and> unat n \<le> unat (entry_len x)"
    "0 < unat st" "unat st + unat n < 18446744073709551616" "4194304 \<le> unat n"
proof -
  let ?a = "ucast (mmap_addr bi) + KVIRTUAL_ADDRESS" and ?e = "ucast (mmap_addr bi + mmap_length bi) + KVIRTUAL_ADDRESS"
  have laid: "mmap_laid m ?a es ?e" and fits: "\<forall>x \<in> set es. entry_fits x" and flag: "mb_flags bi AND MULTIBOOT_INFO_MEM_MAP \<noteq> 0"
    using assms(1) by (simp_all add: loader_map_def Let_def)
  obtain t st n where f: "fold scan_entry es (0, 0, 0) = (t, st, n)" by (cases "fold scan_entry es (0, 0, 0)")
  have "\<forall>x \<in> set es. card (usable x) \<le> unat n" and e: "n = 0 \<or> (\<exists>x \<in> set es. usable x = bytes_of st (unat n))"
    using fold_scan_best [OF f fits] by auto
  moreover from this assms(2) have n: "4194304 \<le> unat n" by fastforce
  moreover obtain x where x: "x \<in> set es" "usable x = bytes_of st (unat n)" using e n by force
  have "unat st \<in> usable x" "unat st + unat n - 1 \<in> usable x" using n by (simp_all add: x(2) bytes_of_def)
  then have "8388608 \<le> unat st" "unat st + unat n - 1 < unat (entry_addr x) + unat (entry_len x)"
    "unat (entry_addr x) \<le> unat st"
    by (auto simp: usable_def bytes_of_def split: if_splits)
  then have "0 < unat st" "unat st + unat n < 18446744073709551616" "unat n \<le> unat (entry_len x)"
    using fits x(1) n by (auto simp: entry_fits_def)
  moreover have "largest_region bi m = Some (Some (st, n))"
    using flag scan_mmap_laid [OF laid, of "(0, 0, 0)"] f by (simp add: largest_region_def)
  ultimately show thesis using that x by blast
qed

subsection \<open>The architecture object\<close>

lemma get_arch_machine:
  "ks_memory (snd (get_arch im ks)) = ks_memory (with_machine (machine_of (snd (get_arch im ks))) ks)"
  "machine_of (snd (get_arch im ks)) = map_kernel_memory (tables_memory (gdt_setup (stack_garbage im)
     (g_entries_address im) (idt_setup (entry_point im) (idt_ptr_address im) (i_entries_address im)
       \<lparr>tables_memory = (machine_of ks)\<lparr>placement := placement (machine_of ks) + 8\<rparr>,
         tables_trace = executed (ks_devices ks), idtr = ks_idtr ks, gdtr = ks_gdtr ks\<rparr>)))"
  by (simp_all add: get_arch_def placement_new_def placement_kalloc_eq Let_def sizeof_iarch_def amd64_new_def
      machine_of_def with_machine_def del: One_nat_def)

lemma setup_cells_bytes:
  assumes "writes_cells (cells_from a n) m m'" "unat a + 8 * n < 18446744073709551616" "bytes_of a (8 * n) \<subseteq> W"
  shows "same_bytes (\<lambda>x. unat x \<notin> W) m m'"
  by (rule writes_cells_bytes [OF assms(1)]) (use cells_from_bytes assms(2,3) in blast)

lemma descriptor_tables_bytes:
  fixes m0 :: machine and t :: cpu_tables
  assumes "t = gdt_setup u g (idt_setup ep ptr i \<lparr>tables_memory = m0, tables_trace = tr, idtr = ir, gdtr = gr\<rparr>)"
    and "unat i + 2064 < 18446744073709551616" "unat g + 56 < 18446744073709551616"
  shows "same_bytes (\<lambda>x. unat x \<notin> bytes_of i 2064 \<union> bytes_of g 56) m0 (tables_memory t)"
    "placement (tables_memory t) = placement m0" "cr3 (tables_memory t) = cr3 m0"
proof -
  let ?t1 = "idt_setup ep ptr i \<lparr>tables_memory = m0, tables_trace = tr, idtr = ir, gdtr = gr\<rparr>"
  have i: "writes_cells (cells_from i 258) m0 (tables_memory ?t1)"
    using idt_setup_cells [of i "\<lparr>tables_memory = m0, tables_trace = tr, idtr = ir, gdtr = gr\<rparr>" ep ptr] by simp
  have g: "writes_cells (cells_from g 7) (tables_memory ?t1) (tables_memory t)"
    unfolding assms(1) by (rule gdt_setup_cells)
  show "same_bytes (\<lambda>x. unat x \<notin> bytes_of i 2064 \<union> bytes_of g 56) m0 (tables_memory t)"
    by (rule same_bytes_trans [OF setup_cells_bytes [OF i] setup_cells_bytes [OF g]]) (use assms(2,3) in auto)
  show "placement (tables_memory t) = placement m0" "cr3 (tables_memory t) = cr3 m0"
    using i g by (simp_all add: writes_cells_def)
qed

lemma map_kernel_memory_bytes:
  assumes "boot_tables m p4 p3 p2 T" "unat p2 + 4096 < 18446744073709551616"
  shows "same_bytes (\<lambda>x. unat x \<notin> bytes_of p2 4096 \<union> bytes_of T 2097152) m (map_kernel_memory m)"
proof (rule writes_cells_bytes [OF map_kernel_memory_cells [OF assms(1)]])
  fix c assume "c \<in> cells_from p2 512 \<union> cells_from T (512 * 512)"
  moreover have "unat T + 8 * (512 * 512) < 18446744073709551616" using assms(1) by (simp add: boot_tables_def)
  ultimately show "bytes_of c 8 \<subseteq> bytes_of p2 4096 \<union> bytes_of T 2097152"
    using cells_from_bytes [of c p2 512] cells_from_bytes [of c T "512 * 512"] assms(2) by auto
qed

text \<open>Constructing the object writes the tables and nothing else, and leaves the gigabyte mapped.\<close>

lemma get_arch_bytes:
  assumes "boot_tables (machine_of ks) p4 p3 p2 T" "image_layout im p4 p3 p2 T q"
  shows "same_bytes (\<lambda>x. unat x \<notin> setup_bytes im p2 T) (machine_of ks) (machine_of (snd (get_arch im ks)))"
    and "fully_mapped (machine_of (snd (get_arch im ks))) p4 p3 p2 T"
    and "cr3 (machine_of (snd (get_arch im ks))) = cr3 (machine_of ks)"
    and "placement (machine_of (snd (get_arch im ks))) = placement (machine_of ks) + 8"
proof -
  let ?IG = "bytes_of (i_entries_address im) 2064 \<union> bytes_of (g_entries_address im) 56"
  let ?W = "setup_bytes im p2 T" and ?m' = "machine_of (snd (get_arch im ks))"
  note L = assms(2) [unfolded image_layout_def]
  define m0 where "m0 = (machine_of ks)\<lparr>placement := placement (machine_of ks) + 8\<rparr>"
  define t where "t = gdt_setup (stack_garbage im) (g_entries_address im) (idt_setup (entry_point im)
    (idt_ptr_address im) (i_entries_address im)
    \<lparr>tables_memory = m0, tables_trace = executed (ks_devices ks), idtr = ks_idtr ks, gdtr = ks_gdtr ks\<rparr>)"
  have m': "?m' = map_kernel_memory (tables_memory t)"
    unfolding get_arch_machine(2) t_def m0_def ..
  note D = descriptor_tables_bytes [OF t_def]
  have room: "unat (i_entries_address im) + 2064 < 18446744073709551616" "unat (g_entries_address im) + 56 < 18446744073709551616"
    using L u64_bound [of q] by simp_all
  have "unat p2 + 4095 \<in> table_bytes p4 p3 p2 T" by (simp add: table_bytes_def bytes_of_def)
  then have p2: "unat p2 + 4096 < 18446744073709551616" using L u64_bound [of q] by auto
  have same0: "same_bytes P (machine_of ks) m0" for P by (simp add: m0_def same_bytes_def byte_at_def)
  have same1: "same_bytes (\<lambda>x. unat x \<in> - ?IG) (machine_of ks) (tables_memory t)"
    using same_bytes_trans [OF same0 D(1) [OF room]] by simp
  have tables: "boot_tables (tables_memory t) p4 p3 p2 T"
    by (rule boot_tables_kept [OF same1 _ _ assms(1)]) (use D(3) [OF room] L in \<open>auto simp: m0_def\<close>)
  note M = map_kernel_memory_bytes [OF tables p2] map_kernel_memory_cells [OF tables]
  have "same_bytes (\<lambda>x. unat x \<notin> ?W) (machine_of ks) (tables_memory t)"
    by (rule same_bytes_mono [OF same1]) (simp add: setup_bytes_def)
  moreover have "same_bytes (\<lambda>x. unat x \<notin> ?W) (tables_memory t) ?m'"
    unfolding m' by (rule same_bytes_mono [OF M(1)]) (simp add: setup_bytes_def)
  ultimately show "same_bytes (\<lambda>x. unat x \<notin> ?W) (machine_of ks) ?m'" by (rule same_bytes_trans)
  show "fully_mapped ?m' p4 p3 p2 T"
    using map_kernel_memory_tables [OF tables] by (simp add: m' fully_mapped_def)
  show "cr3 ?m' = cr3 (machine_of ks)" "placement ?m' = placement (machine_of ks) + 8"
    using M(2) D(2,3) [OF room] by (simp_all add: m' writes_cells_def m0_def)
qed

subsection \<open>Memory management\<close>

lemma kept_below_bytes: "kept_below q m m' \<Longrightarrow> same_bytes (\<lambda>x. unat x \<in> {..<unat q}) m m'"
  unfolding same_bytes_def kept_below_def
proof (intro allI impI, elim conjE)
  fix x :: addr assume k: "\<forall>c. c < q \<longrightarrow> mem m' c = mem m c" and "unat x \<in> {..<unat q}"
  then have "cell_of x < q" using unat_cell_of [of x] by (simp add: wordnat)
  then show "byte_at m' x = byte_at m x" using k by (simp add: byte_at_def)
qed

text \<open>All the memory the boot works on lies in the gigabyte that is mapped at KVIRTUAL_ADDRESS: the image,
  the tables of the boot code, and above them the nodes of the frame list, 16 bytes for each frame of 4096.\<close>

definition gigabyte_end :: nat where
  "gigabyte_end = unat KVIRTUAL_ADDRESS + 0x40000000"

definition in_gigabyte :: "image \<Rightarrow> addr \<Rightarrow> addr \<Rightarrow> addr \<Rightarrow> addr \<Rightarrow> addr \<Rightarrow> mmap_entry list \<Rightarrow> bool" where
  "in_gigabyte im p4 p3 p2 T q es \<longleftrightarrow>
     (\<forall>a \<in> {i_entries_address im, g_entries_address im, idt_ptr_address im, stack_buffer im, p4, p3, p2, T, q}.
        KVIRTUAL_ADDRESS \<le> a \<and> unat a < gigabyte_end)
     \<and> (\<forall>x \<in> set es. unat q + unat (entry_len x) div 256 + 16392 \<le> gigabyte_end)"

text \<open>The state the boot starts from: the tables of the boot code, the loader's data in the gigabyte below
  the end of the image, a region of 4 MB or more, and room for the frame list above the image.\<close>

definition boot_start :: "image \<Rightarrow> addr \<Rightarrow> mmap_entry list \<Rightarrow> addr \<Rightarrow> addr \<Rightarrow> addr \<Rightarrow> addr \<Rightarrow> kernel_state \<Rightarrow> bool" where
  "boot_start im bootinfo es p4 p3 p2 T ks \<longleftrightarrow> (let q = placement (machine_of ks) in
     boot_tables (machine_of ks) p4 p3 p2 T \<and> image_layout im p4 p3 p2 T q
     \<and> loader_data ({unat KVIRTUAL_ADDRESS..<unat q} - setup_bytes im p2 T) (machine_of ks) bootinfo es
     \<and> (\<exists>x \<in> set es. 4194304 \<le> card (usable x))
     \<and> in_gigabyte im p4 p3 p2 T q es
     \<and> timer_guard (ks_devices ks) = 0 \<and> keyboard_guard (ks_devices ks) = 0
     \<and> g_kernel_heap (ks_memory ks) = 0)"

text \<open>The frames of the largest region are in the list, whose nodes lie above the image.\<close>

definition frames_ready :: "mmap_entry list \<Rightarrow> addr \<Rightarrow> memory_state \<Rightarrow> addr \<Rightarrow> u64 \<Rightarrow> addr \<Rightarrow> bool" where
  "frames_ready es q s st n a \<longleftrightarrow> (\<forall>x \<in> set es. card (usable x) \<le> unat n)
     \<and> (\<exists>x \<in> set es. usable x = bytes_of st (unat n))
     \<and> unat q \<le> unat a \<and> IS_ALIGNED a \<and> unat a + 16 * whole_pages st n + 16 < 18446744073709551616
     \<and> phys_pool (kmachine (world s), kphysical (world s)) (rev (frame_run (ALIGN_UP st) (whole_pages st n)))
     \<and> node_list (mem (kmachine (world s))) (free_list (kphysical (world s)))
          (rev (node_run (a + 16) (ALIGN_UP st) (whole_pages st n)))
     \<and> distinct (frame_run (ALIGN_UP st) (whole_pages st n)) \<and> (\<exists>x \<in> set es. unat n \<le> unat (entry_len x))
     \<and> unat q \<le> unat (placement (kmachine (world s)))
     \<and> unat (placement (kmachine (world s))) \<le> unat q + unat n div 256 + 8272"

lemma boot_memory:
  assumes "boot_start im bootinfo es p4 p3 p2 T ks"
  obtains s st n a where "bootable im bootinfo s ks" "fully_mapped (kmachine (world s)) p4 p3 p2 T"
    "cr3 (kmachine (world s)) = cr3 (machine_of ks)" "g_kernel_heap s = 0"
    "frames_ready es (placement (machine_of ks)) s st n a"
proof -
  let ?q = "placement (machine_of ks)" and ?k0 = "snd (get_arch im ks)"
  let ?R = "{unat KVIRTUAL_ADDRESS..<unat ?q} - setup_bytes im p2 T" and ?s0 = "ks_memory (snd (get_arch im ks))"
  let ?bi = "boot_info_at bootinfo ?k0"
  note S = assms [unfolded boot_start_def Let_def]
  have L: "image_layout im p4 p3 p2 T ?q" using S by simp
  note A = get_arch_bytes [OF S [THEN conjunct1] L]
  have q: "0 < unat ?q" "unat (stack_buffer im) + 66 \<le> unat ?q" using L by (simp_all add: image_layout_def)
  have mach: "kmachine (world ?s0) = machine_of ?k0" by (simp add: machine_of_def)
  have same: "same_bytes (\<lambda>x. unat x \<in> ?R) (machine_of ks) (machine_of ?k0)"
    by (rule same_bytes_mono [OF A(1)]) simp
  have data: "loader_data ?R (machine_of ?k0) bootinfo es"
    by (rule loader_data_kept [OF same]) (use S in simp)
  then have map: "loader_map ?R (machine_of ?k0) ?bi es" by (simp add: loader_data_def boot_info_at_def)
  have big: "\<exists>x \<in> set es. 4194304 \<le> card (usable x)" using S by simp
  obtain st n where r: "largest_region ?bi (machine_of ?k0) = Some (Some (st, n))"
    "\<forall>x \<in> set es. card (usable x) \<le> unat n"
    "\<exists>x \<in> set es. usable x = bytes_of st (unat n) \<and> unat n \<le> unat (entry_len x)"
    "0 < unat st" "unat st + unat n < 18446744073709551616" "4194304 \<le> unat n"
    using map big by (rule loader_region)
  obtain x where x: "x \<in> set es" "unat n \<le> unat (entry_len x)" using r(3) by blast
  have "in_gigabyte im p4 p3 p2 T ?q es" using S by simp
  then have "unat ?q + unat (entry_len x) div 256 + 16392 \<le> gigabyte_end" using x(1) by (simp add: in_gigabyte_def)
  then have "unat ?q + unat (entry_len x) div 256 + 16392 < 18446744073709551616"
    by (simp add: gigabyte_end_def KVIRTUAL_ADDRESS_def)
  then have room: "unat ?q + unat n div 256 + 16392 < 18446744073709551616"
    using div_le_mono [OF x(2), of 256] by linarith
  then have q8: "unat (?q + 8) = unat ?q + 8" by (simp add: unat_add_nowrap)
  have br: "boot_room n ?s0" using room q q8 by (simp add: boot_room_def headroom_def mach A(4))
  have h: "g_kernel_heap ?s0 = 0" using S get_arch_machine(1) [of im ks] by (simp add: with_machine_def)
  note B = boot_nodes_bounds [OF br]
  obtain s where s: "initialize_memory ?bi ?s0 = Some s"
    "phys_pool (kmachine (world s), kphysical (world s)) (rev (frame_run (ALIGN_UP st) (whole_pages st n)))"
    "node_list (mem (kmachine (world s))) (free_list (kphysical (world s)))
       (rev (node_run (boot_nodes ?s0) (ALIGN_UP st) (whole_pages st n)))"
    "kept_below (placement (kmachine (world ?s0))) (kmachine (world ?s0)) (kmachine (world s))"
    "unat (placement (kmachine (world ?s0))) \<le> unat (placement (kmachine (world s)))"
    "unat (placement (kmachine (world s))) \<le> unat (placement (kmachine (world ?s0))) + unat n div 256 + 8264"
    by (rule initialize_memory_result [OF r(1) [folded mach] r(4-6) br h]) blast
  have below: "same_bytes (\<lambda>x. unat x \<in> {..<unat ?q}) (machine_of ?k0) (kmachine (world s))"
    by (rule same_bytes_mono [OF kept_below_bytes [OF s(4) [unfolded mach]]]) (simp add: A(4) q8)
  have "loader_data ?R (kmachine (world s)) bootinfo es"
    by (rule loader_data_kept [OF same_bytes_mono [OF below] data]) auto
  then have "command_line_ends (kmachine (world s)) bootinfo" by (rule loader_command_line_ends)
  then have 1: "bootable im bootinfo s ks" using S q s(1) by (auto simp: bootable_def)
  have c: "cr3 (kmachine (world s)) = cr3 (machine_of ?k0)" using s(4) by (simp add: kept_below_def mach)
  have 2: "fully_mapped (kmachine (world s)) p4 p3 p2 T"
    by (rule fully_mapped_kept [OF below c _ A(2)]) (use L in \<open>simp add: image_layout_def\<close>)
  have 3: "g_kernel_heap s = 0"
    using h s(1) initialize_memory_heap by blast
  have n4: "4096 \<le> unat n" using r(6) by simp
  have bn: "boot_nodes ?s0 = ALIGN_UP (?q + 8) + 16" by (simp add: boot_nodes_def mach A(4))
  have dis: "distinct (frame_run (ALIGN_UP st) (whole_pages st n))"
    using whole_pages_cover(1) [OF r(5) n4 pages_ordered [OF r(5) n4]] u64_bound [of "ALIGN_DOWN (st + n)"]
    by (intro distinct_frame_run) simp
  have "frames_ready es ?q s st n (ALIGN_UP (?q + 8))"
    using dis r(2,3) B s(2,5,6) s(3) [unfolded bn] whole_pages_cover(4) [OF r(5) n4 pages_ordered [OF r(5) n4]]
    by (auto simp: frames_ready_def mach A(4) q8)
  then show thesis using that 1 2 3 c A(3) by simp
qed

subsection \<open>After the boot\<close>

lemma writes_only_bytes:
  assumes "writes_only b n m m'" "unat b + n \<le> 18446744073709551616"
  shows "same_bytes (\<lambda>x. unat x \<notin> bytes_of b n) m m'"
  unfolding same_bytes_def
proof (intro allI impI)
  fix x :: addr assume x: "unat x \<notin> bytes_of b n"
  have "n \<le> unat (x - b)"
  proof (cases "b \<le> x")
    case True
    then show ?thesis using x by (intro unat_beside) (auto simp: bytes_of_def wordnat)
  next
    case False
    then show ?thesis using assms(2) by (intro unat_before) simp_all
  qed
  then show "byte_at m' x = byte_at m x" using assms(1) by (simp add: writes_only_def same_bytes_def)
qed

lemma frames_ready_kept:
  assumes "frames_ready es q s st n a" "same_bytes (\<lambda>x. unat x \<in> {unat q..}) (kmachine (world s)) m'"
    "placement m' = placement (kmachine (world s))"
  shows "phys_pool (m', kphysical (world s)) (rev (frame_run (ALIGN_UP st) (whole_pages st n)))"
    and "node_list (mem m') (free_list (kphysical (world s))) (rev (node_run (a + 16) (ALIGN_UP st) (whole_pages st n)))"
proof -
  let ?k = "whole_pages st n" and ?m = "kmachine (world s)"
  note F = assms(1) [unfolded frames_ready_def]
  have pool: "phys_pool (?m, kphysical (world s)) (rev (frame_run (ALIGN_UP st) ?k))"
    and nodes: "node_list (mem ?m) (free_list (kphysical (world s))) (rev (node_run (a + 16) (ALIGN_UP st) ?k))"
    using F by simp_all
  have cell: "mem m' (a + 8 * of_nat j) = mem ?m (a + 8 * of_nat j)" if "j < 2 * ?k + 2" for j
    by (rule aligned_cell_kept [OF assms(2) _ _ _ that]) (use F in \<open>auto simp: bytes_of_def\<close>)
  have "mem m' (a + 16 + word_of_nat (16 * i)) = mem ?m (a + 16 + word_of_nat (16 * i))
      \<and> mem m' (a + 16 + word_of_nat (16 * i) + 8) = mem ?m (a + 16 + word_of_nat (16 * i) + 8)" if "i < ?k" for i
    using cell [of "2 * i + 2"] cell [of "2 * i + 3"] that by (simp add: algebra_simps)
  then have c: "\<forall>(q, f) \<in> set (rev (node_run (a + 16) (ALIGN_UP st) ?k)). mem m' q = mem ?m q \<and> mem m' (q + 8) = mem ?m (q + 8)"
    by (auto simp: node_run_def)
  show "phys_pool (m', kphysical (world s)) (rev (frame_run (ALIGN_UP st) ?k))"
    by (rule phys_pool_kept [OF pool nodes assms(3) c])
  show "node_list (mem m') (free_list (kphysical (world s))) (rev (node_run (a + 16) (ALIGN_UP st) ?k))"
    using node_list_cong [OF c] nodes by blast
qed

text \<open>The list as the booted kernel has it: its nodes lie above the image, below the bump pointer.\<close>

definition frames_listed :: "mmap_entry list \<Rightarrow> addr \<Rightarrow> addr \<Rightarrow> u64 \<Rightarrow> kernel_state \<Rightarrow> bool" where
  "frames_listed es q st n ks \<longleftrightarrow> distinct (frame_run (ALIGN_UP st) (whole_pages st n))
     \<and> (\<exists>x \<in> set es. unat n \<le> unat (entry_len x)) \<and> unat q \<le> unat (placement (machine_of ks))
     \<and> unat (placement (machine_of ks)) \<le> unat q + unat n div 256 + 8272
     \<and> (\<exists>xs. node_list (mem (machine_of ks)) (free_list (kphysical (world (ks_memory ks)))) xs
          \<and> map snd xs = rev (frame_run (ALIGN_UP st) (whole_pages st n))
          \<and> (\<forall>x \<in> set xs. q \<le> fst x))"

lemma map_snd_node_run: "map snd (node_run a b n) = frame_run b n"
  by (simp add: node_run_def frame_run_def comp_def)

lemma node_run_above:
  assumes "unat a + 16 * n < 18446744073709551616" "x \<in> set (node_run a b n)"
  shows "a \<le> fst x"
proof -
  obtain i where i: "i < n" "fst x = a + word_of_nat (16 * i)" using assms(2) by (auto simp: node_run_def)
  then have "unat (fst x) = unat a + 16 * i" using assms(1) unat_add_small [of a "16 * i"] by simp
  then show ?thesis by (simp add: wordnat)
qed

lemma boot_result:
  assumes "boot_start im bootinfo es p4 p3 p2 T ks"
  obtains ks' st n where "kmain 1 hw im bootinfo MULTIBOOT_BOOTLOADER_MAGIC ks = Some ks'"
    "shown ks'" "drivers_ready (ks_devices ks')"
    "ks_idtr ks' = (1023, i_entries_address im)" "ks_gdtr ks' = (55, g_entries_address im)"
    "g_kernel_heap (ks_memory ks') = 0" "cr3 (machine_of ks') = cr3 (machine_of ks)"
    "fully_mapped (machine_of ks') p4 p3 p2 T"
    "\<forall>x \<in> set es. card (usable x) \<le> unat n" "\<exists>x \<in> set es. usable x = bytes_of st (unat n)"
    "phys_pool (machine_of ks', kphysical (world (ks_memory ks'))) (rev (frame_run (ALIGN_UP st) (whole_pages st n)))"
    "frames_listed es (placement (machine_of ks)) st n ks'"
proof -
  let ?q = "placement (machine_of ks)"
  have L: "image_layout im p4 p3 p2 T ?q" using assms by (simp add: boot_start_def Let_def)
  obtain s st n a where s: "bootable im bootinfo s ks" "fully_mapped (kmachine (world s)) p4 p3 p2 T"
    "cr3 (kmachine (world s)) = cr3 (machine_of ks)" "g_kernel_heap s = 0" "frames_ready es ?q s st n a"
    using assms by (rule boot_memory)
  obtain ks' where k: "kmain 1 hw im bootinfo MULTIBOOT_BOOTLOADER_MAGIC ks = Some ks'" "shown ks'"
    "drivers_ready (ks_devices ks')" "ks_idtr ks' = (1023, i_entries_address im)" "ks_gdtr ks' = (55, g_entries_address im)"
    "writes_only (stack_buffer im) 66 (kmachine (world s)) (machine_of ks')"
    "ks_memory ks' = s\<lparr>world := (world s)\<lparr>kmachine := machine_of ks'\<rparr>\<rparr>"
    using s(1) by (rule kmain_result)
  have B: "same_bytes (\<lambda>x. unat x \<notin> bytes_of (stack_buffer im) 66) (kmachine (world s)) (machine_of ks')"
    using L u64_bound [of ?q] by (intro writes_only_bytes [OF k(6)]) (simp add: image_layout_def)
  have "same_bytes (\<lambda>x. unat x \<in> - bytes_of (stack_buffer im) 66) (kmachine (world s)) (machine_of ks')"
    using B by simp
  then have "fully_mapped (machine_of ks') p4 p3 p2 T"
    by (rule fully_mapped_kept) (use k(6) s(2) L in \<open>auto simp: writes_only_def image_layout_def\<close>)
  moreover
  have pl: "placement (machine_of ks') = placement (kmachine (world s))" using k(6) by (simp add: writes_only_def)
  have "same_bytes (\<lambda>x. unat x \<in> {unat ?q..}) (kmachine (world s)) (machine_of ks')"
    by (rule same_bytes_mono [OF B]) (use L in \<open>auto simp: image_layout_def bytes_of_def\<close>)
  note P = frames_ready_kept [OF s(5) this pl] and F = s(5) [unfolded frames_ready_def]
  have "phys_pool (machine_of ks', kphysical (world s)) (rev (frame_run (ALIGN_UP st) (whole_pages st n)))"
    by (rule P(1))
  moreover have "frames_listed es ?q st n ks'"
  proof -
    have a: "unat (a + 16) = unat a + 16" "unat ?q \<le> unat a" "unat a + 16 * whole_pages st n + 16 < 18446744073709551616"
      using F by (simp_all add: unat_add_nowrap)
    have "?q \<le> fst x" if "x \<in> set (rev (node_run (a + 16) (ALIGN_UP st) (whole_pages st n)))" for x
      using node_run_above [of "a + 16" "whole_pages st n" x "ALIGN_UP st"] that a by (simp add: wordnat)
    then have "\<exists>xs. node_list (mem (machine_of ks')) (free_list (kphysical (world s))) xs
        \<and> map snd xs = rev (frame_run (ALIGN_UP st) (whole_pages st n)) \<and> (\<forall>x \<in> set xs. ?q \<le> fst x)"
      using P(2) by (intro exI [of _ "rev (node_run (a + 16) (ALIGN_UP st) (whole_pages st n))"])
        (simp add: rev_map [symmetric] map_snd_node_run)
    then show ?thesis using F by (simp add: frames_listed_def k(7) pl)
  qed
  moreover have "cr3 (machine_of ks') = cr3 (machine_of ks)" using k(6) s(3) by (simp add: writes_only_def)
  moreover have "g_kernel_heap (ks_memory ks') = 0" "kphysical (world (ks_memory ks')) = kphysical (world s)"
    using s(4) by (simp_all add: k(7))
  moreover have "\<forall>x \<in> set es. card (usable x) \<le> unat n" "\<exists>x \<in> set es. usable x = bytes_of st (unat n)"
    using s(5) unfolding frames_ready_def by blast+
  ultimately show thesis using that [OF k(1-5), of n st] by simp
qed

subsection \<open>Properties\<close>

text \<open>C19. From the state the boot code leaves, \<^verbatim>\<open>kmain\<close> runs to its end when the boot loader
  reports a region of 4 MB or more and the image, the loader's data and the nodes of the frame list fit
  into the gigabyte from \<open>KVIRTUAL_ADDRESS\<close>. Then the frame allocator holds exactly the whole
  frames of the largest region, the gigabyte is mapped linearly and boot memory has not grown out of it,
  the processor has the two descriptor tables, both drivers are registered, the timer object with a
  frequency field of 100 (its channel is not programmed, see \<open>timer_command_selects_channel_1\<close>), and the
  cursor is on the screen.\<close>

theorem kernel_boots:
  assumes "boot_start im bootinfo es p4 p3 p2 T ks"
  shows "\<exists>ks' st n. kmain 1 hw im bootinfo MULTIBOOT_BOOTLOADER_MAGIC ks = Some ks'
    \<and> (\<forall>x \<in> set es. card (usable x) \<le> unat n) \<and> (\<exists>x \<in> set es. usable x = bytes_of st (unat n))
    \<and> phys_pool (machine_of ks', kphysical (world (ks_memory ks'))) (rev (frame_run (ALIGN_UP st) (whole_pages st n)))
    \<and> (\<forall>v. KVIRTUAL_ADDRESS \<le> v \<and> v - KVIRTUAL_ADDRESS < 0x40000000 \<longrightarrow>
        translate (machine_of ks') (cr3 (machine_of ks')) v = Some (ALIGN_DOWN (kvirt_to_physical v) + 7))
    \<and> unat (placement (machine_of ks')) \<le> unat KVIRTUAL_ADDRESS + 0x40000000
    \<and> ks_idtr ks' = (1023, i_entries_address im) \<and> ks_gdtr ks' = (55, g_entries_address im)
    \<and> timer_handler_p (ks_devices ks') \<and> keyboard_handler_p (ks_devices ks')
    \<and> timer_instance (ks_devices ks') = \<lparr>frequency = 100, ticks = 0\<rparr> \<and> on_screen (video (ks_devices ks'))"
proof -
  obtain ks' st n where k: "kmain 1 hw im bootinfo MULTIBOOT_BOOTLOADER_MAGIC ks = Some ks'"
    "shown ks'" "drivers_ready (ks_devices ks')"
    "ks_idtr ks' = (1023, i_entries_address im)" "ks_gdtr ks' = (55, g_entries_address im)"
    "g_kernel_heap (ks_memory ks') = 0" "cr3 (machine_of ks') = cr3 (machine_of ks)"
    "fully_mapped (machine_of ks') p4 p3 p2 T"
    "\<forall>x \<in> set es. card (usable x) \<le> unat n" "\<exists>x \<in> set es. usable x = bytes_of st (unat n)"
    "phys_pool (machine_of ks', kphysical (world (ks_memory ks'))) (rev (frame_run (ALIGN_UP st) (whole_pages st n)))"
    "frames_listed es (placement (machine_of ks)) st n ks'"
    using assms by (rule boot_result)
  obtain x where x: "x \<in> set es" "unat n \<le> unat (entry_len x)"
    "unat (placement (machine_of ks')) \<le> unat (placement (machine_of ks)) + unat n div 256 + 8272"
    using k(12) by (auto simp: frames_listed_def)
  have "in_gigabyte im p4 p3 p2 T (placement (machine_of ks)) es" using assms by (simp add: boot_start_def Let_def)
  then have "unat (placement (machine_of ks)) + unat (entry_len x) div 256 + 16392 \<le> unat KVIRTUAL_ADDRESS + 0x40000000"
    using x(1) unfolding in_gigabyte_def gigabyte_end_def by blast
  then have "unat (placement (machine_of ks')) \<le> unat KVIRTUAL_ADDRESS + 0x40000000"
    using x(3) div_le_mono [OF x(2), of 256] by linarith
  moreover have "\<forall>v. KVIRTUAL_ADDRESS \<le> v \<and> v - KVIRTUAL_ADDRESS < 0x40000000 \<longrightarrow>
      translate (machine_of ks') (cr3 (machine_of ks')) v = Some (ALIGN_DOWN (kvirt_to_physical v) + 7)"
    using fully_mapped_translate [OF k(8)] by blast
  ultimately show ?thesis using k unfolding drivers_ready_def shown_def by blast
qed

text \<open>C20. The booted kernel responds: whatever run of interrupts follows the boot, with one keyboard
  interrupt for each scan code the controller delivers, when all codes are key releases or below 91, the
  length of the character tables (for others see \<open>keyboard_reads_past_table\<close>), the timer has counted its interrupts and
  the rows of the screen are those of a terminal on which the typed characters were put, in
  order, after the output of the boot.\<close>

theorem booted_kernel_responds:
  assumes "bootable im bootinfo s ks" and "kmain 1 hw im bootinfo MULTIBOOT_BOOTLOADER_MAGIC ks = Some ks'"
    and "delivers hw (data_reads (executed (ks_devices ks'))) codes"
    and "\<forall>c \<in> set codes. c AND 0x80 \<noteq> 0 \<or> unat c < 91"
    and "length (filter keyboard_interrupt is) = length codes"
  shows "\<exists>d'. interrupts hw is (ks_devices ks') = Some d'
    \<and> ticks (timer_instance d') = of_nat (length (filter (\<lambda>i. int_no i = 0x20) is))
    \<and> terminal_of (video d') = foldl (\<lambda>t c. put_char c t) (terminal_of (video (ks_devices ks'))) (typed False codes)"
proof -
  let ?d = "ks_devices ks'"
  have ready: "drivers_ready ?d" and screen: "on_screen (video ?d)"
    using kmain_result [OF assms(1), of hw] assms(2) by (force simp: shown_def)+
  then obtain d' where d': "interrupts hw is ?d = Some d'"
    "video d' = foldl (\<lambda>s c. printc c s) (video ?d) (typed False codes)"
    using typing_run [OF assms(3-5)] by (auto simp: drivers_ready_def)
  moreover have "ticks (timer_instance d') = of_nat (length (filter (\<lambda>i. int_no i = 0x20) is))"
    using ticks_run [OF d'(1)] ready by (simp add: drivers_ready_def)
  ultimately show ?thesis using screen.puts [OF screen, of "typed False codes"] by simp
qed

subsection \<open>A machine with 3 GB\<close>

lemma loaded_same: "same_bytes (\<lambda>x. unat x \<in> table_bytes B4 B3 B2 B1) boot_paging loaded_machine"
proof -
  let ?m = "write_boot_info 0xffffffff80300000 loaded_info boot_paging"
  have n: "mmap_bytes boot_entries = 48" by (simp add: boot_entries_def mmap_bytes_def)
  have "same_bytes (\<lambda>x. unat x \<in> table_bytes B4 B3 B2 B1) boot_paging ?m"
  proof (rule same_bytes_mono [OF write_boot_info_beside])
    fix x :: addr assume "unat x \<in> table_bytes B4 B3 B2 B1"
    then have "unat x < 0xffffffff80300000" by (auto simp: table_bytes_def bytes_of_def)
    then show "120 \<le> unat (x - 0xffffffff80300000)" by (intro unat_before) (simp_all add: wordnat)
  qed
  moreover have "same_bytes (\<lambda>x. unat x \<in> table_bytes B4 B3 B2 B1) ?m loaded_machine"
    unfolding loaded_machine_def
    by (rule same_bytes_mono [OF write_mmap_beside])
      (auto simp: n table_bytes_def bytes_of_def, auto simp: boot_entries_def)
  ultimately show ?thesis by (rule same_bytes_trans)
qed

lemma loaded_record: "read_boot_info loaded_machine 0xffffffff80300000 = loaded_info"
proof -
  let ?m = "write_boot_info 0xffffffff80300000 loaded_info boot_paging"
  have n: "mmap_bytes boot_entries = 48" by (simp add: boot_entries_def mmap_bytes_def)
  have "same_bytes (\<lambda>x. unat x \<in> {..<0xffffffff80310000}) ?m loaded_machine"
    unfolding loaded_machine_def
    by (rule same_bytes_mono [OF write_mmap_beside]) (simp_all add: n, auto simp: boot_entries_def)
  then have "read_boot_info loaded_machine 0xffffffff80300000 = read_boot_info ?m 0xffffffff80300000"
    by (rule read_boot_info_kept) (auto simp: bytes_of_def)
  then show ?thesis by (simp add: read_write_boot_info)
qed

lemma sample_boot_start: "boot_start sample_image 0xffffffff80300000 boot_entries B4 B3 B2 B1 sample_start"
proof -
  have m: "machine_of sample_start = loaded_machine" by (simp add: machine_of_def sample_start_def)
  have n: "mmap_bytes boot_entries = 48" by (simp add: boot_entries_def mmap_bytes_def)
  have tables: "boot_tables loaded_machine B4 B3 B2 B1"
    by (rule boot_tables_kept [OF loaded_same _ subset_refl boot_paging_tables]) (simp add: boot_paging_def)
  have layout: "image_layout sample_image B4 B3 B2 B1 (placement loaded_machine)"
    by (auto simp: image_layout_def sample_image_def table_bytes_def bytes_of_def)
  have fits: "\<forall>x \<in> set boot_entries. 20 \<le> unat (entry_size x) \<and> entry_fits x"
    by (simp add: boot_entries_def entry_fits_def)
  have "mmap_laid loaded_machine 0xffffffff80310000 boot_entries (0xffffffff80310000 + word_of_nat 48)"
    using write_mmap_laid [of "0xffffffff80310000" boot_entries] fits by (simp add: loaded_machine_def n)
  then have "loader_map ({unat KVIRTUAL_ADDRESS..<unat (placement loaded_machine)} - setup_bytes sample_image B2 B1) loaded_machine loaded_info boot_entries"
    using fits
    by (auto simp: loader_map_def loaded_info_def n KVIRTUAL_ADDRESS_def MULTIBOOT_INFO_MEM_MAP_def setup_bytes_def
        bytes_of_def sample_image_def)
  then have data: "loader_data ({unat KVIRTUAL_ADDRESS..<unat (placement loaded_machine)} - setup_bytes sample_image B2 B1) loaded_machine
      0xffffffff80300000 boot_entries"
    by (auto simp: loader_data_def loaded_record loader_command_line_def KVIRTUAL_ADDRESS_def loaded_info_def MULTIBOOT_INFO_CMDLINE_def
        setup_bytes_def bytes_of_def sample_image_def)
  have "usable (boot_entries ! 1) = {8388608 ..< 3221225472}"
    by (auto simp: boot_entries_def usable_def available_def MULTIBOOT_MEMORY_AVAILABLE_def bytes_of_def)
  then have "\<exists>x \<in> set boot_entries. 4194304 \<le> card (usable x)"
    by (intro bexI [of _ "boot_entries ! 1"]) (simp_all add: boot_entries_def)
  moreover have "in_gigabyte sample_image B4 B3 B2 B1 (placement loaded_machine) boot_entries"
    by (simp add: in_gigabyte_def gigabyte_end_def KVIRTUAL_ADDRESS_def sample_image_def boot_entries_def)
  ultimately show ?thesis
    using tables layout data
    by (simp add: boot_start_def m) (simp add: sample_start_def blank_devices_def keyboard_devices_def boot_state_def)
qed

theorem kernel_boots_witness:
  "\<exists>ks' st n. kmain 1 (typing_hardware []) sample_image 0xffffffff80300000 MULTIBOOT_BOOTLOADER_MAGIC sample_start = Some ks'
    \<and> (\<forall>x \<in> set boot_entries. card (usable x) \<le> unat n)
    \<and> phys_pool (machine_of ks', kphysical (world (ks_memory ks'))) (rev (frame_run (ALIGN_UP st) (whole_pages st n)))
    \<and> timer_handler_p (ks_devices ks')"
  using kernel_boots [OF sample_boot_start, of "typing_hardware []"] by blast

text \<open>A keyboard on which the key A is pressed all the time.\<close>

definition held_key :: hardware where
  "held_key = \<lparr>port8 = (\<lambda>tr p. if p = 0x64 then 1 else if p = 0x60 then 0x1e else 0),
     port16 = (\<lambda>tr p. 0xffff), port32 = (\<lambda>tr p. 0), msr = (\<lambda>tr r. (0, 0))\<rparr>"

theorem booted_kernel_responds_witness:
  "\<exists>ks' d'. kmain 1 held_key sample_image 0xffffffff80300000 MULTIBOOT_BOOTLOADER_MAGIC sample_start = Some ks'
    \<and> interrupts held_key [irq 0x20, keyboard_irq, irq 0x20, keyboard_irq] (ks_devices ks') = Some d'
    \<and> ticks (timer_instance d') = 2
    \<and> terminal_of (video d') = put_char 0x61 (put_char 0x61 (terminal_of (video (ks_devices ks'))))"
proof -
  let ?is = "[irq 0x20, keyboard_irq, irq 0x20, keyboard_irq]"
  obtain s where b: "bootable sample_image 0xffffffff80300000 s sample_start"
    using sample_boot_start by (rule boot_memory)
  obtain ks' where k: "kmain 1 held_key sample_image 0xffffffff80300000 MULTIBOOT_BOOTLOADER_MAGIC sample_start = Some ks'"
    using b by (rule kmain_result)
  have e: "en_US ! 0x1e = 0x61" by (simp add: en_US_def KEY_CODES_def)
  have "delivers held_key n [0x1e, 0x1e]" for n
    by (simp add: delivers_def held_key_def less_Suc_eq)
  moreover have "length (filter keyboard_interrupt ?is) = length [0x1e :: u8, 0x1e]"
    by (simp add: keyboard_interrupt_def irq_def keyboard_irq_def)
  ultimately have "\<exists>d'. interrupts held_key ?is (ks_devices ks') = Some d'
    \<and> ticks (timer_instance d') = of_nat (length (filter (\<lambda>i. int_no i = 0x20) ?is))
    \<and> terminal_of (video d') = foldl (\<lambda>t c. put_char c t) (terminal_of (video (ks_devices ks'))) (typed False [0x1e, 0x1e])"
    by (intro booted_kernel_responds [OF b k]) simp_all
  then show ?thesis using k by (simp add: e irq_def keyboard_irq_def)
qed

end
