(* ===== verification/User_Heap.thy ===== *)
theory User_Heap
  imports Manager
begin

text \<open>
  The user-space heap and the memory of a process: \<^verbatim>\<open>memory/user_allocator.hpp\<close> and
  \<^verbatim>\<open>memory/user_allocator.cpp\<close>. The record \<open>user_space\<close> is the kernel's memory state
  together with the headers of the user blocks, keyed by the header's address as in the kernel heap; the
  process's page directory is the active one while its heap is used. The global
  \<^verbatim>\<open>g_physical_manager\<close> is the frame manager of that memory state.
\<close>

subsection \<open>Layout constants\<close>

definition USER_NULL_GUARD_SIZE :: addr where
  "USER_NULL_GUARD_SIZE = 0x400000"

definition USER_HEAP_START_ADDR :: addr where
  "USER_HEAP_START_ADDR = 0x08000000"

definition USER_HEAP_MAX_ADDR :: addr where
  "USER_HEAP_MAX_ADDR = 0x40000000"

definition PROCESS_STACK_TOP :: addr where
  "PROCESS_STACK_TOP = 0x7FFF0000"

definition USER_HEAP_INITIAL_SIZE :: u64 where
  "USER_HEAP_INITIAL_SIZE = MB 1"

definition USER_CODE_START :: addr where
  "USER_CODE_START = 0x400000"

definition USER_DATA_MAX :: addr where
  "USER_DATA_MAX = 0x08000000"

definition USER_MMAP_START :: addr where
  "USER_MMAP_START = 0x40000000"

definition USER_MMAP_MAX :: addr where
  "USER_MMAP_MAX = 0x70000000"

definition PROCESS_STACK_SIZE :: u64 where
  "PROCESS_STACK_SIZE = MB 8"

definition get_user_code_start :: addr where
  "get_user_code_start = USER_CODE_START"

definition get_user_heap_start :: addr where
  "get_user_heap_start = USER_HEAP_START_ADDR"

definition get_user_heap_max :: addr where
  "get_user_heap_max = USER_HEAP_MAX_ADDR"

definition get_user_mmap_start :: addr where
  "get_user_mmap_start = USER_MMAP_START"

definition get_user_stack_top :: addr where
  "get_user_stack_top = PROCESS_STACK_TOP"

text \<open>The regions follow each other, each below the next, and a stack of the default size ends above
  the last of them.\<close>

lemma user_regions_ordered:
  "USER_NULL_GUARD_SIZE \<le> get_user_code_start" "get_user_code_start < USER_DATA_MAX" "USER_DATA_MAX \<le> get_user_heap_start"
  "get_user_heap_start + USER_HEAP_INITIAL_SIZE < get_user_heap_max" "get_user_heap_max \<le> get_user_mmap_start"
  "get_user_mmap_start < USER_MMAP_MAX" "USER_MMAP_MAX + PROCESS_STACK_SIZE \<le> get_user_stack_top"
  by (simp_all add: USER_NULL_GUARD_SIZE_def USER_CODE_START_def USER_DATA_MAX_def USER_HEAP_START_ADDR_def
      USER_HEAP_INITIAL_SIZE_def USER_HEAP_MAX_ADDR_def USER_MMAP_START_def USER_MMAP_MAX_def PROCESS_STACK_SIZE_def
      PROCESS_STACK_TOP_def get_user_code_start_def get_user_heap_start_def get_user_heap_max_def
      get_user_mmap_start_def get_user_stack_top_def size_literals)

subsection \<open>Block headers\<close>

record user_block =
  ublock_size :: u32
  ublock_flags :: u32
  unext :: addr
  uprev :: addr

definition FLAG_FREE :: u32 where
  "FLAG_FREE = 0x01"

definition MAGIC_MASK :: u32 where
  "MAGIC_MASK = 0xFF000000"

definition USER_MAGIC_FREE :: u32 where
  "USER_MAGIC_FREE = 0xAA000000"

definition USER_MAGIC_USED :: u32 where
  "USER_MAGIC_USED = 0x55000000"

definition sizeof_user_block :: u64 where
  "sizeof_user_block = 24"

definition new_user_block :: "u32 \<Rightarrow> bool \<Rightarrow> user_block" where
  "new_user_block sz free =
     (let flags = (if free then FLAG_FREE else 0);
          flags = flags OR (if free then USER_MAGIC_FREE else USER_MAGIC_USED)
      in \<lparr>ublock_size = sz, ublock_flags = flags, unext = 0, uprev = 0\<rparr>)"

definition ublock_free :: "user_block \<Rightarrow> bool" where
  "ublock_free ub \<longleftrightarrow> ublock_flags ub AND FLAG_FREE \<noteq> 0"

definition set_free :: "bool \<Rightarrow> user_block \<Rightarrow> user_block" where
  "set_free free ub =
     (let flags = (ublock_flags ub AND NOT (FLAG_FREE OR MAGIC_MASK)) OR (if free then FLAG_FREE else 0);
          flags = flags OR (if free then USER_MAGIC_FREE else USER_MAGIC_USED)
      in ub\<lparr>ublock_flags := flags\<rparr>)"

definition ublock_valid :: "user_block \<Rightarrow> bool" where
  "ublock_valid ub \<longleftrightarrow>
     (let m = ublock_flags ub AND MAGIC_MASK in m = USER_MAGIC_FREE \<or> m = USER_MAGIC_USED)"

definition user_data :: "addr \<Rightarrow> addr" where
  "user_data b = b + sizeof_user_block"

definition user_from_data :: "addr \<Rightarrow> addr" where
  "user_from_data p = p - sizeof_user_block"

subsection \<open>State\<close>

record user_space =
  kstate :: memory_state
  user_headers :: "addr \<Rightarrow> user_block"

record user_allocator =
  uheap_start :: addr
  uheap_current :: addr
  uheap_limit :: addr
  ufirst_block :: addr
  upage_directory :: addr
  utotal_allocated :: u32
  num_blocks :: u32

definition umachine :: "user_space \<Rightarrow> machine" where
  "umachine u = kmachine (world (kstate u))"

definition uphysical :: "user_space \<Rightarrow> physical" where
  "uphysical u = kphysical (world (kstate u))"

definition set_umachine :: "machine \<Rightarrow> user_space \<Rightarrow> user_space" where
  "set_umachine m u = u\<lparr>kstate := (kstate u)\<lparr>world := (world (kstate u))\<lparr>kmachine := m\<rparr>\<rparr>\<rparr>"

definition set_uphysical :: "physical \<Rightarrow> user_space \<Rightarrow> user_space" where
  "set_uphysical p u = u\<lparr>kstate := (kstate u)\<lparr>world := (world (kstate u))\<lparr>kphysical := p\<rparr>\<rparr>\<rparr>"

definition put_user :: "addr \<Rightarrow> user_block \<Rightarrow> user_space \<Rightarrow> user_space" where
  "put_user b ub u = u\<lparr>user_headers := (user_headers u)(b := ub)\<rparr>"

definition uset_size :: "addr \<Rightarrow> u32 \<Rightarrow> user_space \<Rightarrow> user_space" where
  "uset_size b x u = put_user b ((user_headers u b)\<lparr>ublock_size := x\<rparr>) u"

definition uset_next :: "addr \<Rightarrow> addr \<Rightarrow> user_space \<Rightarrow> user_space" where
  "uset_next b x u = put_user b ((user_headers u b)\<lparr>unext := x\<rparr>) u"

definition uset_prev :: "addr \<Rightarrow> addr \<Rightarrow> user_space \<Rightarrow> user_space" where
  "uset_prev b x u = put_user b ((user_headers u b)\<lparr>uprev := x\<rparr>) u"

definition uset_free :: "bool \<Rightarrow> addr \<Rightarrow> user_space \<Rightarrow> user_space" where
  "uset_free free b u = put_user b (set_free free (user_headers u b)) u"

subsection \<open>Requesting pages\<close>

function release_loop :: "addr \<Rightarrow> addr \<Rightarrow> u64 \<Rightarrow> u64 \<Rightarrow> machine \<Rightarrow> machine" where
  "release_loop dir st n j m =
     (if j < n then release_loop dir st n (j + 1) (unmap dir (st + j * FRAME_SIZE) m) else m)"
  by pat_completeness auto
termination by (relation "measure (\<lambda>(d, s, n, j, m). unat n - unat j)") (simp_all add: unat_count_up)

declare release_loop.simps [simp del]

function request_loop :: "addr \<Rightarrow> addr \<Rightarrow> u64 \<Rightarrow> u64 \<Rightarrow> user_space \<Rightarrow> bool \<times> user_space" where
  "request_loop dir st n i u =
     (if i < n then
        (case physical_alloc (umachine u) (uphysical u) of (phys_addr, p) \<Rightarrow>
           let u = set_uphysical p u in
           if phys_addr = 0 then (False, set_umachine (release_loop dir st i 0 (umachine u)) u)
           else
             let virt_addr = st + i * FRAME_SIZE;
                 rm = map_page dir virt_addr phys_addr 0x07 (umachine u);
                 u = set_umachine (snd rm) u
             in if fst rm \<noteq> 0 then
                  (case physical_free phys_addr (umachine u) (uphysical u) of (m, p) \<Rightarrow>
                     (False, set_umachine (release_loop dir st i 0 m) (set_uphysical p u)))
                else request_loop dir st n (i + 1) u)
      else (True, u))"
  by pat_completeness auto
termination by (relation "measure (\<lambda>(d, s, n, i, u). unat n - unat i)") (simp_all add: unat_count_up)

declare request_loop.simps [simp del]

definition sys_request_memory :: "addr \<Rightarrow> addr \<Rightarrow> u64 \<Rightarrow> user_space \<Rightarrow> bool \<times> user_space" where
  "sys_request_memory dir a sz u =
     (let pages_needed = ALIGN_UP sz div FRAME_SIZE in request_loop dir a pages_needed 0 u)"

definition sys_release_memory :: "addr \<Rightarrow> addr \<Rightarrow> u64 \<Rightarrow> user_space \<Rightarrow> user_space" where
  "sys_release_memory dir a sz u =
     (let pages = ALIGN_UP sz div FRAME_SIZE in set_umachine (release_loop dir a pages 0 (umachine u)) u)"

subsection \<open>Construction\<close>

definition user_allocator_new :: "addr \<Rightarrow> user_space \<Rightarrow> user_space \<times> user_allocator" where
  "user_allocator_new page_dir u =
     (let ua = \<lparr>uheap_start = USER_HEAP_START_ADDR, uheap_current = USER_HEAP_START_ADDR,
                uheap_limit = USER_HEAP_MAX_ADDR, ufirst_block = 0, upage_directory = page_dir,
                utotal_allocated = 0, num_blocks = 0\<rparr>
      in case sys_request_memory page_dir (uheap_start ua) USER_HEAP_INITIAL_SIZE u of (ok, u) \<Rightarrow>
           if ok then
             let ua = ua\<lparr>uheap_current := uheap_start ua + USER_HEAP_INITIAL_SIZE\<rparr>;
                 ua = ua\<lparr>ufirst_block := uheap_start ua\<rparr>;
                 u = put_user (ufirst_block ua)
                       (new_user_block (ucast (USER_HEAP_INITIAL_SIZE - sizeof_user_block)) True) u
             in (u, ua)
           else (u, ua))"

subsection \<open>Blocks\<close>

partial_function (option) user_find_from :: "u32 \<Rightarrow> user_space \<Rightarrow> addr \<Rightarrow> addr option" where
  "user_find_from sz u cur =
     (if cur \<noteq> 0 then
        if ublock_free (user_headers u cur) \<and> ublock_size (user_headers u cur) \<ge> sz then Some cur
        else user_find_from sz u (unext (user_headers u cur))
      else Some 0)"

definition user_find_free_block :: "u32 \<Rightarrow> user_space \<Rightarrow> user_allocator \<Rightarrow> addr option" where
  "user_find_free_block sz u ua = user_find_from sz u (ufirst_block ua)"

definition user_split_block ::
  "addr \<Rightarrow> u32 \<Rightarrow> user_space \<Rightarrow> user_allocator \<Rightarrow> user_space \<times> user_allocator" where
  "user_split_block b sz u ua =
     (if (ucast (ublock_size (user_headers u b)) :: u64) < ucast sz + sizeof_user_block + 16 then (u, ua)
      else
        let new_block = user_data b + ucast sz;
            remaining_size = ucast ((ucast (ublock_size (user_headers u b) - sz) :: u64) - sizeof_user_block);
            u = put_user new_block (new_user_block remaining_size True) u;
            u = uset_next new_block (unext (user_headers u b)) u;
            u = uset_prev new_block b u;
            u = (if unext (user_headers u b) \<noteq> 0 then uset_prev (unext (user_headers u b)) new_block u else u);
            u = uset_next b new_block u;
            u = uset_size b sz u
        in (u, ua\<lparr>num_blocks := num_blocks ua + 1\<rparr>))"

text \<open>\<^verbatim>\<open>size += sizeof(user_block) + other->size\<close> on 32-bit sizes.\<close>

definition merged_user_size :: "u32 \<Rightarrow> u32 \<Rightarrow> u32" where
  "merged_user_size s t = ucast ((ucast s :: u64) + (sizeof_user_block + ucast t))"

definition user_coalesce_next ::
  "addr \<Rightarrow> user_space \<Rightarrow> user_allocator \<Rightarrow> user_space \<times> user_allocator" where
  "user_coalesce_next b u ua =
     (let next_blk = unext (user_headers u b) in
      if next_blk \<noteq> 0 \<and> ublock_free (user_headers u next_blk)
         \<and> user_data b + ucast (ublock_size (user_headers u b)) = next_blk
      then
        let u = uset_size b (merged_user_size (ublock_size (user_headers u b))
                                              (ublock_size (user_headers u next_blk))) u;
            u = uset_next b (unext (user_headers u next_blk)) u;
            u = (if unext (user_headers u next_blk) \<noteq> 0
                 then uset_prev (unext (user_headers u next_blk)) b u else u)
        in (u, ua\<lparr>num_blocks := num_blocks ua - 1\<rparr>)
      else (u, ua))"

definition user_coalesce_prev ::
  "addr \<Rightarrow> user_space \<Rightarrow> user_allocator \<Rightarrow> user_space \<times> user_allocator" where
  "user_coalesce_prev b u ua =
     (let prev_blk = uprev (user_headers u b) in
      if prev_blk \<noteq> 0 \<and> ublock_free (user_headers u prev_blk)
         \<and> user_data prev_blk + ucast (ublock_size (user_headers u prev_blk)) = b
      then
        let u = uset_size prev_blk (merged_user_size (ublock_size (user_headers u prev_blk))
                                                     (ublock_size (user_headers u b))) u;
            u = uset_next prev_blk (unext (user_headers u b)) u;
            u = (if unext (user_headers u b) \<noteq> 0
                 then uset_prev (unext (user_headers u b)) prev_blk u else u)
        in (u, ua\<lparr>num_blocks := num_blocks ua - 1\<rparr>)
      else (u, ua))"

definition user_coalesce_block ::
  "addr \<Rightarrow> user_space \<Rightarrow> user_allocator \<Rightarrow> user_space \<times> user_allocator" where
  "user_coalesce_block b u ua =
     (if \<not> ublock_free (user_headers u b) then (u, ua)
      else case user_coalesce_next b u ua of (u, ua) \<Rightarrow> user_coalesce_prev b u ua)"

partial_function (option) user_last_from :: "user_space \<Rightarrow> addr \<Rightarrow> addr option" where
  "user_last_from u cur =
     (if unext (user_headers u cur) \<noteq> 0 then user_last_from u (unext (user_headers u cur)) else Some cur)"

text \<open>Creating the new free block at \<open>n\<close> and linking it into the list.\<close>

definition link_new :: "addr \<Rightarrow> u32 \<Rightarrow> user_space \<Rightarrow> user_allocator \<Rightarrow> (user_space \<times> user_allocator) option" where
  "link_new n r u ua =
     (let u = put_user n (new_user_block r True) u
      in if ufirst_block ua \<noteq> 0
         then (case user_last_from u (ufirst_block ua) of None \<Rightarrow> None
               | Some l \<Rightarrow> Some (uset_prev n l (uset_next l n u), ua))
         else Some (u, ua\<lparr>ufirst_block := n\<rparr>))"

definition user_expand_heap ::
  "u32 \<Rightarrow> user_space \<Rightarrow> user_allocator \<Rightarrow> (bool \<times> user_space \<times> user_allocator) option" where
  "user_expand_heap min_size u ua =
     (let expand_size = ALIGN_UP (ucast min_size) in
      if uheap_current ua + expand_size > USER_HEAP_MAX_ADDR then Some (False, u, ua)
      else case sys_request_memory (upage_directory ua) (uheap_current ua) expand_size u of (ok, u) \<Rightarrow>
        if \<not> ok then Some (False, u, ua)
        else
          let new_block = uheap_current ua
          in case link_new new_block (ucast (expand_size - sizeof_user_block)) u ua of None \<Rightarrow> None
             | Some (u, ua) \<Rightarrow>
                 let ua = ua\<lparr>uheap_current := uheap_current ua + expand_size\<rparr>
                 in case user_coalesce_block new_block u ua of (u, ua) \<Rightarrow> Some (True, u, ua))"

subsection \<open>Allocation\<close>

definition MAX_SINGLE_ALLOC :: u64 where
  "MAX_SINGLE_ALLOC = 0x80000000"

definition user_take_block ::
  "addr \<Rightarrow> u32 \<Rightarrow> user_space \<Rightarrow> user_allocator \<Rightarrow> addr \<times> user_space \<times> user_allocator" where
  "user_take_block b sz u ua =
     (if b = 0 then (0, u, ua)
      else case user_split_block b sz u ua of (u, ua) \<Rightarrow>
        let u = uset_free False b u;
            ua = ua\<lparr>utotal_allocated := utotal_allocated ua + sz\<rparr>
        in (user_data b, u, ua))"

definition user_malloc ::
  "u64 \<Rightarrow> user_space \<Rightarrow> user_allocator \<Rightarrow> (addr \<times> user_space \<times> user_allocator) option" where
  "user_malloc sz u ua =
     (if sz = 0 then Some (0, u, ua)
      else if sz > MAX_SINGLE_ALLOC then Some (0, u, ua)
      else let aligned_size = ucast (ALIGN_UP sz)
      in case user_find_free_block aligned_size u ua of None \<Rightarrow> None
       | Some b \<Rightarrow>
          if b = 0 then
            (case user_expand_heap (ucast ((ucast aligned_size :: u64) + sizeof_user_block)) u ua of
               None \<Rightarrow> None
             | Some (ok, u, ua) \<Rightarrow>
                if \<not> ok then Some (0, u, ua)
                else case user_find_free_block aligned_size u ua of None \<Rightarrow> None
                 | Some b \<Rightarrow> Some (user_take_block b aligned_size u ua))
          else Some (user_take_block b aligned_size u ua))"

definition user_free :: "addr \<Rightarrow> user_space \<Rightarrow> user_allocator \<Rightarrow> user_space \<times> user_allocator" where
  "user_free ptr u ua =
     (if ptr = 0 then (u, ua)
      else let b = user_from_data ptr in
        if \<not> ublock_valid (user_headers u b) \<or> ublock_free (user_headers u b) then (u, ua)
        else let u = uset_free True b u;
                 ua = ua\<lparr>utotal_allocated := utotal_allocated ua - ublock_size (user_headers u b)\<rparr>
             in user_coalesce_block b u ua)"

definition user_realloc ::
  "addr \<Rightarrow> u64 \<Rightarrow> user_space \<Rightarrow> user_allocator \<Rightarrow> (addr \<times> user_space \<times> user_allocator) option" where
  "user_realloc ptr new_size u ua =
     (if ptr = 0 then user_malloc new_size u ua
      else if new_size = 0 then (case user_free ptr u ua of (u, ua) \<Rightarrow> Some (0, u, ua))
      else let b = user_from_data ptr in
        if \<not> ublock_valid (user_headers u b) \<or> ublock_free (user_headers u b) then Some (0, u, ua)
        else
          let aligned_new_size = ucast (ALIGN_UP new_size);
              old_size = ublock_size (user_headers u b)
          in if aligned_new_size \<le> old_size then
               if (ucast old_size :: u64) > ucast aligned_new_size + sizeof_user_block + 16
               then (case user_split_block b aligned_new_size u ua of (u, ua) \<Rightarrow> Some (ptr, u, ua))
               else Some (ptr, u, ua)
             else
               (case user_malloc new_size u ua of None \<Rightarrow> None
                | Some (new_ptr, u, ua) \<Rightarrow>
                   if new_ptr = 0 then Some (0, u, ua)
                   else let u = set_umachine (snd (memcpy new_ptr ptr (ucast old_size) (umachine u))) u
                   in case user_free ptr u ua of (u, ua) \<Rightarrow> Some (new_ptr, u, ua)))"

definition user_calloc ::
  "u64 \<Rightarrow> u64 \<Rightarrow> user_space \<Rightarrow> user_allocator \<Rightarrow> (addr \<times> user_space \<times> user_allocator) option" where
  "user_calloc num sz u ua =
     (if num > 0 \<and> sz > MAX_SINGLE_ALLOC div num then Some (0, u, ua)
      else let total_size = num * sz
      in case user_malloc total_size u ua of None \<Rightarrow> None
       | Some (ptr, u, ua) \<Rightarrow>
          if ptr \<noteq> 0 then Some (ptr, set_umachine (snd (memset ptr 0 total_size (umachine u))) u, ua)
          else Some (ptr, u, ua))"

definition set_heap_limit :: "u64 \<Rightarrow> user_allocator \<Rightarrow> bool \<times> user_allocator" where
  "set_heap_limit max_size ua =
     (let new_limit = uheap_start ua + max_size in
      if new_limit > USER_HEAP_MAX_ADDR \<or> new_limit < uheap_current ua then (False, ua)
      else (True, ua\<lparr>uheap_limit := new_limit\<rparr>))"

definition get_heap_size :: "user_allocator \<Rightarrow> u64" where
  "get_heap_size ua = uheap_current ua - uheap_start ua"

partial_function (option) user_validate_from ::
  "user_space \<Rightarrow> user_allocator \<Rightarrow> u32 \<Rightarrow> addr \<Rightarrow> bool option" where
  "user_validate_from u ua counted_allocated cur =
     (if cur \<noteq> 0 then
        if \<not> ublock_valid (user_headers u cur) then Some False
        else user_validate_from u ua
               (if \<not> ublock_free (user_headers u cur)
                then counted_allocated + ublock_size (user_headers u cur) else counted_allocated)
               (unext (user_headers u cur))
      else Some (counted_allocated = utotal_allocated ua))"

definition user_validate_heap :: "user_space \<Rightarrow> user_allocator \<Rightarrow> bool option" where
  "user_validate_heap u ua = user_validate_from u ua 0 (ufirst_block ua)"

definition cleanup_on_exit :: "user_space \<Rightarrow> user_allocator \<Rightarrow> user_space" where
  "cleanup_on_exit u ua =
     (if uheap_current ua > uheap_start ua
      then let total_size = uheap_current ua - uheap_start ua
           in sys_release_memory (upage_directory ua) (uheap_start ua) total_size u
      else u)"

subsection \<open>Processes\<close>

record process_memory =
  ppage_directory :: addr
  pvirtual_manager :: virt
  pheap :: addr
  pheap_object :: user_allocator
  stack_top :: addr
  stack_size :: u64
  code_start :: addr
  code_size :: u64
  data_start :: addr
  data_size :: u64

definition sizeof_user_allocator :: u64 where
  "sizeof_user_allocator = 48"

text \<open>\<open>None\<close> is a construction at the null pointer, or an allocation that does not return.\<close>

definition process_memory_new :: "addr \<Rightarrow> user_space \<Rightarrow> (user_space \<times> process_memory) option" where
  "process_memory_new page_dir u =
     (case virt_new (umachine u) of (m, v) \<Rightarrow>
        let u = set_umachine m u
        in case kmalloc sizeof_user_allocator (kstate u) of None \<Rightarrow> None
         | Some (place, s) \<Rightarrow>
            if place = 0 then None
            else case user_allocator_new page_dir (u\<lparr>kstate := s\<rparr>) of (u, ua) \<Rightarrow>
              Some (u, \<lparr>ppage_directory = page_dir, pvirtual_manager = v, pheap = place, pheap_object = ua,
                stack_top = 0, stack_size = 0, code_start = 0, code_size = 0, data_start = 0, data_size = 0\<rparr>))"

text \<open>The pointer and the top of the stack that the accessors return.\<close>

definition get_heap :: "process_memory \<Rightarrow> addr" where
  "get_heap pm = pheap pm"

definition get_stack_top :: "process_memory \<Rightarrow> addr" where
  "get_stack_top pm = stack_top pm"

definition setup_memory_layout :: "addr \<Rightarrow> u64 \<Rightarrow> addr \<Rightarrow> u64 \<Rightarrow> process_memory \<Rightarrow> bool \<times> process_memory" where
  "setup_memory_layout code_addr code_sz data_addr data_sz pm =
     (True, pm\<lparr>code_start := code_addr, code_size := code_sz, data_start := data_addr, data_size := data_sz\<rparr>)"

function stack_loop :: "addr \<Rightarrow> addr \<Rightarrow> u64 \<Rightarrow> u64 \<Rightarrow> user_space \<Rightarrow> bool \<times> user_space" where
  "stack_loop dir bottom n i u =
     (if i < n then
        (case physical_alloc (umachine u) (uphysical u) of (phys_addr, p) \<Rightarrow>
           let u = set_uphysical p u in
           if phys_addr = 0 then (False, u)
           else
             let stack_page = bottom + i * FRAME_SIZE;
                 rm = map_page dir stack_page phys_addr 0x07 (umachine u);
                 u = set_umachine (snd rm) u
             in if fst rm \<noteq> 0 then
                  (case physical_free phys_addr (umachine u) (uphysical u) of (m, p) \<Rightarrow>
                     (False, set_umachine m (set_uphysical p u)))
                else stack_loop dir bottom n (i + 1) u)
      else (True, u))"
  by pat_completeness auto
termination by (relation "measure (\<lambda>(d, s, n, i, u). unat n - unat i)") (simp_all add: unat_count_up)

declare stack_loop.simps [simp del]

definition setup_stack :: "u64 \<Rightarrow> user_space \<Rightarrow> process_memory \<Rightarrow> bool \<times> user_space \<times> process_memory" where
  "setup_stack sz u pm =
     (let pm = pm\<lparr>stack_size := ALIGN_UP sz\<rparr>;
          pm = pm\<lparr>stack_top := PROCESS_STACK_TOP\<rparr>;
          stack_bottom = stack_top pm - stack_size pm;
          pages_needed = stack_size pm div FRAME_SIZE
      in case stack_loop (ppage_directory pm) stack_bottom pages_needed 0 u of (ok, u) \<Rightarrow> (ok, u, pm))"

definition cleanup_all :: "user_space \<Rightarrow> process_memory \<Rightarrow> user_space \<times> process_memory" where
  "cleanup_all u pm =
     (if pheap pm \<noteq> 0 then
        let u = cleanup_on_exit u (pheap_object pm);
            u = u\<lparr>kstate := kfree (pheap pm) (kstate u)\<rparr>
        in (u, pm\<lparr>pheap := 0\<rparr>)
      else (u, pm))"

definition validate_user_pointer :: "addr \<Rightarrow> u64 \<Rightarrow> bool" where
  "validate_user_pointer ptr sz =
     (let a = ptr; end_addr = a + sz in
      if end_addr < a then False
      else if a < USER_NULL_GUARD_SIZE then False
      else if a \<ge> 0x0000800000000000 \<or> end_addr \<ge> 0x0000800000000000 then False
      else True)"

subsection \<open>System calls\<close>

text \<open>The calls have no process to work on yet.\<close>

definition sys_malloc :: "u64 \<Rightarrow> addr" where
  "sys_malloc sz = 0"

definition sys_realloc :: "addr \<Rightarrow> u64 \<Rightarrow> addr" where
  "sys_realloc ptr new_size = 0"

definition sys_calloc :: "u64 \<Rightarrow> u64 \<Rightarrow> addr" where
  "sys_calloc num sz = 0"

definition sys_brk :: "addr \<Rightarrow> int" where
  "sys_brk a = - 1"

definition sys_mmap :: "addr \<Rightarrow> u64 \<Rightarrow> int \<Rightarrow> int \<Rightarrow> addr" where
  "sys_mmap a len prot flags = 0"

definition sys_munmap :: "addr \<Rightarrow> u64 \<Rightarrow> int" where
  "sys_munmap a len = - 1"

end
