(* ===== verification/User_Blocks.thy ===== *)
theory User_Blocks
  imports User_Heap Blocks
begin

text \<open>
  The block list of the user heap: its 24-byte headers with 32-bit sizes, viewed as the generic blocks
  of theory Blocks, and the proof that splitting, coalescing, searching and linking are the list
  operations of that theory.
\<close>

definition uview_block :: "user_block \<Rightarrow> block" where
  "uview_block ub = \<lparr>bsize = unat (ublock_size ub), bfree = ublock_free ub, bnext = unext ub, bprev = uprev ub\<rparr>"

definition uview :: "user_space \<Rightarrow> blocks" where
  "uview u a = uview_block (user_headers u a)"

lemma uview_fields:
  "bsize (uview u a) = unat (ublock_size (user_headers u a))"
  "bfree (uview u a) = ublock_free (user_headers u a)"
  "bnext (uview u a) = unext (user_headers u a)" "bprev (uview u a) = uprev (user_headers u a)"
  by (simp_all add: uview_def uview_block_def)

subsection \<open>Flags\<close>

lemma set_free_free [simp]: "ublock_free (set_free f ub) = f"
  by (simp add: ublock_free_def set_free_def Let_def FLAG_FREE_def MAGIC_MASK_def USER_MAGIC_FREE_def
      USER_MAGIC_USED_def bit.conj_disj_distrib2 and.assoc)

lemma set_free_valid [simp]: "ublock_valid (set_free f ub)"
  by (simp add: ublock_valid_def set_free_def Let_def FLAG_FREE_def MAGIC_MASK_def USER_MAGIC_FREE_def
      USER_MAGIC_USED_def bit.conj_disj_distrib2 and.assoc)

lemma set_free_rest [simp]:
  "ublock_size (set_free f ub) = ublock_size ub" "unext (set_free f ub) = unext ub" "uprev (set_free f ub) = uprev ub"
  by (simp_all add: set_free_def Let_def)

lemma new_user_block_flags [simp]:
  "ublock_free (new_user_block sz f) = f" "ublock_valid (new_user_block sz f)"
  by (simp_all add: ublock_free_def ublock_valid_def new_user_block_def Let_def FLAG_FREE_def MAGIC_MASK_def
      USER_MAGIC_FREE_def USER_MAGIC_USED_def)

lemma new_user_block_fields [simp]:
  "ublock_size (new_user_block sz f) = sz" "unext (new_user_block sz f) = 0" "uprev (new_user_block sz f) = 0"
  by (simp_all add: new_user_block_def Let_def)

lemma flags_of [simp]:
  "ublock_free (ub\<lparr>ublock_size := s\<rparr>) = ublock_free ub" "ublock_free (ub\<lparr>unext := a\<rparr>) = ublock_free ub"
  "ublock_free (ub\<lparr>uprev := a\<rparr>) = ublock_free ub"
  "ublock_valid (ub\<lparr>ublock_size := s\<rparr>) = ublock_valid ub" "ublock_valid (ub\<lparr>unext := a\<rparr>) = ublock_valid ub"
  "ublock_valid (ub\<lparr>uprev := a\<rparr>) = ublock_valid ub"
  by (simp_all add: ublock_free_def ublock_valid_def)

subsection \<open>Header assignments\<close>

lemma put_user_rest [simp]:
  "kstate (put_user b ub u) = kstate u" "user_headers (put_user b ub u) = (user_headers u)(b := ub)"
  "umachine (put_user b ub u) = umachine u"
  by (simp_all add: put_user_def umachine_def)

lemma uset_rest [simp]:
  "kstate (uset_size b s u) = kstate u" "kstate (uset_next b a u) = kstate u"
  "kstate (uset_prev b a u) = kstate u" "kstate (uset_free f b u) = kstate u"
  by (simp_all add: uset_size_def uset_next_def uset_prev_def uset_free_def)

lemma set_machine_headers [simp]:
  "user_headers (set_umachine m u) = user_headers u" "user_headers (set_uphysical p u) = user_headers u"
  "uview (set_umachine m u) = uview u" "umachine (set_umachine m u) = m"
  by (simp_all add: set_umachine_def set_uphysical_def uview_def umachine_def fun_eq_iff)

lemma uview_put: "uview (put_user b ub u) = (uview u)(b := uview_block ub)"
  by (auto simp: uview_def)

lemma uview_set:
  "uview (uset_size b s u) = (uview u)(b := (uview u b)\<lparr>bsize := unat s\<rparr>)"
  "uview (uset_next b a u) = (uview u)(b := (uview u b)\<lparr>bnext := a\<rparr>)"
  "uview (uset_prev b a u) = (uview u)(b := (uview u b)\<lparr>bprev := a\<rparr>)"
  "uview (uset_free f b u) = (uview u)(b := (uview u b)\<lparr>bfree := f\<rparr>)"
  by (simp_all add: uset_size_def uset_next_def uset_prev_def uset_free_def uview_put)
    (simp_all add: uview_def uview_block_def)

lemma valid_set [simp]:
  "ublock_valid (user_headers (uset_size b s u) a) = ublock_valid (user_headers u a)"
  "ublock_valid (user_headers (uset_next b c u) a) = ublock_valid (user_headers u a)"
  "ublock_valid (user_headers (uset_prev b c u) a) = ublock_valid (user_headers u a)"
  "ublock_valid (user_headers u a) \<Longrightarrow> ublock_valid (user_headers (uset_free f b u) a)"
  by (simp_all add: uset_size_def uset_next_def uset_prev_def uset_free_def)

lemma unat_user_data: "unat b + 24 < 18446744073709551616 \<Longrightarrow> unat (user_data b) = unat b + 24"
  by (simp add: user_data_def sizeof_user_block_def unat_add_nowrap)

lemma unat_ucast_up [simp]: "unat (ucast (x :: u32) :: u64) = unat x"
  using unsigned_less [of x, where ?'a = nat] by (simp add: unsigned_ucast_eq take_bit_nat_eq_self)

lemma unat_ucast_down: "unat (x :: u64) < 4294967296 \<Longrightarrow> unat (ucast x :: u32) = unat x"
  by (simp add: unsigned_ucast_eq take_bit_nat_eq_self)

text \<open>The last address of the user heap bounds every block, so 32-bit sizes never wrap.\<close>

definition in_user_heap :: "blocks \<Rightarrow> addr list \<Rightarrow> bool" where
  "in_user_heap v bs \<longleftrightarrow> (\<forall>b \<in> set bs. unat b + 24 + bsize (v b) \<le> 0x40000000)"

lemma in_user_heapD: "in_user_heap v bs \<Longrightarrow> b \<in> set bs \<Longrightarrow> unat b + 24 + bsize (v b) \<le> 0x40000000"
  by (simp add: in_user_heap_def)

text \<open>The blocks lie in the heap when the bytes they cover do.\<close>

lemma in_user_heap_space: "in_user_heap v bs \<longleftrightarrow> space 24 v bs \<subseteq> {..<0x40000000}"
proof
  assume *: "space 24 v bs \<subseteq> {..<0x40000000}"
  show "in_user_heap v bs" unfolding in_user_heap_def
  proof
    fix b assume "b \<in> set bs"
    then have "foot 24 v b \<subseteq> {..<0x40000000}" using * by (auto simp: space_def)
    moreover have "unat b + 24 + bsize (v b) - 1 \<in> foot 24 v b" by (simp add: foot_def)
    ultimately have "unat b + 24 + bsize (v b) - 1 < 0x40000000" by blast
    then show "unat b + 24 + bsize (v b) \<le> 0x40000000" by simp
  qed
qed (fastforce simp: in_user_heap_def space_def foot_def)

subsection \<open>Splitting\<close>

lemma user_split_cases:
  assumes ok: "blocks_ok 24 (uview u) f (xs @ b # ys)" and hp: "in_user_heap (uview u) (xs @ b # ys)"
    and s: "sz \<le> ublock_size (user_headers u b)"
  obtains "user_split_block b sz u ua = (u, ua)"
  | n u' where "user_split_block b sz u ua = (u', ua\<lparr>num_blocks := num_blocks ua + 1\<rparr>)"
    "unat n = unat b + 24 + unat sz"
    "unat (ublock_size (user_headers u b)) = unat sz + 24 + (unat (ublock_size (user_headers u b)) - unat sz - 24)"
    "uview u' = insert_after b n (unat sz) (unat (ublock_size (user_headers u b)) - unat sz - 24) (uview u)"
    "kstate u' = kstate u"
    "\<And>c. c = n \<or> ublock_valid (user_headers u c) \<Longrightarrow> ublock_valid (user_headers u' c)"
proof (cases "(ucast (ublock_size (user_headers u b)) :: u64) < ucast sz + sizeof_user_block + 16")
  case True
  then show ?thesis using that(1) by (simp add: user_split_block_def)
next
  case False
  let ?S = "ublock_size (user_headers u b)" and ?n = "user_data b + ucast sz" and ?d = "unext (user_headers u b)"
  have r: "unat b + 24 + unat ?S \<le> 0x40000000"
    using in_user_heapD [OF hp, of b] by (simp add: uview_fields)
  have szS: "unat sz \<le> unat ?S" using s by (simp add: word_le_nat_alt)
  have "unat ((ucast sz :: u64) + 40) = unat sz + 40"
    using r szS by (simp add: unat_add_nowrap)
  then have S: "unat sz + 40 \<le> unat ?S"
    using False by (simp add: wordnat sizeof_user_block_def add.assoc)
  have n: "unat ?n = unat b + 24 + unat sz"
    using r S unat_user_data [of b] by (simp add: unat_add_nowrap)
  have "unat (?S - sz) = unat ?S - unat sz" using s by (rule unat_sub)
  then have "unat ((ucast (?S - sz) :: u64) - sizeof_user_block) = unat ?S - unat sz - 24"
    using S by (simp add: sizeof_user_block_def unat_sub_nowrap wordnat)
  then have rem: "unat (ucast ((ucast (?S - sz) :: u64) - sizeof_user_block) :: u32) = unat ?S - unat sz - 24"
    using r by (simp add: unat_ucast_down)
  have bn: "b \<noteq> ?n" using n by auto
  have "?n \<notin> set (xs @ b # ys)"
    by (rule inside_not_block [OF ok, of b]) (use n S in \<open>auto simp: uview_fields\<close>)
  then have d: "?d \<noteq> 0 \<Longrightarrow> ?d \<noteq> b \<and> ?d \<noteq> ?n"
    using linked_next [OF blocks_okD(1) [OF ok]] blocks_okD(2) [OF ok]
    by (cases ys) (auto simp: uview_fields)
  define rs where "rs = (ucast ((ucast (?S - sz) :: u64) - sizeof_user_block) :: u32)"
  define nn where "nn = ?n"
  let ?u = "fst (user_split_block b sz u ua)"
  note S' = user_split_block_def [of b sz u ua, folded rs_def nn_def, unfolded Let_def, folded rs_def nn_def]
  have bn': "b \<noteq> nn" and d': "?d \<noteq> 0 \<Longrightarrow> ?d \<noteq> b \<and> ?d \<noteq> nn" using bn d by (simp_all add: nn_def)
  have e: "user_split_block b sz u ua = (?u, ua\<lparr>num_blocks := num_blocks ua + 1\<rparr>)"
    using False by (simp add: S')
  have u: "?u = uset_size b sz (uset_next b nn (if ?d = 0 then uset_prev nn b (uset_next nn ?d
      (put_user nn (new_user_block rs True) u)) else uset_prev ?d nn (uset_prev nn b (uset_next nn ?d
      (put_user nn (new_user_block rs True) u)))))"
    using False bn' d' by (simp add: S' uset_next_def uset_prev_def)
  have v: "uview ?u = insert_after b nn (unat sz) (unat ?S - unat sz - 24) (uview u)"
  proof (cases "?d = 0")
    case True
    then show ?thesis
      using bn' rem unfolding u uview_set uview_put insert_after_def Let_def
      by (simp add: uview_fields uview_block_def rs_def [symmetric] fun_upd_twist uview_set uview_put block_commute)
  next
    case dn: False
    then show ?thesis
      using d' bn' rem unfolding u uview_set uview_put insert_after_def Let_def
      by (simp add: uview_fields uview_block_def rs_def [symmetric] fun_upd_twist uview_set uview_put block_commute)
  qed
  have "kstate ?u = kstate u" unfolding u by simp
  moreover have "ublock_valid (user_headers ?u c)" if "c = nn \<or> ublock_valid (user_headers u c)" for c
    using that unfolding u by auto
  ultimately show ?thesis using that(2) [OF e _ _ v] n S by (simp add: nn_def)
qed

subsection \<open>Coalescing\<close>

lemma user_adjacent_word:
  assumes "unat p + 24 + unat (sz :: u32) \<le> 0x40000000"
  shows "user_data p + ucast sz = n \<longleftrightarrow> unat p + 24 + unat sz = unat n"
proof -
  have "unat (user_data p + ucast sz) = unat p + 24 + unat sz"
    using assms unat_user_data [of p] by (simp add: unat_add_nowrap)
  then show ?thesis by (simp add: word_unat_eq_iff)
qed

lemma merged_user_size:
  assumes "unat b + 24 + unat s = unat (n :: addr)" and "unat n + 24 + unat t \<le> 0x40000000"
  shows "unat (merged_user_size s t) = unat s + 24 + unat t"
proof -
  have "unat ((ucast s :: u64) + (24 + ucast t)) = unat s + 24 + unat t"
    using assms by (simp add: unat_add_nowrap)
  then show ?thesis
    using assms by (simp add: merged_user_size_def sizeof_user_block_def unat_ucast_down)
qed

lemma user_coalesce_next_refines:
  assumes ok: "blocks_ok 24 (uview u) f (xs @ b # ys)" and hp: "in_user_heap (uview u) (xs @ b # ys)"
  shows "uview (fst (user_coalesce_next b u ua)) = merge_next_if 24 b (uview u)"
    "ublock_valid (user_headers (fst (user_coalesce_next b u ua)) c) = ublock_valid (user_headers u c)"
    "kstate (fst (user_coalesce_next b u ua)) = kstate u"
    "snd (user_coalesce_next b u ua) = ua\<lparr>num_blocks := num_blocks (snd (user_coalesce_next b u ua))\<rparr>"
proof -
  let ?n = "unext (user_headers u b)"
  note l = blocks_okD(1) [OF ok]
  have b4: "unat b + 24 + unat (ublock_size (user_headers u b)) \<le> 0x40000000"
    using in_user_heapD [OF hp, of b] by (simp add: uview_fields)
  have adj: "user_data b + ucast (ublock_size (user_headers u b)) = ?n \<longleftrightarrow> adjacent 24 (uview u) b ?n"
    using user_adjacent_word [OF b4] by (simp add: adjacent_def uview_fields)
  show "uview (fst (user_coalesce_next b u ua)) = merge_next_if 24 b (uview u)"
  proof (cases "?n \<noteq> 0 \<and> ublock_free (user_headers u ?n) \<and> adjacent 24 (uview u) b ?n")
    case True
    then have nn: "?n \<in> set (xs @ b # ys)" "?n \<noteq> b"
      using linked_next [OF l] blocks_okD(2) [OF ok] by (auto simp: uview_fields split: if_splits)
    have sz: "unat (merged_user_size (ublock_size (user_headers u b)) (ublock_size (user_headers u ?n)))
        = unat (ublock_size (user_headers u b)) + 24 + unat (ublock_size (user_headers u ?n))"
      using True in_user_heapD [OF hp nn(1)]
      by (intro merged_user_size [of b _ ?n]) (simp_all add: adjacent_def uview_fields)
    show ?thesis
      using True nn(2) sz unfolding user_coalesce_next_def Let_def adj
      by (auto simp: merge_next_if_def merge_after_def Let_def uview_set uview_fields uset_size_def
          uset_next_def fun_eq_iff)
  next
    case False
    then show ?thesis
      unfolding user_coalesce_next_def Let_def adj by (auto simp: merge_next_if_def uview_fields)
  qed
  show "ublock_valid (user_headers (fst (user_coalesce_next b u ua)) c) = ublock_valid (user_headers u c)"
    "kstate (fst (user_coalesce_next b u ua)) = kstate u"
    "snd (user_coalesce_next b u ua) = ua\<lparr>num_blocks := num_blocks (snd (user_coalesce_next b u ua))\<rparr>"
    by (simp_all add: user_coalesce_next_def Let_def)
qed

lemma user_coalesce_prev_refines:
  assumes ok: "blocks_ok 24 (uview u) f (xs @ b # ys)" and hp: "in_user_heap (uview u) (xs @ b # ys)"
  shows "uview (fst (user_coalesce_prev b u ua)) = merge_prev_if 24 b (uview u)"
    "ublock_valid (user_headers (fst (user_coalesce_prev b u ua)) c) = ublock_valid (user_headers u c)"
    "kstate (fst (user_coalesce_prev b u ua)) = kstate u"
    "snd (user_coalesce_prev b u ua) = ua\<lparr>num_blocks := num_blocks (snd (user_coalesce_prev b u ua))\<rparr>"
proof -
  let ?p = "uprev (user_headers u b)"
  note l = blocks_okD(1) [OF ok]
  show "uview (fst (user_coalesce_prev b u ua)) = merge_prev_if 24 b (uview u)"
  proof (cases "?p = 0")
    case True
    then show ?thesis by (simp add: user_coalesce_prev_def Let_def merge_prev_if_def uview_fields)
  next
    case False
    then obtain zs where xs: "xs = zs @ [?p]"
      using linked_prev [OF l] by (cases xs rule: rev_cases) (auto simp: uview_fields)
    have lp: "linked (uview u) f (zs @ ?p # b # ys)" using l by (subst (asm) xs) simp
    have pb: "?p \<in> set (xs @ b # ys)" "?p \<noteq> b" "unext (user_headers u ?p) = b"
      using xs blocks_okD(2) [OF ok] linked_next [OF lp] by (auto simp: uview_fields)
    have p4: "unat ?p + 24 + unat (ublock_size (user_headers u ?p)) \<le> 0x40000000"
      using in_user_heapD [OF hp pb(1)] by (simp add: uview_fields)
    have adj: "user_data ?p + ucast (ublock_size (user_headers u ?p)) = b \<longleftrightarrow> adjacent 24 (uview u) ?p b"
      using user_adjacent_word [OF p4] by (simp add: adjacent_def uview_fields)
    show ?thesis
    proof (cases "ublock_free (user_headers u ?p) \<and> adjacent 24 (uview u) ?p b")
      case True
      have sz: "unat (merged_user_size (ublock_size (user_headers u ?p)) (ublock_size (user_headers u b)))
          = unat (ublock_size (user_headers u ?p)) + 24 + unat (ublock_size (user_headers u b))"
        using True in_user_heapD [OF hp, of b]
        by (intro merged_user_size [of ?p _ b]) (simp_all add: adjacent_def uview_fields)
      show ?thesis
        using True False pb(2,3) sz unfolding user_coalesce_prev_def Let_def adj
        by (auto simp: merge_prev_if_def merge_after_def Let_def uview_set uview_fields uset_size_def
            uset_next_def fun_eq_iff)
    next
      case other: False
      then show ?thesis
        unfolding user_coalesce_prev_def Let_def adj by (auto simp: merge_prev_if_def uview_fields)
    qed
  qed
  show "ublock_valid (user_headers (fst (user_coalesce_prev b u ua)) c) = ublock_valid (user_headers u c)"
    "kstate (fst (user_coalesce_prev b u ua)) = kstate u"
    "snd (user_coalesce_prev b u ua) = ua\<lparr>num_blocks := num_blocks (snd (user_coalesce_prev b u ua))\<rparr>"
    by (simp_all add: user_coalesce_prev_def Let_def)
qed

lemma user_coalesce_ok:
  assumes ok: "blocks_ok 24 (uview u) f bs" and hp: "in_user_heap (uview u) bs"
    and b: "b \<in> set bs" "ublock_free (user_headers u b)"
  obtains u' nb cs where "user_coalesce_block b u ua = (u', ua\<lparr>num_blocks := nb\<rparr>)"
    "blocks_ok 24 (uview u') f cs" "set cs \<subseteq> set bs" "cs \<noteq> []"
    "space 24 (uview u') cs = space 24 (uview u) bs" "live (uview u') cs = live (uview u) bs"
    "\<forall>c. ublock_valid (user_headers u' c) = ublock_valid (user_headers u c)" "kstate u' = kstate u"
proof -
  obtain xs ys where bs: "bs = xs @ b # ys" using b(1) by (auto dest: split_list)
  have ok1: "blocks_ok 24 (uview u) f (xs @ b # ys)" and hp1: "in_user_heap (uview u) (xs @ b # ys)"
    using ok hp bs by simp_all
  have bf: "bfree (uview u b)" using b(2) by (simp add: uview_fields)
  obtain u1 ua1 where 1: "user_coalesce_next b u ua = (u1, ua1)" by (cases "user_coalesce_next b u ua")
  note c1 = user_coalesce_next_refines [OF ok1 hp1, where ua = ua, unfolded 1 fst_conv snd_conv]
  obtain zs where z: "blocks_ok 24 (uview u1) f (xs @ b # zs)"
    "space 24 (uview u1) (xs @ b # zs) = space 24 (uview u) (xs @ b # ys)"
    by (rule merge_next_if_ok [OF ok1 bf]) (simp add: c1(1))
  have hz: "in_user_heap (uview u1) (xs @ b # zs)" using z(2) hp1 by (simp add: in_user_heap_space)
  note c2 = user_coalesce_prev_refines [OF z(1) hz, where ua = ua1]
  let ?r = "user_coalesce_prev b u1 ua1"
  have eq: "user_coalesce_block b u ua = ?r" using b(2) 1 by (simp add: user_coalesce_block_def)
  have v: "uview (fst ?r) = coalesce 24 b (uview u)" unfolding c2(1) c1(1) coalesce_def ..
  obtain cs where c: "blocks_ok 24 (coalesce 24 b (uview u)) f cs" "set cs \<subseteq> set bs" "cs \<noteq> []"
    "space 24 (coalesce 24 b (uview u)) cs = space 24 (uview u) bs"
    "live (coalesce 24 b (uview u)) cs = live (uview u) bs"
    by (rule coalesce_ok [OF ok b(1) bf])
  have "snd ?r = ua\<lparr>num_blocks := num_blocks (snd ?r)\<rparr>" by (subst c2(4), subst c1(4)) simp
  then have "user_coalesce_block b u ua = (fst ?r, ua\<lparr>num_blocks := num_blocks (snd ?r)\<rparr>)"
    unfolding eq by (metis surjective_pairing)
  from that [OF this, of cs, unfolded v, OF c] show ?thesis by (simp add: c1(2,3) c2(2,3))
qed

subsection \<open>Searching\<close>

lemma user_find_from_segment:
  assumes "segment (uview u) p c bs q 0"
  shows "user_find_from sz u c =
    Some (case find (\<lambda>b. ublock_free (user_headers u b) \<and> sz \<le> ublock_size (user_headers u b)) bs of
       None \<Rightarrow> 0 | Some b \<Rightarrow> b)"
  using assms
proof (induction bs arbitrary: p c)
  case Nil
  then show ?case by (simp add: user_find_from.simps)
next
  case (Cons b bs)
  then have c: "c = b" "b \<noteq> 0" "segment (uview u) b (unext (user_headers u b)) bs q 0"
    by (simp_all add: uview_fields)
  show ?case using c(1,2) Cons.IH [OF c(3)] by (simp add: user_find_from.simps [of sz u b])
qed

lemma user_find_result:
  assumes ok: "blocks_ok 24 (uview u) (ufirst_block ua) bs"
  obtains "user_find_free_block sz u ua = Some 0"
    "\<And>b. b \<in> set bs \<Longrightarrow> ublock_free (user_headers u b) \<Longrightarrow> ublock_size (user_headers u b) < sz"
  | b where "user_find_free_block sz u ua = Some b" "b \<in> set bs" "b \<noteq> 0" "ublock_free (user_headers u b)"
    "sz \<le> ublock_size (user_headers u b)"
proof -
  obtain q where "segment (uview u) 0 (ufirst_block ua) bs q 0"
    using blocks_okD(1) [OF ok] by (auto simp: linked_def)
  note f = user_find_from_segment [OF this, of sz]
  let ?P = "\<lambda>b. ublock_free (user_headers u b) \<and> sz \<le> ublock_size (user_headers u b)"
  show ?thesis
  proof (cases "find ?P bs")
    case None
    have "user_find_free_block sz u ua = Some 0" by (simp add: user_find_free_block_def f None)
    then show ?thesis using that(1) None by (auto simp: find_None_iff not_le)
  next
    case (Some b)
    then show ?thesis
      using that(2) [of b] f find_Some_iff' [OF Some] blocks_okD(3) [OF ok] by (auto simp: user_find_free_block_def)
  qed
qed

lemma user_last_from_segment:
  assumes "segment (uview u) p c bs q 0" "bs \<noteq> []"
  shows "user_last_from u c = Some (last bs)"
  using assms
proof (induction bs arbitrary: p c)
  case (Cons b bs)
  then have c: "c = b" "b \<noteq> 0" "segment (uview u) b (unext (user_headers u b)) bs q 0"
    by (simp_all add: uview_fields)
  show ?case
  proof (cases bs)
    case Nil
    have "unext (user_headers u b) = 0" using c(3) Nil by (auto simp only: segment.simps)
    then have "user_last_from u b = Some b" by (simp add: user_last_from.simps [of u b])
    then show ?thesis using c(1) Nil by simp
  next
    case (Cons d ds)
    then show ?thesis
      using c Cons.IH [OF c(3)] segment_hd [OF c(3)] by (simp add: user_last_from.simps [of u b])
  qed
qed simp

end
