(* ===== verification/User_Correct.thy ===== *)
theory User_Correct
  imports User_Blocks Block_Heap
begin

text \<open>
  Correctness of the user heap: \<open>uheap_ok\<close> is its invariant. The blocks lie between the start of
  the heap and its current end, which never passes \<^verbatim>\<open>USER_HEAP_MAX_ADDR\<close>; this is what keeps
  the 32-bit sizes from wrapping. The heap is a second instance of the interface
  \<open>block_allocator\<close>.
\<close>

subsection \<open>The invariant\<close>

definition uheap_ok :: "user_space \<Rightarrow> user_allocator \<Rightarrow> addr list \<Rightarrow> bool" where
  "uheap_ok u ua bs \<longleftrightarrow> blocks_ok 24 (uview u) (ufirst_block ua) bs
     \<and> (\<forall>b \<in> set bs. ublock_valid (user_headers u b))
     \<and> space 24 (uview u) bs \<subseteq> {0x8000000 ..< unat (uheap_current ua)}
     \<and> 0x8000000 \<le> unat (uheap_current ua) \<and> unat (uheap_current ua) \<le> 0x40000000"

lemma uheap_okD:
  assumes "uheap_ok u ua bs"
  shows "blocks_ok 24 (uview u) (ufirst_block ua) bs" "in_user_heap (uview u) bs"
    "b \<in> set bs \<Longrightarrow> ublock_valid (user_headers u b)"
    "space 24 (uview u) bs \<subseteq> {0x8000000 ..< unat (uheap_current ua)}"
    "0x8000000 \<le> unat (uheap_current ua)" "unat (uheap_current ua) \<le> 0x40000000"
  using assms unfolding in_user_heap_space uheap_ok_def by force+

lemma user_from_data [simp]: "user_from_data (user_data b) = b" "user_data (user_from_data b) = b"
  by (simp_all add: user_from_data_def user_data_def)

lemma uheap_ok_flag:
  assumes "uheap_ok u ua bs" "ufirst_block ua' = ufirst_block ua" "uheap_current ua' = uheap_current ua"
  shows "uheap_ok (uset_free f b u) ua' bs"
proof -
  note ok = uheap_okD [OF assms(1)]
  have "blocks_ok 24 (uview (uset_free f b u)) (ufirst_block ua) bs"
    "space 24 (uview (uset_free f b u)) bs = space 24 (uview u) bs"
    by (rule blocks_ok_update [OF ok(1)]; simp add: uview_set)+
  then show ?thesis using ok assms(2,3) by (simp add: uheap_ok_def)
qed

lemma ulive_used:
  assumes "b \<in> set bs" "ublock_free (user_headers u b)"
  shows "live (uview (uset_free False b u)) bs = insert (b, bsize (uview u b)) (live (uview u) bs)"
  using assms unfolding live_def uview_set by (auto simp: uview_fields)

lemma ulive_freed:
  assumes "b \<in> set bs"
  shows "live (uview (uset_free True b u)) bs = live (uview u) bs - {(b, bsize (uview u b))}"
  using assms unfolding live_def uview_set by (auto simp: uview_fields)

subsection \<open>Taking and giving back a block\<close>

lemma user_split_ok:
  assumes ok: "uheap_ok u ua bs" and b: "b \<in> set bs" "sz \<le> ublock_size (user_headers u b)"
  obtains u' nb cs c where "user_split_block b sz u ua = (u', ua\<lparr>num_blocks := nb\<rparr>)"
    "uheap_ok u' (ua\<lparr>num_blocks := nb\<rparr>) cs" "b \<in> set cs"
    "ublock_free (user_headers u' b) = ublock_free (user_headers u b)" "unat sz \<le> c" "bsize (uview u' b) = c"
    "kstate u' = kstate u"
    "live (uview u') cs = (if ublock_free (user_headers u b) then live (uview u) bs
       else insert (b, c) (live (uview u) bs - {(b, bsize (uview u b))}))"
proof -
  note okD = uheap_okD [OF ok]
  obtain xs ys where bs: "bs = xs @ b # ys" using b(1) by (auto dest: split_list)
  have ok1: "blocks_ok 24 (uview u) (ufirst_block ua) (xs @ b # ys)" "in_user_heap (uview u) (xs @ b # ys)"
    using okD(1,2) bs by simp_all
  show ?thesis
  proof (rule user_split_cases [OF ok1 b(2), where ua = ua])
    assume e: "user_split_block b sz u ua = (u, ua)"
    have "(b, bsize (uview u b)) \<in> live (uview u) bs" if "\<not> ublock_free (user_headers u b)"
      using that b(1) by (simp add: live_def uview_fields)
    then have "live (uview u) bs = (if ublock_free (user_headers u b) then live (uview u) bs
       else insert (b, bsize (uview u b)) (live (uview u) bs - {(b, bsize (uview u b))}))"
      by auto
    then show ?thesis
      using that [of u "num_blocks ua" bs "bsize (uview u b)"] e ok b by (simp add: uview_fields word_le_nat_alt)
  next
    fix n u'
    let ?r = "unat (ublock_size (user_headers u b)) - unat sz - 24"
    assume e: "user_split_block b sz u ua = (u', ua\<lparr>num_blocks := num_blocks ua + 1\<rparr>)"
      and n: "unat n = unat b + 24 + unat sz"
      and r: "unat (ublock_size (user_headers u b)) = unat sz + 24 + ?r"
      and v: "uview u' = insert_after b n (unat sz) ?r (uview u)"
      and k: "kstate u' = kstate u"
      and m: "\<And>c. c = n \<or> ublock_valid (user_headers u c) \<Longrightarrow> ublock_valid (user_headers u' c)"
    have r': "bsize (uview u b) = unat sz + 24 + ?r" using r by (simp add: uview_fields)
    note I = blocks_ok_insert_after [OF ok1(1) _ r' n, folded v]
    have nb: "n \<notin> set (xs @ b # ys)" "n \<noteq> 0" using I(1,2) by simp_all
    note F = insert_after_facts [OF blocks_okD(1) [OF ok1(1)] nb, where sz = "unat sz" and r = ?r, folded v]
    have "uheap_ok u' (ua\<lparr>num_blocks := num_blocks ua + 1\<rparr>) (xs @ b # n # ys)"
      using I(3,4) okD(3-6) bs m by (auto simp: uheap_ok_def)
    moreover have "ublock_free (user_headers u' b) = ublock_free (user_headers u b)"
      using F(2) by (simp add: uview_fields)
    moreover have "live (uview u') (xs @ b # n # ys) = (if ublock_free (user_headers u b) then live (uview u) bs
       else insert (b, unat sz) (live (uview u) bs - {(b, bsize (uview u b))}))"
      using live_insert_after [OF blocks_okD(1) [OF ok1(1)] nb, where sz = "unat sz" and r = ?r, folded v] bs
      by (simp add: uview_fields)
    ultimately show ?thesis
      using that [OF e, of "xs @ b # n # ys" "unat sz"] F(1) k by simp
  qed
qed

lemma user_take_ok:
  assumes ok: "uheap_ok u ua bs" and b: "b \<in> set bs" "ublock_free (user_headers u b)"
    and s: "sz \<le> ublock_size (user_headers u b)"
  obtains u' ua' cs c where "user_take_block b sz u ua = (user_data b, u', ua')" "uheap_ok u' ua' cs"
    "unat sz \<le> c" "live (uview u') cs = insert (b, c) (live (uview u) bs)" "b \<noteq> 0"
    "b \<notin> fst ` live (uview u) bs" "kstate u' = kstate u"
proof -
  have b0: "b \<noteq> 0" using blocks_okD(3) [OF uheap_okD(1) [OF ok]] b(1) by auto
  obtain u1 nb cs c where 1: "user_split_block b sz u ua = (u1, ua\<lparr>num_blocks := nb\<rparr>)"
    "uheap_ok u1 (ua\<lparr>num_blocks := nb\<rparr>) cs" "b \<in> set cs"
    "ublock_free (user_headers u1 b) = ublock_free (user_headers u b)" "unat sz \<le> c" "bsize (uview u1 b) = c"
    "kstate u1 = kstate u"
    "live (uview u1) cs = (if ublock_free (user_headers u b) then live (uview u) bs
       else insert (b, c) (live (uview u) bs - {(b, bsize (uview u b))}))"
    by (rule user_split_ok [OF ok b(1) s])
  let ?ua = "ua\<lparr>num_blocks := nb, utotal_allocated := utotal_allocated ua + sz\<rparr>"
  have t: "user_take_block b sz u ua = (user_data b, uset_free False b u1, ?ua)"
    using b0 1(1) by (simp add: user_take_block_def Let_def)
  have "uheap_ok (uset_free False b u1) ?ua cs" by (rule uheap_ok_flag [OF 1(2)]) simp_all
  moreover have "live (uview (uset_free False b u1)) cs = insert (b, c) (live (uview u) bs)"
    using ulive_used [of b cs u1] 1 b(2) by simp
  moreover have "b \<notin> fst ` live (uview u) bs" using b(2) by (auto simp: live_def uview_fields)
  ultimately show ?thesis using that [OF t _ 1(5) _ b0] 1(7) by simp
qed

lemma user_free_ok:
  assumes ok: "uheap_ok u ua bs" and b: "(b, n) \<in> live (uview u) bs"
  obtains u' ua' cs where "user_free (user_data b) u ua = (u', ua')" "uheap_ok u' ua' cs"
    "live (uview u') cs = live (uview u) bs - {(b, n)}" "kstate u' = kstate u"
proof -
  note okD = uheap_okD [OF ok]
  have bb: "b \<in> set bs" "\<not> ublock_free (user_headers u b)" "n = bsize (uview u b)"
    using b by (auto simp: live_def uview_fields)
  have "unat b + 24 + bsize (uview u b) < 18446744073709551616"
    using blocks_okD(4) [OF okD(1)] bb(1) by auto
  then have "unat (user_data b) = unat b + 24" by (simp add: unat_user_data)
  then have p0: "user_data b \<noteq> 0" by auto
  let ?ua = "ua\<lparr>utotal_allocated := utotal_allocated ua - ublock_size (user_headers (uset_free True b u) b)\<rparr>"
  have e: "user_free (user_data b) u ua = user_coalesce_block b (uset_free True b u) ?ua"
    using p0 okD(3) [OF bb(1)] bb(2) by (simp add: user_free_def Let_def)
  have ok1: "uheap_ok (uset_free True b u) ?ua bs" by (rule uheap_ok_flag [OF ok]) simp_all
  have f1: "ublock_free (user_headers (uset_free True b u) b)" by (simp add: uset_free_def)
  obtain u' nb cs where c: "user_coalesce_block b (uset_free True b u) ?ua = (u', ?ua\<lparr>num_blocks := nb\<rparr>)"
    "blocks_ok 24 (uview u') (ufirst_block ?ua) cs" "set cs \<subseteq> set bs" "cs \<noteq> []"
    "space 24 (uview u') cs = space 24 (uview (uset_free True b u)) bs"
    "live (uview u') cs = live (uview (uset_free True b u)) bs"
    "\<forall>c. ublock_valid (user_headers u' c) = ublock_valid (user_headers (uset_free True b u) c)"
    "kstate u' = kstate (uset_free True b u)"
    by (rule user_coalesce_ok [OF uheap_okD(1,2) [OF ok1] bb(1) f1, where ua = ?ua])
  have "uheap_ok u' (?ua\<lparr>num_blocks := nb\<rparr>) cs"
    unfolding uheap_ok_def using c(2,3,5,7) uheap_okD(3-6) [OF ok1] by auto
  then show ?thesis using that [of u' _ cs] e c(1,6,8) ulive_freed [OF bb(1), of u] bb(3) by simp
qed

subsection \<open>Growing the heap\<close>

lemma request_loop_headers: "user_headers (snd (request_loop dir st n i u)) = user_headers u"
proof (induction dir st n i u rule: request_loop.induct)
  case (1 dir st n i u)
  obtain pa p where p: "physical_alloc (umachine u) (uphysical u) = (pa, p)"
    by (cases "physical_alloc (umachine u) (uphysical u)")
  let ?rm = "map_page dir (st + i * FRAME_SIZE) pa 7 (umachine (set_uphysical p u))"
  show ?case
  proof (cases "i < n \<and> pa \<noteq> 0 \<and> fst ?rm = 0")
    case True
    then show ?thesis
      using 1 [OF _ p [symmetric] refl _ refl refl refl] p
      by (simp add: request_loop.simps [of dir st n i] Let_def)
  next
    case False
    then show ?thesis
      using p by (auto simp: request_loop.simps [of dir st n i] Let_def split: prod.splits)
  qed
qed

lemma request_headers: "sys_request_memory dir a n u = (ok, u') \<Longrightarrow> user_headers u' = user_headers u"
  using request_loop_headers [of dir a "ALIGN_UP n div FRAME_SIZE" 0 u] by (simp add: sys_request_memory_def)

lemma uheap_ok_same:
  assumes "uheap_ok u ua bs" "user_headers u' = user_headers u"
  shows "uheap_ok u' ua bs" "uview u' = uview u"
proof -
  show v: "uview u' = uview u" using assms(2) by (simp add: uview_def fun_eq_iff)
  show "uheap_ok u' ua bs" using assms by (simp add: uheap_ok_def v)
qed

lemma blocks_ok_single:
  assumes "n \<noteq> 0" "bnext (v n) = 0" "bprev (v n) = 0" "unat n + H + bsize (v n) < 18446744073709551616"
  shows "blocks_ok H v n [n]"
  using assms by (simp add: blocks_ok_def linked_def)

lemma link_new_ok:
  assumes ok: "uheap_ok u ua bs" and n: "n = uheap_current ua" and r: "unat n + 24 + unat r \<le> 0x40000000"
    and c: "unat c = unat n + 24 + unat r"
  obtains u' ua' where "link_new n r u ua = Some (u', ua')" "uheap_ok u' (ua'\<lparr>uheap_current := c\<rparr>) (bs @ [n])"
    "ublock_free (user_headers u' n)" "live (uview u') (bs @ [n]) = live (uview u) bs"
    "uheap_current ua' = uheap_current ua"
proof (cases bs rule: rev_cases)
  case Nil
  note okD = uheap_okD [OF ok]
  have "ufirst_block ua = 0" using blocks_okD(1) [OF okD(1)] Nil by simp
  then have e: "link_new n r u ua = Some (put_user n (new_user_block r True) u, ua\<lparr>ufirst_block := n\<rparr>)"
    by (simp add: link_new_def Let_def)
  let ?u = "put_user n (new_user_block r True) u"
  have v: "uview ?u n = uview_block (new_user_block r True)" by (simp add: uview_put)
  have n5: "0x8000000 \<le> unat n" using okD(5) n by simp
  then have n0: "n \<noteq> 0" by auto
  have "blocks_ok 24 (uview ?u) n [n]"
    by (rule blocks_ok_single) (use n0 r in \<open>simp_all add: v uview_block_def\<close>)
  then have "uheap_ok ?u (ua\<lparr>ufirst_block := n, uheap_current := c\<rparr>) (bs @ [n])"
    using Nil n5 r c by (auto simp: uheap_ok_def space_def foot_def v uview_block_def)
  moreover have "live (uview ?u) (bs @ [n]) = live (uview u) bs"
    using Nil by (auto simp: live_def v uview_block_def)
  ultimately show ?thesis using that [OF e] by simp
next
  case (snoc cs l)
  note okD = uheap_okD [OF ok]
  have n0: "n \<noteq> 0" using okD(5) n by auto
  have ok1: "blocks_ok 24 (uview u) (ufirst_block ua) (cs @ [l])" using okD(1) snoc by simp
  have f0: "ufirst_block ua \<noteq> 0"
    using linked_first [OF blocks_okD(1) [OF ok1]] blocks_okD(3) [OF ok1] by (cases cs) auto
  have d: "{unat n ..< unat n + 24 + unat r} \<inter> space 24 (uview u) (cs @ [l]) = {}"
    using okD(4) snoc n by auto
  note L = blocks_ok_link_last [OF ok1 n0 _ _ d]
  have r64: "unat n + 24 + unat r < 18446744073709551616" using r by simp
  have nb: "n \<notin> set (cs @ [l])" by (rule L(1)) (use r64 in simp_all)
  then have nl: "n \<noteq> l" by auto
  obtain q where q: "segment (uview u) 0 (ufirst_block ua) (cs @ [l]) q 0"
    using blocks_okD(1) [OF ok1] by (auto simp: linked_def)
  let ?u1 = "put_user n (new_user_block r True) u"
  have "segment (uview ?u1) 0 (ufirst_block ua) (cs @ [l]) q 0"
    by (rule segment_start_cong [OF q]) (use nb in \<open>auto simp: uview_put\<close>)
  then have last: "user_last_from ?u1 (ufirst_block ua) = Some l"
    using user_last_from_segment [of ?u1 0 "ufirst_block ua" "cs @ [l]" q] by simp
  let ?u = "uset_prev n l (uset_next l n ?u1)"
  have e: "link_new n r u ua = Some (?u, ua)" using f0 last by (simp add: link_new_def Let_def)
  have v: "uview ?u = link_last l n (unat r) (uview u)"
    using nl unfolding uview_set uview_put link_last_def by (simp add: uview_block_def fun_upd_twist)
  have b: "blocks_ok 24 (uview ?u) (ufirst_block ua) (cs @ [l, n])"
    "space 24 (uview ?u) (cs @ [l, n]) = space 24 (uview u) (cs @ [l]) \<union> {unat n ..< unat n + 24 + unat r}"
    unfolding v by (rule L(2,3); use r64 in simp)+
  have eq: "cs @ [l, n] = bs @ [n]" using snoc by simp
  have "ublock_valid (user_headers ?u x)" if "x \<in> set (bs @ [n])" for x
    using that okD(3) [of x] by auto
  then have "uheap_ok ?u (ua\<lparr>uheap_current := c\<rparr>) (bs @ [n])"
    using b okD(4-6) r c n snoc unfolding eq uheap_ok_def by auto
  moreover have "ublock_free (user_headers ?u n)" using nl by (simp add: uset_prev_def uset_next_def)
  moreover have "live (uview ?u) (bs @ [n]) = live (uview u) bs"
    using live_link_last [OF blocks_okD(1) [OF ok1] nb, of "unat r"] snoc by (simp add: v)
  ultimately show ?thesis using that [OF e] by simp
qed

lemma user_expand_ok:
  assumes ok: "uheap_ok u ua bs" and m: "24 \<le> unat n"
  obtains r u' ua' cs where "user_expand_heap n u ua = Some (r, u', ua')" "uheap_ok u' ua' cs"
    "live (uview u') cs = live (uview u) bs"
proof -
  note okD = uheap_okD [OF ok]
  let ?e = "ALIGN_UP (ucast n)" and ?n = "uheap_current ua"
  have n32: "unat (ucast n :: u64) < 4294967296" using u32_bound [of n] by simp
  then have e: "unat ?e = (unat n + 4095) div 4096 * 4096" by (subst unat_ALIGN_UP) simp_all
  have e24: "24 \<le> unat ?e" using m unfolding e by simp
  have "unat ?e \<le> unat n + 4095" unfolding e by simp
  then have sum: "unat (?n + ?e) = unat ?n + unat ?e"
    using okD(6) u32_bound [of n] by (intro unat_add_nowrap) simp
  show ?thesis
  proof (cases "?n + ?e > USER_HEAP_MAX_ADDR")
    case True
    then have "user_expand_heap n u ua = Some (False, u, ua)" by (simp add: user_expand_heap_def)
    then show ?thesis using that ok by blast
  next
    case room: False
    then have le: "unat ?n + unat ?e \<le> 0x40000000"
      using sum by (simp add: USER_HEAP_MAX_ADDR_def wordnat)
    obtain k u1 where q: "sys_request_memory (upage_directory ua) ?n ?e u = (k, u1)"
      by (cases "sys_request_memory (upage_directory ua) ?n ?e u")
    note S = uheap_ok_same [OF ok request_headers [OF q]]
    show ?thesis
    proof (cases k)
      case False
      then have "user_expand_heap n u ua = Some (False, u1, ua)"
        using room q by (simp add: user_expand_heap_def)
      then show ?thesis using that [of False u1 ua bs] S by simp
    next
      case True
      let ?r = "ucast (?e - sizeof_user_block) :: u32"
      have r64: "unat (?e - sizeof_user_block) = unat ?e - 24"
        using e24 by (simp add: sizeof_user_block_def unat_sub_nowrap wordnat)
      then have r: "unat ?r = unat ?e - 24" using le by (simp add: unat_ucast_down)
      have b: "unat ?n + 24 + unat ?r \<le> 0x40000000" "unat (?n + ?e) = unat ?n + 24 + unat ?r"
        using r e24 le sum by simp_all
      obtain u2 ua2 where l: "link_new ?n ?r u1 ua = Some (u2, ua2)"
        "uheap_ok u2 (ua2\<lparr>uheap_current := ?n + ?e\<rparr>) (bs @ [?n])" "ublock_free (user_headers u2 ?n)"
        "live (uview u2) (bs @ [?n]) = live (uview u1) bs" "uheap_current ua2 = ?n"
        by (rule link_new_ok [OF S(1) refl b])
      let ?ua = "ua2\<lparr>uheap_current := ?n + ?e\<rparr>"
      have nb: "?n \<in> set (bs @ [?n])" by simp
      obtain u3 nb cs where c: "user_coalesce_block ?n u2 ?ua = (u3, ?ua\<lparr>num_blocks := nb\<rparr>)"
        "blocks_ok 24 (uview u3) (ufirst_block ?ua) cs" "set cs \<subseteq> set (bs @ [?n])" "cs \<noteq> []"
        "space 24 (uview u3) cs = space 24 (uview u2) (bs @ [?n])"
        "live (uview u3) cs = live (uview u2) (bs @ [?n])"
        "\<forall>c. ublock_valid (user_headers u3 c) = ublock_valid (user_headers u2 c)" "kstate u3 = kstate u2"
        by (rule user_coalesce_ok [OF uheap_okD(1,2) [OF l(2)] nb l(3)])
      have "uheap_ok u3 (?ua\<lparr>num_blocks := nb\<rparr>) cs"
        unfolding uheap_ok_def using c(2,3,5,7) uheap_okD(3-6) [OF l(2)] by auto
      moreover have "user_expand_heap n u ua = Some (True, u3, ?ua\<lparr>num_blocks := nb\<rparr>)"
        using room q True l(1,5) c(1) by (simp add: user_expand_heap_def Let_def)
      ultimately show ?thesis using that c(6) l(4) S(2) by simp
    qed
  qed
qed

subsection \<open>Allocation\<close>

lemma user_malloc_ok:
  assumes ok: "uheap_ok u ua bs"
  obtains u' ua' cs where "user_malloc n u ua = Some (0, u', ua')" "uheap_ok u' ua' cs"
    "live (uview u') cs = live (uview u) bs"
  | b c u' ua' cs where "user_malloc n u ua = Some (user_data b, u', ua')" "uheap_ok u' ua' cs"
    "unat n \<le> c" "live (uview u') cs = insert (b, c) (live (uview u) bs)" "b \<noteq> 0"
    "b \<notin> fst ` live (uview u) bs" "unat (ucast (ALIGN_UP n) :: u32) \<le> c"
proof (cases "n = 0 \<or> n > MAX_SINGLE_ALLOC")
  case True
  then show ?thesis using that(1) [of u ua bs] ok by (auto simp: user_malloc_def)
next
  case n0: False
  let ?s = "ucast (ALIGN_UP n) :: u32"
  let ?m = "ucast ((ucast ?s :: u64) + sizeof_user_block) :: u32"
  have n: "unat n \<le> 0x80000000" using n0 by (simp add: MAX_SINGLE_ALLOC_def wordnat)
  then have a: "unat (ALIGN_UP n) = (unat n + 4095) div 4096 * 4096" by (intro unat_ALIGN_UP) simp
  have a2: "unat (ALIGN_UP n) \<le> 0x80000000" "unat n \<le> unat (ALIGN_UP n)"
    using n unfolding a by simp_all
  then have s: "unat ?s = unat (ALIGN_UP n)" by (simp add: unat_ucast_down)
  have "unat ((ucast ?s :: u64) + 24) = unat ?s + 24" using s a2 by (simp add: unat_add_nowrap)
  then have m: "24 \<le> unat ?m" using s a2 by (simp add: sizeof_user_block_def unat_ucast_down)
  show ?thesis
  proof (rule user_find_result [OF uheap_okD(1) [OF ok], where sz = ?s])
    fix b assume b: "user_find_free_block ?s u ua = Some b" "b \<in> set bs" "b \<noteq> 0"
      "ublock_free (user_headers u b)" "?s \<le> ublock_size (user_headers u b)"
    obtain u' ua' cs c where t: "user_take_block b ?s u ua = (user_data b, u', ua')" "uheap_ok u' ua' cs"
      "unat ?s \<le> c" "live (uview u') cs = insert (b, c) (live (uview u) bs)" "b \<noteq> 0"
      "b \<notin> fst ` live (uview u) bs" "kstate u' = kstate u"
      by (rule user_take_ok [OF ok b(2,4,5)])
    have "user_malloc n u ua = Some (user_data b, u', ua')"
      using n0 b(1,3) t(1) by (simp add: user_malloc_def Let_def)
    then show ?thesis using that(2) [OF _ t(2) _ t(4-6,3)] t(3) s a2 by simp
  next
    assume none: "user_find_free_block ?s u ua = Some 0"
    obtain r u1 ua1 ds where e: "user_expand_heap ?m u ua = Some (r, u1, ua1)"
      "uheap_ok u1 ua1 ds" "live (uview u1) ds = live (uview u) bs"
      by (rule user_expand_ok [OF ok m])
    show ?thesis
    proof (cases r)
      case False
      then have "user_malloc n u ua = Some (0, u1, ua1)"
        using n0 none e(1) by (simp add: user_malloc_def Let_def)
      then show ?thesis using that(1) e by simp
    next
      case True
      show ?thesis
      proof (rule user_find_result [OF uheap_okD(1) [OF e(2)], where sz = ?s])
        fix b assume b: "user_find_free_block ?s u1 ua1 = Some b" "b \<in> set ds" "b \<noteq> 0"
          "ublock_free (user_headers u1 b)" "?s \<le> ublock_size (user_headers u1 b)"
        obtain u' ua' cs c where t: "user_take_block b ?s u1 ua1 = (user_data b, u', ua')" "uheap_ok u' ua' cs"
          "unat ?s \<le> c" "live (uview u') cs = insert (b, c) (live (uview u1) ds)" "b \<noteq> 0"
          "b \<notin> fst ` live (uview u1) ds" "kstate u' = kstate u1"
          by (rule user_take_ok [OF e(2) b(2,4,5)])
        have "user_malloc n u ua = Some (user_data b, u', ua')"
          using n0 none e(1) True b(1,3) t(1) by (simp add: user_malloc_def Let_def)
        moreover have "unat n \<le> c" using t(3) s a2 by simp
        ultimately show ?thesis
          by (rule that(2) [OF _ t(2) _ t(4) [unfolded e(3)] t(5) t(6) [unfolded e(3)] t(3)])
      next
        assume "user_find_free_block ?s u1 ua1 = Some 0"
        then have "user_malloc n u ua = Some (0, u1, ua1)"
          using n0 none e(1) True by (simp add: user_malloc_def Let_def user_take_block_def)
        then show ?thesis using that(1) e by simp
      qed
    qed
  qed
qed

subsection \<open>The client's view\<close>

lemma user_data_inject [simp]: "user_data b = user_data c \<longleftrightarrow> b = c"
  by (simp add: user_data_def)

interpretation uh: block_heap "\<lambda>s. uheap_ok (fst s) (snd s)" "\<lambda>s. uview (fst s)" 24 user_data "\<lambda>n. True"
  "\<lambda>n s. user_malloc n (fst s) (snd s)" "\<lambda>p s. user_free p (fst s) (snd s)"
proof
  fix s :: "user_space \<times> user_allocator" and bs b c d n
  show "(0 :: nat) < 24" by simp
  show "unat b + 24 < 18446744073709551616 \<Longrightarrow> unat (user_data b) = unat b + 24"
    by (rule unat_user_data)
  show "user_data b = user_data d \<longleftrightarrow> b = d" by simp
  assume ok: "uheap_ok (fst s) (snd s) bs"
  show "\<exists>f. blocks_ok 24 (uview (fst s)) f bs" using uheap_okD(1) [OF ok] by blast
  show "\<exists>cs. uheap_ok (fst (user_free (user_data b) (fst s) (snd s))) (snd (user_free (user_data b) (fst s) (snd s))) cs
      \<and> live (uview (fst (user_free (user_data b) (fst s) (snd s)))) cs = live (uview (fst s)) bs - {(b, c)}"
    if b: "(b, c) \<in> live (uview (fst s)) bs"
    by (rule user_free_ok [OF ok b]) auto
  show "\<exists>p s' cs. user_malloc n (fst s) (snd s) = Some (p, s') \<and> uheap_ok (fst s') (snd s') cs
      \<and> (p = 0 \<and> live (uview (fst s')) cs = live (uview (fst s)) bs
         \<or> (\<exists>b c. p = user_data b \<and> unat n \<le> c \<and> b \<notin> fst ` live (uview (fst s)) bs
              \<and> live (uview (fst s')) cs = insert (b, c) (live (uview (fst s)) bs)))"
    by (rule user_malloc_ok [OF ok, of n]) (metis fst_conv snd_conv)+
qed

text \<open>Everything in use lies between the start and the limit of the user heap.\<close>

lemma user_in_use_inside:
  assumes "uh.rep s L" "(p, c) \<in> L"
  shows "bytes_of p c \<subseteq> {0x8000000 ..< 0x40000000}"
proof -
  obtain bs where bs: "uheap_ok (fst s) (snd s) bs" "L = uh.in_use s bs"
    using assms(1) by (auto simp: uh.rep_def)
  then obtain b where b: "p = user_data b" "(b, c) \<in> live (uview (fst s)) bs"
    using assms(2) by (auto simp: uh.in_use_def)
  have "bytes_of p c \<subseteq> space 24 (uview (fst s)) bs"
    using uh.live_data(1,3) [of s bs b c] bs(1) b by (auto simp: space_def)
  then show ?thesis using uheap_okD(4,6) [OF bs(1)] by fastforce
qed

subsection \<open>Changing the size of a block\<close>

text \<open>Where \<^verbatim>\<open>realloc\<close> gets a size it supports, the old block is left in use when it
  fails; otherwise the result is the old pointer or a new one, in use with the size asked for, and the
  old block is not in use any more unless it is the result.\<close>

lemma user_realloc_cases:
  assumes ok: "uheap_ok u ua bs" and b: "(b, c) \<in> live (uview u) bs" and n: "n \<noteq> 0" "n \<le> MAX_SINGLE_ALLOC"
  obtains (kept) u' ua' cs d where "user_realloc (user_data b) n u ua = Some (user_data b, u', ua')"
      "uheap_ok u' ua' cs" "unat n \<le> d" "live (uview u') cs = insert (b, d) (live (uview u) bs - {(b, c)})"
      "kstate u' = kstate u" "uheap_start ua' = uheap_start ua" "uheap_current ua' = uheap_current ua"
      "upage_directory ua' = upage_directory ua"
    | (failed) u' ua' cs where "user_realloc (user_data b) n u ua = Some (0, u', ua')"
      "user_malloc n u ua = Some (0, u', ua')" "uheap_ok u' ua' cs" "live (uview u') cs = live (uview u) bs"
    | (moved) u1 ua1 ds d e u2 u' ua' cs where "user_malloc n u ua = Some (user_data d, u1, ua1)"
      "uheap_ok u1 ua1 ds" "(d, e) \<in> live (uview u1) ds" "c \<le> e" "d \<notin> fst ` live (uview u) bs" "unat n \<le> e"
      "u2 = set_umachine (snd (memcpy (user_data d) (user_data b) (word_of_nat c) (umachine u1))) u1"
      "user_free (user_data b) u2 ua1 = (u', ua')" "user_realloc (user_data b) n u ua = Some (user_data d, u', ua')"
      "uheap_ok u' ua' cs" "live (uview u') cs = insert (d, e) (live (uview u) bs - {(b, c)})"
proof -
  let ?s = "ucast (ALIGN_UP n) :: u32" and ?S = "ublock_size (user_headers u b)"
  note L = uh.live_data [of "(u, ua)" bs b c, simplified, OF ok b]
  have ub: "c = unat ?S" "\<not> ublock_free (user_headers u b)" using b by (auto simp: live_def uview_fields)
  have v: "ublock_valid (user_headers u b)" by (rule uheap_okD(3) [OF ok L(3)])
  have n31: "unat n \<le> 0x80000000" using n(2) by (simp add: MAX_SINGLE_ALLOC_def wordnat)
  then have "unat (ALIGN_UP n) = (unat n + 4095) div 4096 * 4096" by (intro unat_ALIGN_UP) simp
  then have "unat (ALIGN_UP n) \<le> 0x80000FFF" "unat n \<le> unat (ALIGN_UP n)" using n31 by simp_all
  then have s: "unat n \<le> unat ?s" by (simp add: unat_ucast_down)
  have w: "(ucast ?S :: u64) = word_of_nat c" by (simp add: ub(1) word_unat_eq_iff)
  show thesis
  proof (cases "?s \<le> ?S")
    case True
    show thesis
    proof (cases "(ucast ?S :: u64) > ucast ?s + sizeof_user_block + 16")
      case big: True
      obtain u1 nb cs d where t: "user_split_block b ?s u ua = (u1, ua\<lparr>num_blocks := nb\<rparr>)"
        "uheap_ok u1 (ua\<lparr>num_blocks := nb\<rparr>) cs" "b \<in> set cs"
        "ublock_free (user_headers u1 b) = ublock_free (user_headers u b)" "unat ?s \<le> d" "bsize (uview u1 b) = d"
        "kstate u1 = kstate u"
        "live (uview u1) cs = (if ublock_free (user_headers u b) then live (uview u) bs
           else insert (b, d) (live (uview u) bs - {(b, bsize (uview u b))}))"
        by (rule user_split_ok [OF ok L(3) True])
      have "user_realloc (user_data b) n u ua = Some (user_data b, u1, ua\<lparr>num_blocks := nb\<rparr>)"
        using L(2) n(1) v ub(2) True big t(1) by (simp add: user_realloc_def Let_def)
      then show thesis
        using t(2,5,7,8) ub s L(4) by (intro kept [of u1 "ua\<lparr>num_blocks := nb\<rparr>" cs d]) simp_all
    next
      case False
      then have "user_realloc (user_data b) n u ua = Some (user_data b, u, ua)"
        using L(2) n(1) v ub(2) True by (simp add: user_realloc_def Let_def)
      moreover have "unat n \<le> c" using True s ub(1) by (simp add: wordnat)
      moreover have "live (uview u) bs = insert (b, c) (live (uview u) bs - {(b, c)})" using b by blast
      ultimately show thesis using ok by (intro kept [of u ua bs c]) simp_all
    qed
  next
    case grow: False
    show thesis
    proof (rule user_malloc_ok [OF ok, of n])
      fix u1 ua1 cs assume m: "user_malloc n u ua = Some (0, u1, ua1)" "uheap_ok u1 ua1 cs"
        "live (uview u1) cs = live (uview u) bs"
      have "user_realloc (user_data b) n u ua = Some (0, u1, ua1)"
        using L(2) n(1) v ub(2) grow m(1) by (simp add: user_realloc_def Let_def)
      then show thesis using m by (rule failed)
    next
      fix d e u1 ua1 ds assume m: "user_malloc n u ua = Some (user_data d, u1, ua1)" "uheap_ok u1 ua1 ds"
        "unat n \<le> e" "live (uview u1) ds = insert (d, e) (live (uview u) bs)" "d \<noteq> 0" "d \<notin> fst ` live (uview u) bs"
        "unat ?s \<le> e"
      let ?u = "set_umachine (snd (memcpy (user_data d) (user_data b) (word_of_nat c) (umachine u1))) u1"
      have ok2: "uheap_ok ?u ua1 ds" "uview ?u = uview u1" by (rule uheap_ok_same [OF m(2)]; simp)+
      have b2: "(b, c) \<in> live (uview ?u) ds" using b m(4) ok2(2) by simp
      obtain u' ua' cs where f: "user_free (user_data b) ?u ua1 = (u', ua')" "uheap_ok u' ua' cs"
        "live (uview u') cs = live (uview ?u) ds - {(b, c)}" by (rule user_free_ok [OF ok2(1) b2])
      have d: "(d, e) \<in> live (uview u1) ds" using m(4) by simp
      have "user_data d \<noteq> 0" using uh.live_data(2) [of "(u1, ua1)" ds d e] m(2) d by simp
      then have "user_realloc (user_data b) n u ua = Some (user_data d, u', ua')"
        using L(2) n(1) v ub(2) grow m(1) f(1) by (simp add: user_realloc_def Let_def w)
      moreover have "c \<le> e" using m(7) grow by (simp add: ub(1) wordnat)
      moreover have "live (uview u') cs = insert (d, e) (live (uview u) bs - {(b, c)})"
        using f(3) m(4,6) b by (force simp: ok2(2))
      ultimately show thesis using m(1-3,6) d f(1,2) by (intro moved [of d u1 ua1 ds e ?u u' ua' cs]) simp_all
    qed
  qed
qed

end
