(* ===== verification/User_Properties.thy ===== *)
theory User_Properties
  imports User_Correct Manager_Properties
begin

text \<open>
  What the user heap promises to a process, and where it does not keep the promise; the checks a
  process's memory makes on pointers.
\<close>

subsection \<open>A concrete heap\<close>

text \<open>One block of 4096 bytes in use at the start of the heap, the rest of its first megabyte free.\<close>

definition example_user :: user_space where
  "example_user = \<lparr>kstate = boot_state, user_headers = (\<lambda>a.
     if a = 0x8000000 then (new_user_block 0x1000 False)\<lparr>unext := 0x8001018\<rparr>
     else if a = 0x8001018 then (new_user_block 0xFEFD0 True)\<lparr>uprev := 0x8000000\<rparr>
     else new_user_block 0 False)\<rparr>"

definition example_allocator :: user_allocator where
  "example_allocator = \<lparr>uheap_start = 0x8000000, uheap_current = 0x8100000, uheap_limit = 0x40000000,
     ufirst_block = 0x8000000, upage_directory = 0x2000, utotal_allocated = 0x1000, num_blocks = 1\<rparr>"

lemma example_user_ok: "uheap_ok example_user example_allocator [0x8000000, 0x8001018]"
  by (auto simp: uheap_ok_def blocks_ok_def linked_def uview_fields example_user_def example_allocator_def
      space_def foot_def)

lemma example_user_live: "(0x8000000, 0x1000) \<in> live (uview example_user) [0x8000000, 0x8001018]"
  by (simp add: live_def uview_fields example_user_def)

subsection \<open>Safety\<close>

text \<open>C10. Blocks of the user heap never overlap: whatever sequence of \<^verbatim>\<open>malloc\<close> and
  \<^verbatim>\<open>free\<close> calls a process makes, with requests of any size and releasing only pointers it holds
  (a free of any other pointer is not among the calls), every call returns, the heap stays
  well formed, and the byte ranges the process asked for and holds are pairwise disjoint, never at the
  null pointer, and between the start of the heap at 128 MB and its limit at 1 GB.\<close>

theorem user_blocks_never_overlap:
  assumes "uheap_ok u ua bs"
  shows "\<exists>s' held. client (\<lambda>n s. user_malloc n (fst s) (snd s)) (\<lambda>p s. user_free p (fst s) (snd s))
      rs (u, ua) [] = Some (s', held)
    \<and> (\<exists>bs'. uheap_ok (fst s') (snd s') bs')
    \<and> sorted_wrt (\<lambda>q r. held_bytes q \<inter> held_bytes r = {}) held
    \<and> (\<forall>q \<in> set held. fst q \<noteq> 0 \<and> held_bytes q \<subseteq> {unat USER_HEAP_START_ADDR ..< unat USER_HEAP_MAX_ADDR})"
proof -
  have rep: "uh.rep (u, ua) (uh.in_use (u, ua) bs)" using uh.repI [of "(u, ua)" bs] assms by simp
  obtain s' held where r: "client (\<lambda>n s. user_malloc n (fst s) (snd s)) (\<lambda>p s. user_free p (fst s) (snd s))
      rs (u, ua) [] = Some (s', held)" "\<exists>L'. uh.rep s' L'"
      "sorted_wrt (\<lambda>q r. held_bytes q \<inter> held_bytes r = {}) held" "\<forall>q \<in> set held. fst q \<noteq> 0"
    using uh.client_apart [OF rep, of rs] by blast
  have "\<forall>q \<in> set held. held_bytes q \<subseteq> {0x8000000 ..< 0x40000000}"
    by (rule uh.client_inside [OF rep _ r(1) user_in_use_inside]) simp_all
  then show ?thesis
    using r unfolding uh.rep_def by (auto simp: USER_HEAP_START_ADDR_def USER_HEAP_MAX_ADDR_def)
qed

theorem user_blocks_never_overlap_witness:
  "\<exists>s' held. client (\<lambda>n s. user_malloc n (fst s) (snd s)) (\<lambda>p s. user_free p (fst s) (snd s))
      [Alloc 100, Alloc 0xFFFFFFFFFFFFFFFF, Release 0x8001030, Alloc 0x400000] (example_user, example_allocator) []
        = Some (s', held)
    \<and> sorted_wrt (\<lambda>q r. held_bytes q \<inter> held_bytes r = {}) held"
  using user_blocks_never_overlap [OF example_user_ok] by blast

subsection \<open>Contracts\<close>

text \<open>C11. \<^verbatim>\<open>malloc\<close> of the user heap returns for every size. Either the result is null and
  the blocks in use are unchanged, or it points to a block that was not in use, now in use with at least
  the requested size; requests of 0 bytes or more than 2 GB are always refused.\<close>

theorem user_malloc_contract:
  assumes "uheap_ok u ua bs"
  shows "\<exists>p u' ua' bs'. user_malloc n u ua = Some (p, u', ua') \<and> uheap_ok u' ua' bs'
    \<and> (p = 0 \<and> live (uview u') bs' = live (uview u) bs
       \<or> (\<exists>b c. p = user_data b \<and> p \<noteq> 0 \<and> unat n \<le> c \<and> b \<notin> fst ` live (uview u) bs
            \<and> live (uview u') bs' = insert (b, c) (live (uview u) bs)))
    \<and> (n = 0 \<or> 0x80000000 < n \<longrightarrow> p = 0)"
proof -
  have z: "user_malloc n u ua = Some (0, u, ua)" if "n = 0 \<or> 0x80000000 < n"
    using that by (auto simp: user_malloc_def MAX_SINGLE_ALLOC_def)
  show ?thesis
  proof (rule user_malloc_ok [OF assms, of n])
    fix b c u' ua' cs
    assume m: "user_malloc n u ua = Some (user_data b, u', ua')" "uheap_ok u' ua' cs" "unat n \<le> c"
      "live (uview u') cs = insert (b, c) (live (uview u) bs)" "b \<noteq> 0" "b \<notin> fst ` live (uview u) bs"
    have "(b, c) \<in> live (uview u') cs" using m(4) by simp
    then have "user_data b \<noteq> 0" using uh.live_data(2) [of "(u', ua')" cs b c] m(2) by simp
    then show ?thesis using m z by (intro exI [of _ "user_data b"] exI [of _ u']) auto
  qed (use z in blast)
qed

theorem user_malloc_contract_witness:
  "\<exists>u' ua' bs'. user_malloc 0x80000001 example_user example_allocator = Some (0, u', ua') \<and> uheap_ok u' ua' bs'"
  using user_malloc_contract [OF example_user_ok, of "0x80000001"] by auto

text \<open>No operation on blocks reads the limit.\<close>

lemma limit_update:
  "uheap_limit_update f (num_blocks_update g ua) = num_blocks_update g (uheap_limit_update f ua)"
  "uheap_limit_update f (ufirst_block_update h ua) = ufirst_block_update h (uheap_limit_update f ua)"
  "uheap_limit_update f (uheap_current_update h ua) = uheap_current_update h (uheap_limit_update f ua)"
  "uheap_limit_update f (utotal_allocated_update g ua) = utotal_allocated_update g (uheap_limit_update f ua)"
  by simp_all

lemma limit_ops:
  "user_split_block b sz u (ua\<lparr>uheap_limit := l\<rparr>) = map_prod id (uheap_limit_update (\<lambda>_. l)) (user_split_block b sz u ua)"
  "user_coalesce_next b u (ua\<lparr>uheap_limit := l\<rparr>) = map_prod id (uheap_limit_update (\<lambda>_. l)) (user_coalesce_next b u ua)"
  "user_coalesce_prev b u (ua\<lparr>uheap_limit := l\<rparr>) = map_prod id (uheap_limit_update (\<lambda>_. l)) (user_coalesce_prev b u ua)"
  "link_new n r u (ua\<lparr>uheap_limit := l\<rparr>) = map_option (map_prod id (uheap_limit_update (\<lambda>_. l))) (link_new n r u ua)"
  by (simp_all add: user_split_block_def user_coalesce_next_def user_coalesce_prev_def link_new_def Let_def
      split: option.split)

lemma limit_coalesce:
  "user_coalesce_block b u (ua\<lparr>uheap_limit := l\<rparr>) = map_prod id (uheap_limit_update (\<lambda>_. l)) (user_coalesce_block b u ua)"
  by (simp add: user_coalesce_block_def limit_ops case_prod_beta)

lemma limit_take:
  "user_take_block b sz u (ua\<lparr>uheap_limit := l\<rparr>)
     = map_prod id (map_prod id (uheap_limit_update (\<lambda>_. l))) (user_take_block b sz u ua)"
  by (simp add: user_take_block_def limit_ops case_prod_beta Let_def)

lemma limit_expand:
  "user_expand_heap n u (ua\<lparr>uheap_limit := l\<rparr>)
     = map_option (map_prod id (map_prod id (uheap_limit_update (\<lambda>_. l)))) (user_expand_heap n u ua)"
proof -
  obtain k u1 where q: "sys_request_memory (upage_directory ua) (uheap_current ua) (ALIGN_UP (ucast n)) u = (k, u1)"
    by (cases "sys_request_memory (upage_directory ua) (uheap_current ua) (ALIGN_UP (ucast n)) u")
  let ?r = "ucast (ALIGN_UP (ucast n) - sizeof_user_block) :: u32"
  show ?thesis
  proof (cases "link_new (uheap_current ua) ?r u1 ua")
    case None
    then show ?thesis using q by (simp add: user_expand_heap_def Let_def limit_ops)
  next
    case (Some w)
    obtain u2 ua2 where w: "w = (u2, ua2)" by (cases w)
    let ?ua = "ua2\<lparr>uheap_current := uheap_current ua2 + ALIGN_UP (ucast n)\<rparr>"
    have "ua2\<lparr>uheap_limit := l, uheap_current := uheap_current ua2 + ALIGN_UP (ucast n)\<rparr> = ?ua\<lparr>uheap_limit := l\<rparr>"
      by simp
    then have "user_coalesce_block (uheap_current ua) u2
          (ua2\<lparr>uheap_limit := l, uheap_current := uheap_current ua2 + ALIGN_UP (ucast n)\<rparr>)
        = map_prod id (uheap_limit_update (\<lambda>_. l)) (user_coalesce_block (uheap_current ua) u2 ?ua)"
      by (simp only: limit_coalesce)
    then show ?thesis
      using q Some w by (simp add: user_expand_heap_def Let_def limit_ops case_prod_beta)
  qed
qed

text \<open>The limit set with \<^verbatim>\<open>set_heap_limit\<close> is never looked at: an allocation gives the
  same pointer and the same memory whatever the limit is.\<close>

theorem heap_limit_ignored:
  "user_malloc n u (ua\<lparr>uheap_limit := l\<rparr>)
    = map_option (\<lambda>(p, u', ua'). (p, u', ua'\<lparr>uheap_limit := l\<rparr>)) (user_malloc n u ua)"
proof -
  let ?s = "ucast (ALIGN_UP n) :: u32"
  let ?m = "ucast ((ucast ?s :: u64) + sizeof_user_block) :: u32"
  have f: "user_find_free_block sz v (uheap_limit_update g va) = user_find_free_block sz v va" for sz v va g
    by (simp add: user_find_free_block_def)
  have M: "(\<lambda>(p, u', ua'). (p, u', ua'\<lparr>uheap_limit := l\<rparr>)) = map_prod id (map_prod id (uheap_limit_update (\<lambda>_. l)))"
    by (auto simp: fun_eq_iff)
  have t: "user_take_block b sz v (uheap_limit_update (\<lambda>_. l) va)
      = map_prod id (map_prod id (uheap_limit_update (\<lambda>_. l))) (user_take_block b sz v va)" for b sz v va
    by (rule limit_take)
  show ?thesis
    unfolding M user_malloc_def Let_def f limit_expand
    by (auto simp: t f split: option.split)
qed

text \<open>\<^verbatim>\<open>realloc\<close> keeps only the low 32 bits of the rounded size: growing a block to
  4 GB and more succeeds with the old pointer when those bits fit the block, although the block stays
  smaller than what was asked for.\<close>

theorem user_realloc_forgets_high_bits:
  assumes ok: "uheap_ok u ua bs" and l: "(b, c) \<in> live (uview u) bs"
    and n: "0x100000000 \<le> unat n" "unat (ucast (ALIGN_UP n) :: u32) \<le> c"
  shows "\<exists>u' ua' bs' d. user_realloc (user_data b) n u ua = Some (user_data b, u', ua') \<and> uheap_ok u' ua' bs'
    \<and> (b, d) \<in> live (uview u') bs' \<and> d < unat n"
proof -
  note L = uh.live_data [of "(u, ua)" bs b c, simplified, OF ok l]
  have ub: "c = unat (ublock_size (user_headers u b))" "\<not> ublock_free (user_headers u b)"
    using l by (auto simp: live_def uview_fields)
  have v: "ublock_valid (user_headers u b)" by (rule uheap_okD(3) [OF ok L(3)])
  have c32: "c < 0x100000000" using u32_bound [of "ublock_size (user_headers u b)"] ub(1) by simp
  have le: "ucast (ALIGN_UP n) \<le> ublock_size (user_headers u b)" using n(2) ub(1) by (simp add: word_le_nat_alt)
  have n0: "n \<noteq> 0" using n(1) by auto
  obtain u1 nb cs d where s: "user_split_block b (ucast (ALIGN_UP n)) u ua = (u1, ua\<lparr>num_blocks := nb\<rparr>)"
    "uheap_ok u1 (ua\<lparr>num_blocks := nb\<rparr>) cs" "b \<in> set cs"
    "ublock_free (user_headers u1 b) = ublock_free (user_headers u b)"
    "unat (ucast (ALIGN_UP n) :: u32) \<le> d" "bsize (uview u1 b) = d" "kstate u1 = kstate u"
    "live (uview u1) cs = (if ublock_free (user_headers u b) then live (uview u) bs
       else insert (b, d) (live (uview u) bs - {(b, bsize (uview u b))}))"
    by (rule user_split_ok [OF ok L(3) le])
  let ?big = "(ucast (ublock_size (user_headers u b)) :: u64)
    > ucast (ucast (ALIGN_UP n) :: u32) + sizeof_user_block + 16"
  show ?thesis
  proof (cases ?big)
    case True
    then have "user_realloc (user_data b) n u ua = Some (user_data b, u1, ua\<lparr>num_blocks := nb\<rparr>)"
      using L(2) n0 v ub(2) le s(1) by (simp add: user_realloc_def Let_def)
    moreover have "d < unat n"
      using u32_bound [of "ublock_size (user_headers u1 b)"] s(6) n(1) by (simp add: uview_fields)
    moreover have "(b, d) \<in> live (uview u1) cs" using s(8) ub(2) by simp
    ultimately show ?thesis using s(2) by blast
  next
    case False
    then have "user_realloc (user_data b) n u ua = Some (user_data b, u, ua)"
      using L(2) n0 v ub(2) le by (simp add: user_realloc_def Let_def)
    then show ?thesis using ok l c32 n(1) by (meson less_le_trans)
  qed
qed

theorem user_realloc_forgets_high_bits_witness:
  "\<exists>u' ua'. user_realloc 0x8000018 0x100000001 example_user example_allocator = Some (0x8000018, u', ua')"
proof -
  have "0x100000000 \<le> unat (0x100000001 :: u64)" "unat (ucast (ALIGN_UP 0x100000001) :: u32) \<le> 0x1000"
    by (simp_all add: ALIGN_UP_def ALIGN_DOWN_def)
  from user_realloc_forgets_high_bits [OF example_user_ok example_user_live this]
  show ?thesis by (auto simp: user_data_def sizeof_user_block_def)
qed

subsection \<open>Validation\<close>

text \<open>The sum \<^verbatim>\<open>validate_heap\<close> computes.\<close>

definition used_sum :: "blocks \<Rightarrow> addr list \<Rightarrow> u32" where
  "used_sum v bs = (\<Sum>b \<leftarrow> bs. if bfree (v b) then 0 else word_of_nat (bsize (v b)))"

lemma used_sum_cong:
  "(\<And>b. b \<in> set bs \<Longrightarrow> bfree (w b) = bfree (v b) \<and> bsize (w b) = bsize (v b)) \<Longrightarrow> used_sum w bs = used_sum v bs"
  unfolding used_sum_def by (intro arg_cong [of _ _ sum_list] map_cong) simp_all

lemma user_validate_from_result:
  assumes "segment (uview u) p c bs q 0" "\<And>b. b \<in> set bs \<Longrightarrow> ublock_valid (user_headers u b)"
  shows "user_validate_from u ua t c = Some (t + used_sum (uview u) bs = utotal_allocated ua)"
  using assms
proof (induction bs arbitrary: p c t)
  case Nil
  then show ?case by (simp add: user_validate_from.simps [of _ _ _ 0] used_sum_def)
next
  case (Cons b bs)
  then have c: "c = b" "b \<noteq> 0" "segment (uview u) b (unext (user_headers u b)) bs q 0"
    by (simp_all add: uview_fields)
  show ?case
    using c(1,2) Cons.IH [OF c(3)] Cons.prems(2) [of b] Cons.prems(2)
    by (simp add: user_validate_from.simps [of u ua _ b] used_sum_def uview_fields add.assoc)
qed

lemma user_validate_result:
  assumes "uheap_ok u ua bs"
  shows "user_validate_heap u ua = Some (used_sum (uview u) bs = utotal_allocated ua)"
proof -
  obtain q where "segment (uview u) 0 (ufirst_block ua) bs q 0"
    using blocks_okD(1) [OF uheap_okD(1) [OF assms]] by (auto simp: linked_def)
  from user_validate_from_result [OF this uheap_okD(3) [OF assms], of ua 0]
  show ?thesis by (simp add: user_validate_heap_def)
qed

text \<open>Splitting a block in use takes the bytes split off out of the sum.\<close>

lemma user_split_used_sum:
  assumes ok: "uheap_ok u ua bs" and b: "b \<in> set bs" "\<not> ublock_free (user_headers u b)"
    and s: "unat sz + 40 \<le> unat (ublock_size (user_headers u b))"
  obtains u' bs' where "user_split_block b sz u ua = (u', ua\<lparr>num_blocks := num_blocks ua + 1\<rparr>)"
    "uheap_ok u' (ua\<lparr>num_blocks := num_blocks ua + 1\<rparr>) bs'"
    "used_sum (uview u') bs' + ublock_size (user_headers u b) = used_sum (uview u) bs + sz"
proof -
  let ?S = "ublock_size (user_headers u b)" and ?ua = "ua\<lparr>num_blocks := num_blocks ua + 1\<rparr>"
  obtain xs ys where bs: "bs = xs @ b # ys" using b(1) by (auto dest: split_list)
  have ok1: "blocks_ok 24 (uview u) (ufirst_block ua) (xs @ b # ys)" "in_user_heap (uview u) (xs @ b # ys)"
    using uheap_okD(1,2) [OF ok] bs by simp_all
  have le: "sz \<le> ?S" using s by (simp add: word_le_nat_alt)
  have "unat ((ucast sz :: u64) + 24 + 16) = unat sz + 40"
    using s u32_bound [of ?S] by (simp add: unat_add_nowrap)
  then have e: "num_blocks (snd (user_split_block b sz u ua)) = num_blocks ua + 1"
    using s by (simp add: user_split_block_def Let_def wordnat sizeof_user_block_def)
  show ?thesis
  proof (rule user_split_cases [OF ok1 le, where ua = ua])
    fix n u'
    let ?r = "unat ?S - unat sz - 24"
    assume u': "user_split_block b sz u ua = (u', ?ua)" "unat n = unat b + 24 + unat sz"
      "unat ?S = unat sz + 24 + ?r" "uview u' = insert_after b n (unat sz) ?r (uview u)"
      and m: "\<And>c. c = n \<or> ublock_valid (user_headers u c) \<Longrightarrow> ublock_valid (user_headers u' c)"
    have r: "bsize (uview u b) = unat sz + 24 + ?r" using u'(3) by (simp add: uview_fields)
    note I = blocks_ok_insert_after [OF ok1(1) _ r u'(2), folded u'(4)]
    have nb: "n \<notin> set (xs @ b # ys)" "n \<noteq> 0" using I(1,2) by simp_all
    note F = insert_after_facts [OF blocks_okD(1) [OF ok1(1)] nb, where sz = "unat sz" and r = ?r, folded u'(4)]
    have dist: "b \<notin> set xs" "b \<notin> set ys" "n \<notin> set xs" "n \<notin> set ys"
      using blocks_okD(2) [OF ok1(1)] nb by auto
    have same: "used_sum (uview u') zs = used_sum (uview u) zs" if "b \<notin> set zs" "n \<notin> set zs" for zs
      by (rule used_sum_cong) (use F(6) that in \<open>metis\<close>)
    have "uheap_ok u' ?ua (xs @ b # n # ys)"
      using I(3,4) m uheap_okD(3-6) [OF ok] bs by (auto simp: uheap_ok_def)
    moreover have "used_sum (uview u') (xs @ b # n # ys) + ?S = used_sum (uview u) bs + sz"
      using same [OF dist(1,3)] same [OF dist(2,4)] F(1-4) b(2) by (simp add: used_sum_def bs uview_fields)
    ultimately show ?thesis by (rule that [OF u'(1)])
  qed (use e in simp)
qed

text \<open>Shrinking a block with \<^verbatim>\<open>realloc\<close> breaks the heap's own check: the block is split but
  the total of allocated bytes keeps its old value, so \<^verbatim>\<open>validate_heap\<close> fails on a heap whose
  blocks are all intact.\<close>

theorem user_shrink_fails_validation:
  assumes ok: "uheap_ok u ua bs" and l: "(b, c) \<in> live (uview u) bs"
    and n: "n \<noteq> 0" "unat (ALIGN_UP n) + 40 < c"
    and t: "user_validate_heap u ua = Some True"
  shows "\<exists>u' ua' bs'. user_realloc (user_data b) n u ua = Some (user_data b, u', ua')
    \<and> uheap_ok u' ua' bs' \<and> user_validate_heap u' ua' = Some False"
proof -
  let ?s = "ucast (ALIGN_UP n) :: u32" and ?S = "ublock_size (user_headers u b)"
    and ?ua = "ua\<lparr>num_blocks := num_blocks ua + 1\<rparr>"
  note L = uh.live_data [of "(u, ua)" bs b c, simplified, OF ok l]
  have ub: "c = unat ?S" "\<not> ublock_free (user_headers u b)"
    using l by (auto simp: live_def uview_fields)
  have s: "unat ?s = unat (ALIGN_UP n)" using n(2) u32_bound [of ?S] ub(1) by (simp add: unat_ucast_down)
  then have big: "unat ?s + 40 \<le> unat ?S" using n(2) ub(1) by simp
  obtain u' bs' where u': "user_split_block b ?s u ua = (u', ?ua)" "uheap_ok u' ?ua bs'"
    "used_sum (uview u') bs' + ?S = used_sum (uview u) bs + ?s"
    by (rule user_split_used_sum [OF ok L(3) ub(2) big])
  have "?S \<noteq> ?s" using s n(2) ub(1) by auto
  moreover have "used_sum (uview u) bs = utotal_allocated ua"
    using t user_validate_result [OF ok] by simp
  ultimately have "used_sum (uview u') bs' \<noteq> utotal_allocated ua"
    using u'(3) by (metis add_left_cancel)
  then have "user_validate_heap u' ?ua = Some False" using user_validate_result [OF u'(2)] by simp
  moreover have "unat ((ucast ?s :: u64) + 24 + 16) = unat ?s + 40"
    using big u32_bound [of ?S] by (simp add: unat_add_nowrap)
  then have "user_realloc (user_data b) n u ua = Some (user_data b, u', ?ua)"
    using L(2) n ub uheap_okD(3) [OF ok L(3)] u'(1) s
    by (simp add: user_realloc_def Let_def sizeof_user_block_def wordnat add.assoc)
  ultimately show ?thesis using u'(2) by blast
qed

theorem user_shrink_fails_validation_witness:
  "\<exists>u' ua'. user_realloc 0x8000018 100
      (example_user\<lparr>user_headers := (user_headers example_user)
         (0x8000000 := (new_user_block 0x3000 False)\<lparr>unext := 0x8003018\<rparr>,
          0x8003018 := (new_user_block 0xFCFD0 True)\<lparr>uprev := 0x8000000\<rparr>)\<rparr>)
      (example_allocator\<lparr>utotal_allocated := 0x3000\<rparr>) = Some (0x8000018, u', ua')
    \<and> user_validate_heap u' ua' = Some False"
proof -
  let ?u = "example_user\<lparr>user_headers := (user_headers example_user)
         (0x8000000 := (new_user_block 0x3000 False)\<lparr>unext := 0x8003018\<rparr>,
          0x8003018 := (new_user_block 0xFCFD0 True)\<lparr>uprev := 0x8000000\<rparr>)\<rparr>"
  let ?ua = "example_allocator\<lparr>utotal_allocated := 0x3000\<rparr>"
  have ok: "uheap_ok ?u ?ua [0x8000000, 0x8003018]"
    by (auto simp: uheap_ok_def blocks_ok_def linked_def uview_fields example_allocator_def space_def foot_def)
  moreover have "(0x8000000, 0x3000) \<in> live (uview ?u) [0x8000000, 0x8003018]"
    by (simp add: live_def uview_fields)
  moreover have "unat (ALIGN_UP 100) + 40 < 0x3000" by (simp add: ALIGN_UP_def ALIGN_DOWN_def)
  moreover have "user_validate_heap ?u ?ua = Some True"
    by (simp add: user_validate_result [OF ok] used_sum_def uview_fields)
  ultimately show ?thesis
    using user_shrink_fails_validation [of ?u ?ua "[0x8000000, 0x8003018]" "0x8000000" "0x3000" 100]
    by (auto simp: user_data_def sizeof_user_block_def)
qed

subsection \<open>User pointers\<close>

text \<open>C29. A user pointer is accepted exactly when its range does not wrap, starts at or above the end of the
  4 MB null guard and ends below the canonical half of the address space, 2^47. The comments of
  \<^verbatim>\<open>user_allocator.hpp\<close> end user space at 0x7FFFFFFF and call everything from 0x80000000 on kernel
  space: the check does not reject what they call kernel space, every range from there up to 2^47 passes.\<close>

theorem validate_user_pointer_exact:
  "(validate_user_pointer p n \<longleftrightarrow>
      0x400000 \<le> unat p \<and> unat p + unat n < 0x800000000000)
    \<and> (0x80000000 \<le> unat p \<and> unat p + unat n < 0x800000000000 \<longrightarrow> validate_user_pointer p n)"
proof -
  have wrap: "\<not> p + n < p" if "unat p + unat n < 18446744073709551616"
    using that by (simp add: wordnat unat_add_nowrap)
  have iff: "validate_user_pointer p n \<longleftrightarrow> 0x400000 \<le> unat p \<and> unat p + unat n < 0x800000000000"
  proof (cases "unat p + unat n < 18446744073709551616")
    case True
    then show ?thesis
      using wrap by (auto simp: validate_user_pointer_def Let_def USER_NULL_GUARD_SIZE_def wordnat
          unat_add_nowrap not_less not_le)
  next
    case False
    have "unat (p + n) = unat p + unat n - 18446744073709551616"
      using False u64_bound [of p] u64_bound [of n] by (simp add: unat_plus_if')
    then have "p + n < p" using False u64_bound [of n] by (simp add: wordnat)
    then show ?thesis using False by (simp add: validate_user_pointer_def Let_def)
  qed
  then show ?thesis by simp
qed

theorem validate_user_pointer_exact_witness:
  "validate_user_pointer 0x8000018 100 \<and> \<not> validate_user_pointer 0x3ffff8 100 \<and> validate_user_pointer 0x80000000 100"
  using validate_user_pointer_exact [of "0x8000018" 100] validate_user_pointer_exact [of "0x3ffff8" 100]
    validate_user_pointer_exact [of "0x80000000" 100] by simp

end
