(* ===== verification/Process_Pages.thy ===== *)
theory Process_Pages
  imports User_Properties
begin

text \<open>
  Pages of a process: the composition of the frame manager, the page tables and the requests of
  \<^verbatim>\<open>memory/user_allocator.cpp\<close>. The invariant \<open>pages_world\<close> puts the free list and the
  table tree in one memory: the nodes of the list lie outside the tables, so mapping a page does
  not damage the list, and taking a frame does not damage the tables. Both lie in the kernel's
  half of the address space, and the user half of the directory is private. Other directories may
  share the machine: \<open>neighbours\<close> lists them with the translations of their user pages, which the
  invariant keeps as they are while the process under consideration maps and unmaps its own.
\<close>

subsection \<open>One memory for the free list and the tables\<close>

definition nodes_apart :: "(addr \<Rightarrow> nat) \<Rightarrow> (addr \<times> addr) list \<Rightarrow> bool" where
  "nodes_apart L xs \<longleftrightarrow> (\<forall>(q, f) \<in> set xs. apart L q \<and> apart L (q + 8))"

definition upper :: "addr \<Rightarrow> bool" where
  "upper a \<longleftrightarrow> 0x8000000000000000 \<le> a"

definition kernel_half :: "machine \<Rightarrow> (addr \<Rightarrow> nat) \<Rightarrow> (addr \<times> addr) list \<Rightarrow> bool" where
  "kernel_half m L xs \<longleftrightarrow> upper (placement m) \<and> (\<forall>t. L t \<noteq> 0 \<longrightarrow> upper t) \<and> (\<forall>q \<in> fst ` set xs. upper q)"

text \<open>The active directory, the kernel's own, and the directories of the other processes with what their
  user pages are translated to. While the kernel works for itself, its own directory is the active one;
  while it works for a process, that of the process may be.\<close>

record neighbours =
  active :: addr
  home :: addr
  others :: "(addr \<times> (addr \<Rightarrow> u64 option)) set"

definition user_view :: "machine \<Rightarrow> addr \<Rightarrow> addr \<Rightarrow> u64 option" where
  "user_view m d v = (if user_page v then translate m d v else None)"

text \<open>No page of a user half shares its entry with any other page of any of the directories.\<close>

definition private_halves :: "machine \<Rightarrow> addr set \<Rightarrow> bool" where
  "private_halves m D \<longleftrightarrow> (\<forall>d \<in> D. \<forall>e \<in> D. \<forall>v w. user_page v \<longrightarrow> shares m d v e w \<longrightarrow> d = e \<and> page_index w = page_index v)"

definition kernel_linked :: "machine \<Rightarrow> addr \<Rightarrow> bool" where
  "kernel_linked m d \<longleftrightarrow> PRESENT (mem m (ADDRESS d + 8 * PML4 KVIRTUAL_ADDRESS))"

definition neighbours_ok :: "machine \<Rightarrow> (addr \<Rightarrow> nat) \<Rightarrow> neighbours \<Rightarrow> bool" where
  "neighbours_ok m L E \<longleftrightarrow> cr3 m = active E
     \<and> (\<forall>(d, T) \<in> others E. L (ADDRESS d) = 4 \<and> user_view m d = T \<and> (d = home E \<longrightarrow> kernel_linked m d))"

definition pages_world :: "neighbours \<Rightarrow> addr \<Rightarrow> addr list \<Rightarrow> machine \<times> physical \<Rightarrow> bool" where
  "pages_world E dir fs w \<longleftrightarrow> (\<exists>L xs. tables_ok (fst w) L \<and> L (ADDRESS dir) = 4
     \<and> node_list (mem (fst w)) (free_list (snd w)) xs \<and> map snd xs = fs
     \<and> nodes_below (placement (fst w)) xs \<and> nodes_apart L xs \<and> kernel_half (fst w) L xs
     \<and> neighbours_ok (fst w) L E)
     \<and> dir \<notin> fst ` others E \<and> private_halves (fst w) (insert dir (fst ` others E))
     \<and> (\<forall>f \<in> set fs. valid_frame w f)"

lemma pages_worldE:
  assumes "pages_world E dir fs (m, p)"
  obtains L xs where "tables_ok m L" "L (ADDRESS dir) = 4" "node_list (mem m) (free_list p) xs"
    "map snd xs = fs" "nodes_below (placement m) xs" "nodes_apart L xs" "kernel_half m L xs"
    "private_halves m (insert dir (fst ` others E))" "\<forall>f \<in> set fs. valid_frame (m, p) f"
    "neighbours_ok m L E" "dir \<notin> fst ` others E"
  using assms by (auto simp: pages_world_def)

lemma pages_worldI:
  assumes "tables_ok m L" "L (ADDRESS dir) = 4" "node_list (mem m) (free_list p) xs"
    "map snd xs = fs" "nodes_below (placement m) xs" "nodes_apart L xs" "kernel_half m L xs"
    "private_halves m (insert dir (fst ` others E))" "\<forall>f \<in> set fs. valid_frame (m, p) f"
    "neighbours_ok m L E" "dir \<notin> fst ` others E"
  shows "pages_world E dir fs (m, p)"
  using assms unfolding pages_world_def by auto

lemma private_halvesD:
  assumes "private_halves m D" "d \<in> D" "e \<in> D" "shares m d v e w" "user_page v \<or> user_page w"
  shows "d = e" "page_index w = page_index v"
proof -
  have "d = e \<and> page_index w = page_index v"
    using assms shares_sym [OF assms(4)] unfolding private_halves_def by metis
  then show "d = e" "page_index w = page_index v" by simp_all
qed

lemma private_halves_user: "private_halves m D \<Longrightarrow> d \<in> D \<Longrightarrow> user_private m d"
  unfolding user_private_def aliases_shares using private_halvesD by metis

lemma neighbours_okD:
  assumes "neighbours_ok m L E"
  shows "cr3 m = active E" "(d, T) \<in> others E \<Longrightarrow> L (ADDRESS d) = 4" "(d, T) \<in> others E \<Longrightarrow> user_view m d = T"
    "(home E, T) \<in> others E \<Longrightarrow> kernel_linked m (home E)"
  using assms unfolding neighbours_ok_def by auto

text \<open>What keeps the directories, their shared entries and the views of the others.\<close>

lemma neighbours_change:
  assumes "neighbours_ok m L E" "cr3 m' = cr3 m"
    and roots: "\<And>d. L (ADDRESS d) = 4 \<Longrightarrow> L' (ADDRESS d) = 4"
    and links: "\<And>t i u. points_to m L t i u \<Longrightarrow> points_to m' L' t i u"
    and views: "\<And>d T. (d, T) \<in> others E \<Longrightarrow> user_view m' d = user_view m d"
  shows "neighbours_ok m' L' E"
  unfolding neighbours_ok_def
proof (intro conjI ballI, unfold case_prod_beta)
  note D = neighbours_okD [OF assms(1)]
  show "cr3 m' = active E" using D(1) assms(2) by simp
  fix x assume x: "x \<in> others E"
  have l: "kernel_linked m' d" if "L (ADDRESS d) = 4" "kernel_linked m d" for d
    using links [of "ADDRESS d" "PML4 KVIRTUAL_ADDRESS"] that unfolding kernel_linked_def points_to_def by simp
  show "L' (ADDRESS (fst x)) = 4 \<and> user_view m' (fst x) = snd x \<and> (fst x = home E \<longrightarrow> kernel_linked m' (fst x))"
    using x D(2,3) [of "fst x" "snd x"] D(4) [of "snd x"] roots [of "fst x"] views [of "fst x" "snd x"] l [of "fst x"]
    by (cases x) auto
qed

lemma private_halves_change:
  assumes "private_halves m D" "\<And>d e v w. d \<in> D \<Longrightarrow> e \<in> D \<Longrightarrow> shares m' d v e w = shares m d v e w"
  shows "private_halves m' D"
  using assms unfolding private_halves_def by blast

lemma world_roots:
  "L (ADDRESS dir) = 4 \<Longrightarrow> neighbours_ok m L E \<Longrightarrow> d \<in> insert dir (fst ` others E) \<Longrightarrow> L (ADDRESS d) = 4"
  using neighbours_okD(2) by fastforce

lemma pages_world_pool: "pages_world E dir fs w \<Longrightarrow> phys_pool w fs"
  unfolding pages_world_def phys_pool_def by blast

lemma pages_world_paging: "pages_world E dir fs w \<Longrightarrow> paging_ok (fst w) dir"
  unfolding pages_world_def paging_ok_def by blast

lemma pages_world_private: "pages_world E dir fs w \<Longrightarrow> user_private (fst w) dir"
  unfolding pages_world_def using private_halves_user by blast

text \<open>A page of the user half is an alias of itself only.\<close>

lemma user_aliases:
  assumes "user_private m dir" "user_page v \<or> user_page w"
  shows "aliases m dir v w \<longleftrightarrow> page_index w = page_index v"
proof
  assume a: "aliases m dir v w"
  then have "aliases m dir w v" using meets_sym unfolding aliases_def by blast
  then show "page_index w = page_index v" using a assms unfolding user_private_def by metis
next
  assume "page_index w = page_index v"
  then show "aliases m dir v w" by (simp add: aliases_def) (simp add: page_index_def)
qed

text \<open>What keeps the memory outside the tables keeps the free list.\<close>

lemma keeps_apart_nodes:
  assumes k: "keeps_apart m L m' L'" and "node_list (mem m) a xs" "nodes_below (placement m) xs" "nodes_apart L xs"
  shows "node_list (mem m') a xs" "nodes_below (placement m') xs" "nodes_apart L' xs"
proof -
  have *: "mem m' q = mem m q \<and> mem m' (q + 8) = mem m (q + 8) \<and> apart L' q \<and> apart L' (q + 8)"
    if "(q, f) \<in> set xs" for q f
  proof -
    have le: "unat q + 16 \<le> unat (placement m)" using assms(3) that by (auto simp: nodes_below_def)
    then have "unat (q + 8) = unat q + 8"
      using u64_bound [of "placement m"] by (simp add: unat_add_nowrap)
    with le have "q < placement m" "q + 8 < placement m" by (simp_all add: wordnat)
    moreover have "apart L q" "apart L (q + 8)" using assms(4) that by (auto simp: nodes_apart_def)
    ultimately show ?thesis using k unfolding keeps_apart_def by blast
  qed
  have "node_list (mem m') a xs = node_list (mem m) a xs" using * by (intro node_list_cong) auto
  with assms(2) show "node_list (mem m') a xs" by simp
  show "nodes_apart L' xs" using * by (auto simp: nodes_apart_def)
  show "nodes_below (placement m') xs"
    using assms(3) k by (auto simp: keeps_apart_def intro: nodes_below_mono)
qed

text \<open>A table that was not there before is new memory, and so in the kernel's half.\<close>

lemma keeps_apart_upper:
  assumes ok: "tables_ok m L" and k: "keeps_apart m L m' L'" "kernel_half m L xs"
  shows "kernel_half m' L' xs"
proof -
  have le: "placement m \<le> placement m'" using k(1) by (simp add: keeps_apart_def)
  have "upper t" if t: "L' t \<noteq> 0" for t
  proof (cases "t < placement m")
    case True
    have "L' t \<noteq> 0 \<and> unat (0 :: u64) < 512" "t = t + 8 * 0" using t by simp_all
    then have "\<not> apart L' t" unfolding apart_def by blast
    then have "\<not> apart L t" using k(1) True unfolding keeps_apart_def by blast
    then obtain u i where u: "L u \<noteq> 0" "unat (i :: u64) < 512" "t = u + 8 * i" by (auto simp: apart_def)
    have "u \<le> t" using unat_entry [OF tables_okD(1) [OF ok u(1)] u(2)] u(3) by (simp add: wordnat)
    moreover have "0x8000000000000000 \<le> u" using u(1) k(2) by (simp add: kernel_half_def upper_def)
    ultimately show ?thesis unfolding upper_def by (rule order_trans [rotated])
  next
    case False
    then show ?thesis using k(2) by (auto simp: kernel_half_def upper_def)
  qed
  then show ?thesis using k(2) le by (auto simp: kernel_half_def upper_def)
qed

text \<open>The tables \<open>L'\<close> of \<open>m'\<close> come from those of m by changes of one entry, that of page v, and by new tables.\<close>

definition remapped ::
  "addr \<Rightarrow> addr \<Rightarrow> machine \<Rightarrow> (addr \<Rightarrow> nat) \<Rightarrow> machine \<Rightarrow> (addr \<Rightarrow> nat) \<Rightarrow> bool" where
  "remapped dir v m L m' L' \<longleftrightarrow> keeps_apart m L m' L' \<and> tables_ok m' L' \<and> cr3 m' = cr3 m
     \<and> (\<forall>d. L (ADDRESS d) = 4 \<longrightarrow> L' (ADDRESS d) = 4)
     \<and> (\<forall>t i u. points_to m L t i u \<longrightarrow> points_to m' L' t i u)
     \<and> (\<forall>d u e w. L (ADDRESS d) = 4 \<and> L (ADDRESS e) = 4 \<longrightarrow> shares m' d u e w = shares m d u e w)
     \<and> (\<forall>d w. L (ADDRESS d) = 4 \<and> \<not> shares m dir v d w \<longrightarrow> translate m' d w = translate m d w)"

lemma remappedD:
  assumes "remapped dir v m L m' L'"
  shows "keeps_apart m L m' L'" "tables_ok m' L'" "cr3 m' = cr3 m" "L (ADDRESS d) = 4 \<Longrightarrow> L' (ADDRESS d) = 4"
    "points_to m L t i u \<Longrightarrow> points_to m' L' t i u"
    "L (ADDRESS d) = 4 \<Longrightarrow> L (ADDRESS e) = 4 \<Longrightarrow> shares m' d x e w = shares m d x e w"
    "L (ADDRESS d) = 4 \<Longrightarrow> \<not> shares m dir v d w \<Longrightarrow> translate m' d w = translate m d w"
  using assms unfolding remapped_def by blast+

lemma remapped_world:
  assumes "pages_world E dir fs (m, p)"
    and change: "\<And>L. tables_ok m L \<Longrightarrow> L (ADDRESS dir) = 4 \<Longrightarrow> \<exists>L'. remapped dir v m L m' L'"
  shows "pages_world E dir fs (m', p)"
proof -
  obtain L xs where L: "tables_ok m L" "L (ADDRESS dir) = 4" "node_list (mem m) (free_list p) xs"
    "map snd xs = fs" "nodes_below (placement m) xs" "nodes_apart L xs" "kernel_half m L xs"
    "private_halves m (insert dir (fst ` others E))" "\<forall>f \<in> set fs. valid_frame (m, p) f"
    "neighbours_ok m L E" "dir \<notin> fst ` others E"
    using assms(1) by (rule pages_worldE)
  obtain L' where L': "remapped dir v m L m' L'" using change [OF L(1,2)] by blast
  note D = remappedD [OF L']
  note N = keeps_apart_nodes [OF D(1) L(3,5,6)] and K = keeps_apart_upper [OF L(1) D(1) L(7)]
  have R: "L (ADDRESS d) = 4" if "d \<in> insert dir (fst ` others E)" for d
    using world_roots [OF L(2,10) that] .
  have P: "private_halves m' (insert dir (fst ` others E))"
    by (rule private_halves_change [OF L(8)]) (rule D(6) [OF R R])
  have V: "user_view m' d = user_view m d" if "(d, T) \<in> others E" for d T
  proof -
    have d: "d \<in> fst ` others E" using that by force
    then have "\<not> shares m dir v d w" if "user_page w" for w
      using private_halvesD(1) [OF L(8), of dir d v w] L(11) that by auto
    then show ?thesis using D(7) [OF R] d by (auto simp: user_view_def fun_eq_iff)
  qed
  have E: "neighbours_ok m' L' E"
    by (rule neighbours_change [OF L(10) D(3,4,5) V])
  have "\<forall>f \<in> set fs. valid_frame (m', p) f" using L(9) unfolding valid_frame_machine [of m' p m] .
  then show ?thesis by (rule pages_worldI [OF D(2) D(4) [OF L(2)] N(1) L(4) N(2,3) K P _ E L(11)])
qed

subsection \<open>Single steps\<close>

lemma page_room_mono: "page_room k m \<Longrightarrow> j \<le> k \<Longrightarrow> page_room j m"
  by (simp add: page_room_def)

lemma map_remapped:
  assumes "tables_ok m L" "L (ADDRESS dir) = 4" "page_room (k + 3) m"
  obtains m' L' where "map_page dir v f flags m = (0, m')" "page_room k m'" "remapped dir v m L m' L'"
    "\<And>w. translate m' dir w = (if aliases m dir v w
       then (if PRESENT (build_entry f flags) then Some (build_entry f flags) else None) else translate m dir w)"
proof (rule map_page_roots [OF assms, of v f flags])
  fix m' L'
  assume m': "map_page dir v f flags m = (0, m')" "tables_ok m' L'" "\<And>d. L (ADDRESS d) = 4 \<Longrightarrow> L' (ADDRESS d) = 4"
    "page_room k m'" "keeps_apart m L m' L'" "cr3 m' = cr3 m" "\<And>t i u. points_to m L t i u \<Longrightarrow> points_to m' L' t i u"
    "\<And>d u e w. L (ADDRESS d) = 4 \<Longrightarrow> L (ADDRESS e) = 4 \<Longrightarrow> shares m' d u e w = shares m d u e w"
    "\<And>d w. L (ADDRESS d) = 4 \<Longrightarrow> translate m' d w = (if shares m dir v d w
       then (if PRESENT (build_entry f flags) then Some (build_entry f flags) else None) else translate m d w)"
  have "remapped dir v m L m' L'"
    unfolding remapped_def using m'(2,3,5-9) by simp
  then show thesis by (rule that [OF m'(1,4)]) (simp add: m'(9) [OF assms(2)] aliases_shares)
qed

lemma map_page_world:
  assumes "pages_world E dir fs (m, p)" "page_room (k + 3) m"
  obtains m' where "map_page dir v f flags m = (0, m')" "pages_world E dir fs (m', p)" "page_room k m'"
    "\<And>w. user_page v \<or> user_page w \<Longrightarrow> translate m' dir w = (if page_index w = page_index v
       then (if PRESENT (build_entry f flags) then Some (build_entry f flags) else None)
       else translate m dir w)"
proof -
  obtain L where L: "tables_ok m L" "L (ADDRESS dir) = 4" using assms(1) by (rule pages_worldE)
  obtain m' where m': "map_page dir v f flags m = (0, m')" "page_room k m'"
    "\<And>w. translate m' dir w = (if aliases m dir v w
       then (if PRESENT (build_entry f flags) then Some (build_entry f flags) else None) else translate m dir w)"
    by (rule map_remapped [OF L assms(2), of v f flags]) blast
  have "pages_world E dir fs (m', p)"
  proof (rule remapped_world [OF assms(1), where v = v])
    fix L assume L: "tables_ok m L" "L (ADDRESS dir) = 4"
    obtain m1 L' where "map_page dir v f flags m = (0, m1)" "remapped dir v m L m1 L'"
      by (rule map_remapped [OF L assms(2), of v f flags])
    then show "\<exists>L'. remapped dir v m L m' L'" using m'(1) by auto
  qed
  then show thesis
    using user_aliases [OF pages_world_private [OF assms(1)]] m'(3) by (intro that [OF m'(1) _ m'(2)]) simp_all
qed

lemma unmap_world:
  assumes "pages_world E dir fs (m, p)"
  shows "pages_world E dir fs (unmap dir v m, p)" "placement (unmap dir v m) = placement m"
    "user_page v \<or> user_page w \<Longrightarrow> translate (unmap dir v m) dir w = (if page_index w = page_index v then None else translate m dir w)"
proof -
  obtain L where L: "tables_ok m L" "L (ADDRESS dir) = 4" using assms(1) by (rule pages_worldE)
  note U = unmap_roots [OF L]
  have "remapped dir v m L (unmap dir v m) L" if "tables_ok m L" "L (ADDRESS dir) = 4" for L
    unfolding remapped_def using unmap_roots [OF that] by simp
  then show "pages_world E dir fs (unmap dir v m, p)" by (intro remapped_world [OF assms]) blast
  show "placement (unmap dir v m) = placement m" by (rule U(5))
  show "user_page v \<or> user_page w \<Longrightarrow> translate (unmap dir v m) dir w = (if page_index w = page_index v then None else translate m dir w)"
    using U(2) [OF L(2)] user_aliases [OF pages_world_private [OF assms]] by (simp add: aliases_shares)
qed

lemma take_frame_world:
  assumes "pages_world E dir (f # fs) (m, p)"
  obtains p' where "physical_alloc m p = (f, p')" "pages_world E dir fs (m, p')" "f \<noteq> 0" "IS_ALIGNED f"
proof -
  obtain L xs where L: "tables_ok m L" "L (ADDRESS dir) = 4" "node_list (mem m) (free_list p) xs"
    "map snd xs = f # fs" "nodes_below (placement m) xs" "nodes_apart L xs" "kernel_half m L xs"
    "private_halves m (insert dir (fst ` others E))" "\<forall>g \<in> set (f # fs). valid_frame (m, p) g"
    "neighbours_ok m L E" "dir \<notin> fst ` others E"
    using assms by (rule pages_worldE)
  then obtain q ys where xs: "xs = (q, f) # ys" by (cases xs) auto
  let ?p = "p\<lparr>free_list := mem m (q + 8)\<rparr>"
  have "physical_alloc m p = (f, ?p)"
    using L(3) by (simp add: xs physical_alloc_def frame_address_def frame_previous_def)
  moreover have "pages_world E dir fs (m, ?p)"
    using L by (intro pages_worldI [where xs = ys and L = L])
      (auto simp: xs nodes_apart_def valid_frame_def kernel_half_def)
  moreover have "f \<noteq> 0" "IS_ALIGNED f" using L(9) by (simp_all add: valid_frame_def)
  ultimately show thesis by (rule that)
qed

lemma empty_pool_world: "pages_world E dir [] (m, p) \<Longrightarrow> physical_alloc m p = (0, p)"
  using phys_take_Nil [OF pages_world_pool, of E dir "(m, p)"]
  by (simp add: phys_take_def split: prod.splits)

subsection \<open>Requests\<close>

text \<open>The page with number j of a range, and the pages of a range.\<close>

definition page_at :: "addr \<Rightarrow> nat \<Rightarrow> addr" where
  "page_at a j = a + word_of_nat j * FRAME_SIZE"

definition in_range :: "addr \<Rightarrow> nat \<Rightarrow> addr \<Rightarrow> bool" where
  "in_range a n w \<longleftrightarrow> (\<exists>j < n. page_index w = page_index (page_at a j))"

lemma in_range_0 [simp]: "\<not> in_range a 0 w"
  by (simp add: in_range_def)

lemma page_fields:
  "unat (PML4 v) = unat v div 4096 div 134217728 mod 512" "unat (PDPT v) = unat v div 4096 div 262144 mod 512"
  "unat (PDE v) = unat v div 4096 div 512 mod 512" "unat (PTE v) = unat v div 4096 mod 512"
proof -
  have m: "(0x1ff :: u64) = mask 9" by (simp add: mask_eq_exp_minus_1)
  have f: "unat (drop_bit k v AND 0x1ff) = unat v div 2 ^ k mod 512" for k
  proof -
    have "unat (take_bit 9 (drop_bit k v)) = take_bit 9 (drop_bit k (unat v))"
      by (simp add: unsigned_take_bit_eq unat_drop_bit_eq)
    then show ?thesis
      unfolding m take_bit_eq_mask [symmetric] by (simp only: take_bit_eq_mod drop_bit_eq_div) simp
  qed
  show "unat (PML4 v) = unat v div 4096 div 134217728 mod 512" "unat (PDPT v) = unat v div 4096 div 262144 mod 512"
    "unat (PDE v) = unat v div 4096 div 512 mod 512" "unat (PTE v) = unat v div 4096 mod 512"
    by (simp_all add: PML4_def PDPT_def PDE_def PTE_def f div_mult2_eq [symmetric])
qed

definition user_range :: "addr \<Rightarrow> nat \<Rightarrow> bool" where
  "user_range a n \<longleftrightarrow> unat a + 4096 * n \<le> 0x800000000000"

lemma user_rangeD:
  assumes "user_range a n" "j < n"
  shows "unat (page_at a j) = unat a + 4096 * j" "user_page (page_at a j)"
proof -
  show u: "unat (page_at a j) = unat a + 4096 * j"
    using assms unat_add_small [of a "4096 * j"] by (simp add: page_at_def FRAME_SIZE_def user_range_def mult.commute)
  have "unat (PML4 (page_at a j)) < 256" using assms unfolding page_fields u user_range_def by simp
  then show "user_page (page_at a j)" by (simp add: user_page_def wordnat)
qed

lemma user_range_mono: "user_range a n \<Longrightarrow> k \<le> n \<Longrightarrow> user_range a k"
  by (simp add: user_range_def)

lemma in_range_Suc: "in_range a (Suc n) w \<longleftrightarrow> in_range a n w \<or> page_index w = page_index (page_at a n)"
  by (auto simp: in_range_def less_Suc_eq)

text \<open>Releasing the first n pages of a range, of which the first i were released before.\<close>

lemma release_loop_world:
  assumes "pages_world E dir fs (m, p)" "unat n = N" "unat i \<le> N" "user_range a N"
    and "\<And>w. translate m dir w = (if in_range a (unat i) w then None else g w)"
  shows "pages_world E dir fs (release_loop dir a n i m, p)
    \<and> placement (release_loop dir a n i m) = placement m
    \<and> (\<forall>w. translate (release_loop dir a n i m) dir w = (if in_range a N w then None else g w))"
  using assms
proof (induction "N - unat i" arbitrary: i m)
  case 0
  then have "\<not> i < n" "unat i = N" by (simp_all add: wordnat)
  with 0 show ?case by (simp add: release_loop.simps [of dir a n i])
next
  case (Suc d)
  have lt: "i < n" using Suc.hyps(2) Suc.prems(2) by (simp add: wordnat)
  have i1: "unat (i + 1) = Suc (unat i)" using lt by (rule unat_Suc_less)
  let ?m = "unmap dir (a + i * FRAME_SIZE) m"
  have pg: "a + i * FRAME_SIZE = page_at a (unat i)" by (simp add: page_at_def)
  note U = unmap_world [OF Suc.prems(1), of "a + i * FRAME_SIZE"]
  have "translate ?m dir w = (if in_range a (unat (i + 1)) w then None else g w)" for w
    using U(3) [of w] user_rangeD(2) [OF Suc.prems(4)] Suc.hyps(2) Suc.prems(5) [of w]
    unfolding i1 in_range_Suc pg by simp
  then have "pages_world E dir fs (release_loop dir a n (i + 1) ?m, p)
    \<and> placement (release_loop dir a n (i + 1) ?m) = placement ?m
    \<and> (\<forall>w. translate (release_loop dir a n (i + 1) ?m) dir w = (if in_range a N w then None else g w))"
    using Suc.hyps(2) Suc.prems(2-4) i1 U(1) by (intro Suc.hyps(1)) simp_all
  then show ?case using lt U(2) by (simp add: release_loop.simps [of dir a n i])
qed

text \<open>Different pages of the range have different places in the tables.\<close>

definition pages_distinct :: "addr \<Rightarrow> nat \<Rightarrow> bool" where
  "pages_distinct a n \<longleftrightarrow> inj_on (\<lambda>j. page_index (page_at a j)) {..<n}"

text \<open>The pages of a range in the user half have distinct places.\<close>

lemma page_number: "unat (PML4 v) * 134217728 + unat (PDPT v) * 262144 + unat (PDE v) * 512 + unat (PTE v)
  = unat v div 4096 mod 68719476736"
proof -
  define x where "x = unat v div 4096"
  have "x mod 68719476736 = 512 * (x div 512 mod 134217728) + x mod 512"
    using mod_mult2_eq [of x 512 134217728] by simp
  moreover have "x div 512 mod 134217728 = 512 * (x div 262144 mod 262144) + x div 512 mod 512"
    using mod_mult2_eq [of "x div 512" 512 262144] by (simp add: div_mult2_eq [symmetric])
  moreover have "x div 262144 mod 262144 = 512 * (x div 134217728 mod 512) + x div 262144 mod 512"
    using mod_mult2_eq [of "x div 262144" 512 512] by (simp add: div_mult2_eq [symmetric])
  ultimately show ?thesis by (simp add: page_fields x_def [symmetric])
qed

lemma pages_distinct_range:
  assumes "user_range a n"
  shows "pages_distinct a n"
  unfolding pages_distinct_def
proof (rule inj_onI)
  fix i j assume ij: "i \<in> {..<n}" "j \<in> {..<n}" and e: "page_index (page_at a i) = page_index (page_at a j)"
  have u: "unat (page_at a k) div 4096 mod 68719476736 = unat a div 4096 + k" if "k < n" for k
    using user_rangeD(1) [OF assms that] assms that by (simp add: user_range_def)
  have "unat (page_at a i) div 4096 mod 68719476736 = unat (page_at a j) div 4096 mod 68719476736"
    using e page_number [of "page_at a i"] page_number [of "page_at a j"] by (simp add: page_index_def)
  then show "i = j" using u ij by simp
qed

text \<open>After i pages the frames of the pages are the first i of the pool.\<close>

definition mapped_so_far :: "addr \<Rightarrow> addr \<Rightarrow> addr list \<Rightarrow> nat \<Rightarrow> (addr \<Rightarrow> u64 option) \<Rightarrow> machine \<Rightarrow> bool" where
  "mapped_so_far dir a fs i g m \<longleftrightarrow>
     (\<forall>j < i. translate m dir (page_at a j) = Some (build_entry (fs ! j) 7))
     \<and> (\<forall>w. \<not> in_range a i w \<longrightarrow> translate m dir w = g w)"

lemma mapped_step:
  assumes "mapped_so_far dir a fs i g m" "pages_distinct a n" "i < n"
    and "\<And>w. translate m' dir w = (if page_index w = page_index (page_at a i)
       then Some (build_entry (fs ! i) 7) else translate m dir w)"
  shows "mapped_so_far dir a fs (Suc i) g m'"
  unfolding mapped_so_far_def
proof (intro conjI allI impI)
  fix j assume "j < Suc i"
  moreover have "page_index (page_at a j) \<noteq> page_index (page_at a i)" if "j < i"
    using inj_onD [OF assms(2) [unfolded pages_distinct_def], of j i] that assms(3) by auto
  ultimately show "translate m' dir (page_at a j) = Some (build_entry (fs ! j) 7)"
    using assms(1,4) by (cases "j = i") (auto simp: mapped_so_far_def)
next
  fix w assume "\<not> in_range a (Suc i) w"
  then show "translate m' dir w = g w"
    using assms(1,4) by (simp add: in_range_Suc mapped_so_far_def)
qed

lemma umachine_simps [simp]:
  "umachine (set_umachine m u) = m" "uphysical (set_umachine m u) = uphysical u"
  "umachine (set_uphysical p u) = umachine u" "uphysical (set_uphysical p u) = p"
  by (simp_all add: umachine_def uphysical_def set_umachine_def set_uphysical_def)

text \<open>The state of a request for N pages after the first i.\<close>

definition requesting ::
  "neighbours \<Rightarrow> addr \<Rightarrow> addr \<Rightarrow> addr list \<Rightarrow> nat \<Rightarrow> (addr \<Rightarrow> u64 option) \<Rightarrow> (addr \<Rightarrow> u64) \<Rightarrow> nat \<Rightarrow> user_space \<Rightarrow> bool"
where
  "requesting E dir a fs N g h i u \<longleftrightarrow> pages_world E dir (drop i fs) (umachine u, uphysical u)
     \<and> page_room (3 * (N - i)) (umachine u) \<and> mapped_so_far dir a fs i g (umachine u)
     \<and> (\<forall>v. path_rights (umachine u) dir 7 v = h v)"

lemma request_step:
  assumes r: "requesting E dir a fs N g h (unat i) u" and "i < n" "unat n = N" "unat i < length fs" "user_range a N"
  obtains u' where "request_loop dir a n i u = request_loop dir a n (i + 1) u'"
    "requesting E dir a fs N g h (unat (i + 1)) u'" "unat (i + 1) = Suc (unat i)"
proof -
  let ?i = "unat i" and ?m = "umachine u"
  have i1: "unat (i + 1) = Suc ?i" using assms(2) by (rule unat_Suc_less)
  have lt: "?i < N" using assms(2,3) by (simp add: wordnat)
  have "pages_world E dir (fs ! ?i # drop (Suc ?i) fs) (?m, uphysical u)"
    using r assms(4) by (simp add: requesting_def Cons_nth_drop_Suc)
  then obtain p' where p': "physical_alloc ?m (uphysical u) = (fs ! ?i, p')"
    "pages_world E dir (drop (Suc ?i) fs) (?m, p')" "fs ! ?i \<noteq> 0"
    by (rule take_frame_world)
  have "page_room (3 * (N - Suc ?i) + 3) ?m"
    using r lt by (simp add: requesting_def Suc_diff_Suc [OF lt, symmetric] add.commute)
  with p'(2) obtain m' where m': "map_page dir (page_at a ?i) (fs ! ?i) 7 ?m = (0, m')"
    "pages_world E dir (drop (Suc ?i) fs) (m', p')" "page_room (3 * (N - Suc ?i)) m'"
    "\<And>w. user_page (page_at a ?i) \<or> user_page w \<Longrightarrow> translate m' dir w = (if page_index w = page_index (page_at a ?i)
       then (if PRESENT (build_entry (fs ! ?i) 7) then Some (build_entry (fs ! ?i) 7) else None)
       else translate ?m dir w)"
    by (rule map_page_world [of E dir _ ?m p' _ "page_at a ?i" "fs ! ?i" 7]) blast
  let ?u = "set_umachine m' (set_uphysical p' u)"
  have "mapped_so_far dir a fs (Suc ?i) g m'"
    by (rule mapped_step [OF _ pages_distinct_range [OF assms(5)] lt])
      (use r m'(4) user_rangeD(2) [OF assms(5) lt] in \<open>auto simp: requesting_def build_entry_present\<close>)
  moreover have "path_rights m' dir 7 v = h v" for v
    using map_page_rights [OF pages_world_paging [OF p'(2), unfolded fst_conv], of "page_at a ?i" "fs ! ?i" 7] m'(1) r
      page_room_mono [OF \<open>page_room (3 * (N - Suc ?i) + 3) ?m\<close>, of 3] by (simp add: requesting_def)
  ultimately have "requesting E dir a fs N g h (unat (i + 1)) ?u" using m'(2,3) by (simp add: requesting_def i1)
  moreover have "request_loop dir a n i u = request_loop dir a n (i + 1) ?u"
    using assms(2) p'(1,3) m'(1) by (simp add: request_loop.simps [of dir a n i u] page_at_def Let_def)
  ultimately show thesis using that i1 by blast
qed

lemma request_loop_maps:
  assumes "requesting E dir a fs N g h (unat i) u" "unat n = N" "unat i \<le> N" "N \<le> length fs" "user_range a N"
  shows "\<exists>u'. request_loop dir a n i u = (True, u') \<and> requesting E dir a fs N g h N u'"
  using assms
proof (induction "N - unat i" arbitrary: i u)
  case 0
  then have "\<not> i < n" "unat i = N" by (simp_all add: wordnat)
  with 0 show ?case by (simp add: request_loop.simps [of dir a n i])
next
  case (Suc d)
  have lt: "i < n" "unat i < length fs" using Suc.hyps(2) Suc.prems(2,4) by (simp_all add: wordnat)
  obtain u' where u': "request_loop dir a n i u = request_loop dir a n (i + 1) u'"
    "requesting E dir a fs N g h (unat (i + 1)) u'" "unat (i + 1) = Suc (unat i)"
    using request_step [OF Suc.prems(1) lt(1) Suc.prems(2) lt(2) Suc.prems(5)] .
  show ?case unfolding u'(1) using Suc.hyps u' Suc.prems(2-) by (intro Suc.hyps(1)) simp_all
qed

text \<open>When the frames run out, all of them have been taken.\<close>

lemma request_loop_fails:
  assumes "requesting E dir a fs N g h (unat i) u" "unat n = N" "unat i \<le> length fs" "length fs < N" "user_range a N"
  shows "\<exists>u'. request_loop dir a n i u = (False, u') \<and> pages_world E dir [] (umachine u', uphysical u')
    \<and> (\<forall>w. translate (umachine u') dir w = (if in_range a (length fs) w then None else g w))"
  using assms
proof (induction "length fs - unat i" arbitrary: i u)
  case 0
  then have i: "unat i = length fs" "i < n" by (simp_all add: wordnat)
  have w: "pages_world E dir [] (umachine u, uphysical u)" and
    m: "mapped_so_far dir a fs (length fs) g (umachine u)"
    using 0(2) i by (simp_all add: requesting_def)
  let ?r = "release_loop dir a i 0 (umachine u)"
  have "pages_world E dir [] (?r, uphysical u) \<and> placement ?r = placement (umachine u)
    \<and> (\<forall>w. translate ?r dir w = (if in_range a (length fs) w then None else translate (umachine u) dir w))"
    by (rule release_loop_world [OF w i(1)]) (use 0(5) user_range_mono [OF 0(6)] in simp_all)
  moreover have "request_loop dir a n i u = (False, set_umachine ?r (set_uphysical (uphysical u) u))"
    using i(2) empty_pool_world [OF w] by (simp add: request_loop.simps [of dir a n i])
  ultimately show ?case using m by (auto simp: mapped_so_far_def)
next
  case (Suc d)
  have lt: "i < n" "unat i < length fs" using Suc.hyps(2) Suc.prems(2,4) by (simp_all add: wordnat)
  obtain u' where u': "request_loop dir a n i u = request_loop dir a n (i + 1) u'"
    "requesting E dir a fs N g h (unat (i + 1)) u'" "unat (i + 1) = Suc (unat i)"
    using request_step [OF Suc.prems(1) lt(1) Suc.prems(2) lt(2) Suc.prems(5)] .
  show ?case unfolding u'(1) using Suc.hyps u' Suc.prems(2-) by (intro Suc.hyps(1)) simp_all
qed

lemma requesting_start:
  assumes "pages_world E dir fs (umachine u, uphysical u)" "page_room (3 * N) (umachine u)"
  shows "requesting E dir a fs N (translate (umachine u) dir) (path_rights (umachine u) dir 7) 0 u"
  using assms by (simp add: requesting_def mapped_so_far_def)

subsection \<open>Properties\<close>

text \<open>The number of pages of a request.\<close>

definition request_pages :: "u64 \<Rightarrow> nat" where
  "request_pages sz = unat (ALIGN_UP sz div FRAME_SIZE)"

lemma request_spec:
  assumes "pages_world E dir fs (umachine u, uphysical u)" and "distinct fs"
    and "request_pages sz \<le> length fs" and "page_room (3 * request_pages sz) (umachine u)"
    and "user_range a (request_pages sz)"
  shows "\<exists>u'. sys_request_memory dir a sz u = (True, u')
    \<and> (\<forall>j < request_pages sz. translate (umachine u') dir (page_at a j) = Some (build_entry (fs ! j) 7))
    \<and> (\<forall>j < request_pages sz. access (umachine u') dir (page_at a j) = path_rights (umachine u) dir 7 (page_at a j))
    \<and> (\<forall>v. path_rights (umachine u') dir 7 v = path_rights (umachine u) dir 7 v)
    \<and> distinct (map (\<lambda>j. fs ! j) [0..<request_pages sz])
    \<and> (\<forall>w. \<not> in_range a (request_pages sz) w \<longrightarrow> translate (umachine u') dir w = translate (umachine u) dir w)
    \<and> pages_world E dir (drop (request_pages sz) fs) (umachine u', uphysical u')"
proof -
  let ?N = "request_pages sz"
  have "requesting E dir a fs ?N (translate (umachine u) dir) (path_rights (umachine u) dir 7) (unat (0 :: u64)) u"
    using requesting_start [OF assms(1,4)] by simp
  then have "\<exists>u'. request_loop dir a (ALIGN_UP sz div FRAME_SIZE) 0 u = (True, u')
    \<and> requesting E dir a fs ?N (translate (umachine u) dir) (path_rights (umachine u) dir 7) ?N u'"
    by (rule request_loop_maps)
      (use assms(3,5) in \<open>simp_all add: request_pages_def\<close>)
  then obtain u' where u': "sys_request_memory dir a sz u = (True, u')"
    "requesting E dir a fs ?N (translate (umachine u) dir) (path_rights (umachine u) dir 7) ?N u'"
    by (auto simp: sys_request_memory_def)
  have "map (\<lambda>j. fs ! j) [0..<?N] = take ?N fs"
    using assms(3) by (intro nth_equalityI) simp_all
  then have "distinct (map (\<lambda>j. fs ! j) [0..<?N])" using assms(2) by simp
  moreover have R: "path_rights (umachine u') dir 7 v = path_rights (umachine u) dir 7 v" for v
    using u'(2) by (simp add: requesting_def)
  moreover have "access (umachine u') dir (page_at a j) = path_rights (umachine u) dir 7 (page_at a j)" if "j < ?N" for j
  proof -
    have "translate (umachine u') dir (page_at a j) = Some (build_entry (fs ! j) 7)"
      using u'(2) that by (simp add: requesting_def mapped_so_far_def)
    moreover have "7 AND path_rights (umachine u) dir 7 (page_at a j) = path_rights (umachine u) dir 7 (page_at a j)"
      unfolding path_rights_def by (rule path_bits_low) simp
    ultimately show ?thesis by (simp add: access_translate [where flags = 7] R entry_rights)
  qed
  ultimately show ?thesis
    using u' unfolding requesting_def mapped_so_far_def by blast
qed

text \<open>Open directories stay open.\<close>

lemma user_open_rights: "user_open m dir \<longleftrightarrow> (\<forall>v. user_page v \<longrightarrow> path_rights m dir 7 v = 7)"
  by (simp add: user_open_def path_rights_def user_page_def)

text \<open>C16. A request for pages of the user half that the frame manager can satisfy, with boot memory for
  the tables that may be missing, succeeds: page by page the range is translated to the next frames of the
  pool, each frame for one page only. What a user program may do there is what the directories on the
  way allow that were there before; those the request creates allow everything, so that the pages are
  user accessible and writable through all levels when no directory of the user half keeps user programs
  out, which stays so. The frames have left the pool, every page outside the range translates as before,
  and free list and table tree are intact.\<close>

theorem requested_pages_have_own_frames:
  assumes "pages_world E dir fs (umachine u, uphysical u)" and "distinct fs"
    and "request_pages sz \<le> length fs" and "page_room (3 * request_pages sz) (umachine u)"
    and "user_range a (request_pages sz)"
  shows "\<exists>u'. sys_request_memory dir a sz u = (True, u')
    \<and> (\<forall>j < request_pages sz. translate (umachine u') dir (page_at a j) = Some (build_entry (fs ! j) 7))
    \<and> (\<forall>j < request_pages sz. access (umachine u') dir (page_at a j) = path_rights (umachine u) dir 7 (page_at a j))
    \<and> (user_open (umachine u) dir \<longrightarrow> user_open (umachine u') dir
        \<and> (\<forall>j < request_pages sz. access (umachine u') dir (page_at a j) = 7))
    \<and> distinct (map (\<lambda>j. fs ! j) [0..<request_pages sz])
    \<and> (\<forall>w. \<not> in_range a (request_pages sz) w \<longrightarrow> translate (umachine u') dir w = translate (umachine u) dir w)
    \<and> pages_world E dir (drop (request_pages sz) fs) (umachine u', uphysical u')"
proof -
  have p: "user_page (page_at a j)" if "j < request_pages sz" for j using user_rangeD(2) [OF assms(5) that] .
  show ?thesis
    using request_spec [OF assms] p unfolding user_open_rights by (elim exE) (intro exI, auto)
qed

text \<open>C17. A request for pages of the user half that the frame manager cannot satisfy fails. The pages it got to, as
  many as there were frames, all fault afterwards, even those that were mapped before; the rest of the range
  and every other page translate as before. The frames taken for it are not given back: the pool is empty
  afterwards, although no page uses them. (Boot memory for tables as in a request that succeeds.)\<close>

theorem failed_request_loses_all_frames:
  assumes "pages_world E dir fs (umachine u, uphysical u)"
    and "length fs < request_pages sz" and "page_room (3 * request_pages sz) (umachine u)"
    and "user_range a (request_pages sz)"
  shows "\<exists>u'. sys_request_memory dir a sz u = (False, u')
    \<and> phys_pool (umachine u', uphysical u') []
    \<and> (\<forall>w. translate (umachine u') dir w
        = (if in_range a (length fs) w then None else translate (umachine u) dir w))"
proof -
  have "requesting E dir a fs (request_pages sz) (translate (umachine u) dir) (path_rights (umachine u) dir 7) (unat (0 :: u64)) u"
    using requesting_start [OF assms(1,3)] by simp
  then have "\<exists>u'. request_loop dir a (ALIGN_UP sz div FRAME_SIZE) 0 u = (False, u')
    \<and> pages_world E dir [] (umachine u', uphysical u')
    \<and> (\<forall>w. translate (umachine u') dir w = (if in_range a (length fs) w then None else translate (umachine u) dir w))"
    by (rule request_loop_fails)
      (use assms(2,4) in \<open>simp_all add: request_pages_def\<close>)
  then show ?thesis using pages_world_pool by (fastforce simp: sys_request_memory_def)
qed

lemma release_spec:
  assumes "pages_world E dir fs (umachine u, uphysical u)" "user_range a (request_pages sz)"
  shows "pages_world E dir fs (umachine (sys_release_memory dir a sz u), uphysical (sys_release_memory dir a sz u))
    \<and> (\<forall>w. translate (umachine (sys_release_memory dir a sz u)) dir w
        = (if in_range a (request_pages sz) w then None else translate (umachine u) dir w))"
proof -
  let ?r = "release_loop dir a (ALIGN_UP sz div FRAME_SIZE) 0 (umachine u)"
  have "pages_world E dir fs (?r, uphysical u) \<and> placement ?r = placement (umachine u)
    \<and> (\<forall>w. translate ?r dir w = (if in_range a (request_pages sz) w then None else translate (umachine u) dir w))"
    by (rule release_loop_world [OF assms(1)]) (use assms(2) in \<open>simp_all add: request_pages_def\<close>)
  then show ?thesis by (simp add: sys_release_memory_def Let_def)
qed

text \<open>Requesting pages of the user half and releasing them again, as a process does in its lifetime, restores every
  translation outside the range and makes the range fault, but the frames of the range do not
  return to the pool: they are lost to the system.\<close>

theorem released_frames_not_returned:
  assumes "pages_world E dir fs (umachine u, uphysical u)" and "distinct fs"
    and "request_pages sz \<le> length fs" and "page_room (3 * request_pages sz) (umachine u)"
    and "user_range a (request_pages sz)"
  shows "\<exists>u' u''. sys_request_memory dir a sz u = (True, u') \<and> u'' = sys_release_memory dir a sz u'
    \<and> (\<forall>w. translate (umachine u'') dir w
        = (if in_range a (request_pages sz) w then None else translate (umachine u) dir w))
    \<and> phys_pool (umachine u'', uphysical u'') (drop (request_pages sz) fs)"
proof -
  obtain u' where u': "sys_request_memory dir a sz u = (True, u')"
    "\<forall>w. \<not> in_range a (request_pages sz) w \<longrightarrow> translate (umachine u') dir w = translate (umachine u) dir w"
    "pages_world E dir (drop (request_pages sz) fs) (umachine u', uphysical u')"
    using request_spec [OF assms] by blast
  then show ?thesis
    using release_spec [OF u'(3) assms(5)] pages_world_pool by auto
qed

subsection \<open>Building such a memory\<close>

lemma below_tables:
  assumes "tables_ok m L" "placement m \<le> x"
  shows "apart L x"
  unfolding apart_def
proof (intro allI impI)
  fix t and i :: u64 assume "L t \<noteq> 0 \<and> unat i < 512"
  then show "x \<noteq> t + 8 * i"
    using tables_okD(1,3) [OF assms(1), of t] unat_entry [of t i] assms(2) by (auto simp: wordnat)
qed

lemma apartD: "apart L x \<Longrightarrow> L t \<noteq> 0 \<Longrightarrow> unat i < 512 \<Longrightarrow> t + 8 * i \<noteq> x"
  by (auto simp: apart_def)

text \<open>Memory that agrees on the tables.\<close>

lemma points_to_cells:
  assumes "\<And>t i. L t \<noteq> 0 \<Longrightarrow> unat i < 512 \<Longrightarrow> mem m' (t + 8 * i) = mem m (t + 8 * i)"
  shows "points_to m' L = points_to m L"
  using assms by (auto simp: points_to_def fun_eq_iff)

lemma tables_ok_cells:
  assumes ok: "tables_ok m L" and pl: "placement m \<le> placement m'"
    and c: "\<And>t i. L t \<noteq> 0 \<Longrightarrow> unat i < 512 \<Longrightarrow> mem m' (t + 8 * i) = mem m (t + 8 * i)"
  shows "tables_ok m' L"
proof -
  note points_to_cells [OF c]
  moreover have "unat t + 4096 \<le> unat (placement m')" if "L t \<noteq> 0" for t
    using tables_okD(3) [OF ok that] pl by (simp add: wordnat)
  ultimately show ?thesis using ok unfolding tables_ok_def by simp
qed

lemma shares_cells:
  assumes "tables_ok m L" "\<And>t i. L t \<noteq> 0 \<Longrightarrow> unat i < 512 \<Longrightarrow> mem m' (t + 8 * i) = mem m (t + 8 * i)"
    and "L (ADDRESS d) = 4" "L (ADDRESS e) = 4"
  shows "shares m' d v e w = shares m d v e w"
  unfolding shares_def by (rule meets_frame [OF assms(1,2)]) (use assms(3,4) in simp_all)

lemma translate_cells:
  assumes "tables_ok m L" "\<And>t i. L t \<noteq> 0 \<Longrightarrow> unat i < 512 \<Longrightarrow> mem m' (t + 8 * i) = mem m (t + 8 * i)"
    and "L (ADDRESS d) = 4"
  shows "translate m' d v = translate m d v"
  unfolding translate_def by (rule walk_frame [OF assms(1,2)]) (use assms(3) in simp_all)

lemma path_rights_cells:
  assumes "tables_ok m L" "\<And>t i. L t \<noteq> 0 \<Longrightarrow> unat i < 512 \<Longrightarrow> mem m' (t + 8 * i) = mem m (t + 8 * i)"
    and "L (ADDRESS d) = 4"
  shows "path_rights m' d f v = path_rights m d f v"
  unfolding path_rights_def by (rule path_bits_frame [OF assms(1,2)]) (use assms(3) in simp_all)

lemma user_view_cells:
  assumes "tables_ok m L" "\<And>t i. L t \<noteq> 0 \<Longrightarrow> unat i < 512 \<Longrightarrow> mem m' (t + 8 * i) = mem m (t + 8 * i)"
    and "L (ADDRESS d) = 4"
  shows "user_view m' d = user_view m d"
  unfolding user_view_def fun_eq_iff using translate_cells [OF assms] by simp

text \<open>Giving a frame back keeps the invariant.\<close>

lemma give_frame_world:
  assumes "pages_world E dir fs (m, p)" "valid_frame (m, p) f" "headroom 16 m"
  shows "pages_world E dir (f # fs) (physical_free f m p)" "translate (fst (physical_free f m p)) dir v = translate m dir v"
    "path_rights (fst (physical_free f m p)) dir g v = path_rights m dir g v"
proof -
  obtain L xs where L: "tables_ok m L" "L (ADDRESS dir) = 4" "node_list (mem m) (free_list p) xs"
    "map snd xs = fs" "nodes_below (placement m) xs" "nodes_apart L xs" "kernel_half m L xs"
    "private_halves m (insert dir (fst ` others E))" "\<forall>f \<in> set fs. valid_frame (m, p) f"
    "neighbours_ok m L E" "dir \<notin> fst ` others E"
    using assms(1) by (rule pages_worldE)
  let ?q = "placement m"
  let ?m = "store (?q + 8) (free_list p) (store ?q f (m\<lparr>placement := ?q + 16\<rparr>))"
  have room: "0 < unat ?q" "unat ?q + 16 < 18446744073709551616"
    using assms(3) by (simp_all add: headroom_def)
  then have q: "?q \<le> ?q + 8" "?q \<le> ?q + 16" by (simp_all add: wordnat unat_add_nowrap)
  note out = below_tables [OF L(1) order_refl] below_tables [OF L(1) q(1)]
  have c: "mem ?m (t + 8 * i) = mem m (t + 8 * i)" if "L t \<noteq> 0" "unat i < 512" for t i
    using apartD [OF out(1) that] apartD [OF out(2) that] by simp
  have "tables_ok ?m L"
    by (rule tables_ok_cells [OF L(1)])
      (use q(2) apartD [OF out(1)] apartD [OF out(2)] in simp_all)
  moreover note node_list_push [OF L(3,5) room, of f]
  moreover have "nodes_apart L ((?q, f) # xs)" using L(6) out by (simp add: nodes_apart_def)
  moreover have "kernel_half ?m L ((?q, f) # xs)" using L(7) q(2) by (auto simp: kernel_half_def upper_def)
  moreover have "private_halves ?m (insert dir (fst ` others E))"
    by (rule private_halves_change [OF L(8)]) (rule shares_cells [OF L(1) c world_roots [OF L(2,10)] world_roots [OF L(2,10)]])
  moreover have "neighbours_ok ?m L E"
    using user_view_cells [OF L(1) c] neighbours_okD(2) [OF L(10)]
    by (intro neighbours_change [OF L(10)]) (simp_all add: points_to_cells [OF c])
  ultimately have "pages_world E dir (f # fs) (?m, p\<lparr>free_list := ?q\<rparr>)"
    using L(2,4,9,11) assms(2) by (intro pages_worldI [where xs = "(?q, f) # xs" and L = L])
      (auto simp: valid_frame_def)
  then show "pages_world E dir (f # fs) (physical_free f m p)"
    using assms(2) by (simp add: physical_free_eq valid_frame_def)
  show "translate (fst (physical_free f m p)) dir v = translate m dir v"
    using translate_cells [OF L(1) c L(2), of v] assms(2) by (simp add: physical_free_eq valid_frame_def)
  show "path_rights (fst (physical_free f m p)) dir g v = path_rights m dir g v"
    using path_rights_cells [OF L(1) c L(2), of g v] assms(2) by (simp add: physical_free_eq valid_frame_def)
qed

text \<open>The tables of the example with a pool of two frames.\<close>

definition alone :: "addr \<Rightarrow> neighbours" where
  "alone d = \<lparr>active = d, home = d, others = {}\<rparr>"

definition two_frames :: "machine \<times> physical" where
  "two_frames = (case physical_free 0x10000 example_paging \<lparr>physical_end = 0x100000, free_list = 0\<rparr> of
     (m, p) \<Rightarrow> physical_free 0x20000 m p)"

definition two_frame_process :: user_space where
  "two_frame_process = set_umachine (fst two_frames) (set_uphysical (snd two_frames) example_user)"

lemma two_frames_world: "pages_world (alone 0x1000) 0x1000 [0x20000, 0x10000] two_frames" "page_room 9 (fst two_frames)"
  "translate (fst two_frames) 0x1000 v = translate example_paging 0x1000 v"
  "path_rights (fst two_frames) 0x1000 g v = path_rights example_paging 0x1000 g v"
proof -
  let ?p = "\<lparr>physical_end = 0x100000, free_list = 0\<rparr> :: physical"
  obtain m p where mp: "physical_free 0x10000 example_paging ?p = (m, p)" by fastforce
  then have f: "m = store (placement example_paging + 8) 0 (store (placement example_paging) 0x10000
      (example_paging\<lparr>placement := placement example_paging + 16\<rparr>))" "physical_end p = 0x100000"
    by (auto simp: physical_free_eq IS_ALIGNED_def)
  have pl: "placement m = 0xffffffff80010010" by (simp add: f example_paging_def)
  have "example_level (ADDRESS 0x1000) = 4" by (simp add: example_level_def ADDRESS_def KVIRTUAL_ADDRESS_def)
  moreover have "private_halves example_paging (insert 0x1000 (fst ` others (alone 0x1000)))"
    using example_private by (auto simp: private_halves_def alone_def user_private_def aliases_shares)
  ultimately have "pages_world (alone 0x1000) 0x1000 [] (example_paging, ?p)"
    using example_tables
    by (intro pages_worldI [where xs = "[]" and L = example_level])
      (auto simp: neighbours_ok_def alone_def nodes_apart_def kernel_half_def upper_def example_level_def example_paging_def split: if_splits)
  then have w: "pages_world (alone 0x1000) 0x1000 [0x10000] (m, p)" and t: "translate m 0x1000 v = translate example_paging 0x1000 v"
    "path_rights m 0x1000 g v = path_rights example_paging 0x1000 g v"
    using give_frame_world [of "alone 0x1000" "0x1000" "[]" example_paging ?p "0x10000"] mp
    by (simp_all add: valid_frame_def IS_ALIGNED_def headroom_def example_paging_def)
  have "valid_frame (m, p) 0x20000" "headroom 16 m"
    by (simp_all add: f(2) pl valid_frame_def IS_ALIGNED_def headroom_def)
  from give_frame_world [OF w this] show "pages_world (alone 0x1000) 0x1000 [0x20000, 0x10000] two_frames"
    "translate (fst two_frames) 0x1000 v = translate example_paging 0x1000 v"
    "path_rights (fst two_frames) 0x1000 g v = path_rights example_paging 0x1000 g v"
    using mp t by (simp_all add: two_frames_def)
  have "fst two_frames = store (placement m + 8) (free_list p) (store (placement m) 0x20000
      (m\<lparr>placement := placement m + 16\<rparr>))"
    using mp f(2) by (simp add: two_frames_def physical_free_eq IS_ALIGNED_def)
  then show "page_room 9 (fst two_frames)" by (simp add: page_room_def pl)
qed

lemma two_frame_process_world:
  "pages_world (alone 0x1000) 0x1000 [0x20000, 0x10000] (umachine two_frame_process, uphysical two_frame_process)"
  "page_room 9 (umachine two_frame_process)"
  "path_rights (umachine two_frame_process) 0x1000 g v = path_rights example_paging 0x1000 g v"
  using two_frames_world by (simp_all add: two_frame_process_def)

lemma request_pages_examples: "request_pages 0x800 = 1" "request_pages 0x1800 = 2" "request_pages 0x3000 = 3"
  by (simp_all add: request_pages_def ALIGN_UP_def ALIGN_DOWN_def FRAME_SIZE_def)

theorem requested_pages_have_own_frames_witness:
  "\<exists>u'. sys_request_memory 0x1000 0x8000000 0x1800 two_frame_process = (True, u')
    \<and> translate (umachine u') 0x1000 0x8000000 = Some 0x20007
    \<and> translate (umachine u') 0x1000 0x8001000 = Some 0x10007
    \<and> access (umachine u') 0x1000 0x8000000 = 7
    \<and> pages_world (alone 0x1000) 0x1000 [] (umachine u', uphysical u')"
proof -
  let ?fs = "[0x20000, 0x10000] :: addr list"
  obtain u' where u': "sys_request_memory 0x1000 0x8000000 0x1800 two_frame_process = (True, u')"
    "\<forall>j < 2. translate (umachine u') 0x1000 (page_at 0x8000000 j) = Some (build_entry (?fs ! j) 7)"
    "\<forall>j < 2. access (umachine u') 0x1000 (page_at 0x8000000 j)
      = path_rights (umachine two_frame_process) 0x1000 7 (page_at 0x8000000 j)"
    "pages_world (alone 0x1000) 0x1000 [] (umachine u', uphysical u')"
    using requested_pages_have_own_frames [of "alone 0x1000" "0x1000" ?fs two_frame_process "0x1800" "0x8000000"]
      two_frame_process_world by (auto simp: request_pages_examples page_room_def user_range_def)
  have "page_at 0x8000000 0 = 0x8000000" "page_at 0x8000000 1 = 0x8001000"
    by (simp_all add: page_at_def FRAME_SIZE_def)
  moreover have "build_entry 0x20000 7 = 0x20007" "build_entry 0x10000 7 = 0x10007"
    by (simp_all add: build_entry_def)
  moreover have "path_rights (umachine two_frame_process) 0x1000 7 0x8000000 = 7"
    unfolding two_frame_process_world(3) by (rule example_path) (simp_all add: PML4_def PDPT_def)
  ultimately show ?thesis
    using u'(1,4) u'(3) [rule_format, of 0] u'(2) [rule_format, of 0] u'(2) [rule_format, of 1] by simp
qed

theorem failed_request_loses_all_frames_witness:
  "\<exists>u'. sys_request_memory 0x1000 0x8000000 0x3000 two_frame_process = (False, u')
    \<and> phys_pool (umachine two_frame_process, uphysical two_frame_process) [0x20000, 0x10000]
    \<and> phys_pool (umachine u', uphysical u') []"
proof -
  have "page_room (3 * request_pages 0x3000) (umachine two_frame_process)"
    using two_frame_process_world(2) by (simp add: request_pages_examples)
  then show ?thesis
    using failed_request_loses_all_frames [of "alone 0x1000" "0x1000" "[0x20000, 0x10000]" two_frame_process "0x3000" "0x8000000"]
      two_frame_process_world(1) pages_world_pool [OF two_frame_process_world(1)]
    by (auto simp: request_pages_examples user_range_def)
qed

theorem released_frames_not_returned_witness:
  "\<exists>u' u''. sys_request_memory 0x1000 0x8000000 0x800 two_frame_process = (True, u')
    \<and> u'' = sys_release_memory 0x1000 0x8000000 0x800 u'
    \<and> phys_pool (umachine u'', uphysical u'') [0x10000]"
  using released_frames_not_returned [of "alone 0x1000" "0x1000" "[0x20000, 0x10000]" two_frame_process "0x800" "0x8000000"]
    two_frame_process_world by (auto simp: request_pages_examples page_room_def user_range_def)

end
