(* ===== verification/Process_World.thy ===== *)
theory Process_World
  imports Process_Pages
begin

text \<open>
  Who owns the frames: the invariant \<open>frames_owned\<close> says that no two pages of the user half have
  the same frame and that no frame of a page is in the pool. The loops that request pages, release
  them and build a stack keep it, whether they succeed or run out of frames, and so do the operations
  of the user heap; \<open>heap_backed\<close> adds that every page of the heap has a frame.
  At the end, a new directory starts out with a world of its own.
\<close>

subsection \<open>Ownership\<close>

text \<open>The frames of the neighbours' user pages.\<close>

definition taken :: "neighbours \<Rightarrow> addr set" where
  "taken E = {ALIGN_DOWN e | d T v e. (d, T) \<in> others E \<and> T v = Some e}"

lemma takenI: "(d, T) \<in> others E \<Longrightarrow> T v = Some e \<Longrightarrow> ALIGN_DOWN e \<in> taken E"
  unfolding taken_def by blast

definition frames_owned :: "neighbours \<Rightarrow> addr \<Rightarrow> addr list \<Rightarrow> machine \<Rightarrow> bool" where
  "frames_owned E dir fs m \<longleftrightarrow> distinct fs \<and> set fs \<inter> taken E = {}
     \<and> (\<forall>v e. user_page v \<and> translate m dir v = Some e
          \<longrightarrow> e AND 0xfff = 7 \<and> ALIGN_DOWN e \<notin> set fs \<and> ALIGN_DOWN e \<notin> taken E)
     \<and> (\<forall>v w e. user_page v \<and> user_page w \<and> translate m dir v = Some e \<and> translate m dir w = Some e
          \<longrightarrow> page_index v = page_index w)"

lemma frames_ownedD:
  assumes "frames_owned E dir fs m"
  shows "distinct fs" "user_page v \<Longrightarrow> translate m dir v = Some e \<Longrightarrow> e AND 0xfff = 7"
    "user_page v \<Longrightarrow> translate m dir v = Some e \<Longrightarrow> ALIGN_DOWN e \<notin> set fs"
    "user_page v \<Longrightarrow> user_page w \<Longrightarrow> translate m dir v = Some e \<Longrightarrow> translate m dir w = Some e
       \<Longrightarrow> page_index v = page_index w"
    "user_page v \<Longrightarrow> translate m dir v = Some e \<Longrightarrow> ALIGN_DOWN e \<notin> taken E"
    "set fs \<inter> taken E = {}"
  using assms unfolding frames_owned_def by blast+

text \<open>A directory without user pages owns nothing.\<close>

lemma frames_owned_empty:
  "distinct fs \<Longrightarrow> set fs \<inter> taken E = {} \<Longrightarrow> (\<And>v. user_page v \<Longrightarrow> translate m dir v = None) \<Longrightarrow> frames_owned E dir fs m"
  unfolding frames_owned_def by auto

text \<open>Fewer pages and fewer free frames.\<close>

lemma frames_owned_fewer:
  assumes "frames_owned E dir fs m" "distinct gs" "set gs \<subseteq> set fs"
    and "\<And>v. user_page v \<Longrightarrow> translate m' dir v = translate m dir v \<or> translate m' dir v = None"
  shows "frames_owned E dir gs m'"
proof -
  have t: "translate m dir v = Some e" if "user_page v" "translate m' dir v = Some e" for v e
    using assms(4) [OF that(1)] that(2) by auto
  note D = frames_ownedD [OF assms(1)]
  show ?thesis
    unfolding frames_owned_def
  proof (intro conjI allI impI)
    show "distinct gs" "set gs \<inter> taken E = {}" using assms(2,3) D(6) by auto
  qed (use t D(2-5) assms(3) in blast)+
qed

lemma frames_owned_same:
  "frames_owned E dir fs m \<Longrightarrow> (\<And>v. user_page v \<Longrightarrow> translate m' dir v = translate m dir v) \<Longrightarrow> frames_owned E dir fs m'"
  by (rule frames_owned_fewer) (auto simp: frames_owned_def)

text \<open>The entry of a user page and the frame in it.\<close>

lemma build_entry_user: "build_entry f 7 = ALIGN_DOWN f OR 7"
  by (simp add: build_entry_def ALIGN_DOWN_def or.assoc)

lemma build_entry_frame:
  assumes "IS_ALIGNED f"
  shows "ALIGN_DOWN (build_entry f 7) = f" "build_entry f 7 AND 0xfff = 7"
proof -
  have f: "f AND - 4096 = f" using ALIGN_DOWN_ident [OF assms] by (simp add: ALIGN_DOWN_def)
  have "f AND 0xfff = 0" using assms by (simp add: IS_ALIGNED_def)
  then show "build_entry f 7 AND 0xfff = 7"
    by (simp add: build_entry_user ALIGN_DOWN_def f bit.conj_disj_distrib2)
  show "ALIGN_DOWN (build_entry f 7) = f"
    using f by (simp add: build_entry_user ALIGN_DOWN_def bit.conj_disj_distrib2)
qed

lemma frames_owned_map:
  assumes o: "frames_owned E dir (f # fs) m" and f: "IS_ALIGNED f"
    and t: "\<And>w. user_page w \<Longrightarrow> translate m' dir w
      = (if page_index w = page_index v then Some (build_entry f 7) else translate m dir w)"
  shows "frames_owned E dir fs m'"
proof -
  note D = frames_ownedD [OF o] and B = build_entry_frame [OF f]
  have new: "translate m dir w \<noteq> Some (build_entry f 7)" if "user_page w" for w
    using D(3) [OF that, of "build_entry f 7"] B(1) by auto
  have old: "page_index w \<noteq> page_index v \<and> translate m dir w = Some e \<or> page_index w = page_index v \<and> e = build_entry f 7"
    if "user_page w" "translate m' dir w = Some e" for w e
    using t [OF that(1)] that(2) by (cases "page_index w = page_index v") simp_all
  show ?thesis
    unfolding frames_owned_def
  proof (intro conjI allI impI)
    show "distinct fs" "set fs \<inter> taken E = {}" using D(1,6) by auto
  next
    fix w e assume "user_page w \<and> translate m' dir w = Some e"
    then have w: "user_page w" "translate m' dir w = Some e" by simp_all
    from old [OF w] show "e AND 0xfff = 7"
      using D(2) [OF w(1)] B(2) by (elim disjE conjE) simp_all
    from old [OF w] show "ALIGN_DOWN e \<notin> set fs"
      using D(1) D(3) [OF w(1)] B(1) by (elim disjE conjE) simp_all
    from old [OF w] show "ALIGN_DOWN e \<notin> taken E"
      using D(5) [OF w(1)] D(6) B(1) by (elim disjE conjE) auto
  next
    fix w x e assume "user_page w \<and> user_page x \<and> translate m' dir w = Some e \<and> translate m' dir x = Some e"
    then have w: "user_page w" "translate m' dir w = Some e" and x: "user_page x" "translate m' dir x = Some e"
      by simp_all
    from old [OF w] old [OF x] show "page_index w = page_index x"
      using new [OF w(1)] new [OF x(1)] D(4) [OF w(1) x(1)] by (elim disjE conjE) simp_all
  qed
qed

subsection \<open>The loops\<close>

text \<open>The part of the state that the loops work on.\<close>

definition owned_world :: "neighbours \<Rightarrow> addr \<Rightarrow> addr list \<Rightarrow> nat \<Rightarrow> machine \<times> physical \<Rightarrow> bool" where
  "owned_world E dir fs k w \<longleftrightarrow> pages_world E dir fs w \<and> frames_owned E dir fs (fst w) \<and> page_room k (fst w)"

lemma owned_world_mono: "owned_world E dir fs k w \<Longrightarrow> j \<le> k \<Longrightarrow> owned_world E dir fs j w"
  by (auto simp: owned_world_def intro: page_room_mono)

lemma take_and_map:
  assumes w: "owned_world E dir (f # fs) (k + 3) (m, p)"
  obtains p' m' where "physical_alloc m p = (f, p')" "f \<noteq> 0" "map_page dir v f 7 m = (0, m')"
    "owned_world E dir fs k (m', p')"
    "\<And>w. user_page v \<or> user_page w \<Longrightarrow> translate m' dir w
      = (if page_index w = page_index v then Some (build_entry f 7) else translate m dir w)"
proof -
  have P: "pages_world E dir (f # fs) (m, p)" "frames_owned E dir (f # fs) m" "page_room (k + 3) m"
    using w by (simp_all add: owned_world_def)
  obtain p' where p': "physical_alloc m p = (f, p')" "pages_world E dir fs (m, p')" "f \<noteq> 0" "IS_ALIGNED f"
    using P(1) by (rule take_frame_world)
  obtain m' where m': "map_page dir v f 7 m = (0, m')" "pages_world E dir fs (m', p')" "page_room k m'"
    "\<And>w. user_page v \<or> user_page w \<Longrightarrow> translate m' dir w = (if page_index w = page_index v
       then (if PRESENT (build_entry f 7) then Some (build_entry f 7) else None)
       else translate m dir w)"
    by (rule map_page_world [OF p'(2) P(3), of v f 7]) blast
  have t: "translate m' dir w
      = (if page_index w = page_index v then Some (build_entry f 7) else translate m dir w)"
    if "user_page v \<or> user_page w" for w
    using m'(4) [OF that] by (simp add: build_entry_present)
  have "frames_owned E dir fs m'" by (rule frames_owned_map [OF P(2) p'(4) t]) simp
  then show thesis using that [OF p'(1,3) m'(1) _ t] m'(2,3) by (simp add: owned_world_def)
qed

lemma release_owned:
  assumes w: "owned_world E dir fs k (m, p)" and "unat n = N" "user_range a N"
  shows "owned_world E dir fs k (release_loop dir a n 0 m, p)"
    "translate (release_loop dir a n 0 m) dir w = (if in_range a N w then None else translate m dir w)"
proof -
  let ?r = "release_loop dir a n 0 m"
  have R: "pages_world E dir fs (?r, p) \<and> placement ?r = placement m
    \<and> (\<forall>w. translate ?r dir w = (if in_range a N w then None else translate m dir w))"
    by (rule release_loop_world) (use assms in \<open>simp_all add: owned_world_def\<close>)
  then show "translate ?r dir w = (if in_range a N w then None else translate m dir w)" by blast
  have "frames_owned E dir fs ?r"
    by (rule frames_owned_fewer [of E dir fs m]) (use w R in \<open>auto simp: owned_world_def frames_owned_def\<close>)
  then show "owned_world E dir fs k (?r, p)" using R w by (simp add: owned_world_def page_room_def)
qed

lemma in_range_mono: "in_range a i w \<Longrightarrow> i \<le> n \<Longrightarrow> in_range a n w"
  unfolding in_range_def by (meson order_less_le_trans)

lemma in_rangeI: "j < n \<Longrightarrow> in_range a n (page_at a j)"
  unfolding in_range_def by blast

lemma request_loop_owned:
  assumes "owned_world E dir fs (3 * (N - unat i) + k) (umachine u, uphysical u)" "unat n = N" "unat i \<le> N"
    "user_range a N" and "\<forall>j < unat i. translate (umachine u) dir (page_at a j) \<noteq> None"
    and "\<forall>w. \<not> in_range a N w \<longrightarrow> translate (umachine u) dir w = g w"
  shows "\<exists>r u' gs. request_loop dir a n i u = (r, u') \<and> owned_world E dir gs k (umachine u', uphysical u')
    \<and> (r \<longrightarrow> (\<forall>j < N. translate (umachine u') dir (page_at a j) \<noteq> None))
    \<and> (\<forall>w. \<not> in_range a N w \<longrightarrow> translate (umachine u') dir w = g w)"
  using assms
proof (induction "N - unat i" arbitrary: i u fs)
  case 0
  then have "\<not> i < n" "unat i = N" by (simp_all add: wordnat)
  with 0 show ?case by (auto simp: request_loop.simps [of dir a n i])
next
  case (Suc d)
  have lt: "i < n" using Suc.hyps(2) Suc.prems(2) by (simp add: wordnat)
  have i1: "unat (i + 1) = Suc (unat i)" using lt by (rule unat_Suc_less)
  let ?m = "umachine u" and ?p = "uphysical u"
  show ?case
  proof (cases fs)
    case Nil
    have w: "owned_world E dir [] k (?m, ?p)" by (rule owned_world_mono [OF Suc.prems(1) [unfolded Nil]]) simp
    note R = release_owned [OF w refl user_range_mono [OF Suc.prems(4,3)]]
    have "physical_alloc ?m ?p = (0, ?p)" using w unfolding owned_world_def by (blast intro: empty_pool_world)
    then have "request_loop dir a n i u = (False, set_umachine (release_loop dir a i 0 ?m) (set_uphysical ?p u))"
      using lt by (simp add: request_loop.simps [of dir a n i])
    moreover have "translate (release_loop dir a i 0 ?m) dir w = g w" if "\<not> in_range a N w" for w
      using R(2) [of w] that in_range_mono [OF _ Suc.prems(3)] Suc.prems(6) by auto
    ultimately show ?thesis using R(1) by auto
  next
    case (Cons f gs)
    have "owned_world E dir (f # gs) (3 * (N - Suc (unat i)) + k + 3) (?m, ?p)"
      by (rule owned_world_mono [OF Suc.prems(1) [unfolded Cons]]) (use Suc.hyps(2) in simp)
    then obtain p' m' where p': "physical_alloc ?m ?p = (f, p')" "f \<noteq> 0"
      "map_page dir (page_at a (unat i)) f 7 ?m = (0, m')" "owned_world E dir gs (3 * (N - Suc (unat i)) + k) (m', p')"
      "\<And>w. user_page (page_at a (unat i)) \<or> user_page w \<Longrightarrow> translate m' dir w
        = (if page_index w = page_index (page_at a (unat i)) then Some (build_entry f 7) else translate ?m dir w)"
      by (rule take_and_map [of E dir f gs _ ?m ?p "page_at a (unat i)"]) blast
    let ?u = "set_umachine m' (set_uphysical p' u)"
    have t: "translate m' dir w
        = (if page_index w = page_index (page_at a (unat i)) then Some (build_entry f 7) else translate ?m dir w)" for w
      using p'(5) user_rangeD(2) [OF Suc.prems(4), of "unat i"] Suc.hyps(2) by simp
    have "request_loop dir a n i u = request_loop dir a n (i + 1) ?u"
      using lt p'(1-3) by (simp add: request_loop.simps [of dir a n i u] page_at_def Let_def)
    moreover have "\<exists>r u' gs. request_loop dir a n (i + 1) ?u = (r, u')
        \<and> owned_world E dir gs k (umachine u', uphysical u')
        \<and> (r \<longrightarrow> (\<forall>j < N. translate (umachine u') dir (page_at a j) \<noteq> None))
        \<and> (\<forall>w. \<not> in_range a N w \<longrightarrow> translate (umachine u') dir w = g w)"
    proof (rule Suc.hyps(1))
      show "\<forall>j < unat (i + 1). translate (umachine ?u) dir (page_at a j) \<noteq> None"
        using Suc.prems(5) t i1 by (simp add: less_Suc_eq)
      show "\<forall>w. \<not> in_range a N w \<longrightarrow> translate (umachine ?u) dir w = g w"
        using Suc.prems(6) t Suc.hyps(2) unfolding in_range_def by auto
    qed (use Suc.hyps(2) Suc.prems(2-4) i1 p'(4) in simp_all)
    ultimately show ?thesis by simp
  qed
qed

lemma request_owned:
  assumes "owned_world E dir fs (3 * request_pages sz + k) (umachine u, uphysical u)"
    and "user_range a (request_pages sz)"
  obtains r u' gs where "sys_request_memory dir a sz u = (r, u')" "owned_world E dir gs k (umachine u', uphysical u')"
    "\<And>j. r \<Longrightarrow> j < request_pages sz \<Longrightarrow> translate (umachine u') dir (page_at a j) \<noteq> None"
    "\<And>w. \<not> in_range a (request_pages sz) w \<Longrightarrow> translate (umachine u') dir w = translate (umachine u) dir w"
proof -
  have "\<exists>r u' gs. request_loop dir a (ALIGN_UP sz div FRAME_SIZE) 0 u = (r, u')
    \<and> owned_world E dir gs k (umachine u', uphysical u')
    \<and> (r \<longrightarrow> (\<forall>j < request_pages sz. translate (umachine u') dir (page_at a j) \<noteq> None))
    \<and> (\<forall>w. \<not> in_range a (request_pages sz) w \<longrightarrow> translate (umachine u') dir w = translate (umachine u) dir w)"
    by (rule request_loop_owned [where fs = fs]) (use assms in \<open>simp_all add: request_pages_def\<close>)
  then show thesis using that by (auto simp: sys_request_memory_def)
qed

text \<open>The stack: any range; pages that were mapped stay mapped.\<close>

lemma stack_loop_owned:
  assumes "owned_world E dir fs (3 * (unat n - unat i) + k) (umachine u, uphysical u)"
    and "\<forall>w. user_page w \<longrightarrow> g w \<noteq> None \<longrightarrow> translate (umachine u) dir w \<noteq> None"
  shows "\<exists>r u' gs. stack_loop dir b n i u = (r, u') \<and> owned_world E dir gs k (umachine u', uphysical u')
    \<and> (\<forall>w. user_page w \<longrightarrow> g w \<noteq> None \<longrightarrow> translate (umachine u') dir w \<noteq> None)"
  using assms
proof (induction "unat n - unat i" arbitrary: i u fs)
  case 0
  then have "\<not> i < n" by (simp add: wordnat)
  with 0 show ?case by (auto simp: stack_loop.simps [of dir b n i])
next
  case (Suc d)
  have lt: "i < n" using Suc.hyps(2) by (simp add: wordnat)
  have i1: "unat (i + 1) = Suc (unat i)" using lt by (rule unat_Suc_less)
  let ?m = "umachine u" and ?p = "uphysical u"
  show ?case
  proof (cases fs)
    case Nil
    have w: "owned_world E dir [] k (?m, ?p)" by (rule owned_world_mono [OF Suc.prems(1) [unfolded Nil]]) simp
    then have "physical_alloc ?m ?p = (0, ?p)" unfolding owned_world_def by (blast intro: empty_pool_world)
    then have "stack_loop dir b n i u = (False, set_uphysical ?p u)"
      using lt by (simp add: stack_loop.simps [of dir b n i])
    then show ?thesis using w Suc.prems(2) by auto
  next
    case (Cons f gs)
    have "owned_world E dir (f # gs) (3 * (unat n - unat (i + 1)) + k + 3) (?m, ?p)"
      by (rule owned_world_mono [OF Suc.prems(1) [unfolded Cons]]) (use Suc.hyps(2) i1 in simp)
    then obtain p' m' where p': "physical_alloc ?m ?p = (f, p')" "f \<noteq> 0"
      "map_page dir (b + i * FRAME_SIZE) f 7 ?m = (0, m')" "owned_world E dir gs (3 * (unat n - unat (i + 1)) + k) (m', p')"
      "\<And>w. user_page (b + i * FRAME_SIZE) \<or> user_page w \<Longrightarrow> translate m' dir w
        = (if page_index w = page_index (b + i * FRAME_SIZE) then Some (build_entry f 7) else translate ?m dir w)"
      by (rule take_and_map [of E dir f gs _ ?m ?p "b + i * FRAME_SIZE"]) blast
    let ?u = "set_umachine m' (set_uphysical p' u)"
    have "stack_loop dir b n i u = stack_loop dir b n (i + 1) ?u"
      using lt p'(1-3) by (simp add: stack_loop.simps [of dir b n i u] Let_def)
    moreover have "\<exists>r u' gs. stack_loop dir b n (i + 1) ?u = (r, u') \<and> owned_world E dir gs k (umachine u', uphysical u')
        \<and> (\<forall>w. user_page w \<longrightarrow> g w \<noteq> None \<longrightarrow> translate (umachine u') dir w \<noteq> None)"
      by (rule Suc.hyps(1)) (use Suc.hyps(2) Suc.prems(2) i1 p'(4,5) in simp_all)
    ultimately show ?thesis by simp
  qed
qed

subsection \<open>The pages of the heap\<close>

lemma page_index_user:
  assumes "unat v < 0x800000000000" "unat w < 0x800000000000"
  shows "page_index v = page_index w \<longleftrightarrow> unat v div 4096 = unat w div 4096"
proof
  assume "page_index v = page_index w"
  then have "unat v div 4096 mod 68719476736 = unat w div 4096 mod 68719476736"
    using page_number [of v] page_number [of w] by (simp add: page_index_def)
  then show "unat v div 4096 = unat w div 4096" using assms by simp
next
  assume "unat v div 4096 = unat w div 4096"
  then show "page_index v = page_index w" by (simp add: page_index_eq_iff word_unat_eq_iff page_fields)
qed

lemma user_page_below: "unat v < 0x800000000000 \<Longrightarrow> user_page v"
  by (simp add: user_page_def wordnat page_fields)

lemma in_range_user:
  assumes "IS_ALIGNED a" "user_range a n" "unat v < 0x800000000000"
  shows "in_range a n v \<longleftrightarrow> unat a \<le> unat v \<and> unat v < unat a + 4096 * n"
proof -
  obtain k where k: "unat a = 4096 * k" using assms(1) by (rule IS_ALIGNED_E)
  have "page_index v = page_index (page_at a j) \<longleftrightarrow> unat v div 4096 = k + j" if "j < n" for j
    using page_index_user [OF assms(3), of "page_at a j"] user_rangeD(1) [OF assms(2) that] assms(2) that k
    by (simp add: user_range_def)
  then have "in_range a n v \<longleftrightarrow> (\<exists>j < n. unat v div 4096 = k + j)" unfolding in_range_def by blast
  also have "\<dots> \<longleftrightarrow> k \<le> unat v div 4096 \<and> unat v div 4096 < k + n"
    by (auto intro: exI [of _ "unat v div 4096 - k"])
  also have "\<dots> \<longleftrightarrow> unat a \<le> unat v \<and> unat v < unat a + 4096 * n"
    unfolding k by (auto simp: less_eq_div_iff_mult_less_eq div_less_iff_less_mult algebra_simps)
  finally show ?thesis .
qed

lemma request_pages_aligned:
  assumes "IS_ALIGNED sz" "unat sz + 4096 < 18446744073709551616"
  shows "4096 * request_pages sz = unat sz"
proof -
  obtain k where k: "unat sz = 4096 * k" using assms(1) by (rule IS_ALIGNED_E)
  then have "unat (ALIGN_UP sz) = 4096 * k" using assms(2) by (subst unat_ALIGN_UP) simp_all
  then show ?thesis using k by (simp add: request_pages_def FRAME_SIZE_def unat_div)
qed

definition heap_backed :: "neighbours \<Rightarrow> addr \<Rightarrow> addr list \<Rightarrow> nat \<Rightarrow> user_space \<Rightarrow> user_allocator \<Rightarrow> bool" where
  "heap_backed E dir fs k u ua \<longleftrightarrow> owned_world E dir fs k (umachine u, uphysical u)
     \<and> upage_directory ua = dir \<and> uheap_start ua = USER_HEAP_START_ADDR \<and> IS_ALIGNED (uheap_current ua)
     \<and> USER_HEAP_START_ADDR \<le> uheap_current ua \<and> uheap_current ua \<le> USER_HEAP_MAX_ADDR
     \<and> (\<forall>a. USER_HEAP_START_ADDR \<le> a \<and> a < uheap_current ua \<longrightarrow> translate (umachine u) dir a \<noteq> None)"

lemma heap_backed_same:
  assumes "heap_backed E dir fs k u ua" "kstate u' = kstate u" "uheap_start ua' = uheap_start ua"
    "uheap_current ua' = uheap_current ua" "upage_directory ua' = upage_directory ua"
  shows "heap_backed E dir fs k u' ua'"
  using assms by (simp add: heap_backed_def umachine_def uphysical_def)

lemma heap_backed_mono: "heap_backed E dir fs k u ua \<Longrightarrow> j \<le> k \<Longrightarrow> heap_backed E dir fs j u ua"
  unfolding heap_backed_def using owned_world_mono by blast

text \<open>What the block operations leave alone.\<close>

lemma user_split_rest:
  "kstate (fst (user_split_block b sz u ua)) = kstate u"
  "snd (user_split_block b sz u ua) = ua\<lparr>num_blocks := num_blocks (snd (user_split_block b sz u ua))\<rparr>"
  by (simp_all add: user_split_block_def Let_def)

lemma user_coalesce_parts:
  "kstate (fst (user_coalesce_next b u ua)) = kstate u"
  "snd (user_coalesce_next b u ua) = ua\<lparr>num_blocks := num_blocks (snd (user_coalesce_next b u ua))\<rparr>"
  "kstate (fst (user_coalesce_prev b u ua)) = kstate u"
  "snd (user_coalesce_prev b u ua) = ua\<lparr>num_blocks := num_blocks (snd (user_coalesce_prev b u ua))\<rparr>"
  by (simp_all add: user_coalesce_next_def user_coalesce_prev_def Let_def)

lemma user_coalesce_rest:
  "kstate (fst (user_coalesce_block b u ua)) = kstate u"
  "snd (user_coalesce_block b u ua) = ua\<lparr>num_blocks := num_blocks (snd (user_coalesce_block b u ua))\<rparr>"
proof -
  let ?n = "user_coalesce_next b u ua"
  have e: "user_coalesce_block b u ua = (if \<not> ublock_free (user_headers u b) then (u, ua)
      else user_coalesce_prev b (fst ?n) (snd ?n))"
    by (simp add: user_coalesce_block_def split: prod.split)
  show "kstate (fst (user_coalesce_block b u ua)) = kstate u" by (simp add: e user_coalesce_parts(1,3))
  obtain k where k: "snd ?n = ua\<lparr>num_blocks := k\<rparr>" using user_coalesce_parts(2) by blast
  obtain l where "snd (user_coalesce_prev b (fst ?n) (snd ?n)) = (snd ?n)\<lparr>num_blocks := l\<rparr>"
    using user_coalesce_parts(4) by blast
  then show "snd (user_coalesce_block b u ua) = ua\<lparr>num_blocks := num_blocks (snd (user_coalesce_block b u ua))\<rparr>"
    by (simp add: e k)
qed

lemma link_new_rest:
  "link_new b n u ua = Some (u', ua') \<Longrightarrow> kstate u' = kstate u \<and> ua' = ua\<lparr>ufirst_block := ufirst_block ua'\<rparr>"
  by (auto simp: link_new_def Let_def split: if_splits option.splits)

lemma user_take_rest:
  assumes "user_take_block b sz u ua = (p, u', ua')"
  shows "kstate u' = kstate u" "uheap_start ua' = uheap_start ua" "uheap_current ua' = uheap_current ua"
    "upage_directory ua' = upage_directory ua"
proof -
  let ?s = "user_split_block b sz u ua"
  have e: "u' = u \<and> ua' = ua \<or> u' = uset_free False b (fst ?s)
    \<and> ua' = (snd ?s)\<lparr>utotal_allocated := utotal_allocated (snd ?s) + sz\<rparr>"
    using assms by (auto simp: user_take_block_def Let_def split: if_splits prod.splits)
  show "kstate u' = kstate u" using e user_split_rest(1) by auto
  show "uheap_start ua' = uheap_start ua" "uheap_current ua' = uheap_current ua"
    "upage_directory ua' = upage_directory ua"
    using e by (elim disjE conjE; simp; subst user_split_rest(2); simp)+
qed

lemma user_free_rest:
  assumes "user_free q u ua = (u', ua')"
  shows "kstate u' = kstate u" "uheap_start ua' = uheap_start ua" "uheap_current ua' = uheap_current ua"
    "upage_directory ua' = upage_directory ua"
proof -
  let ?b = "user_from_data q" let ?u = "uset_free True ?b u"
  let ?a = "ua\<lparr>utotal_allocated := utotal_allocated ua - ublock_size (user_headers ?u ?b)\<rparr>"
  let ?s = "user_coalesce_block ?b ?u ?a"
  have e: "u' = u \<and> ua' = ua \<or> u' = fst ?s \<and> ua' = snd ?s"
    using assms by (auto simp: user_free_def Let_def split: if_splits prod.splits)
  show "kstate u' = kstate u" using e user_coalesce_rest(1) [of ?b ?u ?a] by auto
  show "uheap_start ua' = uheap_start ua" "uheap_current ua' = uheap_current ua"
    "upage_directory ua' = upage_directory ua"
    using e by (elim disjE conjE; simp; subst user_coalesce_rest(2); simp)+
qed

text \<open>Growing the heap: a request for the pages above it backs the larger heap.\<close>

lemma request_above_heap:
  assumes w: "heap_backed E dir fs (3 * request_pages e + k) u ua" and e: "IS_ALIGNED e"
    and top: "unat (uheap_current ua) + unat e \<le> 0x40000000"
  obtains r u' gs where "sys_request_memory dir (uheap_current ua) e u = (r, u')"
    "heap_backed E dir gs k u' (if r then ua\<lparr>uheap_current := uheap_current ua + e\<rparr> else ua)"
proof -
  let ?c = "uheap_current ua"
  note W = w [unfolded heap_backed_def]
  have pages: "4096 * request_pages e = unat e" by (rule request_pages_aligned [OF e]) (use top in simp)
  have ur: "user_range ?c (request_pages e)" using top by (simp add: user_range_def pages)
  have sum: "unat (?c + e) = unat ?c + unat e" using top by (intro unat_add_nowrap) simp
  have "owned_world E dir fs (3 * request_pages e + k) (umachine u, uphysical u)" using W by blast
  then obtain r u' gs where q: "sys_request_memory dir ?c e u = (r, u')"
    "owned_world E dir gs k (umachine u', uphysical u')"
    "\<And>j. r \<Longrightarrow> j < request_pages e \<Longrightarrow> translate (umachine u') dir (page_at ?c j) \<noteq> None"
    "\<And>w. \<not> in_range ?c (request_pages e) w \<Longrightarrow> translate (umachine u') dir w = translate (umachine u) dir w"
    by (rule request_owned [OF _ ur]) blast
  have inr: "in_range ?c (request_pages e) a \<longleftrightarrow> unat ?c \<le> unat a \<and> unat a < unat ?c + unat e"
    if "unat a < 0x800000000000" for a
    using in_range_user [OF _ ur that] W by (simp add: pages)
  have old: "translate (umachine u') dir a \<noteq> None" if "USER_HEAP_START_ADDR \<le> a" "a < ?c" for a
    using q(4) [of a] inr [of a] that top W by (simp add: wordnat)
  have new: "translate (umachine u') dir a \<noteq> None"
    if r and a: "USER_HEAP_START_ADDR \<le> a" "a < ?c + e" "\<not> a < ?c" for a
  proof -
    have "unat a < 0x800000000000" using a(2) sum top by (simp add: wordnat)
    then have "in_range ?c (request_pages e) a" using inr [of a] a sum by (simp add: wordnat)
    then obtain j where "j < request_pages e" "page_index a = page_index (page_at ?c j)"
      by (auto simp: in_range_def)
    then show ?thesis using q(3) [OF \<open>r\<close>, of j] by (simp add: translate_def)
  qed
  have "heap_backed E dir gs k u' (if r then ua\<lparr>uheap_current := ?c + e\<rparr> else ua)"
  proof (cases r)
    case True
    have "4096 dvd unat ?c" "4096 dvd unat e" using W e by (simp_all add: IS_ALIGNED_iff mod_eq_0_iff_dvd)
    then have "4096 dvd unat (?c + e)" unfolding sum by (rule dvd_add)
    then have "IS_ALIGNED (?c + e)" by (simp add: IS_ALIGNED_iff)
    moreover have "USER_HEAP_START_ADDR \<le> ?c + e" "?c + e \<le> USER_HEAP_MAX_ADDR"
      using W sum top by (simp_all add: USER_HEAP_START_ADDR_def USER_HEAP_MAX_ADDR_def wordnat)
    ultimately show ?thesis using True W q(2) old new [OF True] unfolding heap_backed_def by auto
  qed (use W q(2) old in \<open>simp add: heap_backed_def\<close>)
  then show thesis by (rule that [OF q(1)])
qed

lemma user_expand_backed:
  assumes w: "heap_backed E dir fs (3 * (unat n div 4096 + 1) + k) u ua"
    and x: "user_expand_heap n u ua = Some (r, u', ua')"
  obtains gs where "heap_backed E dir gs k u' ua'"
proof (cases "uheap_current ua + ALIGN_UP (ucast n) > USER_HEAP_MAX_ADDR")
  case True
  then have "u' = u" "ua' = ua" using x by (simp_all add: user_expand_heap_def)
  then show thesis using that heap_backed_mono [OF w, of k] by simp
next
  case False
  let ?c = "uheap_current ua" and ?e = "ALIGN_UP (ucast n)"
  note W = w [unfolded heap_backed_def]
  have n32: "unat (ucast n :: u64) < 4294967296" using u32_bound [of n] by simp
  then have ue: "unat ?e = (unat n + 4095) div 4096 * 4096" by (subst unat_ALIGN_UP) simp_all
  have "4096 * request_pages ?e = unat ?e" by (rule request_pages_aligned) (use ue n32 in simp_all)
  then have np: "request_pages ?e \<le> unat n div 4096 + 1" using ue by simp
  have "unat ?e \<le> unat n + 4095" using ue by simp
  then have "unat (?c + ?e) = unat ?c + unat ?e"
    using W n32 by (intro unat_add_nowrap) (simp add: USER_HEAP_MAX_ADDR_def wordnat)
  then have top: "unat ?c + unat ?e \<le> 0x40000000" using False by (simp add: USER_HEAP_MAX_ADDR_def wordnat)
  have "heap_backed E dir fs (3 * request_pages ?e + k) u ua" by (rule heap_backed_mono [OF w]) (use np in simp)
  then obtain r1 u1 gs where q: "sys_request_memory dir ?c ?e u = (r1, u1)"
    "heap_backed E dir gs k u1 (if r1 then ua\<lparr>uheap_current := ?c + ?e\<rparr> else ua)"
    by (rule request_above_heap) (use top in simp_all)
  show thesis
  proof (cases r1)
    case f: False
    then have "u' = u1" "ua' = ua" using x q(1) W False by (simp_all add: user_expand_heap_def)
    then show thesis using that q(2) f by simp
  next
    case True
    have d: "upage_directory ua = dir" using W by blast
    obtain u2 ua2 where l: "link_new ?c (ucast (?e - sizeof_user_block)) u1 ua = Some (u2, ua2)"
      using x q(1) d False True by (auto simp: user_expand_heap_def Let_def split: option.splits prod.splits)
    note L = link_new_rest [OF l]
    obtain fb where fb: "ua2 = ua\<lparr>ufirst_block := fb\<rparr>" using L by blast
    have "user_expand_heap n u ua = (case user_coalesce_block ?c u2 (ua2\<lparr>uheap_current := uheap_current ua2 + ?e\<rparr>) of
        (u, ua) \<Rightarrow> Some (True, u, ua))"
      using False True q(1) l by (simp add: user_expand_heap_def Let_def d)
    moreover have "uheap_current ua2 = ?c" by (simp add: fb)
    ultimately have c: "user_coalesce_block ?c u2 (ua2\<lparr>uheap_current := ?c + ?e\<rparr>) = (u', ua')"
      using x by (cases "user_coalesce_block ?c u2 (ua2\<lparr>uheap_current := ?c + ?e\<rparr>)") simp
    note C = user_coalesce_rest [of ?c u2 "ua2\<lparr>uheap_current := ?c + ?e\<rparr>", unfolded c fst_conv snd_conv]
    obtain nb where nb: "ua' = ua2\<lparr>uheap_current := ?c + ?e, num_blocks := nb\<rparr>" using C(2) by blast
    have g: "heap_backed E dir gs k u1 (ua\<lparr>uheap_current := ?c + ?e\<rparr>)" using q(2) True by simp
    have "heap_backed E dir gs k u' ua'" by (rule heap_backed_same [OF g]) (simp_all add: L [THEN conjunct1] C(1) nb fb)
    then show thesis by (rule that)
  qed
qed

subsection \<open>Requests of the process\<close>

text \<open>The pages a request may add to the heap.\<close>

definition malloc_pages :: "u64 \<Rightarrow> nat" where
  "malloc_pages n = unat n div 4096 + 3"

lemma user_take_backed:
  "heap_backed E dir fs k u ua \<Longrightarrow> user_take_block b sz u ua = (q, u', ua') \<Longrightarrow> heap_backed E dir fs k u' ua'"
  by (rule heap_backed_same) (simp_all add: user_take_rest)

lemma user_malloc_backed:
  assumes w: "heap_backed E dir fs (3 * malloc_pages n + k) u ua" and x: "user_malloc n u ua = Some (q, u', ua')"
  obtains gs where "heap_backed E dir gs k u' ua'"
proof (cases "n = 0 \<or> n > MAX_SINGLE_ALLOC")
  case True
  then have "user_malloc n u ua = Some (0, u, ua)" by (cases "n = 0") (simp_all add: user_malloc_def)
  then have "u' = u" "ua' = ua" using x by simp_all
  then show thesis using that heap_backed_mono [OF w, of k] by simp
next
  case False
  let ?s = "ucast (ALIGN_UP n) :: u32"
  let ?n = "ucast ((ucast ?s :: u64) + sizeof_user_block) :: u32"
  have n: "unat n \<le> 0x80000000" using False by (simp add: MAX_SINGLE_ALLOC_def wordnat)
  then have a: "unat (ALIGN_UP n) = (unat n + 4095) div 4096 * 4096" by (intro unat_ALIGN_UP) simp
  then have a32: "unat (ALIGN_UP n) \<le> 0x80000FFF" using n by simp
  then have "unat ?s = unat (ALIGN_UP n)" by (simp add: unat_ucast_down)
  then have "unat ((ucast ?s :: u64) + 24) = unat (ALIGN_UP n) + 24" using a32 by (simp add: unat_add_nowrap)
  then have "unat ?n = unat (ALIGN_UP n) + 24" using a32 by (simp add: sizeof_user_block_def unat_ucast_down)
  then have np: "unat ?n div 4096 + 1 \<le> malloc_pages n" unfolding malloc_pages_def a by simp
  obtain b where b: "user_find_free_block ?s u ua = Some b"
    using x False by (auto simp: user_malloc_def Let_def split: option.splits)
  show thesis
  proof (cases "b = 0")
    case True
    obtain r1 u1 ua1 where e: "user_expand_heap ?n u ua = Some (r1, u1, ua1)"
      using x False b True by (auto simp: user_malloc_def Let_def split: option.splits prod.splits)
    have "3 * (unat ?n div 4096 + 1) + k \<le> 3 * malloc_pages n + k"
      using np by (intro add_mono mult_le_mono2) simp_all
    then obtain gs where g: "heap_backed E dir gs k u1 ua1"
      by (rule user_expand_backed [OF heap_backed_mono [OF w] e])
    have "u' = u1 \<and> ua' = ua1 \<or> (\<exists>c. user_take_block c ?s u1 ua1 = (q, u', ua'))"
      using x False b True e by (auto simp: user_malloc_def Let_def split: option.splits if_splits)
    then have "heap_backed E dir gs k u' ua'" using g user_take_backed [OF g] by blast
    then show thesis by (rule that)
  next
    case False
    then have "user_take_block b ?s u ua = (q, u', ua')"
      using x b \<open>\<not> (n = 0 \<or> n > MAX_SINGLE_ALLOC)\<close> by (simp add: user_malloc_def Let_def)
    then show thesis using that [of fs] user_take_backed [OF heap_backed_mono [OF w, of k]] by simp
  qed
qed

lemma user_free_backed:
  "heap_backed E dir fs k u ua \<Longrightarrow> user_free q u ua = (u', ua') \<Longrightarrow> heap_backed E dir fs k u' ua'"
  using heap_backed_same user_free_rest by metis

text \<open>Writing in the user half changes neither tables nor list.\<close>

lemma owned_world_upper:
  assumes "owned_world E dir fs k (m, p)" and same: "\<And>x. upper x \<Longrightarrow> mem m' x = mem m x"
    and "placement m' = placement m" "cr3 m' = cr3 m"
  shows "owned_world E dir fs k (m', p)" "\<And>v. translate m' dir v = translate m dir v"
proof -
  have P: "pages_world E dir fs (m, p)" "frames_owned E dir fs m" "page_room k m"
    using assms(1) by (simp_all add: owned_world_def)
  obtain L xs where L: "tables_ok m L" "L (ADDRESS dir) = 4" "node_list (mem m) (free_list p) xs"
    "map snd xs = fs" "nodes_below (placement m) xs" "nodes_apart L xs" "kernel_half m L xs"
    "private_halves m (insert dir (fst ` others E))" "\<forall>f \<in> set fs. valid_frame (m, p) f"
    "neighbours_ok m L E" "dir \<notin> fst ` others E"
    using P(1) by (rule pages_worldE)
  have c: "mem m' (t + 8 * i) = mem m (t + 8 * i)" if t: "L t \<noteq> 0" "unat i < 512" for t i
  proof (rule same)
    have "t \<le> t + 8 * i" using unat_entry [OF tables_okD(1) [OF L(1) t(1)] t(2)] by (simp add: wordnat)
    moreover have "upper t" using L(7) t(1) by (simp add: kernel_half_def)
    ultimately show "upper (t + 8 * i)" by (auto simp: upper_def)
  qed
  have n: "mem m' q = mem m q \<and> mem m' (q + 8) = mem m (q + 8)" if "(q, f) \<in> set xs" for q f
  proof -
    have u: "upper q" using L(7) that by (force simp: kernel_half_def)
    have "unat q + 16 \<le> unat (placement m)" using L(5) that by (auto simp: nodes_below_def)
    then have "unat (q + 8) = unat q + 8" using u64_bound [of "placement m"] by (simp add: unat_add_nowrap)
    then have "q \<le> q + 8" by (simp add: wordnat)
    then show ?thesis using u same by (auto simp: upper_def)
  qed
  show t: "translate m' dir v = translate m dir v" for v
    by (rule translate_cells [OF L(1) c L(2)])
  have "pages_world E dir fs (m', p)"
  proof (rule pages_worldI [where L = L and xs = xs])
    show "tables_ok m' L" by (rule tables_ok_cells [OF L(1)]) (use assms(3) c in simp_all)
    show "node_list (mem m') (free_list p) xs" using node_list_cong [of xs "mem m'" "mem m"] n L(3) by auto
    show "private_halves m' (insert dir (fst ` others E))"
      by (rule private_halves_change [OF L(8)]) (rule shares_cells [OF L(1) c world_roots [OF L(2,10)] world_roots [OF L(2,10)]])
    show "neighbours_ok m' L E"
      using user_view_cells [OF L(1) c] neighbours_okD(2) [OF L(10)] assms(4)
      by (intro neighbours_change [OF L(10)]) (simp_all add: points_to_cells [OF c])
    show "\<forall>f \<in> set fs. valid_frame (m', p) f" using L(9) unfolding valid_frame_machine [of m' p m] .
  qed (use L(2,4-7,11) assms(3) in \<open>simp_all add: kernel_half_def\<close>)
  moreover have "frames_owned E dir fs m'" by (rule frames_owned_same [OF P(2) t])
  ultimately show "owned_world E dir fs k (m', p)" using P(3) assms(3) by (simp add: owned_world_def page_room_def)
qed

lemma heap_backed_upper:
  assumes w: "heap_backed E dir fs k u ua" and "\<And>x. upper x \<Longrightarrow> mem m' x = mem (umachine u) x"
    and "placement m' = placement (umachine u)" "cr3 m' = cr3 (umachine u)"
  shows "heap_backed E dir fs k (set_umachine m' u) ua"
proof -
  have o: "owned_world E dir fs k (umachine u, uphysical u)" using w by (simp add: heap_backed_def)
  show ?thesis
    using w owned_world_upper [OF o assms(2-4)] by (simp add: heap_backed_def)
qed

subsection \<open>Loading a directory\<close>

text \<open>\<^verbatim>\<open>insn::set_page_directory\<close> makes another directory the active one; memory stays as it is.\<close>

lemma set_page_directory_simps [simp]:
  "mem (set_page_directory d m) = mem m" "placement (set_page_directory d m) = placement m"
  "cr3 (set_page_directory d m) = d" "translate (set_page_directory d m) = translate m"
  "tables_ok (set_page_directory d m) = tables_ok m" "private_halves (set_page_directory d m) = private_halves m"
  "user_view (set_page_directory d m) = user_view m" "kernel_linked (set_page_directory d m) = kernel_linked m"
  "page_room k (set_page_directory d m) = page_room k m" "kernel_half (set_page_directory d m) = kernel_half m"
  "set_page_directory c (set_page_directory d m) = set_page_directory c m"
  by (simp_all add: set_page_directory_def translate_def tables_ok_def points_to_def private_halves_def shares_def
      user_view_def kernel_linked_def page_room_def kernel_half_def fun_eq_iff)

abbreviation at_directory :: "addr \<Rightarrow> neighbours \<Rightarrow> neighbours" where
  "at_directory d E \<equiv> E\<lparr>active := d\<rparr>"

lemma owned_world_load:
  assumes "owned_world E dir fs k (m, p)"
  shows "owned_world (at_directory d E) dir fs k (set_page_directory d m, p)"
proof -
  have "taken (at_directory d E) = taken E" by (simp add: taken_def)
  moreover have "neighbours_ok (set_page_directory d m) L (at_directory d E)" if "neighbours_ok m L E" for L
    using that by (auto simp: neighbours_ok_def)
  moreover have "valid_frame (set_page_directory d m, p) = valid_frame (m, p)" by (simp add: valid_frame_def fun_eq_iff)
  ultimately show ?thesis
    using assms unfolding owned_world_def pages_world_def frames_owned_def by simp blast
qed

subsection \<open>A new directory\<close>

text \<open>No frame is behind two pages of the directories of E; the pages of processes are user pages.\<close>

definition views_apart :: "neighbours \<Rightarrow> bool" where
  "views_apart E \<longleftrightarrow>
     (\<forall>d T v e. (d, T) \<in> others E \<and> T v = Some e \<and> d \<noteq> home E \<longrightarrow> e AND 0xfff = 7)
     \<and> (\<forall>d T v e d' T' v' e'. (d, T) \<in> others E \<and> T v = Some e \<and> (d', T') \<in> others E \<and> T' v' = Some e'
          \<and> ALIGN_DOWN e = ALIGN_DOWN e' \<longrightarrow> d = d' \<and> page_index v = page_index v')"

lemma views_apartD:
  assumes "views_apart E"
  shows "(d, T) \<in> others E \<Longrightarrow> T v = Some e \<Longrightarrow> d \<noteq> home E \<Longrightarrow> e AND 0xfff = 7"
    "(d, T) \<in> others E \<Longrightarrow> T v = Some e \<Longrightarrow> (d', T') \<in> others E \<Longrightarrow> T' v' = Some e'
      \<Longrightarrow> ALIGN_DOWN e = ALIGN_DOWN e' \<Longrightarrow> d = d' \<and> page_index v = page_index v'"
  using assms unfolding views_apart_def by blast+

text \<open>\<open>kernel_world\<close> is the part of \<open>pages_world\<close> that speaks of no process: all directories are neighbours,
  the kernel's own among them, which is the active one. \<^verbatim>\<open>create_user_page_directory\<close> turns it into a world of the new directory.\<close>

definition kernel_world :: "neighbours \<Rightarrow> addr list \<Rightarrow> machine \<times> physical \<Rightarrow> bool" where
  "kernel_world E fs w \<longleftrightarrow> (\<exists>L xs. tables_ok (fst w) L
     \<and> node_list (mem (fst w)) (free_list (snd w)) xs \<and> map snd xs = fs
     \<and> nodes_below (placement (fst w)) xs \<and> nodes_apart L xs \<and> kernel_half (fst w) L xs
     \<and> neighbours_ok (fst w) L E)
     \<and> active E = home E \<and> active E \<in> fst ` others E \<and> private_halves (fst w) (fst ` others E) \<and> views_apart E
     \<and> distinct fs \<and> set fs \<inter> taken E = {} \<and> (\<forall>f \<in> set fs. valid_frame w f)"

lemma kernel_worldI:
  assumes "tables_ok m L" "node_list (mem m) (free_list p) xs" "map snd xs = fs"
    "nodes_below (placement m) xs" "nodes_apart L xs" "kernel_half m L xs" "neighbours_ok m L E"
    "active E \<in> fst ` others E" "private_halves m (fst ` others E)" "views_apart E"
    "distinct fs" "set fs \<inter> taken E = {}" "\<forall>f \<in> set fs. valid_frame (m, p) f" "active E = home E"
  shows "kernel_world E fs (m, p)"
  using assms unfolding kernel_world_def by auto

lemma kernel_worldE:
  assumes "kernel_world E fs (m, p)"
  obtains L xs where "tables_ok m L" "node_list (mem m) (free_list p) xs" "map snd xs = fs"
    "nodes_below (placement m) xs" "nodes_apart L xs" "kernel_half m L xs" "neighbours_ok m L E"
    "active E \<in> fst ` others E" "private_halves m (fst ` others E)" "views_apart E"
    "distinct fs" "set fs \<inter> taken E = {}" "\<forall>f \<in> set fs. valid_frame (m, p) f" "active E = home E"
  using assms unfolding kernel_world_def by (elim conjE exE) (rule that, simp_all)

text \<open>A process steps back, and its directory becomes one of the neighbours.\<close>

definition with_neighbour :: "addr \<Rightarrow> machine \<Rightarrow> neighbours \<Rightarrow> neighbours" where
  "with_neighbour d m E = E\<lparr>others := insert (d, user_view m d) (others E)\<rparr>"

lemma pages_world_kernel:
  assumes w: "pages_world E dir fs (m, p)" and k: "dir = home E \<longrightarrow> kernel_linked m dir" "active E = home E"
    and a: "active E \<in> insert dir (fst ` others E)" and F: "views_apart (with_neighbour dir m E)"
    and fs: "distinct fs" "set fs \<inter> taken (with_neighbour dir m E) = {}"
  shows "kernel_world (with_neighbour dir m E) fs (m, p)"
proof -
  obtain L xs where L: "tables_ok m L" "L (ADDRESS dir) = 4" "node_list (mem m) (free_list p) xs"
    "map snd xs = fs" "nodes_below (placement m) xs" "nodes_apart L xs" "kernel_half m L xs"
    "private_halves m (insert dir (fst ` others E))" "\<forall>f \<in> set fs. valid_frame (m, p) f"
    "neighbours_ok m L E" "dir \<notin> fst ` others E"
    using w by (rule pages_worldE)
  have "neighbours_ok m L (with_neighbour dir m E)"
    using L(2,10) k unfolding neighbours_ok_def with_neighbour_def by auto
  then show ?thesis using L F fs a k(2) by (intro kernel_worldI) (simp_all add: with_neighbour_def)
qed

lemma frames_owned_views:
  assumes o: "frames_owned E dir fs m" and E: "views_apart E"
  shows "set fs \<inter> taken (with_neighbour dir m E) = {}" "views_apart (with_neighbour dir m E)"
proof -
  note D = frames_ownedD [OF o] and V = views_apartD [OF E]
  have u: "user_page v \<and> translate m dir v = Some e" if "user_view m dir v = Some e" for v e
    using that by (simp add: user_view_def split: if_splits)
  have inj: "page_index v = page_index w"
    if a: "user_view m dir v = Some e" "user_view m dir w = Some d" "ALIGN_DOWN e = ALIGN_DOWN d" for v w d e
  proof -
    have "unat e mod 4096 = 7" "unat d mod 4096 = 7"
      using D(2) u [OF a(1)] u [OF a(2)] unat_and_page_offset [of e] unat_and_page_offset [of d] by auto
    moreover have "unat e - unat e mod 4096 = unat d - unat d mod 4096"
      using arg_cong [OF a(3), of unat] by (simp add: unat_ALIGN_DOWN)
    ultimately have "unat e = unat d" 
      using mod_less_eq_dividend [of "unat e" 4096] mod_less_eq_dividend [of "unat d" 4096] by linarith
    then have "e = d" by (simp add: word_unat_eq_iff)
    then show ?thesis using D(4) u [OF a(1)] u [OF a(2)] by blast
  qed
  show "set fs \<inter> taken (with_neighbour dir m E) = {}"
    using D(3,6) u by (fastforce simp: taken_def with_neighbour_def)
  show "views_apart (with_neighbour dir m E)"
    unfolding views_apart_def
  proof (intro conjI allI impI)
    fix d T v e assume "(d, T) \<in> others (with_neighbour dir m E) \<and> T v = Some e \<and> d \<noteq> home (with_neighbour dir m E)"
    then show "e AND 0xfff = 7" using V(1) [of d T v e] D(2) u by (auto simp: with_neighbour_def)
  next
    fix d T v e d' T' v' e'
    assume a: "(d, T) \<in> others (with_neighbour dir m E) \<and> T v = Some e \<and> (d', T') \<in> others (with_neighbour dir m E)
      \<and> T' v' = Some e' \<and> ALIGN_DOWN e = ALIGN_DOWN e'"
    consider "(d, T) \<in> others E" "(d', T') \<in> others E" | "(d, T) = (dir, user_view m dir)" "(d', T') \<in> others E"
      | "(d, T) \<in> others E" "(d', T') = (dir, user_view m dir)"
      | "(d, T) = (dir, user_view m dir)" "(d', T') = (dir, user_view m dir)"
      using a by (auto simp: with_neighbour_def)
    then have "d = d' \<and> page_index v = page_index v'"
    proof cases
      case 1
      show ?thesis using V(2) [OF 1(1) _ 1(2)] a by blast
    next
      case 2
      have False using D(5) [of v e] u [of v e] takenI [OF 2(2), of v' e'] 2(1) a by auto
      then show ?thesis ..
    next
      case 3
      have False using D(5) [of v' e'] u [of v' e'] takenI [OF 3(1), of v e] 3(2) a by auto
      then show ?thesis ..
    next
      case 4
      show ?thesis using inj [of v e v' e'] 4 a by auto
    qed
    then show "d = d'" "page_index v = page_index v'" by blast+
  qed
qed

text \<open>A process steps forward: the others are its neighbours.\<close>

definition without :: "addr \<Rightarrow> neighbours \<Rightarrow> neighbours" where
  "without d F = F\<lparr>others := {x \<in> others F. fst x \<noteq> d}\<rparr>"

lemma kernel_world_pages:
  assumes w: "kernel_world F fs (m, p)" and d: "(d, T) \<in> others F" "d \<noteq> home F" and r: "page_room k m"
  shows "owned_world (without d F) d fs k (m, p)" "user_view m d = T"
proof -
  obtain L xs where L: "tables_ok m L" "node_list (mem m) (free_list p) xs" "map snd xs = fs"
    "nodes_below (placement m) xs" "nodes_apart L xs" "kernel_half m L xs" "neighbours_ok m L F"
    "active F \<in> fst ` others F" "private_halves m (fst ` others F)" "views_apart F"
    "distinct fs" "set fs \<inter> taken F = {}" "\<forall>f \<in> set fs. valid_frame (m, p) f"
    using w by (rule kernel_worldE)
  note D = neighbours_okD [OF L(7)] and V = views_apartD [OF L(10)]
  show T: "user_view m d = T" by (rule D(3) [OF d(1)])
  have "insert d (fst ` others (without d F)) = fst ` others F" using d(1) by (force simp: without_def)
  then have P: "private_halves m (insert d (fst ` others (without d F)))" using L(9) by simp
  have E: "neighbours_ok m L (without d F)" using L(7) by (auto simp: neighbours_ok_def without_def)
  have "pages_world (without d F) d fs (m, p)"
    by (rule pages_worldI [OF L(1) D(2) [OF d(1)] L(2-6) P L(13) E]) (auto simp: without_def)
  moreover have "frames_owned (without d F) d fs m"
    unfolding frames_owned_def
  proof (intro conjI allI impI)
    show "distinct fs" by (rule L(11))
    have "taken (without d F) \<subseteq> taken F" by (auto simp: taken_def without_def)
    then show "set fs \<inter> taken (without d F) = {}" using L(12) by blast
  next
    fix v e assume "user_page v \<and> translate m d v = Some e"
    then have e: "T v = Some e" using T by (auto simp: user_view_def)
    show "e AND 0xfff = 7" by (rule V(1) [OF d(1) e d(2)])
    show "ALIGN_DOWN e \<notin> set fs" using L(12) takenI [OF d(1) e] by blast
    show "ALIGN_DOWN e \<notin> taken (without d F)"
      using V(2) [OF d(1) e] by (fastforce simp: taken_def without_def)
  next
    fix v w e assume a: "user_page v \<and> user_page w \<and> translate m d v = Some e \<and> translate m d w = Some e"
    then have "T v = Some e" "T w = Some e" using T by (auto simp: user_view_def)
    then show "page_index v = page_index w" using V(2) [OF d(1) _ d(1)] by blast
  qed
  ultimately show "owned_world (without d F) d fs k (m, p)" using r by (simp add: owned_world_def)
qed

lemma new_directory_world:
  assumes w: "kernel_world E fs (m, p)" and r: "page_room (Suc k) m"
  obtains d m' where "create_user_page_directory m = (d, m')" "owned_world E d fs k (m', p)"
    "kernel_linked m' d" "cr3 m' = cr3 m"
    "\<And>w. PML4 w = PML4 KVIRTUAL_ADDRESS \<Longrightarrow> translate m' d w = translate m (cr3 m) w"
    "\<And>w. user_page w \<Longrightarrow> translate m' d w = None"
proof -
  obtain L xs where L: "tables_ok m L" "node_list (mem m) (free_list p) xs" "map snd xs = fs"
    "nodes_below (placement m) xs" "nodes_apart L xs" "kernel_half m L xs" "neighbours_ok m L E" "active E \<in> fst ` others E"
    "private_halves m (fst ` others E)" "distinct fs" "set fs \<inter> taken E = {}" "\<forall>f \<in> set fs. valid_frame (m, p) f" "active E = home E"
    using w by (rule kernel_worldE)
  note D = neighbours_okD [OF L(7)]
  have R: "L (ADDRESS e) = 4" if "e \<in> fst ` others E" for e using D(2) that by force
  obtain T where T: "(active E, T) \<in> others E" using L(8) by force
  have root: "L (ADDRESS (cr3 m)) = 4" and link: "PRESENT (mem m (ADDRESS (cr3 m) + 8 * PML4 KVIRTUAL_ADDRESS))"
    using D(2) [OF T] D(4) [of T] T L(13) by (simp_all add: D(1) kernel_linked_def)
  obtain d m' where d: "create_page_directory m = (d, m')" "tables_ok m' (L(ADDRESS d := 4))" "page_room k m'"
    "cr3 m' = cr3 m" "keeps_apart m L m' (L(ADDRESS d := 4))" "L (ADDRESS d) = 0"
    "\<And>e w. L (ADDRESS e) = 4 \<Longrightarrow> translate m' e w = translate m e w"
    "\<And>e v f w. L (ADDRESS e) = 4 \<Longrightarrow> L (ADDRESS f) = 4 \<Longrightarrow> shares m' e v f w = shares m e v f w"
    "\<And>t i u. points_to m L t i u \<Longrightarrow> points_to m' L t i u"
    "\<And>v w. PML4 v \<noteq> PML4 KVIRTUAL_ADDRESS \<Longrightarrow> shares m' d v d w \<Longrightarrow> page_index v = page_index w"
    "\<And>e v w. L (ADDRESS e) = 4 \<Longrightarrow> shares m' d v e w \<Longrightarrow> PML4 v = PML4 KVIRTUAL_ADDRESS \<and> shares m (cr3 m) v e w"
    "kernel_linked m' d"
    "\<And>w. translate m' d w = (if PML4 w = PML4 KVIRTUAL_ADDRESS then translate m (cr3 m) w else None)"
    by (rule create_page_directory_tables [OF L(1) root r link]) (unfold kernel_linked_def, blast)
  let ?L = "L(ADDRESS d := 4)"
  note N = keeps_apart_nodes [OF d(5) L(2,4,5)] and K = keeps_apart_upper [OF L(1) d(5) L(6)]
  have fresh: "d \<notin> fst ` others E" using R d(6) by force
  have u: "translate m' d v = None" if "user_page v" for v
    using user_not_kernel [OF that] by (simp add: d(13))
  have apart: "\<not> shares m' d v e w" if "e \<in> fst ` others E" "user_page v \<or> user_page w" for e v w
  proof
    assume "shares m' d v e w"
    from d(11) [OF R [OF that(1)] this] have s: "PML4 v = PML4 KVIRTUAL_ADDRESS" "shares m (cr3 m) v e w" by simp_all
    have "user_page w" using that(2) s(1) user_not_kernel by blast
    then have "page_index w = page_index v"
      using private_halvesD(2) [OF L(9) L(8) that(1)] s(2) unfolding D(1) by blast
    then show False using s(1) user_not_kernel [OF \<open>user_page w\<close>] by (simp add: page_index_eq_iff)
  qed
  have P: "private_halves m' (insert d (fst ` others E))"
    unfolding private_halves_def
  proof (intro ballI allI impI)
    fix a b v w
    assume "a \<in> insert d (fst ` others E)" "b \<in> insert d (fst ` others E)" and v: "user_page v" and s: "shares m' a v b w"
    then consider "a = d" "b = d" | "a = d" "b \<in> fst ` others E" | "a \<in> fst ` others E" "b = d"
      | "a \<in> fst ` others E" "b \<in> fst ` others E" by blast
    then show "a = b \<and> page_index w = page_index v"
    proof cases
      case 1
      then show ?thesis using d(10) [OF user_not_kernel [OF v], of w] s by simp
    next
      case 2
      then show ?thesis using apart [of b v w] s v by blast
    next
      case 3
      then show ?thesis using apart [of a w v] shares_sym [OF s] v by blast
    next
      case 4
      then show ?thesis using private_halvesD [OF L(9) 4, of v w] d(8) [OF R R, of a b v w] s v by simp
    qed
  qed
  have roots: "?L (ADDRESS e) = 4" if "L (ADDRESS e) = 4" for e using that by simp
  have links: "points_to m' ?L t i w" if "points_to m L t i w" for t i w
    using d(9) [OF that] d(6) that by (auto simp: points_to_def)
  have views: "user_view m' e = user_view m e" if "(e, T) \<in> others E" for e T
    using d(7) [OF D(2) [OF that]] by (simp add: user_view_def fun_eq_iff)
  have E: "neighbours_ok m' ?L E" by (rule neighbours_change [OF L(7) d(4) roots links views])
  have root': "?L (ADDRESS d) = 4" by simp
  have "\<forall>f \<in> set fs. valid_frame (m', p) f" using L(12) unfolding valid_frame_machine [of m' p m] .
  then have "pages_world E d fs (m', p)"
    by (rule pages_worldI [OF d(2) root' N(1) L(3) N(2,3) K P _ E fresh])
  moreover have "frames_owned E d fs m'" using L(10,11) u by (rule frames_owned_empty)
  ultimately have "owned_world E d fs k (m', p)" using d(3) by (simp add: owned_world_def)
  moreover have "create_user_page_directory m = (d, m')" using d(1) by (simp add: create_user_page_directory_def)
  ultimately show thesis using that d(4,12,13) u by simp
qed

text \<open>A frame given back.\<close>

lemma give_frame_kernel:
  assumes "kernel_world E fs (m, p)" "valid_frame (m, p) f" "headroom 16 m" "f \<notin> set fs" "f \<notin> taken E"
  shows "kernel_world E (f # fs) (physical_free f m p)"
proof -
  obtain L xs where L: "tables_ok m L" "node_list (mem m) (free_list p) xs" "map snd xs = fs"
    "nodes_below (placement m) xs" "nodes_apart L xs" "kernel_half m L xs" "neighbours_ok m L E"
    "active E \<in> fst ` others E" "private_halves m (fst ` others E)" "views_apart E"
    "distinct fs" "set fs \<inter> taken E = {}" "\<forall>f \<in> set fs. valid_frame (m, p) f" "active E = home E"
    using assms(1) by (rule kernel_worldE)
  let ?q = "placement m"
  let ?m = "store (?q + 8) (free_list p) (store ?q f (m\<lparr>placement := ?q + 16\<rparr>))"
  have room: "0 < unat ?q" "unat ?q + 16 < 18446744073709551616" using assms(3) by (simp_all add: headroom_def)
  then have q: "?q \<le> ?q + 8" "?q \<le> ?q + 16" by (simp_all add: wordnat unat_add_nowrap)
  note out = below_tables [OF L(1) order_refl] below_tables [OF L(1) q(1)] and D = neighbours_okD [OF L(7)]
  have c: "mem ?m (t + 8 * i) = mem m (t + 8 * i)" if "L t \<noteq> 0" "unat i < 512" for t i
    using apartD [OF out(1) that] apartD [OF out(2) that] by simp
  have R: "L (ADDRESS d) = 4" if "d \<in> fst ` others E" for d using D(2) that by force
  have "tables_ok ?m L" by (rule tables_ok_cells [OF L(1)]) (use q(2) c in simp_all)
  moreover note node_list_push [OF L(2,4) room, of f]
  moreover have "nodes_apart L ((?q, f) # xs)" using L(5) out by (simp add: nodes_apart_def)
  moreover have "kernel_half ?m L ((?q, f) # xs)" using L(6) q(2) by (auto simp: kernel_half_def upper_def)
  moreover have "private_halves ?m (fst ` others E)"
    by (rule private_halves_change [OF L(9)]) (rule shares_cells [OF L(1) c R R])
  moreover have "neighbours_ok ?m L E"
    using user_view_cells [OF L(1) c] D(2) by (intro neighbours_change [OF L(7)]) (simp_all add: points_to_cells [OF c])
  ultimately have "kernel_world E (f # fs) (?m, p\<lparr>free_list := ?q\<rparr>)"
    using L(3,8,10-14) assms(2,4,5) by (intro kernel_worldI [where xs = "(?q, f) # xs" and L = L]) (auto simp: valid_frame_def)
  then show ?thesis using assms(2) by (simp add: physical_free_eq valid_frame_def)
qed

text \<open>The machine of two free frames, whose kernel maps one page.\<close>

definition kernel_alone :: neighbours where
  "kernel_alone = with_neighbour 0x1000 (fst two_frames) (alone 0x1000)"

lemma two_frames_kernel: "kernel_world kernel_alone [0x20000, 0x10000] two_frames" "taken kernel_alone \<subseteq> {0x9000}"
proof -
  obtain m p where mp: "two_frames = (m, p)" by fastforce
  have slot: "mem m (0xffffffff80001000 + 8 * 511) = mem example_paging (0xffffffff80001000 + 8 * 511)"
    using mp by (auto simp: two_frames_def physical_free_eq IS_ALIGNED_def example_paging_def)
  have "ADDRESS 0x1000 = 0xffffffff80001000" "PML4 KVIRTUAL_ADDRESS = 511"
    by (simp_all add: ADDRESS_def KVIRTUAL_ADDRESS_def PML4_def)
  then have k: "kernel_linked m 0x1000"
    using slot example_mem [of "0xffffffff80001000" 511]
    by (simp add: kernel_linked_def IS_ALIGNED_def example_entry_def PRESENT_iff)
  have v: "user_view m 0x1000 v = Some e \<Longrightarrow> e = 0x9003 \<and> page_index v = [0, 0, 0, 5]" for v e
    using two_frames_world(3) [of v] by (simp add: mp user_view_def example_translate split: if_splits)
  have t: "taken (with_neighbour 0x1000 m (alone 0x1000)) \<subseteq> {0x9000}"
    using v by (force simp: taken_def with_neighbour_def alone_def ALIGN_DOWN_def)
  then show "taken kernel_alone \<subseteq> {0x9000}" unfolding kernel_alone_def mp fst_conv .
  show "kernel_world kernel_alone [0x20000, 0x10000] two_frames"
    unfolding kernel_alone_def mp fst_conv
  proof (rule pages_world_kernel)
    show "pages_world (alone 0x1000) 0x1000 [0x20000, 0x10000] (m, p)" using two_frames_world(1) mp by simp
    show "views_apart (with_neighbour 0x1000 m (alone 0x1000))"
      using v by (auto simp: views_apart_def with_neighbour_def alone_def)
    show "set [0x20000, 0x10000] \<inter> taken (with_neighbour 0x1000 m (alone 0x1000)) = {}" using t by auto
  qed (use k in \<open>simp_all add: alone_def\<close>)
qed

end
