(* ===== verification/Process_Life.thy ===== *)
theory Process_Life
  imports Process_World
begin

text \<open>
  The life of a process: \<^verbatim>\<open>process_memory\<close> of \<^verbatim>\<open>memory/user_allocator.cpp\<close> as a
  state machine. A step is one call of a public operation of \<^verbatim>\<open>process_memory\<close> or of the
  heap that \<^verbatim>\<open>get_heap\<close> returns; \<open>holding\<close> lists the pointers the program has been given
  and not given back, with the sizes it asked for. The invariant \<open>process_ok\<close> joins the one of the
  heap's blocks with the ownership of the frames behind its pages.
\<close>

subsection \<open>Calls\<close>

record process =
  pspace :: user_space
  pmem :: process_memory
  holding :: "(addr \<times> u64) list"

datatype process_call =
  Malloc u64
| Calloc u64 u64
| Realloc addr u64
| Free addr
| Limit u64
| Layout addr u64 addr u64
| Stack u64
| Cleanup

text \<open>What the program holds after a call that turned pointer \<open>p\<close> (null for a new block) into
  \<open>q\<close> of size \<open>n\<close>.\<close>

definition now_held :: "addr \<Rightarrow> u64 \<Rightarrow> addr \<Rightarrow> (addr \<times> u64) list \<Rightarrow> (addr \<times> u64) list" where
  "now_held p n q h =
     (if q \<noteq> 0 then (q, n) # filter (\<lambda>x. fst x \<noteq> p) h
      else if n = 0 then filter (\<lambda>x. fst x \<noteq> p) h else h)"

abbreviation owns :: "process \<Rightarrow> addr \<Rightarrow> bool" where
  "owns P p \<equiv> p = 0 \<or> p \<in> fst ` set (holding P)"

abbreviation with_heap :: "process \<Rightarrow> user_space \<Rightarrow> user_allocator \<Rightarrow> (addr \<times> u64) list \<Rightarrow> process" where
  "with_heap P u ua h \<equiv> P\<lparr>pspace := u, pmem := (pmem P)\<lparr>pheap_object := ua\<rparr>, holding := h\<rparr>"

text \<open>A program calls the heap only while there is one, and gives back or resizes only what it
  holds; it does not resize to more than 2 GB (\<open>user_realloc_forgets_high_bits\<close> shows what happens
  then).\<close>

inductive process_step :: "process_call \<Rightarrow> process \<Rightarrow> process \<Rightarrow> bool" where
  malloc: "\<lbrakk> pheap (pmem P) \<noteq> 0; user_malloc n (pspace P) (pheap_object (pmem P)) = Some (q, u, ua) \<rbrakk>
    \<Longrightarrow> process_step (Malloc n) P (with_heap P u ua (if q = 0 then holding P else (q, n) # holding P))"
| calloc: "\<lbrakk> pheap (pmem P) \<noteq> 0; user_calloc a n (pspace P) (pheap_object (pmem P)) = Some (q, u, ua) \<rbrakk>
    \<Longrightarrow> process_step (Calloc a n) P (with_heap P u ua (if q = 0 then holding P else (q, a * n) # holding P))"
| realloc: "\<lbrakk> pheap (pmem P) \<noteq> 0; owns P p; n \<le> MAX_SINGLE_ALLOC;
      user_realloc p n (pspace P) (pheap_object (pmem P)) = Some (q, u, ua) \<rbrakk>
    \<Longrightarrow> process_step (Realloc p n) P (with_heap P u ua (now_held p n q (holding P)))"
| free: "\<lbrakk> pheap (pmem P) \<noteq> 0; owns P p; user_free p (pspace P) (pheap_object (pmem P)) = (u, ua) \<rbrakk>
    \<Longrightarrow> process_step (Free p) P (with_heap P u ua (filter (\<lambda>x. fst x \<noteq> p) (holding P)))"
| limit: "\<lbrakk> pheap (pmem P) \<noteq> 0; set_heap_limit n (pheap_object (pmem P)) = (r, ua) \<rbrakk>
    \<Longrightarrow> process_step (Limit n) P (with_heap P (pspace P) ua (holding P))"
| layout: "setup_memory_layout c n d k (pmem P) = (r, pm) \<Longrightarrow> process_step (Layout c n d k) P (P\<lparr>pmem := pm\<rparr>)"
| stack: "setup_stack n (pspace P) (pmem P) = (r, u, pm)
    \<Longrightarrow> process_step (Stack n) P (P\<lparr>pspace := u, pmem := pm\<rparr>)"
| cleanup: "cleanup_all (pspace P) (pmem P) = (u, pm)
    \<Longrightarrow> process_step Cleanup P (P\<lparr>pspace := u, pmem := pm, holding := []\<rparr>)"

inductive process_run :: "process_call list \<Rightarrow> process \<Rightarrow> process \<Rightarrow> bool" where
  finished: "process_run [] P P"
| call: "process_step c P Q \<Longrightarrow> process_run cs Q R \<Longrightarrow> process_run (c # cs) P R"

code_pred process_step .
code_pred process_run .

inductive_simps step_simps:
  "process_step (Malloc n) P Q" "process_step (Calloc a n) P Q" "process_step (Realloc p n) P Q"
  "process_step (Free p) P Q" "process_step (Limit n) P Q" "process_step (Layout a n b k) P Q"
  "process_step (Stack n) P Q" "process_step Cleanup P Q"

inductive_cases run_NilE: "process_run [] P R"
inductive_cases run_ConsE: "process_run (c # cs) P R"

text \<open>The calls a program may make.\<close>

fun allowed :: "process_call \<Rightarrow> process \<Rightarrow> bool" where
  "allowed (Malloc n) P \<longleftrightarrow> pheap (pmem P) \<noteq> 0"
| "allowed (Calloc a n) P \<longleftrightarrow> pheap (pmem P) \<noteq> 0"
| "allowed (Realloc p n) P \<longleftrightarrow> pheap (pmem P) \<noteq> 0 \<and> owns P p \<and> n \<le> MAX_SINGLE_ALLOC"
| "allowed (Free p) P \<longleftrightarrow> pheap (pmem P) \<noteq> 0 \<and> owns P p"
| "allowed (Limit n) P \<longleftrightarrow> pheap (pmem P) \<noteq> 0"
| "allowed (Layout a n b k) P \<longleftrightarrow> True"
| "allowed (Stack n) P \<longleftrightarrow> True"
| "allowed Cleanup P \<longleftrightarrow> True"

text \<open>The pages a call may ask for.\<close>

fun call_pages :: "process_call \<Rightarrow> nat" where
  "call_pages (Malloc n) = malloc_pages n"
| "call_pages (Calloc a n) = malloc_pages (a * n)"
| "call_pages (Realloc p n) = malloc_pages n"
| "call_pages (Stack n) = unat (ALIGN_UP n div FRAME_SIZE)"
| "call_pages c = 0"

definition run_pages :: "process_call list \<Rightarrow> nat" where
  "run_pages cs = sum_list (map call_pages cs)"

lemma run_pages_simps [simp]: "run_pages [] = 0" "run_pages (c # cs) = call_pages c + run_pages cs"
  by (simp_all add: run_pages_def)

subsection \<open>The invariant\<close>

definition owned_heap :: "neighbours \<Rightarrow> addr \<Rightarrow> nat \<Rightarrow> user_space \<Rightarrow> user_allocator \<Rightarrow> (addr \<times> u64) list \<Rightarrow> bool" where
  "owned_heap E dir k u ua h \<longleftrightarrow> (\<exists>fs L. heap_backed E dir fs k u ua \<and> uh.rep (u, ua) L \<and> uh.holds L h)"

definition process_ok :: "neighbours \<Rightarrow> nat \<Rightarrow> process \<Rightarrow> bool" where
  "process_ok E k P \<longleftrightarrow>
     (if pheap (pmem P) = 0
      then holding P = [] \<and> (\<exists>fs. owned_world E (ppage_directory (pmem P)) fs k (umachine (pspace P), uphysical (pspace P)))
      else owned_heap E (ppage_directory (pmem P)) k (pspace P) (pheap_object (pmem P)) (holding P))"

lemma owned_heapI:
  "heap_backed E dir fs k u ua \<Longrightarrow> uh.rep (u, ua) L \<Longrightarrow> uh.holds L h \<Longrightarrow> owned_heap E dir k u ua h"
  unfolding owned_heap_def by blast

lemma owned_heapE:
  assumes "owned_heap E dir k u ua h"
  obtains fs L where "heap_backed E dir fs k u ua" "uh.rep (u, ua) L" "uh.holds L h"
  using assms unfolding owned_heap_def by blast

lemma owned_heap_mono: "owned_heap E dir k u ua h \<Longrightarrow> j \<le> k \<Longrightarrow> owned_heap E dir j u ua h"
  unfolding owned_heap_def using heap_backed_mono by blast

subsection \<open>Writing to a block\<close>

lemma write_below_upper:
  assumes "bytes_of p n \<subseteq> {0x8000000 ..< 0x40000000}" "upper x" "i < n"
  shows "cell_of (p + of_nat i) \<noteq> x"
proof
  assume x: "cell_of (p + of_nat i) = x"
  have "unat p + i \<in> bytes_of p n" using assms(3) by (simp add: bytes_of_def)
  then have i: "unat p + i < 0x40000000" using assms(1) by auto
  then have "unat (p + of_nat i) = unat p + i" by (intro unat_add_small) simp
  then have "unat x < 0x40000000" using i x [symmetric] by (simp add: unat_cell_of)
  then show False using assms(2) by (simp add: upper_def wordnat)
qed

lemma heap_backed_memset:
  assumes "heap_backed E dir fs k u ua" "bytes_of p (unat n) \<subseteq> {0x8000000 ..< 0x40000000}"
  shows "heap_backed E dir fs k (set_umachine (snd (memset p ch n (umachine u))) u) ua"
  by (rule heap_backed_upper [OF assms(1)])
    (simp_all add: memset_def memset_loop_frame write_below_upper [OF assms(2)])

lemma copy_up_cr3 [simp]: "cr3 (copy_up d s n m) = cr3 m"
  by (induction d s n m rule: copy_up.induct) auto

lemma heap_backed_memcpy:
  assumes "heap_backed E dir fs k u ua" "bytes_of d (unat n) \<subseteq> {0x8000000 ..< 0x40000000}"
  shows "heap_backed E dir fs k (set_umachine (snd (memcpy d s n (umachine u))) u) ua"
  by (rule heap_backed_upper [OF assms(1)])
    (simp_all add: memcpy_def copy_up_frame write_below_upper [OF assms(2)])

lemma rep_same:
  assumes "uh.rep (u, ua) L" "user_headers u' = user_headers u"
  shows "uh.rep (u', ua) L"
proof -
  obtain bs where bs: "uheap_ok u ua bs" "L = uh.in_use (u, ua) bs" using assms(1) by (auto simp: uh.rep_def)
  have "uheap_ok u' ua bs" "uview u' = uview u" by (rule uheap_ok_same [OF bs(1)]; simp add: assms(2))+
  then show ?thesis using bs(2) by (auto simp: uh.rep_def uh.in_use_def intro!: exI [of _ bs])
qed

subsection \<open>The heap's calls\<close>

lemma held_nonnull: "uh.rep s L \<Longrightarrow> uh.holds L h \<Longrightarrow> filter (\<lambda>x. fst x \<noteq> 0) h = h"
  by (rule filter_True) (rule uh.holds_apart(2))

lemma held_in_heap:
  assumes "uh.rep s L" "uh.holds L h" "x \<in> set h"
  shows "held_bytes x \<subseteq> {0x8000000 ..< 0x40000000}"
proof -
  obtain c where c: "(fst x, c) \<in> L" "unat (snd x) \<le> c" using assms(2,3) unfolding uh.holds_def by blast
  have "held_bytes x \<subseteq> bytes_of (fst x) c" using c(2) by (auto simp: held_bytes_def bytes_of_def)
  then show ?thesis using user_in_use_inside [OF assms(1) c(1)] by blast
qed

lemma heap_malloc_call:
  assumes "owned_heap E dir (3 * malloc_pages n + k) u ua h"
  obtains q u' ua' where "user_malloc n u ua = Some (q, u', ua')"
    "owned_heap E dir k u' ua' (if q = 0 then h else (q, n) # h)"
proof -
  obtain fs L where w: "heap_backed E dir fs (3 * malloc_pages n + k) u ua" "uh.rep (u, ua) L" "uh.holds L h"
    using assms by (rule owned_heapE)
  obtain q u' ua' where m: "user_malloc n u ua = Some (q, u', ua')"
    "if q = 0 then uh.rep (u', ua') L else \<exists>c. unat n \<le> c \<and> q \<notin> fst ` L \<and> uh.rep (u', ua') (insert (q, c) L)"
    using uh.al_rep [OF w(2) TrueI, of n] by auto
  obtain gs where g: "heap_backed E dir gs k u' ua'" by (rule user_malloc_backed [OF w(1) m(1)])
  have "owned_heap E dir k u' ua' (if q = 0 then h else (q, n) # h)"
    using m(2) owned_heapI [OF g] w(3) uh.holds_add [OF w(3)] by (auto split: if_splits)
  then show thesis by (rule that [OF m(1)])
qed

lemma heap_calloc_call:
  assumes w: "owned_heap E dir (3 * malloc_pages (a * n) + k) u ua h"
  obtains q u' ua' where "user_calloc a n u ua = Some (q, u', ua')"
    "owned_heap E dir k u' ua' (if q = 0 then h else (q, a * n) # h)"
proof (cases "a > 0 \<and> n > MAX_SINGLE_ALLOC div a")
  case True
  then have "user_calloc a n u ua = Some (0, u, ua)" by (simp add: user_calloc_def)
  then show thesis using that owned_heap_mono [OF w, of k] by simp
next
  case False
  obtain q u1 ua1 where m: "user_malloc (a * n) u ua = Some (q, u1, ua1)"
    "owned_heap E dir k u1 ua1 (if q = 0 then h else (q, a * n) # h)" using w by (rule heap_malloc_call)
  show thesis
  proof (cases "q = 0")
    case True
    then have "user_calloc a n u ua = Some (0, u1, ua1)" using m(1) False by (auto simp: user_calloc_def Let_def)
    then show thesis using that m(2) True by simp
  next
    case q: False
    let ?u = "set_umachine (snd (memset q 0 (a * n) (umachine u1))) u1"
    obtain fs L where L: "heap_backed E dir fs k u1 ua1" "uh.rep (u1, ua1) L" "uh.holds L ((q, a * n) # h)"
      using m(2) q by (auto elim: owned_heapE)
    have "held_bytes (q, a * n) \<subseteq> {0x8000000 ..< 0x40000000}" by (rule held_in_heap [OF L(2,3)]) simp
    then have "heap_backed E dir fs k ?u ua1" by (intro heap_backed_memset [OF L(1)]) (simp add: held_bytes_def)
    moreover have "uh.rep (?u, ua1) L" by (rule rep_same [OF L(2)]) simp
    ultimately have "owned_heap E dir k ?u ua1 ((q, a * n) # h)" using L(3) by (rule owned_heapI)
    moreover have "user_calloc a n u ua = Some (q, ?u, ua1)"
      using m(1) False q by (auto simp: user_calloc_def Let_def)
    ultimately show thesis using that q by simp
  qed
qed

lemma heap_free_call:
  assumes w: "owned_heap E dir k u ua h" and p: "p = 0 \<or> p \<in> fst ` set h" and f: "user_free p u ua = (u', ua')"
  shows "owned_heap E dir k u' ua' (filter (\<lambda>x. fst x \<noteq> p) h)"
proof -
  obtain fs L where L: "heap_backed E dir fs k u ua" "uh.rep (u, ua) L" "uh.holds L h" using w by (rule owned_heapE)
  show ?thesis
  proof (cases "p = 0")
    case True
    then have "u' = u" "ua' = ua" using f by (simp_all add: user_free_def)
    then show ?thesis using w True held_nonnull [OF L(2,3)] by simp
  next
    case False
    then obtain c where c: "(p, c) \<in> L" using uh.holds_held [OF L(3)] p by blast
    have "uh.rep (u', ua') (L - {(p, c)})" using uh.re_rep [OF L(2) c] f by simp
    then show ?thesis using user_free_backed [OF L(1) f] uh.holds_drop [OF L(3)] by (intro owned_heapI)
  qed
qed

text \<open>The pointer given to \<^verbatim>\<open>realloc\<close> as a block in use.\<close>

lemma held_block:
  assumes "uh.rep (u, ua) L" "uh.holds L h" "p \<in> fst ` set h"
  obtains bs b c where "uheap_ok u ua bs" "L = uh.in_use (u, ua) bs" "p = user_data b" "(b, c) \<in> live (uview u) bs"
    "uh.holds (L - {(p, c)}) (filter (\<lambda>x. fst x \<noteq> p) h)" "p \<notin> fst ` (L - {(p, c)})"
proof -
  obtain bs where bs: "uheap_ok u ua bs" "L = uh.in_use (u, ua) bs" using assms(1) by (auto simp: uh.rep_def)
  obtain c where c: "(p, c) \<in> L" using uh.holds_held [OF assms(2,3)] by blast
  then obtain b where b: "p = user_data b" "(b, c) \<in> live (uview u) bs" by (auto simp: bs(2) uh.in_use_def)
  have "p \<notin> fst ` (L - {(p, c)})" using uh.one_size [OF assms(1) c] by auto
  then show thesis using that [OF bs b] uh.holds_drop [OF assms(2)] by blast
qed

lemma in_use_change:
  assumes "uheap_ok u' ua' cs" "live (uview u') cs = insert (d, e) (live (uview u) bs - {(b, c)})"
  shows "uh.rep (u', ua') (insert (user_data d, e) (uh.in_use (u, ua) bs - {(user_data b, c)}))"
proof -
  have "uh.in_use (u', ua') cs = insert (user_data d, e) (uh.in_use (u, ua) bs - {(user_data b, c)})"
    using uh.image_minus [of "live (uview u) bs" b c] by (simp add: uh.in_use_def assms(2))
  then show ?thesis using uh.repI [of "(u', ua')" cs] assms(1) by simp
qed

lemma heap_resize_held:
  assumes w: "owned_heap E dir (3 * malloc_pages n + k) u ua h" and p: "p \<in> fst ` set h"
    and n: "n \<noteq> 0" "n \<le> MAX_SINGLE_ALLOC"
  obtains q u' ua' where "user_realloc p n u ua = Some (q, u', ua')" "owned_heap E dir k u' ua' (now_held p n q h)"
proof -
  obtain fs L where L: "heap_backed E dir fs (3 * malloc_pages n + k) u ua" "uh.rep (u, ua) L" "uh.holds L h"
    using w by (rule owned_heapE)
  obtain bs b c where b: "uheap_ok u ua bs" "L = uh.in_use (u, ua) bs" "p = user_data b" "(b, c) \<in> live (uview u) bs"
    and r: "uh.holds (L - {(p, c)}) (filter (\<lambda>x. fst x \<noteq> p) h)" "p \<notin> fst ` (L - {(p, c)})"
    using L(2,3) p by (rule held_block)
  have k: "heap_backed E dir fs k u ua" by (rule heap_backed_mono [OF L(1)]) simp
  have p0: "p \<noteq> 0" using uh.live_data(2) [of "(u, ua)" bs b c] b by simp
  show thesis
  proof (rule user_realloc_cases [OF b(1,4) n])
    fix u' ua' cs d
    assume x: "user_realloc (user_data b) n u ua = Some (user_data b, u', ua')" "uheap_ok u' ua' cs"
      "unat n \<le> d" "live (uview u') cs = insert (b, d) (live (uview u) bs - {(b, c)})"
      "kstate u' = kstate u" "uheap_start ua' = uheap_start ua" "uheap_current ua' = uheap_current ua"
      "upage_directory ua' = upage_directory ua"
    have "heap_backed E dir fs k u' ua'" by (rule heap_backed_same [OF k x(5-8)])
    then have "owned_heap E dir k u' ua' (now_held p n p h)"
      using in_use_change [OF x(2,4)] uh.holds_add [OF r x(3)] b(2,3) p0
      by (intro owned_heapI) (simp_all add: now_held_def)
    then show thesis using that x(1) b(3) by blast
  next
    fix u' ua' cs
    assume x: "user_realloc (user_data b) n u ua = Some (0, u', ua')" "user_malloc n u ua = Some (0, u', ua')"
      "uheap_ok u' ua' cs" "live (uview u') cs = live (uview u) bs"
    obtain gs where g: "heap_backed E dir gs k u' ua'" by (rule user_malloc_backed [OF L(1) x(2)])
    have "uh.rep (u', ua') L" using uh.repI [of "(u', ua')" cs] x(3,4) b(2) by (simp add: uh.in_use_def)
    then have "owned_heap E dir k u' ua' (now_held p n 0 h)" using owned_heapI [OF g _ L(3)] n(1) by (simp add: now_held_def)
    then show thesis using that x(1) b(3) by blast
  next
    fix u1 ua1 ds d e u2 u' ua' cs
    assume x: "user_malloc n u ua = Some (user_data d, u1, ua1)" "uheap_ok u1 ua1 ds" "(d, e) \<in> live (uview u1) ds"
      "c \<le> e" "d \<notin> fst ` live (uview u) bs" "unat n \<le> e"
      "u2 = set_umachine (snd (memcpy (user_data d) (user_data b) (word_of_nat c) (umachine u1))) u1"
      "user_free (user_data b) u2 ua1 = (u', ua')" "user_realloc (user_data b) n u ua = Some (user_data d, u', ua')"
      "uheap_ok u' ua' cs" "live (uview u') cs = insert (d, e) (live (uview u) bs - {(b, c)})"
    obtain gs where g: "heap_backed E dir gs k u1 ua1" by (rule user_malloc_backed [OF L(1) x(1)])
    have "(user_data d, e) \<in> uh.in_use (u1, ua1) ds" using x(3) by (force simp: uh.in_use_def)
    then have "bytes_of (user_data d) e \<subseteq> {0x8000000 ..< 0x40000000}"
      using uh.repI [of "(u1, ua1)" ds] x(2) by (intro user_in_use_inside [of "(u1, ua1)"]) simp_all
    moreover have "unat (word_of_nat c :: u64) \<le> c" by (simp add: unat_of_nat)
    ultimately have "bytes_of (user_data d) (unat (word_of_nat c :: u64)) \<subseteq> {0x8000000 ..< 0x40000000}"
      using x(4) by (auto simp: bytes_of_def)
    then have "heap_backed E dir gs k u2 ua1" unfolding x(7) by (rule heap_backed_memcpy [OF g])
    then have g2: "heap_backed E dir gs k u' ua'" using x(8) by (rule user_free_backed)
    have "user_data d \<notin> fst ` (L - {(p, c)})" using x(5) by (auto simp: b(2) uh.in_use_def image_iff)
    moreover have "user_data d \<noteq> 0" using uh.live_data(2) [of "(u1, ua1)" ds d e] x(2,3) by simp
    ultimately have "owned_heap E dir k u' ua' (now_held p n (user_data d) h)"
      using in_use_change [OF x(10,11)] uh.holds_add [OF r(1) _ x(6)] b(2,3)
      by (intro owned_heapI [OF g2]) (simp_all add: now_held_def)
    then show thesis using that x(9) b(3) by blast
  qed
qed

lemma heap_realloc_call:
  assumes w: "owned_heap E dir (3 * malloc_pages n + k) u ua h" and p: "p = 0 \<or> p \<in> fst ` set h"
    and n: "n \<le> MAX_SINGLE_ALLOC"
  obtains q u' ua' where "user_realloc p n u ua = Some (q, u', ua')" "owned_heap E dir k u' ua' (now_held p n q h)"
proof -
  obtain fs L where L: "uh.rep (u, ua) L" "uh.holds L h" using w by (rule owned_heapE)
  note h0 = held_nonnull [OF L]
  consider (new) "p = 0" | (release) "p \<noteq> 0" "n = 0" | (resize) "p \<in> fst ` set h" "n \<noteq> 0" using p by blast
  then show thesis
  proof cases
    case new
    obtain q u' ua' where m: "user_malloc n u ua = Some (q, u', ua')"
      "owned_heap E dir k u' ua' (if q = 0 then h else (q, n) # h)" using w by (rule heap_malloc_call)
    then have "owned_heap E dir k u' ua' (now_held p n q h)" using new h0 by (auto simp: now_held_def)
    then show thesis using that m(1) new by (simp add: user_realloc_def)
  next
    case release
    obtain u' ua' where f: "user_free p u ua = (u', ua')" by fastforce
    have "owned_heap E dir k u' ua' (filter (\<lambda>x. fst x \<noteq> p) h)"
      by (rule heap_free_call [OF owned_heap_mono [OF w] p f]) simp
    then show thesis using that [of 0 u' ua'] f release by (simp add: user_realloc_def now_held_def)
  next
    case resize
    obtain q u' ua' where "user_realloc p n u ua = Some (q, u', ua')" "owned_heap E dir k u' ua' (now_held p n q h)"
      by (rule heap_resize_held [OF w resize n])
    then show thesis by (rule that)
  qed
qed

subsection \<open>The stack\<close>

lemma stack_loop_headers: "user_headers (snd (stack_loop dir b n i u)) = user_headers u"
proof (induction dir b n i u rule: stack_loop.induct)
  case (1 dir b n i u)
  obtain pa p where p: "physical_alloc (umachine u) (uphysical u) = (pa, p)"
    by (cases "physical_alloc (umachine u) (uphysical u)")
  let ?rm = "map_page dir (b + i * FRAME_SIZE) pa 7 (umachine (set_uphysical p u))"
  show ?case
  proof (cases "i < n \<and> pa \<noteq> 0 \<and> fst ?rm = 0")
    case True
    then show ?thesis
      using 1 [OF _ p [symmetric] refl _ refl refl refl] p
      by (simp add: stack_loop.simps [of dir b n i] Let_def)
  next
    case False
    then show ?thesis
      using p by (auto simp: stack_loop.simps [of dir b n i] Let_def split: prod.splits)
  qed
qed

lemma stack_call:
  assumes w: "owned_world E (ppage_directory pm) fs (3 * unat (ALIGN_UP n div FRAME_SIZE) + k) (umachine u, uphysical u)"
    and x: "setup_stack n u pm = (r, u', pm')"
  obtains gs where "owned_world E (ppage_directory pm) gs k (umachine u', uphysical u')"
    "\<And>v. user_page v \<Longrightarrow> translate (umachine u) (ppage_directory pm) v \<noteq> None
      \<Longrightarrow> translate (umachine u') (ppage_directory pm) v \<noteq> None"
    "user_headers u' = user_headers u" "pm' = pm\<lparr>stack_size := ALIGN_UP n, stack_top := PROCESS_STACK_TOP\<rparr>"
proof -
  let ?d = "ppage_directory pm"
  let ?s = "stack_loop ?d (PROCESS_STACK_TOP - ALIGN_UP n) (ALIGN_UP n div FRAME_SIZE) 0 u"
  have "\<exists>r u' gs. ?s = (r, u') \<and> owned_world E ?d gs k (umachine u', uphysical u')
    \<and> (\<forall>w. user_page w \<longrightarrow> translate (umachine u) ?d w \<noteq> None \<longrightarrow> translate (umachine u') ?d w \<noteq> None)"
    by (rule stack_loop_owned [where fs = fs]) (use w in simp_all)
  then obtain gs where g: "owned_world E ?d gs k (umachine (snd ?s), uphysical (snd ?s))"
    "\<forall>w. user_page w \<longrightarrow> translate (umachine u) ?d w \<noteq> None \<longrightarrow> translate (umachine (snd ?s)) ?d w \<noteq> None"
    by auto
  have e: "u' = snd ?s" "pm' = pm\<lparr>stack_size := ALIGN_UP n, stack_top := PROCESS_STACK_TOP\<rparr>"
    using x by (auto simp: setup_stack_def Let_def split: prod.splits)
  show thesis using that [of gs] g stack_loop_headers [of ?d _ _ 0 u] unfolding e by blast
qed

lemma heap_backed_stack:
  assumes w: "heap_backed E dir fs j u ua" and o: "owned_world F dir gs k (umachine u', uphysical u')"
    and t: "\<And>v. user_page v \<Longrightarrow> translate (umachine u) dir v \<noteq> None \<Longrightarrow> translate (umachine u') dir v \<noteq> None"
  shows "heap_backed F dir gs k u' ua"
proof -
  have "translate (umachine u') dir a \<noteq> None" if a: "USER_HEAP_START_ADDR \<le> a" "a < uheap_current ua" for a
  proof (rule t)
    have "unat a < 0x800000000000"
      using a(2) w by (simp add: heap_backed_def USER_HEAP_MAX_ADDR_def wordnat)
    then show "user_page a" by (rule user_page_below)
    show "translate (umachine u) dir a \<noteq> None" using w a by (simp add: heap_backed_def)
  qed
  then show ?thesis using w o by (simp add: heap_backed_def)
qed

subsection \<open>The end of a process\<close>

lemma kfree_machine: "kmachine (world (kfree p s)) = kmachine (world s)" "kphysical (world (kfree p s)) = kphysical (world s)"
proof -
  have keep [simp]: "kphysical (put_header b hb k) = kphysical k" "kphysical (set_size b n k) = kphysical k"
    "kphysical (set_next b a k) = kphysical k" "kphysical (set_prev b a k) = kphysical k" "kphysical (set_freed b k) = kphysical k"
    for a b hb n k
    by (simp_all add: put_header_def set_size_def set_next_def set_prev_def set_freed_def)
  have n: "kmachine (fst (coalesce_next b k h)) = kmachine k" "kphysical (fst (coalesce_next b k h)) = kphysical k" for b k h
    by (simp_all add: coalesce_next_def Let_def)
  have p: "kmachine (fst (coalesce_prev b k h)) = kmachine k" "kphysical (fst (coalesce_prev b k h)) = kphysical k" for b k h
    by (simp_all add: coalesce_prev_def Let_def)
  have "fst (coalesce_block b k h) = (if is_free (headers k b) then fst (coalesce_prev b (fst (coalesce_next b k h)) (snd (coalesce_next b k h))) else k)" for b k h
    by (simp add: coalesce_block_def split: prod.split)
  then have c: "kmachine (fst (coalesce_block b k h)) = kmachine k" "kphysical (fst (coalesce_block b k h)) = kphysical k" for b k h
    by (simp_all add: n p)
  have "kmachine (fst (heap_free p k h)) = kmachine k" "kphysical (fst (heap_free p k h)) = kphysical k" for k h
    by (simp_all add: heap_free_def Let_def c)
  then show "kmachine (world (kfree p s)) = kmachine (world s)" "kphysical (world (kfree p s)) = kphysical (world s)"
    by (simp_all add: kfree_def split: prod.split) (metis fst_conv)+
qed

lemma cleanup_on_exit_world:
  assumes w: "heap_backed E dir fs k u ua"
  shows "owned_world E dir fs k (umachine (cleanup_on_exit u ua), uphysical (cleanup_on_exit u ua))"
    "unat v < 0x800000000000 \<Longrightarrow> translate (umachine (cleanup_on_exit u ua)) dir v
       = (if USER_HEAP_START_ADDR \<le> v \<and> v < uheap_current ua then None else translate (umachine u) dir v)"
    "uphysical (cleanup_on_exit u ua) = uphysical u"
proof -
  let ?s = "uheap_start ua" and ?c = "uheap_current ua"
  note W = w [unfolded heap_backed_def]
  have s: "?s = 0x8000000" using W by (simp add: USER_HEAP_START_ADDR_def)
  have c: "0x8000000 \<le> unat ?c" "unat ?c \<le> 0x40000000"
    using W by (simp_all add: USER_HEAP_START_ADDR_def USER_HEAP_MAX_ADDR_def wordnat)
  let ?e = "?c - ?s"
  have ue: "unat ?e = unat ?c - 0x8000000" using c(1) by (simp add: s unat_sub wordnat)
  have "4096 dvd unat ?c" using W by (simp add: IS_ALIGNED_iff mod_eq_0_iff_dvd)
  then have "4096 dvd unat ?e" unfolding ue by (rule dvd_diff_nat) simp
  then have al: "IS_ALIGNED ?e" by (simp add: IS_ALIGNED_iff)
  have pages: "4096 * request_pages ?e = unat ?e" by (rule request_pages_aligned [OF al]) (use ue c(2) in simp)
  have us: "unat ?s = 0x8000000" and as: "IS_ALIGNED ?s" by (simp_all add: s IS_ALIGNED_def)
  then have top: "unat ?s + 4096 * request_pages ?e = unat ?c" using c(1) unfolding pages ue by simp
  then have ur: "user_range ?s (request_pages ?e)" using c(2) by (simp only: user_range_def)
  have o: "owned_world E dir fs k (umachine u, uphysical u)" and d: "upage_directory ua = dir" using W by simp_all
  let ?r = "release_loop dir ?s (ALIGN_UP ?e div FRAME_SIZE) 0 (umachine u)"
  note R = release_owned [OF o request_pages_def [symmetric] ur]
  have e: "cleanup_on_exit u ua = (if ?c > ?s then set_umachine ?r u else u)"
    by (simp add: cleanup_on_exit_def sys_release_memory_def Let_def d)
  show "owned_world E dir fs k (umachine (cleanup_on_exit u ua), uphysical (cleanup_on_exit u ua))"
    using R(1) o by (simp add: e)
  show "uphysical (cleanup_on_exit u ua) = uphysical u" by (simp add: e)
  assume v: "unat v < 0x800000000000"
  have "in_range ?s (request_pages ?e) v \<longleftrightarrow> USER_HEAP_START_ADDR \<le> v \<and> v < ?c"
    unfolding in_range_user [OF as ur v, unfolded top] us by (simp add: USER_HEAP_START_ADDR_def wordnat)
  then show "translate (umachine (cleanup_on_exit u ua)) dir v
       = (if USER_HEAP_START_ADDR \<le> v \<and> v < ?c then None else translate (umachine u) dir v)"
    using R(2) [of v] by (auto simp: e s USER_HEAP_START_ADDR_def)
qed

lemma cleanup_parts:
  assumes "cleanup_all u pm = (u', pm')" "pheap pm \<noteq> 0"
  shows "umachine u' = umachine (cleanup_on_exit u (pheap_object pm))"
    "uphysical u' = uphysical (cleanup_on_exit u (pheap_object pm))" "pm' = pm\<lparr>pheap := 0\<rparr>"
  using assms by (auto simp: cleanup_all_def Let_def umachine_def uphysical_def kfree_machine)

lemma cleanup_call:
  assumes "process_ok E k P" "cleanup_all (pspace P) (pmem P) = (u, pm)"
  shows "process_ok E k (P\<lparr>pspace := u, pmem := pm, holding := []\<rparr>)"
proof (cases "pheap (pmem P) = 0")
  case True
  then have "u = pspace P" "pm = pmem P" using assms(2) by (simp_all add: cleanup_all_def)
  then show ?thesis using assms(1) True by (simp add: process_ok_def)
next
  case False
  obtain fs where w: "heap_backed E (ppage_directory (pmem P)) fs k (pspace P) (pheap_object (pmem P))"
    using assms(1) False by (auto simp: process_ok_def elim: owned_heapE)
  show ?thesis
    using cleanup_on_exit_world(1) [OF w] by (auto simp: process_ok_def cleanup_parts [OF assms(2) False])
qed

subsection \<open>Preservation and progress\<close>

lemma process_okD:
  "process_ok E k P \<Longrightarrow> pheap (pmem P) \<noteq> 0
    \<Longrightarrow> owned_heap E (ppage_directory (pmem P)) k (pspace P) (pheap_object (pmem P)) (holding P)"
  by (simp add: process_ok_def)

lemma process_ok_heap:
  "pheap (pmem P) \<noteq> 0 \<Longrightarrow> owned_heap E (ppage_directory (pmem P)) k u ua h \<Longrightarrow> process_ok E k (with_heap P u ua h)"
  by (simp add: process_ok_def)

lemma process_ok_mono:
  assumes "process_ok E k P" "j \<le> k"
  shows "process_ok E j P"
proof (cases "pheap (pmem P) = 0")
  case True
  then show ?thesis using assms(1) owned_world_mono [OF _ assms(2)] unfolding process_ok_def by metis
next
  case False
  then show ?thesis using assms(1) owned_heap_mono [OF _ assms(2)] by (simp add: process_ok_def)
qed

lemma set_limit_keeps:
  assumes "set_heap_limit n ua = (r, ua')"
  shows "uheap_start ua' = uheap_start ua" "uheap_current ua' = uheap_current ua" "ufirst_block ua' = ufirst_block ua"
    "upage_directory ua' = upage_directory ua"
  using assms by (auto simp: set_heap_limit_def Let_def split: if_splits)

lemma owned_heap_limit:
  assumes w: "owned_heap E dir k u ua h" and x: "set_heap_limit n ua = (r, ua')"
  shows "owned_heap E dir k u ua' h"
proof -
  obtain fs L where L: "heap_backed E dir fs k u ua" "uh.rep (u, ua) L" "uh.holds L h" using w by (rule owned_heapE)
  note S = set_limit_keeps [OF x]
  have "uheap_ok u ua' bs = uheap_ok u ua bs" for bs by (simp add: uheap_ok_def S)
  then have "uh.rep (u, ua') L" using L(2) by (simp add: uh.rep_def uh.in_use_def)
  then show ?thesis using heap_backed_same [OF L(1) refl S(1,2,4)] L(3) by (intro owned_heapI)
qed

lemma stack_step:
  assumes w: "process_ok E (3 * unat (ALIGN_UP n div FRAME_SIZE) + k) P" and x: "setup_stack n (pspace P) (pmem P) = (r, u, pm)"
  shows "process_ok E k (P\<lparr>pspace := u, pmem := pm\<rparr>)"
proof (cases "pheap (pmem P) = 0")
  case True
  then obtain fs where o: "owned_world E (ppage_directory (pmem P)) fs (3 * unat (ALIGN_UP n div FRAME_SIZE) + k)
      (umachine (pspace P), uphysical (pspace P))" and "holding P = []" using w by (auto simp: process_ok_def)
  obtain gs where "owned_world E (ppage_directory (pmem P)) gs k (umachine u, uphysical u)"
    "pm = (pmem P)\<lparr>stack_size := ALIGN_UP n, stack_top := PROCESS_STACK_TOP\<rparr>"
    by (rule stack_call [OF o x])
  then show ?thesis using True \<open>holding P = []\<close> by (auto simp: process_ok_def)
next
  case False
  obtain fs L where L: "heap_backed E (ppage_directory (pmem P)) fs (3 * unat (ALIGN_UP n div FRAME_SIZE) + k) (pspace P)
      (pheap_object (pmem P))" "uh.rep (pspace P, pheap_object (pmem P)) L" "uh.holds L (holding P)"
    using process_okD [OF w False] by (rule owned_heapE)
  then have "owned_world E (ppage_directory (pmem P)) fs (3 * unat (ALIGN_UP n div FRAME_SIZE) + k)
      (umachine (pspace P), uphysical (pspace P))" by (simp add: heap_backed_def)
  then obtain gs where g: "owned_world E (ppage_directory (pmem P)) gs k (umachine u, uphysical u)"
    "\<And>v. user_page v \<Longrightarrow> translate (umachine (pspace P)) (ppage_directory (pmem P)) v \<noteq> None
      \<Longrightarrow> translate (umachine u) (ppage_directory (pmem P)) v \<noteq> None"
    "user_headers u = user_headers (pspace P)" "pm = (pmem P)\<lparr>stack_size := ALIGN_UP n, stack_top := PROCESS_STACK_TOP\<rparr>"
    by (rule stack_call [OF _ x]) blast
  have "owned_heap E (ppage_directory (pmem P)) k u (pheap_object (pmem P)) (holding P)"
    using heap_backed_stack [OF L(1) g(1,2)] rep_same [OF L(2) g(3)] L(3) by (rule owned_heapI)
  then show ?thesis using False by (simp add: process_ok_def g(4))
qed

lemma step_preserves:
  assumes "process_step c P Q" "process_ok E (3 * call_pages c + k) P"
  shows "process_ok E k Q" "ppage_directory (pmem Q) = ppage_directory (pmem P)"
proof -
  note ok = assms(2)
  note O = process_okD [OF ok]
  let ?d = "ppage_directory (pmem P)" and ?u = "pspace P" and ?ua = "pheap_object (pmem P)" and ?h = "holding P"
  show "process_ok E k Q"
    using assms(1)
  proof cases
    case (malloc n q u ua)
    have "owned_heap E ?d (3 * malloc_pages n + k) ?u ?ua ?h" using O malloc(1,3) by simp
    then obtain r u' ua' where "user_malloc n ?u ?ua = Some (r, u', ua')"
      "owned_heap E ?d k u' ua' (if r = 0 then ?h else (r, n) # ?h)" by (rule heap_malloc_call)
    then show ?thesis using malloc(4) unfolding malloc(2) by (intro process_ok_heap [OF malloc(3)]) (simp split: if_splits)
  next
    case (calloc a n q u ua)
    have "owned_heap E ?d (3 * malloc_pages (a * n) + k) ?u ?ua ?h" using O calloc(1,3) by simp
    then obtain r u' ua' where "user_calloc a n ?u ?ua = Some (r, u', ua')"
      "owned_heap E ?d k u' ua' (if r = 0 then ?h else (r, a * n) # ?h)" by (rule heap_calloc_call)
    then show ?thesis using calloc(4) unfolding calloc(2) by (intro process_ok_heap [OF calloc(3)]) (simp split: if_splits)
  next
    case (realloc p n q u ua)
    have "owned_heap E ?d (3 * malloc_pages n + k) ?u ?ua ?h" using O realloc(1,3) by simp
    then obtain r u' ua' where "user_realloc p n ?u ?ua = Some (r, u', ua')" "owned_heap E ?d k u' ua' (now_held p n r ?h)"
      using realloc(4,5) by (rule heap_realloc_call)
    then show ?thesis using realloc(6) unfolding realloc(2) by (intro process_ok_heap [OF realloc(3)]) simp
  next
    case (free p u ua)
    have "owned_heap E ?d k ?u ?ua ?h" using O free(1,3) by simp
    then show ?thesis
      unfolding free(2) by (intro process_ok_heap [OF free(3)] heap_free_call [OF _ free(4,5)])
  next
    case (limit n r ua)
    have "owned_heap E ?d k ?u ?ua ?h" using O limit(1,3) by simp
    then show ?thesis unfolding limit(2) by (intro process_ok_heap [OF limit(3)] owned_heap_limit [OF _ limit(4)])
  next
    case (layout a n b l r pm)
    then show ?thesis using ok by (auto simp: setup_memory_layout_def process_ok_def)
  next
    case (stack n r u pm)
    then show ?thesis using ok stack_step by simp
  next
    case (cleanup u pm)
    then show ?thesis using ok cleanup_call by simp
  qed
  show "ppage_directory (pmem Q) = ppage_directory (pmem P)"
    using assms(1) by cases (auto simp: setup_memory_layout_def setup_stack_def cleanup_all_def Let_def
        split: prod.splits if_splits)
qed

lemma step_unique: "process_step c P Q \<Longrightarrow> process_step c P R \<Longrightarrow> R = Q"
  by (cases c) (auto simp: step_simps)

lemma step_exists:
  assumes ok: "process_ok E (3 * call_pages c) P" and a: "allowed c P"
  shows "\<exists>Q. process_step c P Q"
proof -
  note O = process_okD [OF ok]
  show ?thesis
  proof (cases c)
    case (Malloc n)
    then have w: "owned_heap E (ppage_directory (pmem P)) (3 * malloc_pages n + 0) (pspace P) (pheap_object (pmem P)) (holding P)"
      using O a by simp
    show ?thesis by (rule heap_malloc_call [OF w]) (use a Malloc in \<open>auto simp: step_simps\<close>)
  next
    case (Calloc b n)
    then have w: "owned_heap E (ppage_directory (pmem P)) (3 * malloc_pages (b * n) + 0) (pspace P) (pheap_object (pmem P)) (holding P)"
      using O a by simp
    show ?thesis by (rule heap_calloc_call [OF w]) (use a Calloc in \<open>auto simp: step_simps\<close>)
  next
    case (Realloc p n)
    then have w: "owned_heap E (ppage_directory (pmem P)) (3 * malloc_pages n + 0) (pspace P) (pheap_object (pmem P)) (holding P)"
      and p: "owns P p" "n \<le> MAX_SINGLE_ALLOC" using O a by simp_all
    show ?thesis by (rule heap_realloc_call [OF w p]) (use a Realloc in \<open>auto simp: step_simps\<close>)
  next
    case (Stack n)
    then show ?thesis by (cases "setup_stack n (pspace P) (pmem P)") (auto simp: step_simps)
  qed (use a in \<open>auto simp: step_simps intro: prod.exhaust\<close>)
qed

lemma run_preserves:
  assumes "process_run cs P Q" "process_ok E (3 * run_pages cs + k) P"
  shows "process_ok E k Q" "ppage_directory (pmem Q) = ppage_directory (pmem P)"
  using assms
proof (induction arbitrary: k rule: process_run.induct)
  case (call c P Q cs R)
  {
    case 1
    have "process_ok E (3 * call_pages c + (3 * run_pages cs + k)) P" using 1 by (simp add: algebra_simps)
    then show ?case using step_preserves(1) [OF call.hyps(1)] call.IH(1) by blast
  next
    case 2
    have ok: "process_ok E (3 * call_pages c + (3 * run_pages cs + k)) P" using 2 by (simp add: algebra_simps)
    then show ?case using step_preserves [OF call.hyps(1) ok] call.IH(2) by simp
  }
qed simp_all

subsection \<open>A new process\<close>

lemma owned_world_pool: "owned_world E dir fs k w \<Longrightarrow> phys_pool w fs"
  unfolding owned_world_def by (blast intro: pages_world_pool)

lemma owned_world_views: "owned_world E dir fs k (m, p) \<Longrightarrow> (d, T) \<in> others E \<Longrightarrow> user_view m d = T"
  unfolding owned_world_def by (auto elim: pages_worldE intro: neighbours_okD(3))

text \<open>Memory taken by the bump allocator.\<close>

lemma owned_world_raise:
  assumes w: "owned_world E dir fs j (m, p)" and q: "placement m \<le> q" and room: "page_room k (m\<lparr>placement := q\<rparr>)"
  shows "owned_world E dir fs k (m\<lparr>placement := q\<rparr>, p)"
proof -
  have P: "pages_world E dir fs (m, p)" "frames_owned E dir fs m" using w by (simp_all add: owned_world_def)
  obtain L xs where L: "tables_ok m L" "L (ADDRESS dir) = 4" "node_list (mem m) (free_list p) xs"
    "map snd xs = fs" "nodes_below (placement m) xs" "nodes_apart L xs" "kernel_half m L xs"
    "private_halves m (insert dir (fst ` others E))" "\<forall>f \<in> set fs. valid_frame (m, p) f"
    "neighbours_ok m L E" "dir \<notin> fst ` others E"
    using P(1) by (rule pages_worldE)
  let ?m = "m\<lparr>placement := q\<rparr>"
  have "upper q" using L(7) q by (auto simp: kernel_half_def upper_def)
  have t: "translate ?m dir v = translate m dir v" for v by (simp add: translate_def)
  have "pages_world E dir fs (?m, p)"
  proof (rule pages_worldI [where L = L and xs = xs])
    show "tables_ok ?m L" by (rule tables_ok_cells [OF L(1)]) (use q in simp_all)
    show "nodes_below (placement ?m) xs" using L(5) q by (auto intro: nodes_below_mono)
    show "private_halves ?m (insert dir (fst ` others E))" using L(8) by (simp add: private_halves_def shares_def)
    show "neighbours_ok ?m L E"
      by (rule neighbours_change [OF L(10)]) (simp_all add: points_to_def user_view_def translate_def fun_eq_iff)
    show "\<forall>f \<in> set fs. valid_frame (?m, p) f" using L(9) unfolding valid_frame_machine [of ?m p m] .
  qed (use L \<open>upper q\<close> in \<open>simp_all add: kernel_half_def\<close>)
  then show ?thesis using frames_owned_same [OF P(2) t] room by (simp add: owned_world_def)
qed

text \<open>The construction of the heap: with the pages of its first megabyte, or without any.\<close>

lemma user_allocator_new_ok:
  assumes w: "owned_world E dir fs (3 * 256 + k) (umachine u, uphysical u)"
  obtains u' ua where "user_allocator_new dir u = (u', ua)" "owned_heap E dir k u' ua []"
    "kstate u' = kstate (snd (sys_request_memory dir USER_HEAP_START_ADDR USER_HEAP_INITIAL_SIZE u))"
proof -
  let ?ua = "\<lparr>uheap_start = USER_HEAP_START_ADDR, uheap_current = USER_HEAP_START_ADDR,
    uheap_limit = USER_HEAP_MAX_ADDR, ufirst_block = 0, upage_directory = dir, utotal_allocated = 0, num_blocks = 0\<rparr>"
  have mb: "USER_HEAP_INITIAL_SIZE = 0x100000" by (simp add: USER_HEAP_INITIAL_SIZE_def size_literals)
  have pages: "request_pages 0x100000 = 256"
    by (simp add: request_pages_def ALIGN_UP_def ALIGN_DOWN_def FRAME_SIZE_def)
  have B: "heap_backed E dir fs (3 * request_pages 0x100000 + k) u ?ua"
    using w by (auto simp: heap_backed_def pages USER_HEAP_START_ADDR_def USER_HEAP_MAX_ADDR_def IS_ALIGNED_def)
  obtain r u1 gs where "sys_request_memory dir (uheap_current ?ua) 0x100000 u = (r, u1)"
    "heap_backed E dir gs k u1 (if r then ?ua\<lparr>uheap_current := uheap_current ?ua + 0x100000\<rparr> else ?ua)"
    by (rule request_above_heap [OF B], simp add: IS_ALIGNED_def, simp add: USER_HEAP_START_ADDR_def, blast)
  then have q: "sys_request_memory dir 0x8000000 0x100000 u = (r, u1)"
    "heap_backed E dir gs k u1 (if r then ?ua\<lparr>uheap_current := 0x8100000\<rparr> else ?ua)"
    by (simp_all add: USER_HEAP_START_ADDR_def split: if_splits)
  show thesis
  proof (cases r)
    case True
    let ?u = "put_user 0x8000000 (new_user_block 0xFFFE8 True) u1"
    let ?ub = "?ua\<lparr>uheap_current := 0x8100000, ufirst_block := 0x8000000\<rparr>"
    have "uheap_ok ?u ?ub [0x8000000]"
      by (auto simp: uheap_ok_def put_user_def uview_fields space_def foot_def new_user_block_def Let_def ublock_valid_def
          USER_MAGIC_FREE_def USER_MAGIC_USED_def MAGIC_MASK_def FLAG_FREE_def intro!: blocks_ok_single)
    then have R: "uh.rep (?u, ?ub) (uh.in_use (?u, ?ub) [0x8000000])" by (intro uh.repI) simp
    have "heap_backed E dir gs k ?u ?ub"
      by (rule heap_backed_same [OF q(2)]) (simp_all add: True put_user_def)
    then have "owned_heap E dir k ?u ?ub []" using R by (rule owned_heapI) (simp add: uh.holds_def)
    moreover have "user_allocator_new dir u = (?u, ?ub)"
      using q(1) True by (simp add: user_allocator_new_def Let_def mb USER_HEAP_START_ADDR_def sizeof_user_block_def)
    ultimately show thesis using that q(1) by (simp add: mb USER_HEAP_START_ADDR_def put_user_def)
  next
    case False
    have "uheap_ok u1 ?ua []"
      by (simp add: uheap_ok_def blocks_ok_def space_def USER_HEAP_START_ADDR_def)
    then have "uh.rep (u1, ?ua) (uh.in_use (u1, ?ua) [])" by (intro uh.repI) simp
    moreover have "heap_backed E dir gs k u1 ?ua" using q(2) False by simp
    ultimately have "owned_heap E dir k u1 ?ua []" by (intro owned_heapI) (auto simp: uh.holds_def)
    moreover have "user_allocator_new dir u = (u1, ?ua)"
      using q(1) False by (simp add: user_allocator_new_def Let_def mb USER_HEAP_START_ADDR_def)
    ultimately show thesis using that q(1) by (simp add: mb USER_HEAP_START_ADDR_def)
  qed
qed

text \<open>Before the kernel heap exists, which it never does after the boot, the allocator's object comes
  from the bump allocator.\<close>

lemma process_memory_new_ok:
  assumes w: "owned_world E dir fs (3 * 256 + k + 1) (umachine u, uphysical u)" and h: "g_kernel_heap (kstate u) = 0"
  obtains u' pm where "process_memory_new dir u = Some (u', pm)" "ppage_directory pm = dir" "pheap pm \<noteq> 0"
    "process_ok E k \<lparr>pspace = u', pmem = pm, holding = []\<rparr>"
proof -
  let ?m = "umachine u"
  let ?q = "ALIGN_UP (placement ?m + 32)" and ?p = "ALIGN_UP (placement ?m + 32) + 48"
  have room: "0 < unat (placement ?m)" "unat (placement ?m) + 8192 * (3 * 256 + k + 1) < 18446744073709551616"
    using w by (simp_all add: owned_world_def page_room_def)
  have p32: "unat (placement ?m + 32) = unat (placement ?m) + 32" using room(2) by (simp add: unat_add_nowrap)
  have q: "unat (placement ?m) + 32 \<le> unat ?q" "unat ?q < unat (placement ?m) + 32 + 4096"
    using ALIGN_UP_ge [of "placement ?m + 32"] ALIGN_UP_lt [of "placement ?m + 32"] room(2)
    by (simp_all add: p32 wordnat)
  then have p: "unat ?p = unat ?q + 48" using room(2) by (intro unat_add_nowrap [THEN trans]) simp_all
  have le: "placement ?m \<le> ?p" using q p by (simp add: wordnat)
  have "page_room (3 * 256 + k) (?m\<lparr>placement := ?p\<rparr>)" using q p room by (simp add: page_room_def)
  with w le have w2: "owned_world E dir fs (3 * 256 + k) (?m\<lparr>placement := ?p\<rparr>, uphysical u)" by (rule owned_world_raise)
  obtain v where v: "virt_new ?m = (?m\<lparr>placement := placement ?m + 32\<rparr>, v)"
    by (simp add: virt_new_def push_region_def placement_kalloc_eq sizeof_region_def sizeof_node_def Let_def add.assoc)
  let ?u1 = "set_umachine (?m\<lparr>placement := placement ?m + 32\<rparr>) u"
  obtain s where s: "kmalloc sizeof_user_allocator (kstate ?u1) = Some (?q, s)"
    "s = (kstate ?u1)\<lparr>world := (world (kstate ?u1))\<lparr>kmachine := ?m\<lparr>placement := ?p\<rparr>\<rparr>\<rparr>"
    using h by (simp add: kmalloc_def on_placement_def placement_kalloc_eq Let_def sizeof_user_allocator_def
        set_umachine_def umachine_def)
  let ?u2 = "?u1\<lparr>kstate := s\<rparr>"
  have m2: "umachine ?u2 = ?m\<lparr>placement := ?p\<rparr>" "uphysical ?u2 = uphysical u"
    by (simp_all add: s(2) umachine_def uphysical_def set_umachine_def)
  obtain u' ua where n: "user_allocator_new dir ?u2 = (u', ua)" "owned_heap E dir k u' ua []"
    by (rule user_allocator_new_ok [of E dir fs k ?u2]) (simp_all only: m2 w2)
  have q0: "?q \<noteq> 0" using q(1) by auto
  let ?pm = "\<lparr>ppage_directory = dir, pvirtual_manager = v, pheap = ?q, pheap_object = ua,
    stack_top = 0, stack_size = 0, code_start = 0, code_size = 0, data_start = 0, data_size = 0\<rparr>"
  have "process_memory_new dir u = Some (u', ?pm)"
    using s(1) n(1) q0 by (simp add: process_memory_new_def v)
  moreover have "process_ok E k \<lparr>pspace = u', pmem = ?pm, holding = []\<rparr>"
    using n(2) q0 by (simp add: process_ok_def)
  ultimately show thesis using that q0 by simp
qed

subsection \<open>What a program can rely on\<close>

text \<open>The physical byte behind a virtual one.\<close>

definition physical_byte :: "machine \<Rightarrow> addr \<Rightarrow> addr \<Rightarrow> addr option" where
  "physical_byte m dir a =
     (case translate m dir a of None \<Rightarrow> None | Some e \<Rightarrow> Some (ALIGN_DOWN e + (a AND 0xfff)))"

lemma unat_frame_byte: "unat (ALIGN_DOWN e + (a AND 0xfff)) = unat e div 4096 * 4096 + unat a mod 4096"
proof -
  have "unat (ALIGN_DOWN e) = unat e div 4096 * 4096" by (simp add: unat_ALIGN_DOWN minus_mod_eq_div_mult)
  moreover have "unat e div 4096 < 4503599627370496" using u64_bound [of e] by (simp add: div_less_iff_less_mult)
  then have "unat e div 4096 * 4096 + unat a mod 4096 < 18446744073709551616"
    using mod_less_divisor [of 4096 "unat a"] by linarith
  ultimately show ?thesis by (subst unat_add_nowrap) (simp_all add: unat_and_page_offset)
qed

lemma physical_byte_inject:
  assumes o: "frames_owned E dir fs m" and a: "unat a < 0x800000000000" "unat b < 0x800000000000"
    and x: "physical_byte m dir a = Some x" "physical_byte m dir b = Some x"
  shows "a = b"
proof -
  obtain e d where e: "translate m dir a = Some e" "x = ALIGN_DOWN e + (a AND 0xfff)"
    and d: "translate m dir b = Some d" "x = ALIGN_DOWN d + (b AND 0xfff)"
    using x by (auto simp: physical_byte_def split: option.splits)
  have eq: "unat e div 4096 * 4096 + unat a mod 4096 = unat d div 4096 * 4096 + unat b mod 4096"
    using e(2) d(2) unat_frame_byte by metis
  have div: "unat e div 4096 = unat d div 4096"
    using arg_cong [OF eq, of "\<lambda>n. n div 4096"] by (simp add: div_add1_eq)
  have off: "unat a mod 4096 = unat b mod 4096" using eq div by simp
  have "unat e mod 4096 = 7" "unat d mod 4096 = 7"
    using frames_ownedD(2) [OF o user_page_below [OF a(1)] e(1)] frames_ownedD(2) [OF o user_page_below [OF a(2)] d(1)]
      unat_and_page_offset [of e] unat_and_page_offset [of d] by simp_all
  then have "e = d" using div by (metis div_mult_mod_eq word_unat_eq_iff)
  then have "page_index a = page_index b"
    using frames_ownedD(4) [OF o user_page_below user_page_below e(1)] a d(1) by simp
  then have "unat a div 4096 = unat b div 4096" using page_index_user [OF a] by simp
  then show "a = b" using off by (metis div_mult_mod_eq word_unat_eq_iff)
qed

lemma physical_byte_in_frame:
  assumes x: "physical_byte m dir a = Some x"
  obtains e where "translate m dir a = Some e" "ALIGN_DOWN x = ALIGN_DOWN e"
proof -
  obtain e where e: "translate m dir a = Some e" "x = ALIGN_DOWN e + (a AND 0xfff)"
    using x by (auto simp: physical_byte_def split: option.splits)
  have "unat (ALIGN_DOWN x) = unat e div 4096 * 4096" unfolding e(2) unat_ALIGN_DOWN unat_frame_byte by simp
  moreover have "unat (ALIGN_DOWN e) = unat e div 4096 * 4096" by (simp add: unat_ALIGN_DOWN minus_mod_eq_div_mult)
  ultimately have "ALIGN_DOWN x = ALIGN_DOWN e" by (simp add: word_unat_eq_iff)
  then show thesis by (rule that [OF e(1)])
qed

lemma physical_byte_frame:
  assumes o: "frames_owned E dir fs m" and a: "unat a < 0x800000000000" and x: "physical_byte m dir a = Some x"
  shows "ALIGN_DOWN x \<notin> set fs" "ALIGN_DOWN x \<notin> taken E"
  using physical_byte_in_frame [OF x] frames_ownedD(3,5) [OF o user_page_below [OF a]] by metis+

text \<open>A byte of a block in use lies on a page of the heap, which has a frame.\<close>

lemma held_below_current:
  assumes "uh.rep (u, ua) L" "uh.holds L h" "x \<in> set h"
  shows "held_bytes x \<subseteq> {0x8000000 ..< unat (uheap_current ua)}"
proof -
  obtain bs where bs: "uheap_ok u ua bs" "L = uh.in_use (u, ua) bs" using assms(1) by (auto simp: uh.rep_def)
  obtain c where c: "(fst x, c) \<in> L" "unat (snd x) \<le> c" using assms(2,3) unfolding uh.holds_def by blast
  then obtain b where b: "fst x = user_data b" "(b, c) \<in> live (uview u) bs" by (auto simp: bs(2) uh.in_use_def)
  have "held_bytes x \<subseteq> bytes_of (fst x) c" using c(2) by (auto simp: held_bytes_def bytes_of_def)
  also have "\<dots> \<subseteq> space 24 (uview u) bs"
    using uh.live_data(1,3) [of "(u, ua)" bs b c] bs(1) b by (auto simp: space_def)
  finally show ?thesis using uheap_okD(4) [OF bs(1)] by blast
qed

lemma held_byte_backed:
  assumes w: "heap_backed E dir fs k u ua" and h: "uh.rep (u, ua) L" "uh.holds L h" and x: "x \<in> set h" "unat a \<in> held_bytes x"
  shows "unat a < 0x800000000000" "\<exists>p. physical_byte (umachine u) dir a = Some p"
proof -
  have a: "0x8000000 \<le> unat a" "unat a < unat (uheap_current ua)" using held_below_current [OF h x(1)] x(2) by auto
  have top: "unat (uheap_current ua) \<le> 0x40000000"
    using w by (simp add: heap_backed_def USER_HEAP_MAX_ADDR_def wordnat)
  show "unat a < 0x800000000000" using a(2) top by simp
  have "USER_HEAP_START_ADDR \<le> a" "a < uheap_current ua" using a by (simp_all add: USER_HEAP_START_ADDR_def wordnat)
  then have "translate (umachine u) dir a \<noteq> None" using w unfolding heap_backed_def by blast
  then show "\<exists>p. physical_byte (umachine u) dir a = Some p" by (auto simp: physical_byte_def)
qed

definition bytes_held :: "process \<Rightarrow> addr set" where
  "bytes_held P = {a. \<exists>x \<in> set (holding P). unat a \<in> held_bytes x}"

definition process_frames :: "process \<Rightarrow> addr \<Rightarrow> addr option" where
  "process_frames P = physical_byte (umachine (pspace P)) (ppage_directory (pmem P))"

text \<open>The blocks held never overlap, every byte of them has a physical byte of its own, and none lies in a
  frame that the frame manager may hand out or that belongs to a neighbour; the user pages of the
  neighbours are translated as E says.\<close>

definition isolated :: "neighbours \<Rightarrow> process \<Rightarrow> bool" where
  "isolated E P \<longleftrightarrow> sorted_wrt (\<lambda>x y. held_bytes x \<inter> held_bytes y = {}) (holding P)
     \<and> inj_on (process_frames P) (bytes_held P)
     \<and> (\<exists>fs. phys_pool (umachine (pspace P), uphysical (pspace P)) fs
         \<and> (\<forall>a \<in> bytes_held P. \<exists>p. process_frames P a = Some p \<and> ALIGN_DOWN p \<notin> set fs \<and> ALIGN_DOWN p \<notin> taken E))
     \<and> (\<forall>(d, T) \<in> others E. user_view (umachine (pspace P)) d = T)"

lemma process_ok_isolated:
  assumes ok: "process_ok E k P"
  shows "isolated E P"
proof -
  let ?d = "ppage_directory (pmem P)" and ?u = "pspace P"
  show ?thesis
  proof (cases "pheap (pmem P) = 0")
    case True
    then obtain fs where "holding P = []" "owned_world E ?d fs k (umachine ?u, uphysical ?u)"
      using ok by (auto simp: process_ok_def)
    then show ?thesis using owned_world_pool [of E ?d fs k] owned_world_views [of E ?d fs k]
      by (simp add: isolated_def bytes_held_def) blast
  next
    case False
    obtain fs L where L: "heap_backed E ?d fs k ?u (pheap_object (pmem P))" "uh.rep (?u, pheap_object (pmem P)) L"
      "uh.holds L (holding P)" using process_okD [OF ok False] by (rule owned_heapE)
    have o: "frames_owned E ?d fs (umachine ?u)" and p: "phys_pool (umachine ?u, uphysical ?u) fs"
      and E: "\<forall>(d, T) \<in> others E. user_view (umachine ?u) d = T"
      using L(1) owned_world_pool owned_world_views by (auto simp: heap_backed_def owned_world_def)
    have B: "unat a < 0x800000000000 \<and> (\<exists>p. process_frames P a = Some p)" if "a \<in> bytes_held P" for a
      using held_byte_backed [OF L] that unfolding bytes_held_def process_frames_def by blast
    have "a = b" if "a \<in> bytes_held P" "b \<in> bytes_held P" "process_frames P a = process_frames P b" for a b
      using B [OF that(1)] B [OF that(2)] that(3) physical_byte_inject [OF o, of a b] unfolding process_frames_def by auto
    then have "inj_on (process_frames P) (bytes_held P)" by (rule inj_onI)
    moreover have "\<exists>p. process_frames P a = Some p \<and> ALIGN_DOWN p \<notin> set fs \<and> ALIGN_DOWN p \<notin> taken E" if "a \<in> bytes_held P" for a
      using B [OF that] physical_byte_frame [OF o, of a] unfolding process_frames_def by blast
    ultimately show ?thesis using uh.holds_apart(1) [OF L(2,3)] p E unfolding isolated_def by blast
  qed
qed

text \<open>C14. After any allowed calls of a process, failed ones included, the blocks it holds never overlap,
  every byte of them has a physical byte behind it, two different bytes never share one, and none lies in a
  frame that the frame manager may hand out again or in a frame of another directory's user pages, which
  are all translated as before. Allowed is what the rules of \<open>process_step\<close> admit: the heap is called only while there is one, only pointers
  the process holds are freed or resized, and they are resized to at most 2 GB
  (\<open>user_realloc_forgets_high_bits\<close> shows what happens beyond). Boot memory has room for the page tables the
  calls may need, and the user memory the heap works on is that of the process's own directory, the frames
  of which are taken to be apart from the kernel's memory.\<close>

theorem process_memory_isolated:
  assumes "process_run cs P Q" and "process_ok E (3 * run_pages cs) P"
  shows "isolated E Q"
  using run_preserves(1) [OF assms(1), of E 0] assms(2) by (intro process_ok_isolated [of E 0]) simp

text \<open>C15. A process never gets stuck: after any calls, every call that it is allowed to make returns, with
  one result, as long as the machine has room for the page tables it may need; running out of frames is
  one of the results.\<close>

theorem process_never_stuck:
  assumes "process_run cs P Q" and "process_ok E (3 * run_pages (cs @ [c])) P" and "allowed c Q"
  shows "\<exists>!R. process_step c Q R"
proof -
  have "3 * run_pages (cs @ [c]) = 3 * run_pages cs + 3 * call_pages c" by (simp add: run_pages_def)
  then have "process_ok E (3 * call_pages c) Q" using run_preserves(1) [OF assms(1)] assms(2) by simp
  then show ?thesis using step_exists [OF _ assms(3)] step_unique by blast
qed

text \<open>C18. When a process ends, every page of its heap faults, but no frame comes back: the list of free
  frames is what it was before, and every other page of the process, the stack's among them, is still
  mapped.\<close>

theorem cleanup_keeps_frames:
  assumes "process_step Cleanup P Q" and "process_ok E k P" and "pheap (pmem P) \<noteq> 0"
  shows "holding Q = [] \<and> pheap (pmem Q) = 0
    \<and> (\<forall>v. unat v < 0x800000000000 \<longrightarrow> process_frames Q v
        = (if USER_HEAP_START_ADDR \<le> v \<and> v < uheap_current (pheap_object (pmem P)) then None else process_frames P v))
    \<and> (\<exists>fs. phys_pool (umachine (pspace P), uphysical (pspace P)) fs
        \<and> phys_pool (umachine (pspace Q), uphysical (pspace Q)) fs)"
proof -
  obtain u pm where c: "cleanup_all (pspace P) (pmem P) = (u, pm)" "Q = P\<lparr>pspace := u, pmem := pm, holding := []\<rparr>"
    using assms(1) by (auto simp: step_simps)
  obtain fs where w: "heap_backed E (ppage_directory (pmem P)) fs k (pspace P) (pheap_object (pmem P))"
    using process_okD [OF assms(2,3)] by (rule owned_heapE)
  note C = cleanup_parts [OF c(1) assms(3)] and W = cleanup_on_exit_world [OF w]
  have "phys_pool (umachine (pspace P), uphysical (pspace P)) fs"
    using w by (auto simp: heap_backed_def intro: owned_world_pool)
  moreover have "phys_pool (umachine (pspace Q), uphysical (pspace Q)) fs"
    using owned_world_pool [OF W(1)] by (simp add: c(2) C)
  ultimately show ?thesis using W(2) by (auto simp: c(2) C process_frames_def physical_byte_def)
qed

subsection \<open>A small process\<close>

text \<open>The machine of two free frames with a new directory, and a process on it whose heap has no page
  yet, which is how the constructor leaves it when the frames run out.\<close>

definition no_pages :: "addr \<Rightarrow> user_allocator" where
  "no_pages dir = \<lparr>uheap_start = USER_HEAP_START_ADDR, uheap_current = USER_HEAP_START_ADDR,
     uheap_limit = USER_HEAP_MAX_ADDR, ufirst_block = 0, upage_directory = dir, utotal_allocated = 0, num_blocks = 0\<rparr>"

definition small_process :: "addr \<Rightarrow> user_space \<Rightarrow> process" where
  "small_process dir u = \<lparr>pspace = u, pmem = \<lparr>ppage_directory = dir, pvirtual_manager = \<lparr>free_mem_list = []\<rparr>,
     pheap = 0x1000, pheap_object = no_pages dir, stack_top = 0, stack_size = 0, code_start = 0, code_size = 0,
     data_start = 0, data_size = 0\<rparr>, holding = []\<rparr>"

lemma small_process_ok:
  assumes "owned_world E dir fs k (umachine u, uphysical u)"
  shows "process_ok E k (small_process dir u)"
proof -
  have "heap_backed E dir fs k u (no_pages dir)"
    using assms by (auto simp: heap_backed_def no_pages_def USER_HEAP_START_ADDR_def USER_HEAP_MAX_ADDR_def IS_ALIGNED_def)
  moreover have "uheap_ok u (no_pages dir) []"
    by (simp add: uheap_ok_def blocks_ok_def space_def no_pages_def USER_HEAP_START_ADDR_def)
  then have "uh.rep (u, no_pages dir) (uh.in_use (u, no_pages dir) [])" by (intro uh.repI) simp
  ultimately have "owned_heap E dir k u (no_pages dir) []" by (rule owned_heapI) (simp add: uh.holds_def)
  then show ?thesis by (simp add: process_ok_def small_process_def)
qed

text \<open>A new directory, loaded.\<close>

lemma small_world:
  obtains d u where "owned_world (at_directory d kernel_alone) d [0x20000, 0x10000] 12 (umachine u, uphysical u)"
proof -
  obtain m p where mp: "two_frames = (m, p)" by fastforce
  have w: "kernel_world kernel_alone [0x20000, 0x10000] (m, p)" using two_frames_kernel(1) mp by simp
  have "placement m = 0xffffffff80010020"
    using mp by (auto simp: two_frames_def physical_free_eq IS_ALIGNED_def example_paging_def)
  then have "page_room (Suc 12) m" by (simp add: page_room_def)
  with w obtain d m' where d: "owned_world kernel_alone d [0x20000, 0x10000] 12 (m', p)"
    by (rule new_directory_world)
  show thesis
    using owned_world_load [OF d, of d] that [of d "set_umachine (set_page_directory d m') (set_uphysical p example_user)"]
    by simp
qed

text \<open>The first request on it takes both frames, and the block starts behind its header.\<close>

lemma first_malloc:
  assumes "sys_request_memory dir 0x8000000 0x2000 u = (True, u')"
  shows "\<exists>u1 ua1. user_malloc 100 u (no_pages dir) = Some (0x8000018, u1, ua1) \<and> kstate u1 = kstate u'"
  using assms
  by (simp add: user_malloc_def user_find_free_block_def user_find_from.simps user_expand_heap_def link_new_def
      user_coalesce_block_def user_coalesce_next_def user_coalesce_prev_def user_take_block_def no_pages_def Let_def
      USER_HEAP_START_ADDR_def USER_HEAP_MAX_ADDR_def MAX_SINGLE_ALLOC_def ALIGN_UP_def ALIGN_DOWN_def
      sizeof_user_block_def new_user_block_def put_user_def ublock_free_def FLAG_FREE_def USER_MAGIC_FREE_def
      user_data_def split: prod.split)
    (auto dest!: arg_cong [where f = "\<lambda>x. kstate (fst x)"] simp: user_split_rest(1))

lemma small_run:
  obtains d u Q where "process_run [Malloc 100] (small_process d u) Q" "process_ok (at_directory d kernel_alone) 12 (small_process d u)"
    "holding Q = [(0x8000018, 100)]" "pheap (pmem Q) \<noteq> 0"
proof -
  obtain d u where w: "owned_world (at_directory d kernel_alone) d [0x20000, 0x10000] 12 (umachine u, uphysical u)" by (rule small_world)
  have "request_pages 0x2000 = 2" by (simp add: request_pages_def ALIGN_UP_def ALIGN_DOWN_def FRAME_SIZE_def)
  then obtain u' where "sys_request_memory d 0x8000000 0x2000 u = (True, u')"
    using request_spec [of "at_directory d kernel_alone" d "[0x20000, 0x10000]" u "0x2000" "0x8000000"] w
    by (auto simp: owned_world_def page_room_def user_range_def)
  from first_malloc [OF this] obtain u1 ua1 where m: "user_malloc 100 u (no_pages d) = Some (0x8000018, u1, ua1)"
    by blast
  let ?P = "small_process d u"
  have "process_step (Malloc 100) ?P (with_heap ?P u1 ua1 [(0x8000018, 100)])"
    using m by (auto simp: step_simps small_process_def)
  then have "process_run [Malloc 100] ?P (with_heap ?P u1 ua1 [(0x8000018, 100)])"
    by (rule process_run.call [OF _ process_run.finished])
  then show thesis using that small_process_ok [OF w] by (simp add: small_process_def)
qed

theorem process_memory_isolated_witness:
  "\<exists>d u Q. process_run [Malloc 100] (small_process d u) Q \<and> holding Q = [(0x8000018, 100)] \<and> isolated (at_directory d kernel_alone) Q"
proof -
  obtain d u Q where r: "process_run [Malloc 100] (small_process d u) Q" "process_ok (at_directory d kernel_alone) 12 (small_process d u)"
    "holding Q = [(0x8000018, 100)]" by (rule small_run)
  have "process_ok (at_directory d kernel_alone) (3 * run_pages [Malloc 100]) (small_process d u)"
    by (rule process_ok_mono [OF r(2)]) (simp add: malloc_pages_def)
  then show ?thesis using process_memory_isolated [OF r(1)] r by blast
qed

theorem process_never_stuck_witness:
  "\<exists>d u Q R. process_run [Malloc 100] (small_process d u) Q \<and> process_step (Free 0x8000018) Q R"
proof -
  obtain d u Q where r: "process_run [Malloc 100] (small_process d u) Q" "process_ok (at_directory d kernel_alone) 12 (small_process d u)"
    "holding Q = [(0x8000018, 100)]" "pheap (pmem Q) \<noteq> 0" by (rule small_run)
  have "process_ok (at_directory d kernel_alone) (3 * run_pages ([Malloc 100] @ [Free 0x8000018])) (small_process d u)"
    by (rule process_ok_mono [OF r(2)]) (simp add: malloc_pages_def)
  then show ?thesis using process_never_stuck [OF r(1), of "at_directory d kernel_alone" "Free 0x8000018"] r by (simp, blast)
qed

theorem cleanup_keeps_frames_witness:
  "\<exists>P Q. holding P = [(0x8000018, 100)] \<and> process_step Cleanup P Q
     \<and> process_frames P 0x8000018 \<noteq> None \<and> process_frames Q 0x8000018 = None"
proof -
  obtain d u P where r: "process_run [Malloc 100] (small_process d u) P" "process_ok (at_directory d kernel_alone) 12 (small_process d u)"
    "holding P = [(0x8000018, 100)]" "pheap (pmem P) \<noteq> 0" by (rule small_run)
  have ok: "process_ok (at_directory d kernel_alone) 3 P"
    by (rule run_preserves(1) [OF r(1)], rule process_ok_mono [OF r(2)]) (simp add: malloc_pages_def)
  obtain Q where Q: "process_step Cleanup P Q"
    using step_exists [of "at_directory d kernel_alone" Cleanup P] process_ok_mono [OF ok, of 0] by auto
  obtain fs L where L: "heap_backed (at_directory d kernel_alone) (ppage_directory (pmem P)) fs 3 (pspace P) (pheap_object (pmem P))"
    "uh.rep (pspace P, pheap_object (pmem P)) L" "uh.holds L (holding P)"
    using process_okD [OF ok r(4)] by (rule owned_heapE)
  have x: "(0x8000018, 100) \<in> set (holding P)" "unat (0x8000018 :: addr) \<in> held_bytes (0x8000018, 100)"
    by (simp_all add: r(3) held_bytes_def bytes_of_def)
  have "process_frames P 0x8000018 \<noteq> None" using held_byte_backed(2) [OF L x] by (simp add: process_frames_def)
  moreover have "(0x8000018 :: addr) < uheap_current (pheap_object (pmem P))"
    using held_below_current [OF L(2,3) x(1)] x(2) by (auto simp: wordnat)
  moreover from this have "process_frames Q 0x8000018 = None"
    using cleanup_keeps_frames [OF Q ok r(4)] by (simp add: USER_HEAP_START_ADDR_def)
  ultimately show ?thesis using Q r(3) by blast
qed

end
