(* ===== verification/Process_System.thy ===== *)
theory Process_System
  imports Process_Life
begin

text \<open>
  Several processes on one machine. Each has its own page directory, its own heap and, behind its
  pages, its own frames; they share the frame manager, the boot allocator and the kernel's half of the
  memory. A step of the system creates a process with \<^verbatim>\<open>create_user_page_directory\<close> and the
  constructor of \<^verbatim>\<open>process_memory\<close>, or is one call of one process. The heap of a process reads and
  writes its block headers at user addresses, so a step loads the directory of its process with
  \<^verbatim>\<open>insn::set_page_directory\<close> first and the kernel's own afterwards; the repository leaves this
  to the caller (it has no scheduler, and nothing calls \<^verbatim>\<open>set_page_directory\<close>;
  \<open>Process_Boot.new_heap_not_reachable\<close> shows what happens without). The invariant is that of
  \<open>Process_Life\<close> for every process, with all others as its neighbours.
\<close>

subsection \<open>The kernel heap\<close>

text \<open>No call of a process creates the kernel heap.\<close>

abbreviation kernel_heap :: "user_space \<Rightarrow> addr" where
  "kernel_heap u \<equiv> g_kernel_heap (kstate u)"

lemma set_keeps_heap [simp]:
  "kernel_heap (set_umachine m u) = kernel_heap u" "kernel_heap (set_uphysical p u) = kernel_heap u"
  by (simp_all add: set_umachine_def set_uphysical_def)

lemma request_loop_heap: "kernel_heap (snd (request_loop dir b n i u)) = kernel_heap u"
proof (induction dir b n i u rule: request_loop.induct)
  case (1 dir b n i u)
  obtain pa p where p: "physical_alloc (umachine u) (uphysical u) = (pa, p)"
    by (cases "physical_alloc (umachine u) (uphysical u)")
  let ?rm = "map_page dir (b + i * FRAME_SIZE) pa 7 (umachine (set_uphysical p u))"
  show ?case
  proof (cases "i < n \<and> pa \<noteq> 0 \<and> fst ?rm = 0")
    case True
    then show ?thesis
      using 1 [OF _ p [symmetric] refl _ refl refl refl] p
      by (simp add: request_loop.simps [of dir b n i] Let_def)
  next
    case False
    then show ?thesis
      using p by (auto simp: request_loop.simps [of dir b n i] Let_def split: prod.splits)
  qed
qed

lemma stack_loop_heap: "kernel_heap (snd (stack_loop dir b n i u)) = kernel_heap u"
proof (induction dir b n i u rule: stack_loop.induct)
  case (1 dir b n i u)
  obtain pa p where p: "physical_alloc (umachine u) (uphysical u) = (pa, p)"
    by (cases "physical_alloc (umachine u) (uphysical u)")
  let ?rm = "map_page dir (b + i * FRAME_SIZE) pa 7 (umachine (set_uphysical p u))"
  show ?case
  proof (cases "i < n \<and> pa \<noteq> 0 \<and> fst ?rm = 0")
    case True
    then show ?thesis
      using 1 [OF _ p [symmetric] refl _ refl refl refl] p
      by (simp add: stack_loop.simps [of dir b n i] Let_def)
  next
    case False
    then show ?thesis
      using p by (auto simp: stack_loop.simps [of dir b n i] Let_def split: prod.splits)
  qed
qed

lemma expand_heap_kept:
  assumes "user_expand_heap n u ua = Some (r, u', ua')"
  shows "kernel_heap u' = kernel_heap u"
proof -
  let ?q = "sys_request_memory (upage_directory ua) (uheap_current ua) (ALIGN_UP (ucast n)) u"
  have q: "kernel_heap (snd ?q) = kernel_heap u" by (simp add: sys_request_memory_def request_loop_heap)
  have "kstate u' = kstate u \<or> kstate u' = kstate (snd ?q)"
    using assms user_coalesce_rest(1)
    by (auto simp: user_expand_heap_def Let_def split: prod.splits if_splits option.splits dest!: link_new_rest)
      (metis fst_conv)+
  then show ?thesis using q by auto
qed

lemma malloc_heap_kept:
  assumes "user_malloc n u ua = Some (q, u', ua')"
  shows "kernel_heap u' = kernel_heap u"
  using assms expand_heap_kept user_take_rest(1)
  by (auto simp: user_malloc_def Let_def split: if_splits option.splits)

lemma realloc_heap_kept:
  assumes "user_realloc p n u ua = Some (q, u', ua')"
  shows "kernel_heap u' = kernel_heap u"
  using assms malloc_heap_kept user_free_rest(1) user_split_rest(1)
  by (auto simp: user_realloc_def Let_def split: if_splits option.splits prod.splits)
    (metis fst_conv set_keeps_heap(1))+

lemma step_heap_kept:
  assumes "process_step c P Q"
  shows "kernel_heap (pspace Q) = kernel_heap (pspace P)"
  using assms
proof cases
  case (calloc a n q u ua)
  then show ?thesis
    using malloc_heap_kept by (auto simp: user_calloc_def Let_def split: if_splits option.splits)
next
  case (stack n r u pm)
  then show ?thesis using stack_loop_heap by (auto simp: setup_stack_def Let_def split: prod.splits) (metis snd_conv)
next
  case (cleanup u pm)
  then show ?thesis
    by (auto simp: cleanup_all_def kfree_def cleanup_on_exit_def sys_release_memory_def Let_def split: if_splits prod.splits)
qed (use malloc_heap_kept realloc_heap_kept user_free_rest(1) in auto)

subsection \<open>Steps of the system\<close>

text \<open>\<open>shared\<close> is the state of the kernel, with its own directory active, and with the memory of the process
  that ran last below the kernel's half. Each process keeps the memory of its own user half.\<close>

record system =
  shared :: memory_state
  procs :: "process list"

abbreviation smachine :: "system \<Rightarrow> machine" where
  "smachine S \<equiv> kmachine (world (shared S))"

abbreviation sphysical :: "system \<Rightarrow> physical" where
  "sphysical S \<equiv> kphysical (world (shared S))"

abbreviation directory :: "process \<Rightarrow> addr" where
  "directory P \<equiv> ppage_directory (pmem P)"

definition switch_memory :: "machine \<Rightarrow> machine \<Rightarrow> machine" where
  "switch_memory own m = m\<lparr>mem := \<lambda>x. if upper x then mem m x else mem own x\<rparr>"

definition load_directory :: "addr \<Rightarrow> memory_state \<Rightarrow> memory_state" where
  "load_directory d s = s\<lparr>world := (world s)\<lparr>kmachine := set_page_directory d (kmachine (world s))\<rparr>\<rparr>"

text \<open>A process is resumed with its directory loaded and the memory of its user half in place.\<close>

definition resume :: "memory_state \<Rightarrow> process \<Rightarrow> process" where
  "resume s P = P\<lparr>pspace := set_umachine
     (set_page_directory (directory P) (switch_memory (umachine (pspace P)) (kmachine (world s))))
     ((pspace P)\<lparr>kstate := s\<rparr>)\<rparr>"

datatype system_call =
  Spawn "addr \<Rightarrow> user_block"
| Run nat process_call

text \<open>The argument of \<open>Spawn\<close> is what the memory of the new process holds where its block headers will be.\<close>

inductive system_step :: "system_call \<Rightarrow> system \<Rightarrow> system \<Rightarrow> bool" where
  spawn: "\<lbrakk> create_user_page_directory (smachine S) = (d, m);
      process_memory_new d \<lparr>kstate = load_directory d ((shared S)\<lparr>world := (world (shared S))\<lparr>kmachine := m\<rparr>\<rparr>),
          user_headers = hs\<rparr> = Some (u, pm) \<rbrakk>
    \<Longrightarrow> system_step (Spawn hs) S
          (S\<lparr>shared := load_directory (cr3 (smachine S)) (kstate u), procs := procs S @ [\<lparr>pspace = u, pmem = pm, holding = []\<rparr>]\<rparr>)"
| run: "\<lbrakk> i < length (procs S); process_step c (resume (shared S) (procs S ! i)) Q \<rbrakk>
    \<Longrightarrow> system_step (Run i c) S
          (S\<lparr>shared := load_directory (cr3 (smachine S)) (kstate (pspace Q)), procs := (procs S)[i := Q]\<rparr>)"

inductive system_run :: "system_call list \<Rightarrow> system \<Rightarrow> system \<Rightarrow> bool" where
  stopped: "system_run [] S S"
| onward: "system_step c S S' \<Longrightarrow> system_run cs S' S'' \<Longrightarrow> system_run (c # cs) S S''"

code_pred system_step .
code_pred system_run .

inductive_simps system_step_simps: "system_step (Spawn hs) S S'" "system_step (Run i c) S S'"

fun system_allowed :: "system_call \<Rightarrow> system \<Rightarrow> bool" where
  "system_allowed (Spawn hs) S \<longleftrightarrow> True"
| "system_allowed (Run i c) S \<longleftrightarrow> i < length (procs S) \<and> allowed c (procs S ! i)"

text \<open>A new process takes a directory and a heap of 256 pages.\<close>

fun system_call_pages :: "system_call \<Rightarrow> nat" where
  "system_call_pages (Spawn hs) = 257"
| "system_call_pages (Run i c) = call_pages c"

definition system_pages :: "system_call list \<Rightarrow> nat" where
  "system_pages cs = sum_list (map system_call_pages cs)"

lemma system_pages_simps [simp]:
  "system_pages [] = 0" "system_pages (c # cs) = system_call_pages c + system_pages cs"
  by (simp_all add: system_pages_def)

subsection \<open>The invariant\<close>

text \<open>All directories of the machine; \<open>kd\<close> is the kernel's own.\<close>

definition everyone :: "addr \<Rightarrow> machine \<Rightarrow> process list \<Rightarrow> neighbours" where
  "everyone kd m Ps = \<lparr>active = kd, home = kd, others = (\<lambda>d. (d, user_view m d)) ` set (kd # map directory Ps)\<rparr>"

text \<open>The world around a process while its directory is loaded.\<close>

definition around :: "addr \<Rightarrow> machine \<Rightarrow> process list \<Rightarrow> process \<Rightarrow> neighbours" where
  "around kd m Ps P = at_directory (directory P) (without (directory P) (everyone kd m Ps))"

definition system_ok :: "addr \<Rightarrow> nat \<Rightarrow> system \<Rightarrow> bool" where
  "system_ok kd k S \<longleftrightarrow> g_kernel_heap (shared S) = 0 \<and> distinct (kd # map directory (procs S)) \<and> page_room k (smachine S)
     \<and> (\<exists>fs. kernel_world (everyone kd (smachine S) (procs S)) fs (smachine S, sphysical S))
     \<and> (\<forall>P \<in> set (procs S). process_ok (around kd (smachine S) (procs S) P) k (resume (shared S) P))"

lemma system_okI:
  assumes "g_kernel_heap (shared S) = 0" "distinct (kd # map directory (procs S))" "page_room k (smachine S)"
    "kernel_world (everyone kd (smachine S) (procs S)) fs (smachine S, sphysical S)"
    "\<And>P. P \<in> set (procs S) \<Longrightarrow> process_ok (around kd (smachine S) (procs S) P) k (resume (shared S) P)"
  shows "system_ok kd k S"
  using assms unfolding system_ok_def by blast

lemma system_okE:
  assumes "system_ok kd k S"
  obtains fs where "g_kernel_heap (shared S) = 0" "distinct (kd # map directory (procs S))" "page_room k (smachine S)"
    "kernel_world (everyone kd (smachine S) (procs S)) fs (smachine S, sphysical S)"
    "\<And>P. P \<in> set (procs S) \<Longrightarrow> process_ok (around kd (smachine S) (procs S) P) k (resume (shared S) P)"
  using assms unfolding system_ok_def by blast

lemma system_ok_mono:
  assumes "system_ok kd k S" "j \<le> k"
  shows "system_ok kd j S"
  using assms page_room_mono process_ok_mono unfolding system_ok_def by blast

lemma phys_pool_load: "phys_pool (m, p) fs \<Longrightarrow> phys_pool (set_page_directory d m, p) fs"
  by (auto simp: phys_pool_def valid_frame_def)

lemma phys_pool_unique:
  assumes "phys_pool w fs" "phys_pool w gs"
  shows "fs = gs"
  using assms unfolding phys_pool_def by (auto dest: node_list_unique)

lemma resume_simps [simp]:
  "umachine (pspace (resume s P))
    = set_page_directory (directory P) (switch_memory (umachine (pspace P)) (kmachine (world s)))"
  "uphysical (pspace (resume s P)) = kphysical (world s)" "kernel_heap (pspace (resume s P)) = g_kernel_heap s"
  "user_headers (pspace (resume s P)) = user_headers (pspace P)" "pmem (resume s P) = pmem P"
  "holding (resume s P) = holding P"
  by (simp_all add: resume_def set_umachine_def umachine_def uphysical_def)

lemma load_directory_simps [simp]:
  "kmachine (world (load_directory d s)) = set_page_directory d (kmachine (world s))"
  "kphysical (world (load_directory d s)) = kphysical (world s)"
  "g_kernel_heap (load_directory d s) = g_kernel_heap s"
  by (simp_all add: load_directory_def)

lemma resume_self:
  assumes "cr3 (umachine (pspace P)) = directory P"
  shows "resume (load_directory kd (kstate (pspace P))) P = P"
proof -
  have "set_page_directory d (switch_memory m (set_page_directory kd m)) = m" if "cr3 m = d" for m d
    using that by (cases m) (auto simp: switch_memory_def set_page_directory_def fun_eq_iff)
  note this [OF assms]
  then show ?thesis by (simp add: resume_def set_umachine_def umachine_def load_directory_def)
qed

lemma resume_resumed: "(resume s P)\<lparr>pspace := pspace (resume s' P)\<rparr> = resume s' P"
  by (simp add: resume_def)

lemma switch_world:
  assumes "owned_world E dir fs k (m, p)"
  shows "owned_world E dir fs k (switch_memory own m, p)" "translate (switch_memory own m) dir v = translate m dir v"
  by (rule owned_world_upper [OF assms]; simp add: switch_memory_def)+

lemma switched_world:
  assumes "owned_world E dir fs k (set_page_directory d (switch_memory own m), p)"
  shows "translate m dir v = translate (switch_memory own m) dir v"
proof -
  have "translate (set_page_directory d m) dir v = translate (set_page_directory d (switch_memory own m)) dir v"
    by (rule owned_world_upper [OF assms]) (simp_all add: switch_memory_def)
  then show ?thesis by simp
qed

lemma process_ok_world:
  assumes "process_ok E k P"
  obtains fs where "owned_world E (directory P) fs k (umachine (pspace P), uphysical (pspace P))"
proof (cases "pheap (pmem P) = 0")
  case True
  then show thesis using assms that by (auto simp: process_ok_def)
next
  case False
  obtain fs L where "heap_backed E (directory P) fs k (pspace P) (pheap_object (pmem P))"
    using process_okD [OF assms False] by (rule owned_heapE)
  then show thesis using that unfolding heap_backed_def by blast
qed

lemma process_ok_active: "process_ok E k P \<Longrightarrow> cr3 (umachine (pspace P)) = active E"
  by (rule process_ok_world) (auto simp: owned_world_def elim!: pages_worldE dest: neighbours_okD(1))

lemma process_reframed:
  assumes ok: "process_ok E k P" and w: "owned_world F (directory P) fs j (umachine u, uphysical u)"
    and h: "user_headers u = user_headers (pspace P)"
    and v: "\<And>a. user_page a \<Longrightarrow> translate (umachine u) (directory P) a = translate (umachine (pspace P)) (directory P) a"
  shows "process_ok F j (P\<lparr>pspace := u\<rparr>)"
proof (cases "pheap (pmem P) = 0")
  case True
  then show ?thesis using ok w by (auto simp: process_ok_def)
next
  case False
  obtain gs L where L: "heap_backed E (directory P) gs k (pspace P) (pheap_object (pmem P))"
    "uh.rep (pspace P, pheap_object (pmem P)) L" "uh.holds L (holding P)"
    using process_okD [OF ok False] by (rule owned_heapE)
  have "heap_backed F (directory P) fs j u (pheap_object (pmem P))"
    by (rule heap_backed_stack [OF L(1) w]) (simp add: v)
  then have "owned_heap F (directory P) j u (pheap_object (pmem P)) (holding P)"
    using rep_same [OF L(2) h] L(3) by (rule owned_heapI)
  then show ?thesis using False by (simp add: process_ok_def)
qed

lemma everyone_with:
  assumes "others F = (\<lambda>d. (d, user_view m d)) ` set (kd # map directory Ps)" "active F = kd" "home F = kd"
    and "\<And>d. d \<in> set (kd # map directory Ps) \<Longrightarrow> user_view m' d = user_view m d"
    and "set Qs = insert Q (set Ps)"
  shows "everyone kd m' Qs = with_neighbour (directory Q) m' F"
proof -
  have "others (everyone kd m' Qs) = insert (directory Q, user_view m' (directory Q)) ((\<lambda>d. (d, user_view m' d)) ` set (kd # map directory Ps))"
    by (auto simp: everyone_def assms(5))
  also have "(\<lambda>d. (d, user_view m' d)) ` set (kd # map directory Ps) = others F"
    unfolding assms(1) using assms(4) by (intro image_cong) auto
  finally show ?thesis using assms(2,3) by (simp add: with_neighbour_def everyone_def)
qed

lemma without_with:
  assumes "d \<notin> fst ` others F"
  shows "without d (with_neighbour d m F) = F"
proof -
  have "{x \<in> insert (d, user_view m d) (others F). fst x \<noteq> d} = others F" using assms by force
  then show ?thesis by (cases F) (simp add: without_def with_neighbour_def)
qed

lemma without_apart: "views_apart F \<Longrightarrow> views_apart (without d F)"
  unfolding views_apart_def without_def by simp blast

text \<open>One process has made a step, or has just been created: \<open>F\<close> are the others.\<close>

lemma system_advance:
  assumes ok: "process_ok (at_directory (directory Q) F) k Q" and F: "views_apart F" "active F = kd" "home F = kd"
      "others F = (\<lambda>d. (d, user_view m d)) ` set (kd # map directory Ps)"
    and old: "\<And>P. P \<in> set Ps \<Longrightarrow> kmachine (world s) = m \<and> process_ok (E P) j (resume s P)"
    and S: "set (procs S) = insert Q (set Ps)" "distinct (kd # map directory (procs S))"
      "shared S = load_directory kd (kstate (pspace Q))" "g_kernel_heap (shared S) = 0"
  shows "system_ok kd k S"
proof -
  let ?m = "smachine S" and ?p = "sphysical S" and ?d = "directory Q" and ?A = "everyone kd (smachine S) (procs S)"
  have mp: "set_page_directory kd (umachine (pspace Q)) = ?m" "uphysical (pspace Q) = ?p"
    by (simp_all add: S(3) umachine_def uphysical_def)
  obtain fs where "owned_world (at_directory ?d F) ?d fs k (umachine (pspace Q), ?p)"
    using process_ok_world [OF ok] unfolding mp .
  from owned_world_load [OF this, of kd] have "owned_world (at_directory kd F) ?d fs k (?m, ?p)" by (simp add: mp(1))
  moreover have "at_directory kd F = F" using F(2) by (cases F) simp
  ultimately have w: "owned_world F ?d fs k (?m, ?p)" by simp
  then have W: "pages_world F ?d fs (?m, ?p)" "frames_owned F ?d fs ?m" "page_room k ?m" by (simp_all add: owned_world_def)
  have fresh: "?d \<notin> fst ` others F" using W(1) by (simp add: pages_world_def)
  have keep: "user_view ?m d = user_view m d" if "d \<in> set (kd # map directory Ps)" for d
    by (rule owned_world_views [OF w]) (use that F(4) in blast)
  have A: "?A = with_neighbour ?d ?m F" by (rule everyone_with [OF F(4,2,3) keep S(1)])
  note V = frames_owned_views [OF W(2) F(1)]
  have act: "active F \<in> insert ?d (fst ` others F)" "?d \<noteq> home F" using F(2-4) fresh by auto
  then have K: "kernel_world ?A fs (?m, ?p)"
    unfolding A using V frames_ownedD(1) [OF W(2)] F(2,3) by (intro pages_world_kernel [OF W(1)]) simp_all
  show ?thesis
  proof (rule system_okI [OF S(4,2) W(3) K])
    fix P assume "P \<in> set (procs S)"
    then consider "P = Q" | "P \<in> set Ps" using S(1) by auto
    then show "process_ok (around kd ?m (procs S) P) k (resume (shared S) P)"
    proof cases
      case 1
      have "around kd ?m (procs S) Q = at_directory ?d F" by (simp add: around_def A without_with [OF fresh])
      moreover have "resume (shared S) Q = Q"
        unfolding S(3) by (rule resume_self) (simp add: process_ok_active [OF ok])
      ultimately show ?thesis using ok 1 by simp
    next
      case 2
      have P: "(directory P, user_view ?m (directory P)) \<in> others ?A" using S(1) 2 by (auto simp: everyone_def)
      have "directory P \<noteq> kd" using S(1,2) 2 by auto
      then have "directory P \<noteq> home ?A" by (simp add: everyone_def)
      from kernel_world_pages(1) [OF K P this W(3)]
      have p: "owned_world (without (directory P) ?A) (directory P) fs k (?m, ?p)" .
      have o: "kmachine (world s) = m" "process_ok (E P) j (resume s P)" using old [OF 2] by simp_all
      obtain gs where "owned_world (E P) (directory P) gs j
          (set_page_directory (directory P) (switch_memory (umachine (pspace P)) m), kphysical (world s))"
        using process_ok_world [OF o(2)] o(1) by auto
      note t = switched_world [OF this]
      have e: "translate ?m (directory P) a = translate m (directory P) a" if "user_page a" for a
        using fun_cong [OF keep [of "directory P"], of a] 2 that by (simp add: user_view_def)
      have "process_ok (around kd ?m (procs S) P) k ((resume s P)\<lparr>pspace := pspace (resume (shared S) P)\<rparr>)"
        unfolding around_def
        by (rule process_reframed [OF o(2), where fs = fs])
          (simp_all add: switch_world(2) [OF p] owned_world_load [OF switch_world(1) [OF p]] t o(1) e)
      then show ?thesis unfolding resume_resumed .
    qed
  qed
qed

lemma list_split: "i < length xs \<Longrightarrow> xs = take i xs @ xs ! i # drop (Suc i) xs"
  by (simp add: id_take_nth_drop)

lemma kernel_world_cr3: "kernel_world F fs (m, p) \<Longrightarrow> cr3 m = active F"
  by (rule kernel_worldE) (auto dest: neighbours_okD(1))

lemma run_step_ok:
  assumes "i < length (procs S)" "process_step c (resume (shared S) (procs S ! i)) Q"
    and ok: "system_ok kd (3 * call_pages c + k) S"
  shows "system_ok kd k (S\<lparr>shared := load_directory (cr3 (smachine S)) (kstate (pspace Q)), procs := (procs S)[i := Q]\<rparr>)"
proof -
  let ?P = "procs S ! i" and ?A = "everyone kd (smachine S) (procs S)" and ?Ps = "take i (procs S) @ drop (Suc i) (procs S)"
  let ?S = "S\<lparr>shared := load_directory (cr3 (smachine S)) (kstate (pspace Q)), procs := (procs S)[i := Q]\<rparr>"
  obtain fs where S: "g_kernel_heap (shared S) = 0" "distinct (kd # map directory (procs S))"
    "kernel_world ?A fs (smachine S, sphysical S)"
    "\<And>P. P \<in> set (procs S) \<Longrightarrow> process_ok (around kd (smachine S) (procs S) P) (3 * call_pages c + k) (resume (shared S) P)"
    using ok by (rule system_okE) blast
  have c: "cr3 (smachine S) = kd" using kernel_world_cr3 [OF S(3)] by (simp add: everyone_def)
  have all: "procs S = take i (procs S) @ ?P # drop (Suc i) (procs S)" using assms(1) by (rule list_split)
  have in_all: "set (procs S) = insert ?P (set ?Ps)" by (subst all) simp
  have "distinct (kd # map directory (take i (procs S) @ ?P # drop (Suc i) (procs S)))" using S(2) all by metis
  then have fresh: "directory ?P \<notin> set (kd # map directory ?Ps)" by auto
  note Q = step_preserves [OF assms(2) S(4) [OF nth_mem [OF assms(1)]]]
  have d: "directory Q = directory ?P" using Q(2) by simp
  have upd: "(procs S)[i := Q] = take i (procs S) @ Q # drop (Suc i) (procs S)"
    using assms(1) by (rule upd_conv_take_nth_drop)
  have "g_kernel_heap (shared ?S) = 0" using step_heap_kept [OF assms(2)] S(1) by simp
  moreover have "views_apart (without (directory ?P) ?A)" using S(3) by (intro without_apart) (simp add: kernel_world_def)
  moreover have "others (without (directory ?P) ?A) = (\<lambda>d. (d, user_view (smachine S) d)) ` set (kd # map directory ?Ps)"
    using fresh unfolding without_def everyone_def by (auto simp: in_all) (metis imageI)+
  moreover have "map directory ((procs S)[i := Q]) = map directory (procs S)"
    using assms(1) d by (simp add: map_update list_update_same_conv)
  moreover have "process_ok (around kd (smachine S) (procs S) P) (3 * call_pages c + k) (resume (shared S) P)" if "P \<in> set ?Ps" for P
    using S(4) in_all that by blast
  ultimately show ?thesis
    using Q(1) S(2) by (intro system_advance [where F = "without (directory ?P) ?A" and Ps = ?Ps and m = "smachine S"
          and s = "shared S" and E = "around kd (smachine S) (procs S)"])
      (auto simp: upd without_def everyone_def c d around_def)
qed

lemma new_process_heap:
  assumes "process_memory_new d u = Some (u', pm)" "kernel_heap u = 0"
  shows "kernel_heap u' = 0"
proof -
  have h: "kernel_heap (fst (user_allocator_new d v)) = kernel_heap v" for v
    using request_loop_heap by (auto simp: user_allocator_new_def sys_request_memory_def put_user_def Let_def split: prod.split) (metis snd_conv)+
  obtain m v where v: "virt_new (umachine u) = (m, v)" by fastforce
  obtain q s where q: "kmalloc sizeof_user_allocator (kstate (set_umachine m u)) = Some (q, s)" "g_kernel_heap s = 0"
    using assms by (auto simp: process_memory_new_def v kmalloc_def on_placement_def set_umachine_def Let_def
        split: option.splits prod.splits)
  have "u' = fst (user_allocator_new d ((set_umachine m u)\<lparr>kstate := s\<rparr>))"
    using assms(1) q(1) by (auto simp: process_memory_new_def v split: if_splits prod.splits)
  then show ?thesis using h q(2) by simp
qed

lemma spawn_ok:
  assumes ok: "system_ok kd (3 * 257 + k) S"
  obtains S' where "system_step (Spawn hs) S S'" "system_ok kd k S'"
proof -
  let ?A = "everyone kd (smachine S) (procs S)"
  obtain fs where S: "g_kernel_heap (shared S) = 0" "distinct (kd # map directory (procs S))" "page_room (3 * 257 + k) (smachine S)"
    "kernel_world ?A fs (smachine S, sphysical S)"
    "\<And>P. P \<in> set (procs S) \<Longrightarrow> process_ok (around kd (smachine S) (procs S) P) (3 * 257 + k) (resume (shared S) P)"
    using ok by (rule system_okE) blast
  have c: "cr3 (smachine S) = kd" using kernel_world_cr3 [OF S(4)] by (simp add: everyone_def)
  have room: "page_room (Suc (3 * 256 + k + 1)) (smachine S)" using S(3) by (rule page_room_mono) simp
  obtain d m where d: "create_user_page_directory (smachine S) = (d, m)" "owned_world ?A d fs (3 * 256 + k + 1) (m, sphysical S)"
    using S(4) room by (rule new_directory_world)
  let ?u = "\<lparr>kstate = load_directory d ((shared S)\<lparr>world := (world (shared S))\<lparr>kmachine := m\<rparr>\<rparr>), user_headers = hs\<rparr>"
  have u: "umachine ?u = set_page_directory d m" "uphysical ?u = sphysical S" "kernel_heap ?u = 0"
    using S(1) by (simp_all add: umachine_def uphysical_def)
  obtain u' pm where n: "process_memory_new d ?u = Some (u', pm)" "ppage_directory pm = d"
    "process_ok (at_directory d ?A) k \<lparr>pspace = u', pmem = pm, holding = []\<rparr>"
    by (rule process_memory_new_ok [of "at_directory d ?A" d fs k ?u]) (simp_all only: u owned_world_load [OF d(2)])
  let ?Q = "\<lparr>pspace = u', pmem = pm, holding = []\<rparr>"
  let ?S = "S\<lparr>shared := load_directory (cr3 (smachine S)) (kstate u'), procs := procs S @ [?Q]\<rparr>"
  have step: "system_step (Spawn hs) S ?S" using d(1) n(1) by (rule system_step.spawn)
  have "pages_world ?A d fs (m, sphysical S)" using d(2) by (simp add: owned_world_def)
  then have "d \<notin> set (kd # map directory (procs S))" by (force simp: pages_world_def everyone_def)
  then have "distinct (kd # map directory (procs ?S))" using S(2) n(2) by auto
  moreover have "kernel_heap u' = 0" by (rule new_process_heap [OF n(1) u(3)])
  moreover have "views_apart ?A" using S(4) by (simp add: kernel_world_def)
  ultimately have "system_ok kd k ?S"
    using n(2,3) S(5) by (intro system_advance [where F = ?A and Ps = "procs S" and m = "smachine S" and s = "shared S"
          and E = "around kd (smachine S) (procs S)"]) (auto simp: everyone_def c)
  then show thesis by (rule that [OF step])
qed

lemma system_step_unique: "system_step c S T \<Longrightarrow> system_step c S U \<Longrightarrow> U = T"
  by (cases c) (auto simp: system_step_simps dest: step_unique)

lemma system_step_ok:
  assumes "system_step c S T" "system_ok kd (3 * system_call_pages c + k) S"
  shows "system_ok kd k T"
  using assms(1)
proof cases
  case (spawn d m hs u pm)
  have "system_ok kd (3 * 257 + k) S" using assms(2) spawn(1) by simp
  then obtain U where "system_step (Spawn hs) S U" "system_ok kd k U" by (rule spawn_ok)
  then show ?thesis using system_step_unique assms(1) spawn(1) by blast
next
  case (run i c Q)
  then show ?thesis using assms(2) run_step_ok by simp
qed

lemma system_step_exists:
  assumes ok: "system_ok kd (3 * system_call_pages c) S" and a: "system_allowed c S"
  shows "\<exists>T. system_step c S T"
proof (cases c)
  case (Spawn hs)
  then have "system_ok kd (3 * 257 + 0) S" using ok by simp
  then obtain T where "system_step (Spawn hs) S T" by (rule spawn_ok)
  then show ?thesis using Spawn by blast
next
  case (Run i c')
  then have i: "i < length (procs S)" "allowed c' (procs S ! i)" and "system_ok kd (3 * call_pages c') S" using ok a by simp_all
  then obtain E where "process_ok E (3 * call_pages c') (resume (shared S) (procs S ! i))"
    using nth_mem [OF i(1)] unfolding system_ok_def by blast
  moreover have "allowed c' (resume (shared S) (procs S ! i))" using i(2) by (cases c') simp_all
  ultimately obtain Q where "process_step c' (resume (shared S) (procs S ! i)) Q" using step_exists by blast
  then show ?thesis using i(1) Run by (auto simp: system_step_simps)
qed

lemma system_run_ok:
  assumes "system_run cs S T" "system_ok kd (3 * system_pages cs + k) S"
  shows "system_ok kd k T"
  using assms
proof (induction arbitrary: k rule: system_run.induct)
  case (onward c S S' cs S'')
  have "system_ok kd (3 * system_call_pages c + (3 * system_pages cs + k)) S" using onward.prems by (simp add: algebra_simps)
  then show ?case using system_step_ok [OF onward.hyps(1)] onward.IH by blast
qed simp

subsection \<open>What the processes can rely on\<close>

text \<open>The bytes that the processes hold, by process number and virtual address, and what is behind them.\<close>

definition held_addresses :: "system \<Rightarrow> (nat \<times> addr) set" where
  "held_addresses S = {(i, a). i < length (procs S) \<and> a \<in> bytes_held (procs S ! i)}"

definition byte_behind :: "system \<Rightarrow> nat \<times> addr \<Rightarrow> addr option" where
  "byte_behind S x = physical_byte (smachine S) (directory (procs S ! fst x)) (snd x)"

definition system_isolated :: "system \<Rightarrow> bool" where
  "system_isolated S \<longleftrightarrow> (\<forall>P \<in> set (procs S). sorted_wrt (\<lambda>x y. held_bytes x \<inter> held_bytes y = {}) (holding P))
     \<and> inj_on (byte_behind S) (held_addresses S)
     \<and> (\<exists>fs. phys_pool (smachine S, sphysical S) fs
         \<and> (\<forall>x \<in> held_addresses S. \<exists>p. byte_behind S x = Some p \<and> ALIGN_DOWN p \<notin> set fs))"

lemma held_in_user_half:
  assumes "process_ok E k P" "a \<in> bytes_held P"
  shows "unat a < 0x800000000000"
proof (cases "pheap (pmem P) = 0")
  case True
  then show ?thesis using assms by (auto simp: process_ok_def bytes_held_def)
next
  case False
  obtain fs L where L: "heap_backed E (directory P) fs k (pspace P) (pheap_object (pmem P))"
    "uh.rep (pspace P, pheap_object (pmem P)) L" "uh.holds L (holding P)"
    using process_okD [OF assms(1) False] by (rule owned_heapE)
  then show ?thesis using held_byte_backed(1) [OF L] assms(2) unfolding bytes_held_def by blast
qed

lemma system_ok_isolated:
  assumes ok: "system_ok kd k S"
  shows "system_isolated S"
proof -
  let ?m = "smachine S" and ?A = "everyone kd (smachine S) (procs S)"
  obtain fs where S: "distinct (kd # map directory (procs S))" "page_room k ?m" "kernel_world ?A fs (?m, sphysical S)"
    "\<And>P. P \<in> set (procs S) \<Longrightarrow> process_ok (around kd ?m (procs S) P) k (resume (shared S) P)"
    using ok by (rule system_okE) blast
  have own: "frames_owned (without (directory P) ?A) (directory P) fs ?m"
    and see: "translate (switch_memory (umachine (pspace P)) ?m) (directory P) a = translate ?m (directory P) a"
    if "P \<in> set (procs S)" for P a
  proof -
    have "(directory P, user_view ?m (directory P)) \<in> others ?A" "directory P \<noteq> home ?A"
      using S(1) that by (auto simp: everyone_def)
    note w = kernel_world_pages(1) [OF S(3) this S(2)]
    show "frames_owned (without (directory P) ?A) (directory P) fs ?m" using w by (simp add: owned_world_def)
    show "translate (switch_memory (umachine (pspace P)) ?m) (directory P) a = translate ?m (directory P) a"
      by (rule switch_world(2) [OF w])
  qed
  have held: "unat a < 0x800000000000 \<and> (\<exists>p. physical_byte ?m (directory P) a = Some p)"
    if P: "P \<in> set (procs S)" and a: "a \<in> bytes_held P" for P a
  proof -
    have a': "a \<in> bytes_held (resume (shared S) P)" using a by (simp add: bytes_held_def)
    obtain p where "process_frames (resume (shared S) P) a = Some p"
      using process_ok_isolated [OF S(4) [OF P]] a' unfolding isolated_def by blast
    then show ?thesis
      using held_in_user_half [OF S(4) [OF P] a'] see [OF P] by (simp add: process_frames_def physical_byte_def)
  qed
  have apart: "i = j \<and> a = b"
    if i: "i < length (procs S)" "a \<in> bytes_held (procs S ! i)" and j: "j < length (procs S)" "b \<in> bytes_held (procs S ! j)"
      and x: "physical_byte ?m (directory (procs S ! i)) a = Some x" "physical_byte ?m (directory (procs S ! j)) b = Some x"
    for i j a b x
  proof (cases "i = j")
    case True
    then show ?thesis
      using physical_byte_inject [OF own [OF nth_mem [OF i(1)]] _ _ x(1)] held [OF nth_mem [OF i(1)]] i(2) j(2) x(2) by simp
  next
    case False
    let ?P = "procs S ! i" and ?Q = "procs S ! j"
    have "distinct (map directory (procs S))" using S(1) by simp
    then have ne: "directory ?Q \<noteq> directory ?P" using False i(1) j(1) by (auto simp: distinct_conv_nth)
    obtain e where e: "translate ?m (directory ?Q) b = Some e" "ALIGN_DOWN x = ALIGN_DOWN e"
      using x(2) by (rule physical_byte_in_frame)
    have "user_page b" using held [OF nth_mem [OF j(1)] j(2)] by (simp add: user_page_below)
    then have "user_view ?m (directory ?Q) b = Some e" using e(1) by (simp add: user_view_def)
    moreover have "(directory ?Q, user_view ?m (directory ?Q)) \<in> others (without (directory ?P) ?A)"
      using ne j(1) by (auto simp: without_def everyone_def)
    ultimately have "ALIGN_DOWN x \<in> taken (without (directory ?P) ?A)" unfolding e(2) by (rule takenI [rotated])
    moreover have "ALIGN_DOWN x \<notin> taken (without (directory ?P) ?A)"
      using physical_byte_frame(2) [OF own [OF nth_mem [OF i(1)]] _ x(1)] held [OF nth_mem [OF i(1)] i(2)] by blast
    ultimately show ?thesis by blast
  qed
  have "inj_on (byte_behind S) (held_addresses S)"
  proof (rule inj_onI, clarsimp simp: held_addresses_def byte_behind_def)
    fix i a j b
    assume a: "i < length (procs S)" "a \<in> bytes_held (procs S ! i)" "j < length (procs S)" "b \<in> bytes_held (procs S ! j)"
      "physical_byte ?m (directory (procs S ! i)) a = physical_byte ?m (directory (procs S ! j)) b"
    obtain x where "physical_byte ?m (directory (procs S ! i)) a = Some x" using held [OF nth_mem [OF a(1)] a(2)] by blast
    then show "i = j \<and> a = b" using apart [OF a(1-4), of x] a(5) by simp
  qed
  moreover have "\<exists>p. byte_behind S x = Some p \<and> ALIGN_DOWN p \<notin> set fs" if "x \<in> held_addresses S" for x
  proof -
    have x: "fst x < length (procs S)" "snd x \<in> bytes_held (procs S ! fst x)" using that by (auto simp: held_addresses_def)
    note h = held [OF nth_mem [OF x(1)] x(2)]
    obtain p where "byte_behind S x = Some p" using h by (auto simp: byte_behind_def)
    then show ?thesis
      using physical_byte_frame(1) [OF own [OF nth_mem [OF x(1)]], of "snd x" p] h by (simp add: byte_behind_def)
  qed
  moreover have "sorted_wrt (\<lambda>x y. held_bytes x \<inter> held_bytes y = {}) (holding P)" if "P \<in> set (procs S)" for P
    using process_ok_isolated [OF S(4) [OF that]] by (simp add: isolated_def)
  moreover have "phys_pool (?m, sphysical S) fs" using S(3) unfolding kernel_world_def phys_pool_def by auto
  ultimately show ?thesis unfolding system_isolated_def by blast
qed

text \<open>C12. Processes are isolated from each other. A caller creates processes and makes calls of processes in any
  order, with the directory of the process loaded around its constructor and its calls (what
  \<^verbatim>\<open>insn::set_page_directory\<close> is for; the repository does not call it), with calls a program is
  allowed to make (it frees and resizes only what it holds, and to at most 2 GB), and with boot memory for the
  page tables. Then the blocks each process holds never overlap, every byte of them has a physical byte
  behind it, no two bytes of any processes share one, though their virtual addresses be the same, and none
  lies in a frame that the frame manager may hand out again. And the system never gets stuck: every call
  that is allowed next returns. The frames are taken to be apart from the memory the kernel itself uses,
  which \<open>free_list_inside_free_frames\<close> shows to be up to the machine.\<close>

theorem processes_isolated:
  assumes "system_run cs S T" and "system_ok kd (3 * system_pages (cs @ [c])) S"
  shows "system_isolated T \<and> (system_allowed c T \<longrightarrow> (\<exists>!U. system_step c T U))"
proof -
  have "3 * system_pages (cs @ [c]) = 3 * system_pages cs + 3 * system_call_pages c" by (simp add: system_pages_def)
  then have ok: "system_ok kd (3 * system_call_pages c) T" using system_run_ok [OF assms(1)] assms(2) by simp
  then show ?thesis using system_ok_isolated system_step_exists system_step_unique by blast
qed

subsection \<open>A small system\<close>

text \<open>Two processes whose heaps have no pages yet, on a machine of four free frames: after one request each they
  hold blocks at the same virtual address.\<close>

lemma admit_process:
  assumes ok: "system_ok kd (k + 1) S" and p: "phys_pool (smachine S, sphysical S) fs"
  obtains S' d u where "procs S' = procs S @ [small_process d u]" "system_ok kd k S'" "phys_pool (smachine S', sphysical S') fs"
proof -
  let ?A = "everyone kd (smachine S) (procs S)"
  obtain gs where S: "g_kernel_heap (shared S) = 0" "distinct (kd # map directory (procs S))" "page_room (k + 1) (smachine S)"
    "kernel_world ?A gs (smachine S, sphysical S)"
    "\<And>P. P \<in> set (procs S) \<Longrightarrow> process_ok (around kd (smachine S) (procs S) P) (k + 1) (resume (shared S) P)"
    using ok by (rule system_okE) blast
  have "page_room (Suc k) (smachine S)" using S(3) by simp
  with S(4) obtain d m where d: "owned_world ?A d gs k (m, sphysical S)" by (rule new_directory_world)
  have g: "phys_pool (smachine S, sphysical S) gs" using S(4) unfolding kernel_world_def phys_pool_def by auto
  have gs: "gs = fs" by (rule phys_pool_unique [OF g p])
  have c: "cr3 (smachine S) = kd" using kernel_world_cr3 [OF S(4)] by (simp add: everyone_def)
  let ?s = "load_directory d ((shared S)\<lparr>world := (world (shared S))\<lparr>kmachine := m\<rparr>\<rparr>)"
  let ?u = "\<lparr>kstate = ?s, user_headers = \<lambda>a. new_user_block 0 True\<rparr>"
  let ?Q = "small_process d ?u" and ?S = "S\<lparr>shared := load_directory kd ?s, procs := procs S @ [small_process d ?u]\<rparr>"
  have u: "umachine ?u = set_page_directory d m" "uphysical ?u = sphysical S" by (simp_all add: umachine_def uphysical_def)
  have q: "process_ok (at_directory d ?A) k ?Q"
    by (rule small_process_ok [where fs = gs]) (simp only: u owned_world_load [OF d])
  have dq: "directory ?Q = d" "pspace ?Q = ?u" by (simp_all add: small_process_def)
  have "pages_world ?A d gs (m, sphysical S)" using d by (simp add: owned_world_def)
  then have "d \<notin> set (kd # map directory (procs S))" by (force simp: pages_world_def everyone_def)
  then have "distinct (kd # map directory (procs ?S))" using S(2) dq by auto
  moreover have "views_apart ?A" using S(4) by (simp add: kernel_world_def)
  ultimately have "system_ok kd k ?S"
    using q S(1,5) by (intro system_advance [where F = ?A and Ps = "procs S" and m = "smachine S" and s = "shared S"
          and E = "around kd (smachine S) (procs S)"]) (auto simp: everyone_def dq)
  moreover have "phys_pool (smachine ?S, sphysical ?S) fs"
    using owned_world_pool [OF owned_world_load [OF d, of kd]] gs by simp
  ultimately show thesis by (intro that [of ?S]) simp_all
qed

lemma first_request:
  assumes ok: "system_ok kd (k + 9) S" and p: "phys_pool (smachine S, sphysical S) fs" and fs: "2 \<le> length fs"
    and i: "i < length (procs S)" "procs S ! i = small_process d v"
  obtains T Q where "system_step (Run i (Malloc 100)) S T" "procs T = (procs S)[i := Q]" "holding Q = [(0x8000018, 100)]"
    "phys_pool (smachine T, sphysical T) (drop 2 fs)" "system_ok kd k T"
proof -
  let ?A = "everyone kd (smachine S) (procs S)" and ?P = "small_process d v"
  obtain gs where S: "distinct (kd # map directory (procs S))" "page_room (k + 9) (smachine S)"
    "kernel_world ?A gs (smachine S, sphysical S)" using ok by (rule system_okE) blast
  have g: "phys_pool (smachine S, sphysical S) gs" using S(3) unfolding kernel_world_def phys_pool_def by auto
  have gs: "gs = fs" by (rule phys_pool_unique [OF g p])
  have P: "?P \<in> set (procs S)" using nth_mem [OF i(1)] i(2) by simp
  have d: "directory ?P = d" "pspace ?P = v" by (simp_all add: small_process_def)
  have "(d, user_view (smachine S) d) \<in> others ?A" "d \<noteq> home ?A"
    using S(1) P d by (force simp: everyone_def)+
  from kernel_world_pages(1) [OF S(3) this S(2)]
  have w: "owned_world (at_directory d (without d ?A)) d fs (k + 9)
      (set_page_directory d (switch_memory (umachine v) (smachine S)), sphysical S)"
    unfolding gs by (intro owned_world_load switch_world)
  let ?R = "resume (shared S) ?P"
  let ?u = "pspace ?R"
  have u: "umachine ?u = set_page_directory d (switch_memory (umachine v) (smachine S))" "uphysical ?u = sphysical S"
    by (simp_all add: d)
  have "request_pages 0x2000 = 2" by (simp add: request_pages_def ALIGN_UP_def ALIGN_DOWN_def FRAME_SIZE_def)
  then obtain u' where u': "sys_request_memory d 0x8000000 0x2000 ?u = (True, u')"
    "pages_world (at_directory d (without d ?A)) d (drop 2 fs) (umachine u', uphysical u')"
    using request_spec [of "at_directory d (without d ?A)" d fs ?u "0x2000" "0x8000000"] w fs
    by (auto simp: owned_world_def page_room_def user_range_def u d frames_owned_def)
  obtain u1 ua1 where m: "user_malloc 100 ?u (no_pages d) = Some (0x8000018, u1, ua1)" "kstate u1 = kstate u'"
    using first_malloc [OF u'(1)] by blast
  let ?Q = "with_heap ?R u1 ua1 [(0x8000018, 100)]"
  have q: "process_step (Malloc 100) ?R ?Q" using m(1) by (auto simp: step_simps small_process_def resume_def)
  let ?T = "S\<lparr>shared := load_directory (cr3 (smachine S)) (kstate (pspace ?Q)), procs := (procs S)[i := ?Q]\<rparr>"
  have step: "system_step (Run i (Malloc 100)) S ?T" by (rule system_step.run) (use i q in simp_all)
  have "malloc_pages 100 = 3" by (simp add: malloc_pages_def)
  then have "3 * system_call_pages (Run i (Malloc 100)) + k = k + 9" by simp
  then have "system_ok kd (3 * system_call_pages (Run i (Malloc 100)) + k) S" using ok by metis
  then have "system_ok kd k ?T" by (rule system_step_ok [OF step])
  moreover have "phys_pool (smachine ?T, sphysical ?T) (drop 2 fs)"
    using phys_pool_load [OF pages_world_pool [OF u'(2)]] m(2) by (simp add: umachine_def uphysical_def)
  ultimately show thesis by (intro that [OF step, of ?Q]) simp_all
qed

lemma small_system:
  obtains S where "procs S = []" "system_ok 0x1000 100 S"
    "phys_pool (smachine S, sphysical S) [0x40000, 0x30000, 0x20000, 0x10000]"
proof -
  obtain m p where mp: "two_frames = (m, p)" by fastforce
  have m: "placement m = 0xffffffff80010020" "physical_end p = 0x100000"
    using mp by (auto simp: two_frames_def physical_free_eq IS_ALIGNED_def example_paging_def)
  have w: "kernel_world kernel_alone [0x20000, 0x10000] (m, p)" using two_frames_kernel(1) mp by simp
  have t: "f \<notin> taken kernel_alone" if "f \<noteq> 0x9000" for f using two_frames_kernel(2) that by auto
  obtain m1 p1 where mp1: "physical_free 0x30000 m p = (m1, p1)" by fastforce
  have m1: "placement m1 = 0xffffffff80010030" "physical_end p1 = 0x100000"
    using mp1 m by (auto simp: physical_free_eq IS_ALIGNED_def)
  have w1: "kernel_world kernel_alone [0x30000, 0x20000, 0x10000] (m1, p1)"
    using give_frame_kernel [OF w, of "0x30000"] m t by (simp add: mp1 valid_frame_def IS_ALIGNED_def headroom_def)
  obtain m2 p2 where mp2: "physical_free 0x40000 m1 p1 = (m2, p2)" by fastforce
  have m2: "placement m2 = 0xffffffff80010040" using mp2 m1 by (auto simp: physical_free_eq IS_ALIGNED_def)
  have w2: "kernel_world kernel_alone [0x40000, 0x30000, 0x20000, 0x10000] (m2, p2)"
    using give_frame_kernel [OF w1, of "0x40000"] m1 t by (simp add: mp2 valid_frame_def IS_ALIGNED_def headroom_def)
  let ?S = "\<lparr>shared = boot_state\<lparr>world := (world boot_state)\<lparr>kmachine := m2, kphysical := p2\<rparr>\<rparr>, procs = []\<rparr>"
  obtain L xs where "neighbours_ok m2 L kernel_alone" using w2 by (rule kernel_worldE)
  from neighbours_okD(3) [OF this, of "0x1000"] have "user_view m2 0x1000 = user_view (fst two_frames) 0x1000"
    by (simp add: kernel_alone_def with_neighbour_def)
  then have "everyone 0x1000 m2 [] = kernel_alone"
    by (simp add: everyone_def kernel_alone_def with_neighbour_def alone_def)
  then have "system_ok 0x1000 100 ?S"
    using w2 m2 by (intro system_okI [where fs = "[0x40000, 0x30000, 0x20000, 0x10000]"]) (simp_all add: boot_state_def page_room_def)
  moreover have "phys_pool (m2, p2) [0x40000, 0x30000, 0x20000, 0x10000]" using w2 unfolding kernel_world_def phys_pool_def by auto
  ultimately show thesis by (intro that [of ?S]) simp_all
qed

theorem processes_isolated_witness:
  "\<exists>S T. system_run [Run 0 (Malloc 100), Run 1 (Malloc 100)] S T
    \<and> map holding (procs T) = [[(0x8000018, 100)], [(0x8000018, 100)]] \<and> system_isolated T
    \<and> byte_behind T (0, 0x8000018) \<noteq> byte_behind T (1, 0x8000018)"
proof -
  obtain S where S: "procs S = []" "system_ok 0x1000 100 S"
    "phys_pool (smachine S, sphysical S) [0x40000, 0x30000, 0x20000, 0x10000]" by (rule small_system)
  have "system_ok 0x1000 (99 + 1) S" using S(2) by simp
  with S(3) obtain S1 d u where S1: "procs S1 = procs S @ [small_process d u]" "system_ok 0x1000 99 S1"
    "phys_pool (smachine S1, sphysical S1) [0x40000, 0x30000, 0x20000, 0x10000]" using admit_process by metis
  have "system_ok 0x1000 (98 + 1) S1" using S1(2) by simp
  with S1(3) obtain S2 e v where S2: "procs S2 = procs S1 @ [small_process e v]" "system_ok 0x1000 98 S2"
    "phys_pool (smachine S2, sphysical S2) [0x40000, 0x30000, 0x20000, 0x10000]" using admit_process by metis
  have p: "procs S2 = [small_process d u, small_process e v]" by (simp add: S(1) S1(1) S2(1))
  have "system_ok 0x1000 (89 + 9) S2" using S2(2) by simp
  then obtain T1 P where T1: "system_step (Run 0 (Malloc 100)) S2 T1" "procs T1 = (procs S2)[0 := P]"
    "holding P = [(0x8000018, 100)]" "phys_pool (smachine T1, sphysical T1) (drop 2 [0x40000, 0x30000, 0x20000, 0x10000])"
    "system_ok 0x1000 89 T1"
    using S2(3) by (rule first_request [where i = 0 and d = d and v = u]) (simp_all add: p)
  have "system_ok 0x1000 (80 + 9) T1" using T1(5) by simp
  then obtain T Q where T: "system_step (Run 1 (Malloc 100)) T1 T" "procs T = (procs T1)[1 := Q]"
    "holding Q = [(0x8000018, 100)]"
    using T1(4) by (rule first_request [where i = 1 and d = e and v = v]) (simp_all add: p T1(2))
  have h: "procs T = [P, Q]" by (simp add: T(2) T1(2) p)
  have r: "system_run [Run 0 (Malloc 100), Run 1 (Malloc 100)] S2 T"
    by (rule system_run.onward [OF T1(1) system_run.onward [OF T(1) system_run.stopped]])
  have "system_ok 0x1000 (3 * system_pages ([Run 0 (Malloc 100), Run 1 (Malloc 100)] @ [Run 0 Cleanup])) S2"
    using system_ok_mono [OF S2(2)] by (simp add: malloc_pages_def)
  then have iso: "system_isolated T" using processes_isolated [OF r] by blast
  have "(0, 0x8000018) \<in> held_addresses T" "(1, 0x8000018) \<in> held_addresses T"
    using T(3) T1(3) by (auto simp: held_addresses_def h bytes_held_def held_bytes_def bytes_of_def)
  then have "byte_behind T (0, 0x8000018) \<noteq> byte_behind T (1, 0x8000018)"
    using iso unfolding system_isolated_def inj_on_def by (metis prod.inject zero_neq_one)
  then show ?thesis using r iso h T(3) T1(3) by (intro exI [of _ S2] exI [of _ T]) simp
qed

end
