(* ===== verification/Process_Boot.thy ===== *)
theory Process_Boot
  imports Boot Process_System
begin

text \<open>
  From the boot to processes: the tables and the frame list that \<^verbatim>\<open>kmain\<close> leaves satisfy the
  invariants of the process theories, and map no page of the user half. So a new process gets the pages
  of its heap, but in a directory that the repository never loads.
\<close>

subsection \<open>The tables of the booted kernel\<close>

definition boot_level :: "addr \<Rightarrow> addr \<Rightarrow> addr \<Rightarrow> addr \<Rightarrow> addr \<Rightarrow> nat" where
  "boot_level p4 p3 p2 T t =
     (if t = p4 then 4 else if t = p3 then 3 else if t = p2 then 2
      else if \<exists>i < 512. t = page_table T i then 1 else 0)"

lemma boot_level_cases:
  assumes "boot_level p4 p3 p2 T t \<noteq> 0"
  obtains "t = p4" | "t = p3" | "t = p2" | i where "i < 512" "t = page_table T i"
  using assms by (auto simp: boot_level_def split: if_splits)

lemma boot_levels:
  assumes "fully_mapped m p4 p3 p2 T"
  shows "boot_level p4 p3 p2 T p4 = 4" "boot_level p4 p3 p2 T p3 = 3" "boot_level p4 p3 p2 T p2 = 2"
    "i < 512 \<Longrightarrow> boot_level p4 p3 p2 T (page_table T i) = 1"
  using assms by (auto simp: fully_mapped_def boot_tables_def boot_level_def)

lemma boot_level_place:
  assumes "fully_mapped m p4 p3 p2 T" "table_bytes p4 p3 p2 T \<subseteq> {..<n}" "boot_level p4 p3 p2 T t \<noteq> 0"
  shows "IS_ALIGNED t" "unat t + 4096 \<le> n"
proof -
  note B = assms(1) [unfolded fully_mapped_def, THEN conjunct1, unfolded boot_tables_def]
  have room: "unat T + 4096 * 512 < 18446744073709551616" using B by simp
  from assms(3) show "IS_ALIGNED t"
    by (rule boot_level_cases) (use B page_table_aligned [OF room] in simp_all)
  from assms(3) have "unat t + 4095 \<in> table_bytes p4 p3 p2 T"
    by (rule boot_level_cases) (auto simp: table_bytes_def bytes_of_def unat_page_table [OF room])
  then show "unat t + 4096 \<le> n" using assms(2) by auto
qed

text \<open>Where the present entries lead.\<close>

lemma boot_points_to:
  assumes f: "fully_mapped m p4 p3 p2 T" and p: "points_to m (boot_level p4 p3 p2 T) t i u"
  shows "Suc (boot_level p4 p3 p2 T u) = boot_level p4 p3 p2 T t"
proof -
  note B = f [unfolded fully_mapped_def, THEN conjunct1, unfolded boot_tables_def]
    and low = f [unfolded fully_mapped_def, THEN conjunct2] and Lv = boot_levels [OF f]
  have i: "unat i < 512" "(of_nat (unat i) :: u64) = i" and e: "PRESENT (mem m (t + 8 * i))" "ADDRESS (mem m (t + 8 * i)) = u"
    and l: "1 < boot_level p4 p3 p2 T t" using p by (simp_all add: points_to_def)
  have room: "unat T + 4096 * 512 < 18446744073709551616" and al: "IS_ALIGNED T" using B by simp_all
  have A: "ADDRESS ((w - KVIRTUAL_ADDRESS) OR 3) = w" if "IS_ALIGNED w" for w
    by (rule ADDRESS_table(1) [OF that dir_flag_3_7(1)])
  have "boot_level p4 p3 p2 T t \<noteq> 0" using l by simp
  then consider "t = p4" | "t = p3" | "t = p2" | j where "j < 512" "t = page_table T j" by (rule boot_level_cases)
  then show ?thesis
  proof cases
    case 1
    have "\<forall>j < 511. mem m (p4 + 8 * of_nat j) = 0" using B by simp
    then have "\<not> unat i < 511" using e(1) i(2) 1 by (metis PRESENT_iff even_zero)
    then have "i = 511" using i(1) by (simp add: word_unat_eq_iff)
    then have "u = p3" using e(2) 1 A B by simp
    then show ?thesis using Lv 1 by simp
  next
    case 2
    have "\<forall>j < 512. j \<noteq> 510 \<longrightarrow> mem m (p3 + 8 * of_nat j) = 0" using B by simp
    then have "unat i = 510" using e(1) i 2 by (metis PRESENT_iff even_zero)
    then have "i = 510" by (simp add: word_unat_eq_iff)
    then have "u = p2" using e(2) 2 A B by simp
    then show ?thesis using Lv 2 by simp
  next
    case 3
    have "mem m (p2 + 8 * of_nat (unat i)) = (page_table T (unat i) - KVIRTUAL_ADDRESS) OR 3"
      by (rule low_tablesD(1) [OF low i(1)])
    then have "u = page_table T (unat i)" using e(2) i 3 A [OF page_table_aligned [OF room al i(1)]] by simp
    then show ?thesis using Lv 3 i(1) by simp
  next
    case 4
    then show ?thesis using l Lv by simp
  qed
qed

lemma boot_tables_ok:
  assumes f: "fully_mapped m p4 p3 p2 T" and b: "table_bytes p4 p3 p2 T \<subseteq> {..<unat (placement m)}"
    and z: "\<And>t. boot_level p4 p3 p2 T t \<noteq> 0 \<Longrightarrow> t \<noteq> 0"
  shows "tables_ok m (boot_level p4 p3 p2 T)"
proof -
  have "boot_level p4 p3 p2 T t \<le> 4" for t by (simp add: boot_level_def)
  then show ?thesis
    unfolding tables_ok_def using boot_level_place [OF f b] boot_points_to [OF f] z by blast
qed

subsection \<open>The booted kernel\<close>

text \<open>The image and the boot code's tables are linked into the kernel's half.\<close>

definition linked_high :: "addr \<Rightarrow> addr \<Rightarrow> addr \<Rightarrow> addr \<Rightarrow> addr \<Rightarrow> bool" where
  "linked_high q p4 p3 p2 T \<longleftrightarrow> upper q \<and> upper p4 \<and> upper p3 \<and> upper p2 \<and> upper T"

lemma boot_level_upper:
  assumes "fully_mapped m p4 p3 p2 T" "linked_high q p4 p3 p2 T" "boot_level p4 p3 p2 T t \<noteq> 0"
  shows "upper t"
  using assms(3)
proof (rule boot_level_cases)
  fix i assume i: "i < 512" "t = page_table T i"
  have "unat T + 4096 * 512 < 18446744073709551616" using assms(1) by (simp add: fully_mapped_def boot_tables_def)
  then have "T \<le> t" using unat_page_table [of T i] i by (simp add: wordnat)
  then show "upper t" using assms(2) by (auto simp: linked_high_def upper_def)
qed (use assms(2) in \<open>simp_all add: linked_high_def\<close>)

lemma upper_nonzero: "upper t \<Longrightarrow> t \<noteq> 0"
  by (auto simp: upper_def)

lemma boot_slot_present:
  assumes "fully_mapped m p4 p3 p2 T"
  shows "kernel_linked m (cr3 m)" "user_page v \<Longrightarrow> \<not> PRESENT (mem m (ADDRESS (cr3 m) + 8 * PML4 v))"
proof -
  have "PML4 KVIRTUAL_ADDRESS = 511" by (simp add: PML4_def KVIRTUAL_ADDRESS_def)
  moreover have "ADDRESS (cr3 m) = p4" "mem m (p4 + 8 * 511) = (p3 - KVIRTUAL_ADDRESS) OR 3"
    using assms by (simp_all add: fully_mapped_def boot_tables_def)
  ultimately show "kernel_linked m (cr3 m)" by (simp add: kernel_linked_def PRESENT_iff even_or_iff)
  assume "user_page v"
  then have "unat (PML4 v) < 511" by (simp add: user_page_def wordnat)
  moreover have z: "\<forall>j < 511. mem m (p4 + 8 * of_nat j) = 0" and r: "ADDRESS (cr3 m) = p4"
    using assms by (simp_all add: fully_mapped_def boot_tables_def)
  ultimately have "mem m (p4 + 8 * of_nat (unat (PML4 v))) = 0" by blast
  then show "\<not> PRESENT (mem m (ADDRESS (cr3 m) + 8 * PML4 v))" by (simp add: r PRESENT_iff)
qed

text \<open>The booted kernel maps no user page, so that it takes no frame from a process.\<close>

lemma boot_no_user_pages:
  assumes "fully_mapped m p4 p3 p2 T"
  shows "user_view m (cr3 m) = (\<lambda>v. None)" "private_halves m {cr3 m}"
proof -
  note P = boot_slot_present(2) [OF assms]
  show "user_view m (cr3 m) = (\<lambda>v. None)"
    using P by (auto simp: user_view_def translate_def page_index_def)
  show "private_halves m {cr3 m}"
    unfolding private_halves_def shares_def
  proof (intro ballI allI impI)
    fix d e v w assume d: "d \<in> {cr3 m}" "e \<in> {cr3 m}" and v: "user_page v"
      and s: "meets (mem m) (ADDRESS d) (page_index v) (ADDRESS e) (page_index w)"
    have "meets (mem m) (ADDRESS (cr3 m)) [PML4 v, PDPT v, PDE v, PTE v] (ADDRESS (cr3 m)) (page_index w)"
      using s d unfolding page_index_def by (simp only: singleton_iff)
    then have "page_index w = [PML4 v, PDPT v, PDE v, PTE v]" using meets_absent [where c = "mem m", OF P [OF v]] by blast
    then show "d = e \<and> page_index w = page_index v" using d by (simp add: page_index_def [of v])
  qed
qed


lemma booted_world:
  assumes f: "fully_mapped (machine_of ks) p4 p3 p2 T" and b: "table_bytes p4 p3 p2 T \<subseteq> {..<unat q}"
    and h: "linked_high q p4 p3 p2 T" and l: "frames_listed es q st n ks"
    and p: "phys_pool (machine_of ks, kphysical (world (ks_memory ks))) (rev (frame_run (ALIGN_UP st) (whole_pages st n)))"
  shows "kernel_world (everyone (cr3 (machine_of ks)) (machine_of ks) []) (rev (frame_run (ALIGN_UP st) (whole_pages st n)))
    (machine_of ks, kphysical (world (ks_memory ks)))"
proof -
  let ?m = "machine_of ks" and ?p = "kphysical (world (ks_memory ks))" and ?L = "boot_level p4 p3 p2 T"
  let ?fs = "rev (frame_run (ALIGN_UP st) (whole_pages st n))"
  note up = boot_level_upper [OF f h]
  have q: "q \<le> placement ?m" and d: "distinct (frame_run (ALIGN_UP st) (whole_pages st n))"
    using l by (simp_all add: frames_listed_def wordnat)
  have b2: "table_bytes p4 p3 p2 T \<subseteq> {..<unat (placement ?m)}" using b q by (force simp: wordnat)
  obtain xs where xs: "node_list (mem ?m) (free_list ?p) xs" "map snd xs = ?fs" "\<forall>x \<in> set xs. q \<le> fst x"
    using l by (auto simp: frames_listed_def)
  obtain ys where "node_list (mem ?m) (free_list ?p) ys" "nodes_below (placement ?m) ys"
    using p by (rule phys_poolE)
  then have below: "nodes_below (placement ?m) xs" using node_list_unique xs(1) by blast
  have out: "apart ?L x" if "q \<le> x" for x
    unfolding apart_def
  proof (intro allI impI)
    fix t and i :: u64 assume "?L t \<noteq> 0 \<and> unat i < 512"
    then show "x \<noteq> t + 8 * i"
      using boot_level_place [OF f b, of t] unat_entry [of t i] that by (auto simp: wordnat)
  qed
  have "nodes_apart ?L xs"
    unfolding nodes_apart_def
  proof (intro ballI, clarify)
    fix a g assume a: "(a, g) \<in> set xs"
    have "unat a + 16 \<le> unat (placement ?m)" using below a by (auto simp: nodes_below_def)
    then have "unat (a + 8) = unat a + 8" using u64_bound [of "placement ?m"] by (simp add: unat_add_nowrap)
    then have "q \<le> a" "q \<le> a + 8" using xs(3) a by (auto simp: wordnat)
    then show "apart ?L a \<and> apart ?L (a + 8)" using out by blast
  qed
  moreover have "kernel_half ?m ?L xs"
    using up h q xs(3) by (auto simp: kernel_half_def linked_high_def upper_def)
  moreover have "tables_ok ?m ?L" by (rule boot_tables_ok [OF f b2 upper_nonzero [OF up]])
  moreover have "?L (ADDRESS (cr3 ?m)) = 4"
    using f boot_levels(1) [OF f] by (simp add: fully_mapped_def boot_tables_def)
  then have "neighbours_ok ?m ?L (everyone (cr3 ?m) ?m [])"
    using boot_slot_present(1) [OF f] by (simp add: neighbours_ok_def everyone_def)
  moreover have "\<forall>g \<in> set ?fs. valid_frame (?m, ?p) g" using p by (simp add: phys_pool_def)
  ultimately show ?thesis
    using xs(1,2) below d boot_no_user_pages [OF f]
    by (intro kernel_worldI [where xs = xs and L = ?L]) (simp_all add: everyone_def views_apart_def taken_def)
qed

text \<open>The boot memory lies in the kernel's gigabyte, so the image is linked high.\<close>

lemma boot_start_high:
  assumes "boot_start im bootinfo es p4 p3 p2 T ks"
  shows "linked_high (placement (machine_of ks)) p4 p3 p2 T"
proof -
  have "in_gigabyte im p4 p3 p2 T (placement (machine_of ks)) es" using assms by (simp add: boot_start_def Let_def)
  then show ?thesis by (auto simp: in_gigabyte_def linked_high_def upper_def KVIRTUAL_ADDRESS_def wordnat)
qed

lemma many_pages:
  assumes "4194304 \<le> unat n" "unat st + unat n < 18446744073709551616"
  shows "256 \<le> whole_pages st n"
proof -
  have a: "unat (st + n) = unat st + unat n" using assms(2) by (rule unat_add_nowrap)
  have "unat st + unat n \<le> unat (ALIGN_DOWN (st + n)) + 4095"
    using mod_less_divisor [of 4096 "unat (st + n)"] by (simp add: unat_ALIGN_DOWN a)
  moreover have "unat (ALIGN_UP st) < unat st + 4096" using assms by (intro ALIGN_UP_lt) simp
  ultimately have "4096 * 256 \<le> unat (ALIGN_DOWN (st + n)) - unat (ALIGN_UP st)" using assms(1) by linarith
  from div_le_mono [OF this, of 4096] show ?thesis unfolding whole_pages_def by simp
qed

lemma region_end:
  assumes "boot_start im bootinfo es p4 p3 p2 T ks" "\<exists>x \<in> set es. usable x = bytes_of st (unat n)" "4194304 \<le> unat n"
  shows "unat st + unat n < 18446744073709551616"
proof -
  obtain x where x: "x \<in> set es" "usable x = bytes_of st (unat n)" using assms(2) by blast
  have "unat st + unat n - 1 \<in> usable x" using assms(3) by (simp add: x(2) bytes_of_def)
  then have "unat st + unat n - 1 < unat (entry_addr x) + unat (entry_len x)"
    by (auto simp: usable_def bytes_of_def split: if_splits)
  moreover have "entry_fits x"
    using assms(1) x(1) by (simp add: boot_start_def loader_data_def loader_map_def Let_def)
  ultimately show ?thesis using assms(3) by (simp add: entry_fits_def)
qed

text \<open>What the constructor of \<^verbatim>\<open>user_allocator\<close> does when its request succeeds: the header of the
  first block is put at the start of the heap, and the machine is as the request left it.\<close>

lemma new_allocator:
  assumes "sys_request_memory d USER_HEAP_START_ADDR USER_HEAP_INITIAL_SIZE u = (True, u')"
  obtains u'' ua where "user_allocator_new d u = (u'', ua)" "ufirst_block ua = USER_HEAP_START_ADDR"
    "umachine u'' = umachine u'" "user_headers u'' USER_HEAP_START_ADDR
      = new_user_block (ucast (USER_HEAP_INITIAL_SIZE - sizeof_user_block)) True"
  using assms by (simp add: user_allocator_new_def Let_def put_user_def umachine_def)

subsection \<open>Properties\<close>

text \<open>C13. A process started by the booted kernel, as the repository stands, cannot reach its heap. After
  the boot, on every machine that satisfies \<open>boot_start\<close> and has 8 MB of the kernel's gigabyte left above
  the frame list, a new page directory keeps the kernel's gigabyte
  mapped linearly, and the constructor of \<^verbatim>\<open>user_allocator\<close> gets all 256 pages of the initial heap: each is
  mapped to a frame of its own, but in that directory. The first block, whose header the constructor
  writes next, starts at the first of these pages, while the active directory is still the kernel's, under
  which every address of the user half faults, so that writing the header does (in the model the constructor
  goes on, for block headers are a store of their own): nothing calls \<^verbatim>\<open>insn::set_page_directory\<close>.\<close>

theorem new_heap_not_reachable:
  assumes "boot_start im bootinfo es p4 p3 p2 T ks"
    and "\<forall>x \<in> set es. unat (placement (machine_of ks)) + unat (entry_len x) div 256 + 0x800000 \<le> gigabyte_end"
  shows "\<exists>ks' d m u ua. kmain 1 hw im bootinfo MULTIBOOT_BOOTLOADER_MAGIC ks = Some ks'
    \<and> create_user_page_directory (machine_of ks') = (d, m)
    \<and> (\<forall>v. KVIRTUAL_ADDRESS \<le> v \<and> v - KVIRTUAL_ADDRESS < 0x40000000 \<longrightarrow>
         translate m d v = Some (ALIGN_DOWN (kvirt_to_physical v) + 7))
    \<and> user_allocator_new d \<lparr>kstate = (ks_memory ks')\<lparr>world := (world (ks_memory ks'))\<lparr>kmachine := m\<rparr>\<rparr>,
          user_headers = hs\<rparr> = (u, ua)
    \<and> (\<exists>fs. distinct fs \<and> length fs = 256 \<and>
         (\<forall>j < 256. translate (umachine u) d (page_at USER_HEAP_START_ADDR j) = Some (build_entry (fs ! j) 7)))
    \<and> ufirst_block ua = page_at USER_HEAP_START_ADDR 0
    \<and> (\<forall>v. user_page v \<longrightarrow> translate (umachine u) (get_current_page (umachine u)) v = None)"
proof -
  let ?q = "placement (machine_of ks)"
  note B = boot_start_high [OF assms(1)]
  obtain ks' st n where k: "kmain 1 hw im bootinfo MULTIBOOT_BOOTLOADER_MAGIC ks = Some ks'"
    "fully_mapped (machine_of ks') p4 p3 p2 T"
    "\<forall>x \<in> set es. card (usable x) \<le> unat n" "\<exists>x \<in> set es. usable x = bytes_of st (unat n)"
    "phys_pool (machine_of ks', kphysical (world (ks_memory ks'))) (rev (frame_run (ALIGN_UP st) (whole_pages st n)))"
    "frames_listed es ?q st n ks'"
    using assms(1) by (rule boot_result) blast
  let ?m = "machine_of ks'" and ?p = "kphysical (world (ks_memory ks'))"
    and ?fs = "rev (frame_run (ALIGN_UP st) (whole_pages st n))" and ?E = "everyone (cr3 (machine_of ks')) (machine_of ks') []"
  have "image_layout im p4 p3 p2 T ?q" using assms(1) by (simp add: boot_start_def Let_def)
  then have w: "kernel_world ?E ?fs (?m, ?p)"
    by (intro booted_world [OF k(2) _ B k(6,5)]) (simp add: image_layout_def)
  obtain x where x: "x \<in> set es" "unat n \<le> unat (entry_len x)" and pl: "unat ?q \<le> unat (placement ?m)"
    "unat (placement ?m) \<le> unat ?q + unat n div 256 + 8272" using k(6) by (auto simp: frames_listed_def)
  have "0 < unat ?q" using B by (auto simp: linked_high_def upper_def wordnat)
  moreover have "unat ?q + unat (entry_len x) div 256 + 0x800000 \<le> gigabyte_end" using assms(2) x(1) by blast
  then have end_x: "unat ?q + unat (entry_len x) div 256 + 0x800000 < 18446744073709551616"
    by (simp add: gigabyte_end_def KVIRTUAL_ADDRESS_def)
  ultimately have room: "page_room (Suc (3 * 256)) ?m"
    using pl div_le_mono [OF x(2), of 256] end_x by (simp add: page_room_def)
  obtain d m where d: "create_user_page_directory ?m = (d, m)" "owned_world ?E d ?fs (3 * 256) (m, ?p)"
    "\<And>w. PML4 w = PML4 KVIRTUAL_ADDRESS \<Longrightarrow> translate m d w = translate ?m (cr3 ?m) w"
    by (rule new_directory_world [OF w room]) blast
  have lin: "translate m d v = Some (ALIGN_DOWN (kvirt_to_physical v) + 7)"
    if "KVIRTUAL_ADDRESS \<le> v" "v - KVIRTUAL_ADDRESS < 0x40000000" for v
  proof -
    have "unat v = 18446744071562067968 + unat (v - KVIRTUAL_ADDRESS)" "unat (v - KVIRTUAL_ADDRESS) < 1073741824"
      using that by (simp_all add: wordnat unat_sub_nowrap KVIRTUAL_ADDRESS_def)
    then have "PML4 v = 511" using kernel_page_index [of v "unat (v - KVIRTUAL_ADDRESS)"] by (simp add: page_index_def)
    then show ?thesis using d(3) [of v] fully_mapped_translate [OF k(2) that] by (simp add: PML4_def KVIRTUAL_ADDRESS_def)
  qed
  let ?u = "\<lparr>kstate = (ks_memory ks')\<lparr>world := (world (ks_memory ks'))\<lparr>kmachine := m\<rparr>\<rparr>, user_headers = hs\<rparr>"
  have u: "umachine ?u = m" "uphysical ?u = ?p" by (simp_all add: umachine_def uphysical_def)
  have W: "pages_world ?E d ?fs (umachine ?u, uphysical ?u)" "distinct ?fs" "page_room (3 * 256) m"
    using d(2) unfolding u by (simp_all add: owned_world_def frames_owned_def)
  obtain y where y: "y \<in> set es" "4194304 \<le> card (usable y)" using assms(1) unfolding boot_start_def Let_def by blast
  have big: "4194304 \<le> unat n" using k(3) y by (meson order_trans)
  have pages: "256 \<le> length ?fs"
    using many_pages [OF big region_end [OF assms(1) k(4) big]] by (simp add: frame_run_def)
  have "request_pages USER_HEAP_INITIAL_SIZE = 256"
    by (simp add: request_pages_def ALIGN_UP_def ALIGN_DOWN_def FRAME_SIZE_def USER_HEAP_INITIAL_SIZE_def MB_def KB_def)
  then obtain u' where r: "sys_request_memory d USER_HEAP_START_ADDR USER_HEAP_INITIAL_SIZE ?u = (True, u')"
    "\<forall>j < 256. translate (umachine u') d (page_at USER_HEAP_START_ADDR j) = Some (build_entry (?fs ! j) 7)"
    "pages_world ?E d (drop 256 ?fs) (umachine u', uphysical u')"
    using request_spec [OF W(1,2), of USER_HEAP_INITIAL_SIZE USER_HEAP_START_ADDR] pages W(3)
    by (auto simp: user_range_def USER_HEAP_START_ADDR_def u)
  obtain L where L: "neighbours_ok (umachine u') L ?E" using r(3) by (rule pages_worldE)
  have "user_view (umachine u') (cr3 ?m) = (\<lambda>v. None)" "cr3 (umachine u') = cr3 ?m"
    using neighbours_okD(1,3) [OF L] boot_no_user_pages(1) [OF k(2)] by (simp_all add: everyone_def)
  then have none: "translate (umachine u') (get_current_page (umachine u')) v = None" if "user_page v" for v
    using that by (auto simp: user_view_def get_current_page_def fun_eq_iff split: if_splits)
  have fs: "distinct (take 256 ?fs)" "length (take 256 ?fs) = 256"
    using W(2) pages by simp_all
  obtain u'' ua where a: "user_allocator_new d ?u = (u'', ua)" "ufirst_block ua = USER_HEAP_START_ADDR"
    "umachine u'' = umachine u'" using r(1) by (rule new_allocator)
  show ?thesis
  proof (intro exI conjI)
    show "kmain 1 hw im bootinfo MULTIBOOT_BOOTLOADER_MAGIC ks = Some ks'" "create_user_page_directory ?m = (d, m)"
      "user_allocator_new d ?u = (u'', ua)" "distinct (take 256 ?fs)" "length (take 256 ?fs) = 256"
      by fact+
    show "\<forall>v. KVIRTUAL_ADDRESS \<le> v \<and> v - KVIRTUAL_ADDRESS < 0x40000000 \<longrightarrow>
        translate m d v = Some (ALIGN_DOWN (kvirt_to_physical v) + 7)"
      using lin by blast
    show "\<forall>j < 256. translate (umachine u'') d (page_at USER_HEAP_START_ADDR j) = Some (build_entry (take 256 ?fs ! j) 7)"
      using r(2) by (simp add: a(3))
    show "ufirst_block ua = page_at USER_HEAP_START_ADDR 0" by (simp add: a(2) page_at_def)
    show "\<forall>v. user_page v \<longrightarrow> translate (umachine u'') (get_current_page (umachine u'')) v = None"
      using none by (simp add: a(3))
  qed
qed

theorem new_heap_not_reachable_witness:
  "\<exists>ks' d m u ua. kmain 1 (typing_hardware []) sample_image 0xffffffff80300000 MULTIBOOT_BOOTLOADER_MAGIC sample_start = Some ks'
    \<and> create_user_page_directory (machine_of ks') = (d, m)
    \<and> user_allocator_new d \<lparr>kstate = (ks_memory ks')\<lparr>world := (world (ks_memory ks'))\<lparr>kmachine := m\<rparr>\<rparr>,
          user_headers = \<lambda>a. new_user_block 0 True\<rparr> = (u, ua)
    \<and> translate (umachine u) d 0x8000000 \<noteq> None \<and> translate (umachine u) (get_current_page (umachine u)) 0x8000000 = None"
proof -
  have p: "page_at USER_HEAP_START_ADDR 0 = 0x8000000" by (simp add: page_at_def USER_HEAP_START_ADDR_def)
  have "user_page 0x8000000" by (simp add: user_page_def PML4_def)
  moreover have "\<forall>x \<in> set boot_entries. unat (placement (machine_of sample_start)) + unat (entry_len x) div 256 + 0x800000
      \<le> gigabyte_end"
    by (simp add: machine_of_def sample_start_def boot_entries_def gigabyte_end_def KVIRTUAL_ADDRESS_def)
  moreover note new_heap_not_reachable [OF sample_boot_start this, of "typing_hardware []" "\<lambda>a. new_user_block 0 True"]
  ultimately show ?thesis
    by (metis p option.distinct(1) zero_less_numeral)
qed

end
