(* ===== verification/Traits.thy ===== *)
theory Traits
  imports Video
begin

text \<open>
  The compile-time type functions of \<^verbatim>\<open>libs/type_traits.hpp\<close> and \<^verbatim>\<open>libs/move.hpp\<close>, on
  the types of the language the kernel uses, and the branch of \<^verbatim>\<open>iprotected_mode::print\<close> that
  they select. A struct with a member type is the function from the argument to that type; where
  a specialisation has no member, the function is undefined (\<open>None\<close>).
\<close>

subsection \<open>Types\<close>

datatype cpp_type = Void | Bool | Char_t | Signed_Char | Unsigned_Char | Short | Unsigned_Short
  | Int_t | Unsigned_Int | Long | Unsigned_Long | Long_Long | Unsigned_Long_Long
  | Float_t | Double_t | Long_Double | Class string | Pointer cpp_type | Const cpp_type
  | Template string cpp_type | LRef cpp_type | RRef cpp_type | Array_Unbounded cpp_type | Array cpp_type nat

text \<open>The fixed-width names of \<^verbatim>\<open>stdint.hpp\<close>.\<close>

definition fixed_width :: "cpp_type list" where
  "fixed_width = [Signed_Char, Short, Int_t, Long_Long,
     Unsigned_Char, Unsigned_Short, Unsigned_Int, Unsigned_Long_Long]"

definition size_type :: cpp_type where
  "size_type = Unsigned_Long"

subsection \<open>Type functions\<close>

fun remove_reference :: "cpp_type \<Rightarrow> cpp_type" where
  "remove_reference (LRef t) = t"
| "remove_reference (RRef t) = t"
| "remove_reference t = t"

fun remove_extent :: "cpp_type \<Rightarrow> cpp_type" where
  "remove_extent (Array_Unbounded t) = t"
| "remove_extent (Array t n) = t"
| "remove_extent t = t"

definition enable_if :: "bool \<Rightarrow> cpp_type \<Rightarrow> cpp_type option" where
  "enable_if b t = (if b then Some t else None)"

definition integral_constant :: "'a \<Rightarrow> 'a" where
  "integral_constant v = v"

definition is_same :: "cpp_type \<Rightarrow> cpp_type \<Rightarrow> bool" where
  "is_same t u = integral_constant (t = u)"

definition is_integral :: "cpp_type \<Rightarrow> bool" where
  "is_integral t = integral_constant (t \<in> set fixed_width)"

definition is_floating_point :: "cpp_type \<Rightarrow> bool" where
  "is_floating_point t = integral_constant (t \<in> {Float_t, Double_t, Long_Double})"

text \<open>The type \<^verbatim>\<open>T&&\<close> for a T that may be a reference itself (reference collapsing), and the result
  types of \<^verbatim>\<open>forward\<close> and \<^verbatim>\<open>move\<close>.\<close>

fun rvalue_of :: "cpp_type \<Rightarrow> cpp_type" where
  "rvalue_of (LRef t) = LRef t"
| "rvalue_of (RRef t) = RRef t"
| "rvalue_of t = RRef t"

definition forward_result :: "cpp_type \<Rightarrow> cpp_type" where
  "forward_result t = rvalue_of t"

definition move_result :: "cpp_type \<Rightarrow> cpp_type" where
  "move_result t = rvalue_of (remove_reference t)"

text \<open>The parameter of \<^verbatim>\<open>forward\<close>: \<^verbatim>\<open>move.hpp\<close> takes a reference to the type with its reference
  removed, \<^verbatim>\<open>type_traits.hpp\<close> a reference to the structure \<^verbatim>\<open>remove_reference<T>\<close> itself. An
  argument is an lvalue or an rvalue of a type.\<close>

definition move_forward_parameter :: "cpp_type \<Rightarrow> bool \<Rightarrow> cpp_type" where
  "move_forward_parameter t lvalue = (if lvalue then LRef (remove_reference t) else RRef (remove_reference t))"

definition traits_forward_parameter :: "cpp_type \<Rightarrow> bool \<Rightarrow> cpp_type" where
  "traits_forward_parameter t lvalue =
     (if lvalue then LRef (Template ''remove_reference'' t) else RRef (Template ''remove_reference'' t))"

definition binds :: "cpp_type \<Rightarrow> cpp_type \<Rightarrow> bool \<Rightarrow> bool" where
  "binds parameter t lvalue \<longleftrightarrow> parameter = (if lvalue then LRef t else RRef t)"

subsection \<open>Detecting a member\<close>

text \<open>The macro \<^verbatim>\<open>reflection_has_member\<close>. A class has member names of its own and base classes;
  a name that two bases declare is ambiguous in the derived class. The overload for
  \<^verbatim>\<open>decltype(U::member)*\<close> is viable, and better, when the name is not ambiguous.\<close>

datatype cpp_class = Cpp_Class (own_members: "string set") (bases: "cpp_class list")

fun declares :: "string \<Rightarrow> cpp_class \<Rightarrow> bool" where
  "declares n (Cpp_Class own bs) \<longleftrightarrow> n \<in> own \<or> (\<exists>b \<in> set bs. declares n b)"

definition well_formed_member :: "string \<Rightarrow> cpp_class \<Rightarrow> bool" where
  "well_formed_member n k \<longleftrightarrow> n \<in> own_members k \<or> length (filter (declares n) (bases k)) = 1"

definition fallback :: "string \<Rightarrow> cpp_class" where
  "fallback member = Cpp_Class {member} []"

definition derived :: "string \<Rightarrow> cpp_class \<Rightarrow> cpp_class" where
  "derived member k = Cpp_Class {} [k, fallback member]"

definition sizeof_yes :: nat where
  "sizeof_yes = 2"

definition sizeof_no :: nat where
  "sizeof_no = 1"

definition check_size :: "string \<Rightarrow> cpp_class \<Rightarrow> nat" where
  "check_size member u = (if well_formed_member member u then sizeof_no else sizeof_yes)"

definition has_member :: "string \<Rightarrow> cpp_class \<Rightarrow> bool" where
  "has_member member k = integral_constant (check_size member (derived member k) = sizeof_yes)"

subsection \<open>The dispatch of print\<close>

datatype print_branch = String_Branch | Char_Branch | Int_Branch | Float_Branch | Error_Branch

definition print_branch_of :: "cpp_type \<Rightarrow> print_branch" where
  "print_branch_of t =
     (if is_same t (Pointer (Const Char_t)) then String_Branch
      else if is_same t Char_t then Char_Branch
      else if is_integral t then Int_Branch
      else if is_floating_point t then Float_Branch
      else Error_Branch)"

fun has_type :: "print_arg \<Rightarrow> cpp_type \<Rightarrow> bool" where
  "has_type (ConstCharPtr p) t = (t = Pointer (Const Char_t))"
| "has_type (Literal str) t = (t = Pointer (Const Char_t))"
| "has_type (CharPtr p) t = (t = Pointer Char_t)"
| "has_type (Char c) t = (t = Char_t)"
| "has_type (Integral n) t = (t \<in> set fixed_width)"

definition run_branch :: "print_branch \<Rightarrow> addr \<Rightarrow> print_arg \<Rightarrow> machine \<Rightarrow> protected_mode
    \<Rightarrow> (protected_mode \<times> machine) option" where
  "run_branch br buffer v m s =
     (case (br, v) of
        (String_Branch, ConstCharPtr p) \<Rightarrow> map_option (\<lambda>s. (s, m)) (prints p m s)
      | (String_Branch, Literal str) \<Rightarrow> Some (prints_literal str s, m)
      | (Char_Branch, Char c) \<Rightarrow> Some (printc c s, m)
      | (Int_Branch, Integral n) \<Rightarrow> printd buffer (ucast n) m s
      | (Error_Branch, CharPtr p) \<Rightarrow> map_option (\<lambda>s. (s, m)) (prints p m (prints_literal ''Err: '' s))
      | _ \<Rightarrow> None)"

lemmas trait_defs = is_same_def is_integral_def is_floating_point_def integral_constant_def fixed_width_def

subsection \<open>Properties\<close>

text \<open>The console's \<open>print\<close> runs the branch that the traits select for the type of its
  argument.\<close>

theorem print_runs_selected_branch:
  assumes "has_type v t"
  shows "print buffer v m s = run_branch (print_branch_of t) buffer v m s"
  using assms
  by (cases v) (auto simp: print_def run_branch_def print_branch_of_def trait_defs split: option.splits)

theorem print_runs_selected_branch_witness:
  "print 0x8000 (Char 65) m s = run_branch (print_branch_of Char_t) 0x8000 (Char 65) m s"
  by (rule print_runs_selected_branch) simp

text \<open>Only the fixed-width types count as integers: \<^verbatim>\<open>size_t\<close>, \<^verbatim>\<open>bool\<close>, \<^verbatim>\<open>char\<close> and
  \<^verbatim>\<open>long\<close> do not, nor does any const-qualified integer; a pointer to a mutable string is sent
  to the error branch.\<close>

theorem types_outside_integers:
  "print_branch_of size_type = Error_Branch \<and> print_branch_of Bool = Error_Branch
   \<and> print_branch_of (Const Int_t) = Error_Branch \<and> print_branch_of (Pointer Char_t) = Error_Branch
   \<and> \<not> is_integral Char_t \<and> \<not> is_integral Long"
  by (simp add: print_branch_of_def trait_defs size_type_def)

text \<open>Moving always yields an rvalue, forwarding keeps the kind of reference.\<close>

theorem move_and_forward:
  assumes "\<forall>u. t \<noteq> LRef u \<and> t \<noteq> RRef u"
  shows "move_result t = RRef t \<and> move_result (LRef t) = RRef t \<and> move_result (RRef t) = RRef t
    \<and> forward_result (LRef t) = LRef t \<and> forward_result t = RRef t \<and> forward_result (RRef t) = RRef t"
proof -
  have "remove_reference t = t" "rvalue_of t = RRef t" using assms by (cases t; simp)+
  then show ?thesis by (simp add: move_result_def forward_result_def)
qed

theorem move_and_forward_witness: "move_result (LRef (Class ''ilist'')) = RRef (Class ''ilist'')"
  using move_and_forward [of "Class ''ilist''"] by simp

text \<open>The detector finds exactly the members a class declares itself or inherits.\<close>

theorem has_member_exact: "has_member n k \<longleftrightarrow> declares n k"
  by (simp add: has_member_def integral_constant_def check_size_def sizeof_yes_def sizeof_no_def
      well_formed_member_def derived_def fallback_def)

text \<open>The \<^verbatim>\<open>forward\<close> of \<^verbatim>\<open>move.hpp\<close> takes every argument of its type, the one of
  \<^verbatim>\<open>type_traits.hpp\<close> takes none: its parameter is the helper structure and not the type.\<close>

lemma template_differs: "Template n t \<noteq> remove_reference t"
proof
  assume "Template n t = remove_reference t"
  then have "size (Template n t) = size (remove_reference t)" by simp
  then show False by (cases t) simp_all
qed

theorem forward_parameters:
  "binds (move_forward_parameter t l) (remove_reference t) l
   \<and> \<not> binds (traits_forward_parameter t l) (remove_reference t) l"
  using template_differs [of "''remove_reference''" t]
  by (simp add: binds_def move_forward_parameter_def traits_forward_parameter_def)

end
