(* ===== verification/Task.thy ===== *)
theory Task
  imports Prelude
begin

text \<open>
  The process control block, \<^verbatim>\<open>task/task.hpp\<close>: data types only. The class
  \<^verbatim>\<open>task_manager\<close> declares its operations and the source defines none of them.
\<close>

datatype task_status = RUNNING | BLOCKED | ZOMBIE | TERMINATED

record task_context =
  ctx_r15 :: u64
  ctx_r14 :: u64
  ctx_r13 :: u64
  ctx_r12 :: u64
  ctx_r11 :: u64
  ctx_r10 :: u64
  ctx_r9 :: u64
  ctx_r8 :: u64
  ctx_rsi :: u64
  ctx_rdi :: u64
  ctx_rbp :: u64
  ctx_rdx :: u64
  ctx_rcx :: u64
  ctx_rbx :: u64
  ctx_rax :: u64
  ctx_rip :: u64
  ctx_cs :: u64
  ctx_flags :: u64
  ctx_rsp :: u64
  ctx_ss :: u64

record task =
  pid :: u64
  ppid :: u64
  task_state :: task_status
  time_slice :: u64
  task_cr3 :: addr
  kernel_stack :: addr
  user_stack :: addr
  task_context :: task_context
  next_task :: addr

end
