(* ===== verification/Spec2Isabelle.thy ===== *)
theory Spec2Isabelle
  imports Process_Boot Ilist Traits Task
begin

text \<open>
  Verification library for CoronelOS, a small 64-bit kernel in C++. All source paths are relative
  to \<^verbatim>\<open>src/src/kernel\<close>. This theory imports every other one and holds no definitions.

  \<^bold>\<open>The program.\<close> The boot loader enters \<^verbatim>\<open>kmain\<close> (\<^verbatim>\<open>main.cpp\<close>). It builds the architecture object
  with the boot allocator, which sets up the descriptor tables and the kernel's gigabyte of
  linear memory, clears the screen, initialises memory management from the boot loader's memory
  map, prints what the boot loader reported, scans the PCI bus and registers the timer and the
  keyboard. After that the kernel is driven by interrupts. Memory management has four layers: a
  bump allocator, a free list of page frames, a manager of address ranges, and heaps made of
  linked blocks, one for the kernel and one for each process. Page tables connect them.

  \<^bold>\<open>Theories and sources.\<close>
  \<^item> \<open>Prelude\<close>, \<open>Config\<close> (\<^verbatim>\<open>config.hpp\<close>, \<^verbatim>\<open>libs/stdint.hpp\<close>): word types, arithmetic lemmas without
    wrap-around, constants, rounding to pages. \<open>Steps\<close>: sequences of operations that may fail.
  \<^item> \<open>Placement\<close> (\<^verbatim>\<open>memory/allocators.cpp\<close>): the record \<open>machine\<close>, 64-bit cells of memory, the
    bump pointer \<^verbatim>\<open>__placement\<close>, the page directory register and the flushed pages.
  \<^item> \<open>Strings\<close> (\<^verbatim>\<open>libs/string.hpp\<close>) and \<open>Stdlib\<close> (\<^verbatim>\<open>libs/stdlib.hpp\<close>): bytes as lanes of
    cells, the copy and fill loops, and \<^verbatim>\<open>itoa\<close>.
  \<^item> \<open>Nodes\<close>, \<open>Ilist\<close> (\<^verbatim>\<open>libs/ilist.hpp\<close>): chains of nodes in memory, the list container.
  \<^item> \<open>Physical\<close> (\<^verbatim>\<open>memory/physical.cpp\<close>), \<open>Virtual\<close> (\<^verbatim>\<open>memory/virtual.cpp\<close>): page frames and
    address ranges.
  \<^item> \<open>Paging\<close> (\<^verbatim>\<open>arch/amd64/memory/paging.cpp\<close>), \<open>Early_Mapping\<close>
    (\<^verbatim>\<open>arch/amd64/memory/pagetable.cpp\<close>): the four-level tables.
  \<^item> \<open>Blocks\<close>, \<open>Allocator\<close>, \<open>Block_Heap\<close>: the theory of block lists both heaps share;
    \<open>Heap\<close>, \<open>Heap_Blocks\<close>, \<open>Heap_Correct\<close>, \<open>Heap_Properties\<close> (\<^verbatim>\<open>memory/heap.cpp\<close>): the
    kernel heap; \<open>User_Heap\<close>, \<open>User_Blocks\<close>, \<open>User_Correct\<close>, \<open>User_Properties\<close>
    (\<^verbatim>\<open>memory/user_allocator.cpp\<close>): the process heap, process set-up and system calls;
    \<open>Process_Pages\<close>: frames, tables and page requests of a process together; \<open>Process_World\<close>: who
    owns the frames; \<open>Process_Life\<close>: the public operations of \<^verbatim>\<open>process_memory\<close> and its heap as a
    step relation, with its invariant, preservation and progress; \<open>Process_System\<close>: several
    processes on one machine, their creation and the interleaving of their calls, each with the
    directory of its process loaded.
  \<^item> \<open>Multiboot\<close> (\<^verbatim>\<open>libs/multiboot.hpp\<close>): the boot loader's structures and their layout in memory;
    \<open>Logger\<close> (\<^verbatim>\<open>libs/logger.hpp\<close>); \<open>Manager\<close>, \<open>Manager_Properties\<close> (\<^verbatim>\<open>memory/memory_manager.cpp\<close>): the memory map and the
    initialisation of all layers.
  \<^item> \<open>Ports\<close> (\<^verbatim>\<open>arch/amd64/instructions.cpp\<close>, \<^verbatim>\<open>amd64.hpp\<close>): instructions as a trace, reads as
    answers of a hardware parameter. \<open>Task\<close> (\<^verbatim>\<open>task/task.hpp\<close>): data types. \<open>Video\<close> (\<^verbatim>\<open>arch/iprotected_mode.hpp\<close>,
    \<^verbatim>\<open>arch/amd64/video\<close>), \<open>Traits\<close> (\<^verbatim>\<open>libs/type_traits.hpp\<close>, \<^verbatim>\<open>libs/move.hpp\<close>): the console.
    \<open>Timer\<close>, \<open>Keyboard\<close> (\<^verbatim>\<open>drivers/peripherals\<close>), \<open>Pci\<close> (\<^verbatim>\<open>drivers/bus\<close>), \<open>Cxxabi\<close>
    (\<^verbatim>\<open>appendix\<close>, \<^verbatim>\<open>libs/new.cpp\<close>), \<open>Irq\<close> and \<open>Segments\<close> (\<^verbatim>\<open>arch/amd64/bootstrap\<close>).
  \<^item> \<open>Kernel_Main\<close> (\<^verbatim>\<open>main.cpp\<close>, \<^verbatim>\<open>archs.hpp\<close>, \<^verbatim>\<open>arch/amd64/amd64.cpp\<close>): the entry point;
    \<open>Boot\<close>: the whole boot, from what the loader and the boot code leave in memory;
    \<open>Process_Boot\<close>: the first process on the machine the boot leaves.

  \<^bold>\<open>State.\<close> A C++ class is a record of its fields, a method a function from the state to its
  result and the new state. Pointers are 64-bit words; integers keep their width and wrap. Block
  headers of the two heaps live in a typed store beside the bytes of the machine; list nodes,
  page tables, descriptor tables and text live in the machine's cells. The processes of a system share
  the cells of the kernel's half, where tables and lists are, and have each their own cells and
  headers in the user half. A dereferenced null pointer, a read behind the character tables of the
  keyboard, a division by zero or a loop that does not end is \<open>None\<close>. Tables that are memory, such as
  the interrupt table, are stored to at the address the code computes, also behind their end. The
  cursor and the drivers' objects are records apart from the memory, although \<open>arch_object_overlapped\<close>
  shows that later boot allocations lie in the object that holds the console. The list of devices in the
  state of the bus scan stands for what is printed: it is a log of the descriptions the scan builds.

  \<^bold>\<open>Interfaces.\<close> Locales state what one component relies on from another, with the lemmas a
  client needs proved once: \<open>frame_pool\<close> (frames), \<open>sequence\<close> and \<open>clearable_sequence\<close> (list
  container), \<open>address_space\<close> (ranges), \<open>block_allocator\<close> and its refinement \<open>block_heap\<close>,
  interpreted for both heaps, \<open>device\<close> (an input stream refines a specification), interpreted for
  the console, and \<open>step_contract\<close> (fallible steps that keep an invariant), interpreted for the
  bus scan and for the boot sequence.

  \<^bold>\<open>What is shown.\<close> Frames, ranges and heap blocks that are handed out never overlap. For the frames
  this covers requests for several frames, with what they lose; for the ranges it covers the first-fit
  requests, for \<open>virt_alloc_at_frees_foreign_bytes\<close> shows that a request at a fixed address breaks it; for the
  kernel heap it needs requests that do not wrap around when they are rounded, for
  \<open>huge_malloc_returns_empty_block\<close> shows what the others do. Clients of the heaps free only what they
  hold: \<open>client\<close> leaves other releases out. Allocation, release and
  reallocation meet their contracts; mapping and unmapping change one translation only, and a mapped page
  has the rights that the processor computes from all four levels (\<open>access\<close>); the memory map scan finds the
  largest usable region and the frames of it are those handed out; the pages a process requests are
  translated to frames of their own and can be read and written from user mode.
  On a machine whose caller loads the directory of a process around its calls, whatever processes are
  created and however their calls are interleaved, the blocks of each stay apart, every byte of them has a
  physical byte outside the free frames that no other byte of any process has, and no call gets stuck. The
  repository has no such caller: from the booted kernel a new process gets its pages, but its heap is not
  reachable under the directory that is active (\<open>new_heap_not_reachable\<close>).
  Numbers printed in any base read back; the console refines a
  scrolling list of rows; the scan of the bus equals an enumeration of the configuration space,
  in order, and always returns; every vector reaches the stub that pushes its number; interrupts are
  acknowledged before their driver runs; typed text appears in order whatever other interrupts come
  between, as long as the codes are in the character tables. The boot runs to its end from the
  states \<open>boot_start\<close> describes: those whose frame list fits into the gigabyte that is mapped. Then
  the frames of the largest region are in the allocator, the kernel's gigabyte is mapped, the
  timer counts its interrupts and the keyboard types. Theorems of kind error
  show what the code does at its edges, where that is not what it means to do.

  \<^bold>\<open>Loops and bounds.\<close> Loops with a decreasing word are total functions with a measure. Loops over
  chains and strings may not end, so they are \<open>partial_function (option)\<close>, and the theorems
  prove that they return under the invariants. Loops with constant bounds are folds over the list
  of their counters. The bus scan takes a nesting depth for bridges; the scan the kernel starts
  never nests, so depth 1 is enough for every machine (\<open>scan_hardware_terminates\<close>). A page a process
  maps may need three new tables, so the theorems on runs of calls ask for room for three tables for
  each page the calls may request (\<open>run_pages\<close>): the boot allocator that hands out tables has no end,
  and only this keeps its pointer from wrapping around. Frames may run out at any time.

  \<^bold>\<open>Parameters.\<close> What the hardware answers to a port read is a function of the trace of executed
  instructions; addresses the linker chooses, the entry points of the assembly stubs, addresses of
  stack buffers and the contents of uninitialised locals are arguments. The hypotheses on them
  (\<open>pci_ports\<close>, \<open>delivers\<close>) state the documented behaviour of the configuration ports and of
  the keyboard controller.

  \<^bold>\<open>Not modelled.\<close> Assembly (\<^verbatim>\<open>boot.S\<close>, \<^verbatim>\<open>isr.S\<close>, \<^verbatim>\<open>syscall.S\<close>, \<^verbatim>\<open>gdt.S\<close>), whose results are
  hypotheses of the boot theorems, but for the vector numbers the stubs of \<^verbatim>\<open>isr.S\<close> push; log messages, which the logger drops; the operations of
  \<^verbatim>\<open>task_manager\<close>, which \<^verbatim>\<open>task/task.hpp\<close> declares and no file defines, and \<^verbatim>\<open>map_user_page\<close> and
  \<^verbatim>\<open>unmap_user_page\<close> of \<^verbatim>\<open>process_memory\<close>, likewise; the switch between processes, for which
  there is no code yet: \<open>Process_System\<close> lets any process make the next call, with its directory loaded
  by \<^verbatim>\<open>insn::set_page_directory\<close>; the use of one physical byte under two addresses of the kernel: frames and
  the kernel's own memory are taken to be apart (\<open>free_list_inside_free_frames\<close> exhibits a machine
  where they are not); floating point
  arguments of \<^verbatim>\<open>print\<close>, which no caller passes. Video memory is a device of its own: no string or table is
  assumed to lie in it. Interrupts do not nest. The kernel's page tables are read through the
  linear mapping, as the code does, without modelling faults of the tables' own addresses.
\<close>

end
